(* ===== verification/Go_Prelude.thy ===== *)
theory Go_Prelude
  imports Main "HOL-Library.Word" "HOL-Library.AList" "HOL-Library.Multiset"
begin

text \<open>
  What the component theories share: the machine integers and fixed-size byte arrays of
  the Go code as word types, the conversions between \<^verbatim>\<open>int64\<close> and \<^verbatim>\<open>uint64\<close>, Go's built-in maps
  (looked up as partial functions, iterated as association lists whose order stands for Go's
  unspecified iteration order) and the rewrite rules the component proofs lean on.
\<close>

section \<open>Machine integers\<close>

type_synonym u64 = "64 word"
type_synonym u32 = "32 word"
type_synonym hash = "256 word"     \<comment> \<open>common.Hash, 32 bytes\<close>
type_synonym address = "160 word"  \<comment> \<open>common.Address, 20 bytes\<close>

named_theorems go_defs "definitions unfolded together by the proofs of a component"
named_theorems go_inv "invariant preservation facts"

text \<open>
  An \<^verbatim>\<open>int64\<close> is an \<open>int\<close> between \<open>-2^63\<close> and \<open>2^63 - 1\<close>; arithmetic on it wraps by
  \<open>wrap64\<close>. \<open>to_i64\<close> and \<open>to_u64\<close> are Go's conversions \<^verbatim>\<open>int64(x)\<close> and \<^verbatim>\<open>uint64(x)\<close>.
\<close>

definition max_i64 :: int where "max_i64 = 9223372036854775807"

definition min_i64 :: int where "min_i64 = -9223372036854775808"

definition wrap64 :: "int \<Rightarrow> int" where "wrap64 i = sint (word_of_int i :: u64)"

definition to_i64 :: "u64 \<Rightarrow> int" where "to_i64 w = sint w"

definition to_u64 :: "int \<Rightarrow> u64" where "to_u64 i = word_of_int i"

definition is_i64 :: "int \<Rightarrow> bool" where
  "is_i64 i \<longleftrightarrow> min_i64 \<le> i \<and> i \<le> max_i64"

text \<open>A number that is the same read as \<^verbatim>\<open>int64\<close> and as \<^verbatim>\<open>uint64\<close>.\<close>

definition small64 :: "u64 \<Rightarrow> bool" where
  "small64 w \<longleftrightarrow> uint w \<le> max_i64"

lemma sint_id: "min_i64 \<le> i \<Longrightarrow> i \<le> max_i64 \<Longrightarrow> sint (word_of_int i :: u64) = i"
  by (simp add: int_word_sint min_i64_def max_i64_def)

lemma wrap64_id [simp]: "is_i64 i \<Longrightarrow> wrap64 i = i"
  by (simp add: wrap64_def is_i64_def sint_id)

lemma wrap64_range: "is_i64 (wrap64 i)"
  using sint_range_size [of "word_of_int i :: u64"]
  by (simp add: wrap64_def is_i64_def min_i64_def max_i64_def word_size)

lemma to_i64_range: "is_i64 (to_i64 w)"
  using sint_range_size [of w]
  by (simp add: to_i64_def is_i64_def min_i64_def max_i64_def word_size)

lemma to_i64_small: "small64 w \<Longrightarrow> to_i64 w = uint w"
  unfolding small64_def max_i64_def to_i64_def
  by (subst sint_uint) (simp add: signed_take_bit_int_eq_self_iff order_trans [of "- 9223372036854775808" 0])

lemma to_i64_u64 [simp]: "is_i64 i \<Longrightarrow> to_i64 (to_u64 i) = i"
  by (simp add: to_i64_def to_u64_def sint_id is_i64_def)

lemma to_u64_i64 [simp]: "to_u64 (to_i64 w) = w"
  by (simp add: to_i64_def to_u64_def)

lemma small64_u64: "0 \<le> i \<Longrightarrow> i \<le> max_i64 \<Longrightarrow> small64 (to_u64 i)"
  by (simp add: small64_def to_u64_def max_i64_def uint_word_of_int take_bit_int_eq_self)

lemma to_i64_le_iff: "small64 a \<Longrightarrow> small64 b \<Longrightarrow> to_i64 a \<le> to_i64 b \<longleftrightarrow> a \<le> b"
  by (simp add: to_i64_small word_le_def)

lemma to_i64_less_iff: "small64 a \<Longrightarrow> small64 b \<Longrightarrow> to_i64 a < to_i64 b \<longleftrightarrow> a < b"
  by (simp add: to_i64_small word_less_def)

lemma to_i64_eq_iff [simp]: "to_i64 a = to_i64 b \<longleftrightarrow> a = b"
  by (metis to_u64_i64)

lemma small64_nonneg: "small64 w \<Longrightarrow> 0 \<le> to_i64 w"
  by (simp add: to_i64_small)

section \<open>Go maps and sets\<close>

text \<open>
  Reading a missing key of a Go map gives the zero value; for maps and sets that is the
  empty one (a nil map reads as empty).
\<close>

definition get_or :: "'v \<Rightarrow> ('k \<rightharpoonup> 'v) \<Rightarrow> 'k \<Rightarrow> 'v" where
  "get_or d m k = (case m k of None \<Rightarrow> d | Some v \<Rightarrow> v)"

definition set_add :: "'a \<Rightarrow> 'a list \<Rightarrow> 'a list" where
  "set_add x xs = (if x \<in> set xs then xs else xs @ [x])"

lemma get_or_None [simp]: "m k = None \<Longrightarrow> get_or d m k = d"
  by (simp add: get_or_def)

lemma get_or_Some [simp]: "m k = Some v \<Longrightarrow> get_or d m k = v"
  by (simp add: get_or_def)

lemma in_get_or: "x \<in> set (get_or [] m k) \<longleftrightarrow> (\<exists>xs. m k = Some xs \<and> x \<in> set xs)"
  by (cases "m k") simp_all

lemma set_set_add [simp]: "set (set_add x xs) = insert x (set xs)"
  by (auto simp: set_add_def)

lemma distinct_set_add [simp]: "distinct (set_add x xs) = distinct xs"
  by (auto simp: set_add_def)

lemma map_of_update [simp]: "map_of (AList.update k v al) = (map_of al)(k \<mapsto> v)"
  by (rule AList.update_conv')

lemma map_of_delete [simp]: "map_of (AList.delete k al) = (map_of al)(k := None)"
  by (rule AList.delete_conv')

lemma distinct_keys_update [simp]:
  "distinct (map fst (AList.update k v al)) = distinct (map fst al)"
  by (induction al) (auto simp: dom_update image_iff)

lemma distinct_keys_delete:
  "distinct (map fst al) \<Longrightarrow> distinct (map fst (AList.delete k al))"
  by (simp add: AList.distinct_delete)

lemma in_set_map_of: "distinct (map fst al) \<Longrightarrow> (k, v) \<in> set al \<longleftrightarrow> map_of al k = Some v"
  by (meson map_of_SomeD map_of_is_SomeI)

lemma fst_set_map_of: "k \<in> fst ` set al \<longleftrightarrow> map_of al k \<noteq> None"
  by (simp add: map_of_eq_None_iff)

section \<open>Searching a slice\<close>

lemma find_SomeD: "find P xs = Some x \<Longrightarrow> x \<in> set xs \<and> P x"
  by (induction xs) (auto split: if_splits)

lemma find_None: "find P xs = None \<longleftrightarrow> (\<forall>x \<in> set xs. \<not> P x)"
  by (induction xs) auto

lemma find_ex: "x \<in> set xs \<Longrightarrow> P x \<Longrightarrow> \<exists>y. find P xs = Some y"
  by (cases "find P xs") (auto simp: find_None)

lemma find_append: "find P (xs @ ys) = (case find P xs of None \<Rightarrow> find P ys | Some x \<Rightarrow> Some x)"
  by (induction xs) auto

end
