(* ===== verification/Gas_Bump.thy ===== *)
theory Gas_Bump
  imports Go_Prelude
begin

text \<open>
  Prices in Wei and the price arithmetic every gas estimator shares
  (\<^verbatim>\<open>core/assets/wei.go\<close>, \<^verbatim>\<open>core/utils/big_math\<close>, \<^verbatim>\<open>core/chains/evm/gas/models.go\<close> and
  \<^verbatim>\<open>fixed_price_estimator.go\<close>): capping a price, bumping a legacy gas price, bumping the
  two caps of an EIP-1559 fee, and the fee cap that leaves room for base fee increases.

  A Wei amount is a \<^verbatim>\<open>*big.Int\<close>, an unbounded integer; where the code handles or dereferences a
  pointer that may be nil it is an option, and dereferencing \<open>None\<close> is the error
  \<open>NilDereference\<close> (a panic). Percentages are \<^verbatim>\<open>uint16\<close> and their arithmetic wraps.
\<close>

section \<open>Wei\<close>

type_synonym wei = int

datatype gas_error =
    ErrBumpGasExceedsLimit
  | ErrBump
  | ErrConnectivity
  | ErrNoSuitableTransactions
  | ErrBroadcastBeforeBlockNumNil
  | ErrUnknownTxType
  | ErrNotStarted
  | ErrNoInitialFetch
  | ErrNoBaseFee
  | ErrEIP1559Disabled
  | ErrTipCapDefaultNil
  | ErrFetch
  | ErrHistorySize
  | ErrHeightBelowDelay
  | ErrResultType
  | ErrNilBlock
  | NilDereference
  | IndexOutOfRange

definition bigmath_Max :: "int \<Rightarrow> int \<Rightarrow> int" where
  "bigmath_Max x y = (if x > y then x else y)"

definition bigmath_Min :: "int \<Rightarrow> int \<Rightarrow> int" where
  "bigmath_Min x y = (if x < y then x else y)"

definition MaxWei :: "wei \<Rightarrow> wei \<Rightarrow> wei" where "MaxWei w x = bigmath_Max w x"
definition WeiMax :: "wei \<Rightarrow> wei \<Rightarrow> wei" where "WeiMax x y = bigmath_Max x y"
definition WeiMin :: "wei \<Rightarrow> wei \<Rightarrow> wei" where "WeiMin x y = bigmath_Min x y"

text \<open>\<^verbatim>\<open>100+percentage\<close> is computed in \<^verbatim>\<open>uint16\<close>; \<^verbatim>\<open>big.Int.Div\<close> by a positive number rounds down.\<close>

definition AddPercentage :: "wei \<Rightarrow> 16 word \<Rightarrow> wei" where
  "AddPercentage w percentage = (w * uint (100 + percentage)) div 100"

lemma wei_minmax [simp]:
  "bigmath_Max x y = max x y" "bigmath_Min x y = min x y"
  "MaxWei x y = max x y" "WeiMax x y = max x y" "WeiMin x y = min x y"
  by (simp_all add: bigmath_Max_def bigmath_Min_def MaxWei_def WeiMax_def WeiMin_def)

lemma AddPercentage_eq:
  assumes "uint p < 65436"
  shows "AddPercentage w p = w + (w * uint p) div 100"
proof -
  have "uint (100 + p) = 100 + uint p"
    using assms by (simp add: uint_word_ariths)
  then have "w * uint (100 + p) = w * uint p + w * 100" by (simp add: algebra_simps)
  then show ?thesis unfolding AddPercentage_def by (simp add: div_mult_self1)
qed

lemma AddPercentage_ge: "uint p < 65436 \<Longrightarrow> 0 \<le> w \<Longrightarrow> w \<le> AddPercentage w p"
  by (simp add: AddPercentage_eq pos_imp_zdiv_nonneg_iff)

section \<open>Configuration and fees\<close>

text \<open>
  The gas limit multiplier is a \<^verbatim>\<open>float32\<close> that the code turns into a decimal number,
  \<open>dec_coef / 10 ^ dec_scale\<close>; the product with the limit is exact and its integer part is
  truncated to 32 bits.
\<close>

record decimal =
  dec_coef :: int
  dec_scale :: nat

text \<open>The fields have the names of the configuration's methods, without the prefix \<^verbatim>\<open>BlockHistoryEstimator\<close>.\<close>

record gas_config =
  EvmMaxGasPriceWei :: wei
  EvmMinGasPriceWei :: wei
  EvmGasBumpPercent :: "16 word"
  EvmGasBumpWei :: wei
  EvmGasBumpThreshold :: u64
  EvmGasFeeCapDefault :: wei
  EvmGasPriceDefault :: wei
  EvmGasTipCapDefault :: "wei option"
  EvmGasTipCapMinimum :: wei
  EvmGasLimitMultiplier :: decimal
  EvmEIP1559DynamicFees :: bool
  EIP1559FeeCapBufferBlocks :: "16 word"
  ChainIsXDai :: bool
  EvmGasLimitMax :: u32
  BatchSize :: u32
  BlockDelay :: "16 word"
  BlockHistorySize :: "16 word"
  CheckInclusionPercentile :: "16 word"
  CheckInclusionBlocks :: "16 word"
  TransactionPercentile :: "16 word"

record dynamic_fee =
  FeeCap :: "wei option"
  TipCap :: "wei option"

definition trunc_div :: "int \<Rightarrow> int \<Rightarrow> int" where
  "trunc_div a b = sgn a * sgn b * (\<bar>a\<bar> div \<bar>b\<bar>)"

definition applyMultiplier :: "u32 \<Rightarrow> decimal \<Rightarrow> u32" where
  "applyMultiplier gasLimit m = word_of_int (trunc_div (uint gasLimit * dec_coef m) (10 ^ dec_scale m))"

definition getMaxGasPrice :: "wei \<Rightarrow> gas_config \<Rightarrow> wei" where
  "getMaxGasPrice userMax cfg = WeiMin (EvmMaxGasPriceWei cfg) userMax"

definition capGasPrice :: "wei \<Rightarrow> wei \<Rightarrow> gas_config \<Rightarrow> wei" where
  "capGasPrice price userMax cfg = WeiMin price (getMaxGasPrice userMax cfg)"

section \<open>Bumping a legacy gas price\<close>

definition bumpGasPrice :: "gas_config \<Rightarrow> wei option \<Rightarrow> wei \<Rightarrow> wei \<Rightarrow> gas_error + wei" where
  "bumpGasPrice cfg current original userMax =
    (let maxGasPrice = getMaxGasPrice userMax cfg;
         bumped = MaxWei (AddPercentage original (EvmGasBumpPercent cfg)) (original + EvmGasBumpWei cfg);
         bumped' = (case current of
             None \<Rightarrow> bumped
           | Some c \<Rightarrow> if c > maxGasPrice then bumped else if bumped < c then c else bumped)
     in if bumped' > maxGasPrice then Inl ErrBumpGasExceedsLimit
        else if bumped' = original then Inl ErrBump
        else Inr bumped')"

definition BumpLegacyGasPriceOnly :: "gas_config \<Rightarrow> wei option \<Rightarrow> wei \<Rightarrow> u32 \<Rightarrow> wei \<Rightarrow> gas_error + wei \<times> u32" where
  "BumpLegacyGasPriceOnly cfg current original gasLimit userMax =
    (case bumpGasPrice cfg current original userMax of
       Inl e \<Rightarrow> Inl e
     | Inr p \<Rightarrow> Inr (p, applyMultiplier gasLimit (EvmGasLimitMultiplier cfg)))"

section \<open>The fee cap with room for base fee increases\<close>

text \<open>
  \<^verbatim>\<open>calcFeeCap\<close> multiplies the base fee by 1.125 once per buffer block in \<^verbatim>\<open>big.Float\<close>, with the
  precision of the base fee (at least 64 bits) and rounding to the nearest even mantissa after
  every multiplication. A float is a mantissa and an exponent of two.
\<close>

fun bits :: "nat \<Rightarrow> nat" where
  "bits n = (if n = 0 then 0 else Suc (bits (n div 2)))"

declare bits.simps [simp del]

definition bit_length :: "int \<Rightarrow> nat" where
  "bit_length i = bits (nat \<bar>i\<bar>)"

lemma bits_0 [simp]: "bits 0 = 0" "bit_length 0 = 0"
  by (simp_all add: bit_length_def bits.simps)

definition round_even :: "int \<Rightarrow> nat \<Rightarrow> int" where
  "round_even a s = (if s = 0 then a
     else let q = a div 2 ^ s; r = a mod 2 ^ s; half = 2 ^ (s - 1)
          in if r > half \<or> (r = half \<and> odd q) then q + 1 else q)"

definition big_float_round :: "nat \<Rightarrow> int \<times> int \<Rightarrow> int \<times> int" where
  "big_float_round prec f = (case f of (m, e) \<Rightarrow>
     let s = bit_length m - prec in (sgn m * round_even \<bar>m\<bar> s, e + int s))"

text \<open>1.125 is 9 * 2^-3 exactly.\<close>

fun mul_base_fee :: "nat \<Rightarrow> nat \<Rightarrow> int \<times> int \<Rightarrow> int \<times> int" where
  "mul_base_fee prec 0 f = f"
| "mul_base_fee prec (Suc n) (m, e) = mul_base_fee prec n (big_float_round prec (m * 9, e - 3))"

text \<open>\<^verbatim>\<open>big.Float.Int\<close> truncates towards zero.\<close>

definition big_float_Int :: "int \<times> int \<Rightarrow> int" where
  "big_float_Int f = (case f of (m, e) \<Rightarrow> if e \<ge> 0 then m * 2 ^ nat e else trunc_div m (2 ^ nat (- e)))"

definition calcFeeCap :: "wei \<Rightarrow> gas_config \<Rightarrow> wei \<Rightarrow> wei \<Rightarrow> wei" where
  "calcFeeCap baseFee cfg tipCap maxGasPrice =
    (let bufferBlocks = unat (EIP1559FeeCapBufferBlocks cfg);
         prec = max (bit_length baseFee) 64;
         baseFeeInt = big_float_Int (mul_base_fee prec bufferBlocks (baseFee, 0));
         feeCap = baseFeeInt + tipCap
     in if feeCap > maxGasPrice then maxGasPrice else feeCap)"

section \<open>Bumping an EIP-1559 fee\<close>

definition bumpTipCap :: "gas_config \<Rightarrow> wei option \<Rightarrow> wei \<Rightarrow> wei \<Rightarrow> wei" where
  "bumpTipCap cfg currentTipCap baseline maxGasPrice =
    (let bumped = MaxWei (AddPercentage baseline (EvmGasBumpPercent cfg)) (baseline + EvmGasBumpWei cfg)
     in case currentTipCap of
          None \<Rightarrow> bumped
        | Some c \<Rightarrow> if c > maxGasPrice then bumped else if bumped < c then c else bumped)"

definition bumpFeeCap :: "gas_config \<Rightarrow> wei option \<Rightarrow> wei \<Rightarrow> wei \<Rightarrow> wei \<Rightarrow> wei" where
  "bumpFeeCap cfg currentBaseFee originalFeeCap bumpedTipCap maxGasPrice =
    (let bumped = MaxWei (AddPercentage originalFeeCap (EvmGasBumpPercent cfg)) (originalFeeCap + EvmGasBumpWei cfg)
     in case currentBaseFee of
          None \<Rightarrow> bumped
        | Some b \<Rightarrow> if b > maxGasPrice then bumped
                   else WeiMax bumped (calcFeeCap b cfg bumpedTipCap maxGasPrice))"

definition bumpDynamicFee :: "gas_config \<Rightarrow> wei option \<Rightarrow> wei option \<Rightarrow> dynamic_fee \<Rightarrow> wei \<Rightarrow> gas_error + dynamic_fee" where
  "bumpDynamicFee cfg currentTipCap currentBaseFee originalFee userMax =
    (case (TipCap originalFee, EvmGasTipCapDefault cfg) of
       (Some originalTip, Some tipDefault) \<Rightarrow>
         (let maxGasPrice = getMaxGasPrice userMax cfg;
              bumpedTip = bumpTipCap cfg currentTipCap (MaxWei originalTip tipDefault) maxGasPrice
          in if bumpedTip > maxGasPrice then Inl ErrBumpGasExceedsLimit
             else if bumpedTip \<le> originalTip then Inl ErrBump
             else (case FeeCap originalFee of
                 None \<Rightarrow> Inl NilDereference
               | Some originalFeeCap \<Rightarrow>
                   (let bumpedFee = bumpFeeCap cfg currentBaseFee originalFeeCap bumpedTip maxGasPrice
                    in if bumpedFee > maxGasPrice then Inl ErrBumpGasExceedsLimit
                       else Inr \<lparr>FeeCap = Some bumpedFee, TipCap = Some bumpedTip\<rparr>)))
     | _ \<Rightarrow> Inl NilDereference)"

definition BumpDynamicFeeOnly :: "gas_config \<Rightarrow> wei option \<Rightarrow> wei option \<Rightarrow> dynamic_fee \<Rightarrow> u32 \<Rightarrow> wei \<Rightarrow>
    gas_error + dynamic_fee \<times> u32" where
  "BumpDynamicFeeOnly cfg currentTipCap currentBaseFee originalFee gasLimit userMax =
    (case bumpDynamicFee cfg currentTipCap currentBaseFee originalFee userMax of
       Inl e \<Rightarrow> Inl e
     | Inr fee \<Rightarrow> Inr (fee, applyMultiplier gasLimit (EvmGasLimitMultiplier cfg)))"

section \<open>The fixed price estimator\<close>

definition fixed_GetLegacyGas :: "gas_config \<Rightarrow> u32 \<Rightarrow> wei \<Rightarrow> wei \<times> u32" where
  "fixed_GetLegacyGas cfg gasLimit userMax =
    (capGasPrice (EvmGasPriceDefault cfg) userMax cfg, applyMultiplier gasLimit (EvmGasLimitMultiplier cfg))"

definition fixed_BumpLegacyGas :: "gas_config \<Rightarrow> wei \<Rightarrow> u32 \<Rightarrow> wei \<Rightarrow> gas_error + wei \<times> u32" where
  "fixed_BumpLegacyGas cfg original gasLimit userMax =
    BumpLegacyGasPriceOnly cfg (Some (EvmGasPriceDefault cfg)) original gasLimit userMax"

definition fixed_GetDynamicFee :: "gas_config \<Rightarrow> u32 \<Rightarrow> wei \<Rightarrow> gas_error + dynamic_fee \<times> u32" where
  "fixed_GetDynamicFee cfg gasLimit userMax =
    (case EvmGasTipCapDefault cfg of
       None \<Rightarrow> Inl ErrTipCapDefaultNil
     | Some tip \<Rightarrow>
         (let feeCap = (if EvmGasBumpThreshold cfg = 0 then getMaxGasPrice userMax cfg else EvmGasFeeCapDefault cfg)
          in Inr (\<lparr>FeeCap = Some feeCap, TipCap = Some tip\<rparr>, applyMultiplier gasLimit (EvmGasLimitMultiplier cfg))))"

definition fixed_BumpDynamicFee :: "gas_config \<Rightarrow> dynamic_fee \<Rightarrow> u32 \<Rightarrow> wei \<Rightarrow> gas_error + dynamic_fee \<times> u32" where
  "fixed_BumpDynamicFee cfg originalFee gasLimit userMax =
    BumpDynamicFeeOnly cfg (EvmGasTipCapDefault cfg) None originalFee gasLimit userMax"

section \<open>Facts about the float arithmetic\<close>

lemma bits_bounds: "n < 2 ^ bits n \<and> (0 < n \<longrightarrow> 2 ^ bits n \<le> 2 * n)"
proof (induction n rule: bits.induct)
  case (1 n)
  show ?case
  proof (cases "n = 0")
    case True
    then show ?thesis by (simp add: bits.simps)
  next
    case False
    with 1 have "n div 2 < 2 ^ bits (n div 2)" and "0 < n div 2 \<longrightarrow> 2 ^ bits (n div 2) \<le> 2 * (n div 2)" by simp_all
    moreover have "bits n = Suc (bits (n div 2))" using False by (subst bits.simps) simp
    ultimately show ?thesis using False by (cases "n div 2 = 0") auto
  qed
qed

lemma bits_le: "n < 2 ^ k \<Longrightarrow> bits n \<le> k"
proof (rule ccontr)
  assume "n < 2 ^ k" and "\<not> bits n \<le> k"
  then have "0 < n" by (cases "n = 0") simp_all
  with bits_bounds [of n] have "2 ^ bits n \<le> 2 * n" by simp
  moreover from \<open>\<not> bits n \<le> k\<close> have "(2::nat) * 2 ^ k \<le> 2 ^ bits n"
    by (metis Suc_leI not_le one_le_numeral power_Suc power_increasing)
  ultimately show False using \<open>n < 2 ^ k\<close> by simp
qed

lemma round_even_0 [simp]: "round_even 0 s = 0" "round_even a 0 = a"
  by (simp_all add: round_even_def Let_def)

lemma round_even_ge: "a - 2 ^ s \<le> 2 * (round_even a s * 2 ^ s) - a"
proof (cases "s = 0")
  case False
  define q r where "q = a div 2 ^ s" and "r = a mod 2 ^ s"
  have a: "a = q * 2 ^ s + r" unfolding q_def r_def by (rule div_mult_mod_eq [symmetric])
  have r: "0 \<le> r" "r < 2 ^ s" by (simp_all add: r_def)
  have half: "2 * 2 ^ (s - 1) = (2::int) ^ s" using False by (cases s) simp_all
  have "round_even a s = (if r > 2 ^ (s - 1) \<or> (r = 2 ^ (s - 1) \<and> odd q) then q + 1 else q)"
    using False by (simp add: round_even_def q_def r_def Let_def)
  then show ?thesis using r half by (auto simp: a algebra_simps)
qed (simp add: round_even_def)

text \<open>The value of a float is at least \<open>b\<close>.\<close>

definition float_ge :: "int \<times> int \<Rightarrow> int \<Rightarrow> bool" where
  "float_ge f b \<longleftrightarrow> (\<forall>K. 0 \<le> snd f + int K \<longrightarrow> b * 2 ^ K \<le> fst f * 2 ^ nat (snd f + int K))"

lemma float_ge_Int: "float_ge (m, e) b \<Longrightarrow> 0 \<le> m \<Longrightarrow> b \<le> big_float_Int (m, e)"
proof (cases "0 \<le> e")
  case True
  then show "float_ge (m, e) b \<Longrightarrow> ?thesis" by (auto simp: float_ge_def big_float_Int_def dest: spec [of _ 0])
next
  case False
  assume ge: "float_ge (m, e) b" and m: "0 \<le> m"
  have "b * 2 ^ nat (- e) \<le> m" using ge [unfolded float_ge_def, rule_format, of "nat (- e)"] False by simp
  then have "(b * 2 ^ nat (- e)) div 2 ^ nat (- e) \<le> m div 2 ^ nat (- e)" by (rule zdiv_mono1) simp
  then have "b \<le> m div 2 ^ nat (- e)" by simp
  with m show ?thesis by (cases "m = 0") (simp_all add: big_float_Int_def False trunc_div_def)
qed

lemma round_step:
  assumes "0 \<le> m" and "64 \<le> prec"
  shows "8 * m \<le> round_even (m * 9) (bit_length (m * 9) - prec) * 2 ^ (bit_length (m * 9) - prec)"
proof (cases "bit_length (m * 9) \<le> prec")
  case True
  with assms(1) show ?thesis by (simp add: round_even_def)
next
  case False
  define s where "s = bit_length (m * 9) - prec"
  have "0 < m" using False assms(1) by (cases "m = 0") simp_all
  then have "(2::nat) ^ bits (nat (m * 9)) \<le> 2 * nat (m * 9)" using bits_bounds [of "nat (m * 9)"] by simp
  moreover have "bits (nat (m * 9)) = s + prec" using False \<open>0 < m\<close> by (simp add: s_def bit_length_def)
  ultimately have "int (2 ^ (s + prec)) \<le> int (2 * nat (m * 9))" by (metis of_nat_le_iff)
  then have "2 ^ s * 2 ^ prec \<le> 2 * (m * 9)" using \<open>0 < m\<close> by (simp add: power_add)
  moreover have "(2::int) ^ s * 2 ^ 64 \<le> 2 ^ s * 2 ^ prec"
    using assms(2) by (intro mult_left_mono power_increasing) simp_all
  ultimately have "2 ^ s * 2 ^ 64 \<le> 2 * (m * 9)" by linarith
  then have "2 ^ s \<le> 2 * m" using \<open>0 < m\<close> by simp
  with round_even_ge [of "m * 9" s] show ?thesis unfolding s_def [symmetric] by simp
qed

lemma float_ge_step:
  assumes "float_ge (m, e) b" and "0 \<le> m" and "64 \<le> prec"
  shows "float_ge (big_float_round prec (m * 9, e - 3)) b"
proof -
  define s where "s = bit_length (m * 9) - prec"
  define m' where "m' = round_even (m * 9) s"
  have m': "8 * m \<le> m' * 2 ^ s" using round_step [OF assms(2,3)] by (simp add: m'_def s_def)
  have eq: "big_float_round prec (m * 9, e - 3) = (m', e - 3 + int s)"
    using assms(2) by (cases "m = 0") (simp_all add: big_float_round_def m'_def s_def Let_def)
  show ?thesis
    unfolding eq float_ge_def
  proof (intro allI impI)
    fix K assume K: "0 \<le> snd (m', e - 3 + int s) + int K"
    define X where "X = nat (e - 3 + int s + int K)"
    have "nat (e + int (K + s)) = X + 3" and "0 \<le> e + int (K + s)" using K by (auto simp: X_def)
    with assms(1) have "b * 2 ^ (K + s) \<le> m * 2 ^ (X + 3)" by (auto simp: float_ge_def dest: spec [of _ "K + s"])
    also have "\<dots> = (8 * m) * 2 ^ X" by (simp add: power_add)
    also have "\<dots> \<le> (m' * 2 ^ s) * 2 ^ X" using m' by (simp add: mult_right_mono)
    finally have "(b * 2 ^ K) * 2 ^ s \<le> (m' * 2 ^ X) * 2 ^ s" by (simp add: power_add algebra_simps)
    then show "b * 2 ^ K \<le> fst (m', e - 3 + int s) * 2 ^ nat (snd (m', e - 3 + int s) + int K)"
      by (simp add: X_def add.assoc)
  qed
qed

lemma round_nonneg: "0 \<le> m \<Longrightarrow> 0 \<le> fst (big_float_round prec (m, e))"
  by (cases "m = 0") (auto simp: big_float_round_def Let_def round_even_def pos_imp_zdiv_nonneg_iff)

lemma float_ge_mul:
  "float_ge (m, e) b \<Longrightarrow> 0 \<le> m \<Longrightarrow> 64 \<le> prec \<Longrightarrow>
   float_ge (mul_base_fee prec n (m, e)) b \<and> 0 \<le> fst (mul_base_fee prec n (m, e))"
proof (induction prec n "(m, e)" arbitrary: m e rule: mul_base_fee.induct)
  case (2 prec n m e)
  obtain m' e' where r: "big_float_round prec (m * 9, e - 3) = (m', e')" by fastforce
  have "float_ge (m', e') b" using float_ge_step [OF 2(2-4)] by (simp add: r)
  moreover have "0 \<le> m'" using round_nonneg [of "m * 9" prec "e - 3"] 2(3) by (simp add: r)
  ultimately show ?case using 2(1) [OF r] 2(4) r by simp
qed simp

lemma mul_base_fee_exact:
  "0 \<le> m \<Longrightarrow> m * 9 ^ n < 2 ^ prec \<Longrightarrow> mul_base_fee prec n (m, e) = (m * 9 ^ n, e - 3 * int n)"
proof (induction n arbitrary: m e)
  case (Suc n)
  have "m * 9 * 1 \<le> m * 9 * 9 ^ n" using Suc.prems(1) by (intro mult_left_mono) simp_all
  with Suc.prems have lt: "m * 9 < 2 ^ prec" by simp
  then have "nat (m * 9) < 2 ^ prec" using Suc.prems(1) by (simp add: nat_less_iff)
  then have "bit_length (m * 9) \<le> prec" using Suc.prems(1) bits_le by (simp add: bit_length_def)
  then have "big_float_round prec (m * 9, e - 3) = (m * 9, e - 3)"
    using Suc.prems(1) by (cases "m = 0") (simp_all add: big_float_round_def round_even_def)
  with Suc.IH [of "m * 9" "e - 3"] Suc.prems show ?case by (simp add: algebra_simps)
qed simp

lemma big_float_Int_eighths: "0 \<le> x \<Longrightarrow> big_float_Int (x, - 3 * int n) = x div 8 ^ n"
proof (cases n)
  case (Suc k)
  have "(2::int) ^ nat (3 * int n) = 8 ^ n" by (simp add: nat_mult_distrib power_mult)
  then show "0 \<le> x \<Longrightarrow> ?thesis" using Suc by (cases "x = 0") (simp_all add: big_float_Int_def trunc_div_def add.commute)
qed (simp add: big_float_Int_def)

lemma calcFeeCap_exact:
  assumes "0 \<le> baseFee" and "baseFee * 9 ^ unat (EIP1559FeeCapBufferBlocks cfg) < 2 ^ 64"
  shows "calcFeeCap baseFee cfg tipCap mx =
    min mx ((baseFee * 9 ^ unat (EIP1559FeeCapBufferBlocks cfg)) div 8 ^ unat (EIP1559FeeCapBufferBlocks cfg) + tipCap)"
proof -
  let ?n = "unat (EIP1559FeeCapBufferBlocks cfg)"
  define prec where "prec = max (bit_length baseFee) 64"
  have "(2::int) ^ 64 \<le> 2 ^ prec" unfolding prec_def by (intro power_increasing) simp_all
  with assms(2) have "mul_base_fee prec ?n (baseFee, 0) = (baseFee * 9 ^ ?n, - 3 * int ?n)"
    using mul_base_fee_exact [OF assms(1), of ?n prec 0] by simp
  moreover have "big_float_Int (baseFee * 9 ^ ?n, - 3 * int ?n) = (baseFee * 9 ^ ?n) div 8 ^ ?n"
    using assms by (intro big_float_Int_eighths) simp
  ultimately show ?thesis by (simp add: calcFeeCap_def Let_def prec_def min_def)
qed

lemma calcFeeCap_lower:
  assumes "0 \<le> baseFee"
  shows "min maxGasPrice (baseFee + tipCap) \<le> calcFeeCap baseFee cfg tipCap maxGasPrice"
proof -
  let ?f = "mul_base_fee (max (bit_length baseFee) 64) (unat (EIP1559FeeCapBufferBlocks cfg)) (baseFee, 0)"
  have "float_ge (baseFee, 0) baseFee" by (simp add: float_ge_def)
  from float_ge_mul [OF this assms, of "max (bit_length baseFee) 64" "unat (EIP1559FeeCapBufferBlocks cfg)"]
  have "baseFee \<le> big_float_Int ?f" by (cases ?f) (auto intro: float_ge_Int)
  then show ?thesis by (auto simp: calcFeeCap_def Let_def)
qed

lemma calcFeeCap_upper: "calcFeeCap baseFee cfg tipCap maxGasPrice \<le> maxGasPrice"
  by (simp add: calcFeeCap_def Let_def)

section \<open>Properties\<close>

text \<open>The configuration of the examples: 20 percent bumps of at least 5, prices up to 1000.\<close>

definition cfg0 :: gas_config where
  "cfg0 = \<lparr>EvmMaxGasPriceWei = 1000, EvmMinGasPriceWei = 1, EvmGasBumpPercent = 20, EvmGasBumpWei = 5,
     EvmGasBumpThreshold = 3, EvmGasFeeCapDefault = 100, EvmGasPriceDefault = 20, EvmGasTipCapDefault = Some 1,
     EvmGasTipCapMinimum = 1, EvmGasLimitMultiplier = \<lparr>dec_coef = 11, dec_scale = 1\<rparr>,
     EvmEIP1559DynamicFees = True, EIP1559FeeCapBufferBlocks = 2, ChainIsXDai = False,
     EvmGasLimitMax = 500000, BatchSize = 2, BlockDelay = 0, BlockHistorySize = 2, CheckInclusionPercentile = 90,
     CheckInclusionBlocks = 2, TransactionPercentile = 60\<rparr>"

text \<open>A legacy bump either raises the price, by at least the configured percentage and at least the
  configured amount, never past the configured or the caller's maximum, and not below a current
  estimate that respects the maximum; or it reports that the maximum would be exceeded, which it
  does only when every candidate price is at most the rejected one, or that the price would not
  change.\<close>
theorem bumpGasPrice_correct:
  assumes "0 \<le> original" and "uint (EvmGasBumpPercent cfg) < 65436"
  shows "case bumpGasPrice cfg current original userMax of
      Inr p \<Rightarrow> original \<noteq> p \<and> original + (original * uint (EvmGasBumpPercent cfg)) div 100 \<le> p \<and>
        original < p \<and> original + EvmGasBumpWei cfg \<le> p \<and> p \<le> EvmMaxGasPriceWei cfg \<and> p \<le> userMax \<and>
        (\<forall>c. current = Some c \<longrightarrow> c \<le> min (EvmMaxGasPriceWei cfg) userMax \<longrightarrow> c \<le> p)
    | Inl e \<Rightarrow> (e = ErrBumpGasExceedsLimit \<and>
          min (EvmMaxGasPriceWei cfg) userMax < max (AddPercentage original (EvmGasBumpPercent cfg)) (original + EvmGasBumpWei cfg))
        \<or> (e = ErrBump \<and> (original * uint (EvmGasBumpPercent cfg)) div 100 = 0 \<and> EvmGasBumpWei cfg \<le> 0)"
proof -
  define d where "d = original * uint (EvmGasBumpPercent cfg) div 100"
  define mx where "mx = min (EvmMaxGasPriceWei cfg) userMax"
  define b where "b = max (AddPercentage original (EvmGasBumpPercent cfg)) (original + EvmGasBumpWei cfg)"
  have d: "0 \<le> d" using assms(1) by (simp add: d_def pos_imp_zdiv_nonneg_iff)
  have b: "original + d \<le> b" "original + EvmGasBumpWei cfg \<le> b"
    by (simp_all add: b_def AddPercentage_eq [OF assms(2)] d_def [symmetric])
  have mx: "mx \<le> EvmMaxGasPriceWei cfg" "mx \<le> userMax" by (simp_all add: mx_def)
  have eq: "bumpGasPrice cfg current original userMax =
      (let p = (case current of None \<Rightarrow> b | Some c \<Rightarrow> if c > mx then b else if b < c then c else b)
       in if p > mx then Inl ErrBumpGasExceedsLimit else if p = original then Inl ErrBump else Inr p)"
    by (simp add: bumpGasPrice_def Let_def getMaxGasPrice_def b_def mx_def cong: option.case_cong if_cong)
  show ?thesis
    unfolding eq d_def [symmetric] mx_def [symmetric] b_def [symmetric]
    using d b mx by (cases current) (simp_all add: Let_def; linarith)+
qed

theorem bumpGasPrice_correct_witness:
  "bumpGasPrice cfg0 (Some 40) 50 800 = Inr 60 \<and> (50::int) < 60"
  using bumpGasPrice_correct [of 50 cfg0 800 "Some 40"]
  by (simp add: cfg0_def bumpGasPrice_def getMaxGasPrice_def AddPercentage_def Let_def)

lemma bumpFeeCap_ge:
  "AddPercentage orig (EvmGasBumpPercent cfg) \<le> bumpFeeCap cfg base orig tip mx"
  "orig + EvmGasBumpWei cfg \<le> bumpFeeCap cfg base orig tip mx"
  by (auto simp: bumpFeeCap_def Let_def split: option.split)

lemma bumpDynamicFee_FeeCap:
  assumes "bumpDynamicFee cfg ct bf orig um = Inr fee"
  obtains cap0 where "FeeCap orig = Some cap0"
  using assms by (cases "FeeCap orig") (auto simp: bumpDynamicFee_def Let_def split: option.splits if_splits)

lemma bumpDynamicFee_Inr:
  assumes "bumpDynamicFee cfg ct bf orig um = Inr fee"
    and "TipCap orig = Some tip0" and "EvmGasTipCapDefault cfg = Some tipd" and "FeeCap orig = Some cap0"
  shows "\<exists>tip. fee = \<lparr>FeeCap = Some (bumpFeeCap cfg bf cap0 tip (getMaxGasPrice um cfg)), TipCap = Some tip\<rparr> \<and>
    tip \<le> getMaxGasPrice um cfg \<and> bumpFeeCap cfg bf cap0 tip (getMaxGasPrice um cfg) \<le> getMaxGasPrice um cfg \<and>
    tip0 < tip \<and> max tip0 tipd + EvmGasBumpWei cfg \<le> tip"
proof -
  define tip where "tip = bumpTipCap cfg ct (max tip0 tipd) (getMaxGasPrice um cfg)"
  have "max tip0 tipd + EvmGasBumpWei cfg \<le> tip"
    by (auto simp: tip_def bumpTipCap_def Let_def split: option.split)
  then show ?thesis
    using assms by (intro exI [of _ tip]) (simp add: bumpDynamicFee_def Let_def tip_def [symmetric] split: if_splits)
qed

lemma bumpFeeCap_base:
  "0 \<le> b \<Longrightarrow> b \<le> mx \<Longrightarrow> min mx (b + tip) \<le> bumpFeeCap cfg (Some b) orig tip mx"
  using calcFeeCap_lower [of b mx tip cfg] by (auto simp: bumpFeeCap_def Let_def)

text \<open>C13: A bumped EIP-1559 fee raises the tip cap strictly, to at least the default tip cap plus the
  bump, raises the fee cap by at least the configured percentage and amount (what a node needs
  to replace the pending transaction), and keeps both within the configured and the caller's
  maximum.\<close>
theorem bumpDynamicFee_correct:
  assumes "bumpDynamicFee cfg currentTip baseFee originalFee userMax = Inr fee"
    and "0 \<le> EvmGasBumpWei cfg"
  shows "\<exists>tip0 cap0 tipd tip cap. originalFee = \<lparr>FeeCap = Some cap0, TipCap = Some tip0\<rparr> \<and>
    EvmGasTipCapDefault cfg = Some tipd \<and> fee = \<lparr>FeeCap = Some cap, TipCap = Some tip\<rparr> \<and>
    tip0 < tip \<and> tipd + EvmGasBumpWei cfg \<le> tip \<and> tip0 + EvmGasBumpWei cfg \<le> tip \<and>
    AddPercentage cap0 (EvmGasBumpPercent cfg) \<le> cap \<and> cap0 + EvmGasBumpWei cfg \<le> cap \<and>
    cap \<le> EvmMaxGasPriceWei cfg \<and> cap \<le> userMax \<and> tip \<le> EvmMaxGasPriceWei cfg \<and> tip \<le> userMax"
proof -
  obtain tip0 tipd where t: "TipCap originalFee = Some tip0" "EvmGasTipCapDefault cfg = Some tipd"
    using assms(1) by (auto simp: bumpDynamicFee_def split: option.splits)
  obtain cap0 where c: "FeeCap originalFee = Some cap0" by (rule bumpDynamicFee_FeeCap [OF assms(1)])
  have "originalFee = \<lparr>FeeCap = Some cap0, TipCap = Some tip0\<rparr>" using t c by (cases originalFee) simp
  moreover obtain tip where fee: "fee = \<lparr>FeeCap = Some (bumpFeeCap cfg baseFee cap0 tip (getMaxGasPrice userMax cfg)), TipCap = Some tip\<rparr>"
    and le: "tip \<le> getMaxGasPrice userMax cfg"
      "bumpFeeCap cfg baseFee cap0 tip (getMaxGasPrice userMax cfg) \<le> getMaxGasPrice userMax cfg"
    and tip: "tip0 < tip" "max tip0 tipd + EvmGasBumpWei cfg \<le> tip"
    using bumpDynamicFee_Inr [OF assms(1) t c] by blast
  ultimately show ?thesis
    using t fee le tip bumpFeeCap_ge [where cfg = cfg] by (simp add: getMaxGasPrice_def) linarith?
qed

theorem bumpDynamicFee_correct_witness:
  "bumpDynamicFee cfg0 None None \<lparr>FeeCap = Some 100, TipCap = Some 10\<rparr> 900 =
     Inr \<lparr>FeeCap = Some 120, TipCap = Some 15\<rparr> \<and> (10::int) < 15"
proof -
  have r: "bumpDynamicFee cfg0 None None \<lparr>FeeCap = Some 100, TipCap = Some 10\<rparr> 900 =
     Inr \<lparr>FeeCap = Some 120, TipCap = Some 15\<rparr>"
    by (simp add: bumpDynamicFee_def cfg0_def getMaxGasPrice_def bumpFeeCap_def bumpTipCap_def AddPercentage_def Let_def)
  from bumpDynamicFee_correct [OF r] show ?thesis using r by (simp add: cfg0_def)
qed

text \<open>When the latest base fee is known and within the maximum, the bumped fee cap covers the
  bumped tip cap, so the replacement is a valid EIP-1559 transaction; it even covers the base fee
  plus the tip cap when the maximum allows that.\<close>
theorem bumpDynamicFee_fee_cap_covers_tip:
  assumes "bumpDynamicFee cfg currentTip (Some base) originalFee userMax = Inr fee"
    and "0 \<le> base" and "base \<le> EvmMaxGasPriceWei cfg" and "base \<le> userMax"
  shows "\<exists>tip cap. fee = \<lparr>FeeCap = Some cap, TipCap = Some tip\<rparr> \<and> tip \<le> cap \<and>
    (base + tip \<le> min (EvmMaxGasPriceWei cfg) userMax \<longrightarrow> base + tip \<le> cap)"
proof -
  let ?mx = "getMaxGasPrice userMax cfg"
  have mx: "?mx = min (EvmMaxGasPriceWei cfg) userMax" by (simp add: getMaxGasPrice_def)
  obtain tip0 tipd where t: "TipCap originalFee = Some tip0" "EvmGasTipCapDefault cfg = Some tipd"
    using assms(1) by (auto simp: bumpDynamicFee_def split: option.splits)
  obtain cap0 where c: "FeeCap originalFee = Some cap0" by (rule bumpDynamicFee_FeeCap [OF assms(1)])
  obtain tip where f: "fee = \<lparr>FeeCap = Some (bumpFeeCap cfg (Some base) cap0 tip ?mx), TipCap = Some tip\<rparr>" and "tip \<le> ?mx"
    using bumpDynamicFee_Inr [OF assms(1) t c] by blast
  moreover have "min ?mx (base + tip) \<le> bumpFeeCap cfg (Some base) cap0 tip ?mx"
    using assms(2-4) by (intro bumpFeeCap_base) (simp_all add: mx)
  ultimately show ?thesis using assms(2) mx by auto
qed

theorem bumpDynamicFee_fee_cap_covers_tip_witness:
  "\<exists>tip cap. bumpDynamicFee cfg0 None (Some 8) \<lparr>FeeCap = Some 100, TipCap = Some 200\<rparr> 900 =
     Inr \<lparr>FeeCap = Some cap, TipCap = Some tip\<rparr> \<and> tip \<le> cap"
proof -
  have r: "bumpDynamicFee cfg0 None (Some 8) \<lparr>FeeCap = Some 100, TipCap = Some 200\<rparr> 900 =
     Inr \<lparr>FeeCap = Some 250, TipCap = Some 240\<rparr>"
    by (simp add: bumpDynamicFee_def cfg0_def getMaxGasPrice_def bumpFeeCap_def bumpTipCap_def AddPercentage_def Let_def
        calcFeeCap_exact)
  show ?thesis using bumpDynamicFee_fee_cap_covers_tip [OF r] r by (auto simp: cfg0_def)
qed

text \<open>C24: The fee cap computed from the base fee is the tip cap plus the base fee grown by 12.5 percent
  per buffer block, rounded down, cut off at the maximum, as long as the growth fits 64 bits of
  mantissa; and for every non-negative base fee it is at least the tip cap plus the base fee or
  the maximum, whatever the rounding.\<close>
theorem calcFeeCap_growth:
  assumes "0 \<le> baseFee"
  shows "(baseFee * 9 ^ unat (EIP1559FeeCapBufferBlocks cfg) < 2 ^ 64 \<longrightarrow>
     calcFeeCap baseFee cfg tipCap mx =
       min mx ((baseFee * 9 ^ unat (EIP1559FeeCapBufferBlocks cfg)) div 8 ^ unat (EIP1559FeeCapBufferBlocks cfg) + tipCap)) \<and>
   min mx (baseFee + tipCap) \<le> calcFeeCap baseFee cfg tipCap mx \<and> calcFeeCap baseFee cfg tipCap mx \<le> mx"
  using calcFeeCap_exact [OF assms, of cfg tipCap mx] calcFeeCap_lower [OF assms] calcFeeCap_upper by simp

theorem calcFeeCap_growth_witness: "calcFeeCap 64 cfg0 10 1000 = 91"
  using calcFeeCap_growth [of 64 cfg0 10 1000] by (simp add: cfg0_def)

section \<open>The contract of an estimator's bumps\<close>

text \<open>What repeated bumping relies on: a bump that succeeds raises the price, or the tip. The state of the estimator is \<open>e\<close>.\<close>

locale fee_bumper =
  fixes sane :: "gas_config \<Rightarrow> bool"
    and bumpLegacy :: "gas_config \<Rightarrow> 'e \<Rightarrow> wei \<Rightarrow> u32 \<Rightarrow> wei \<Rightarrow> gas_error + wei \<times> u32"
    and bumpDynamic :: "gas_config \<Rightarrow> 'e \<Rightarrow> dynamic_fee \<Rightarrow> u32 \<Rightarrow> wei \<Rightarrow> gas_error + dynamic_fee \<times> u32"
  assumes legacy_up: "sane cfg \<Longrightarrow> 0 \<le> p \<Longrightarrow> bumpLegacy cfg e p l m = Inr (p', l') \<Longrightarrow> p < p'"
    and tip_up: "sane cfg \<Longrightarrow> bumpDynamic cfg e f l m = Inr (f', l') \<Longrightarrow> TipCap f = Some t \<Longrightarrow> TipCap f' = Some t' \<Longrightarrow> t < t'"

text \<open>The percentage does not overflow in \<^verbatim>\<open>uint16\<close>.\<close>

definition sane_bumps :: "gas_config \<Rightarrow> bool" where
  "sane_bumps cfg \<longleftrightarrow> uint (EvmGasBumpPercent cfg) < 65436"

lemma BumpLegacyGasPriceOnly_up:
  assumes "sane_bumps cfg" "0 \<le> p" "BumpLegacyGasPriceOnly cfg current p l m = Inr (p', l')"
  shows "p < p'"
proof -
  have "bumpGasPrice cfg current p m = Inr p'" using assms(3) by (auto simp: BumpLegacyGasPriceOnly_def split: sum.splits)
  then show ?thesis using bumpGasPrice_correct [OF assms(2) assms(1) [unfolded sane_bumps_def], of m current] by simp
qed

lemma BumpDynamicFeeOnly_up:
  assumes "BumpDynamicFeeOnly cfg ct bf f l m = Inr (f', l')" "TipCap f = Some t" "TipCap f' = Some t'"
  shows "t < t'"
proof -
  have r: "bumpDynamicFee cfg ct bf f m = Inr f'" using assms(1) by (auto simp: BumpDynamicFeeOnly_def split: sum.splits)
  obtain tipd where t: "EvmGasTipCapDefault cfg = Some tipd" using r assms(2) by (auto simp: bumpDynamicFee_def split: option.splits)
  obtain cap where "FeeCap f = Some cap" by (rule bumpDynamicFee_FeeCap [OF r])
  from bumpDynamicFee_Inr [OF r assms(2) t this] show ?thesis using assms(3) by auto
qed

interpretation fixed: fee_bumper sane_bumps "\<lambda>cfg (_::unit). fixed_BumpLegacyGas cfg" "\<lambda>cfg (_::unit). fixed_BumpDynamicFee cfg"
  by unfold_locales (auto simp: fixed_BumpLegacyGas_def fixed_BumpDynamicFee_def dest: BumpLegacyGasPriceOnly_up BumpDynamicFeeOnly_up)

end
