(* ===== verification/Head_Chain.thy ===== *)
theory Head_Chain
  imports Go_Prelude
begin

text \<open>
  Chains of block headers (\<^verbatim>\<open>core/chains/evm/types/models.go\<close>) and the in-memory collection of the
  latest heads (\<^verbatim>\<open>core/chains/evm/headtracker/heads.go\<close>).

  A \<^verbatim>\<open>*Head\<close> points to its parent. \<^verbatim>\<open>AddHeads\<close> builds fresh copies of all heads it knows in a map
  keyed by hash, sets the parent pointers among those copies and never changes them afterwards, so
  a parent pointer is the hash of the parent in the map of that call, the memory \<open>head_mem\<close> a chain is
  read in. The loops that follow parents may run forever, so they are partial functions: \<open>None\<close>
  means that the loop does not return. The lemmas relate every loop to the list of heads on the
  path to the earliest one, and tell when that path exists. Go's map iteration order is a parameter of
  \<open>AddHeads\<close>, any permutation of the map's values.
\<close>

section \<open>Heads\<close>

record head =
  ID :: int
  Hash :: hash
  Number :: int
  L1BlockNumber :: "int option"
  ParentHash :: hash
  Parent :: "hash option"
  EVMChainID :: int
  Timestamp :: int
  CreatedAt :: int
  BaseFeePerGas :: "int option"
  ReceiptsRoot :: hash
  TransactionsRoot :: hash
  StateRoot :: hash

type_synonym head_mem = "hash \<rightharpoonup> head"

text \<open>A head handed on with its chain.\<close>

type_synonym chain = "head_mem \<times> head"

definition NewHead :: "int \<Rightarrow> hash \<Rightarrow> hash \<Rightarrow> u64 \<Rightarrow> int \<Rightarrow> head" where
  "NewHead number blockHash parentHash timestamp chainID =
    \<lparr>ID = 0, Hash = blockHash, Number = wrap64 number, L1BlockNumber = None, ParentHash = parentHash, Parent = None,
     EVMChainID = chainID, Timestamp = to_i64 timestamp, CreatedAt = 0, BaseFeePerGas = None,
     ReceiptsRoot = 0, TransactionsRoot = 0, StateRoot = 0\<rparr>"

partial_function (option) EarliestInChain :: "head_mem \<Rightarrow> head \<Rightarrow> head option" where
  "EarliestInChain M h = (case Parent h of
     None \<Rightarrow> Some h
   | Some p \<Rightarrow> (case M p of None \<Rightarrow> None | Some h' \<Rightarrow> EarliestInChain M h'))"

partial_function (option) IsInChain :: "head_mem \<Rightarrow> head \<Rightarrow> hash \<Rightarrow> bool option" where
  "IsInChain M h blockHash = (if Hash h = blockHash then Some True else (case Parent h of
     None \<Rightarrow> Some False
   | Some p \<Rightarrow> (case M p of None \<Rightarrow> None | Some h' \<Rightarrow> IsInChain M h' blockHash)))"

partial_function (option) HashAtHeight :: "head_mem \<Rightarrow> head \<Rightarrow> int \<Rightarrow> hash option" where
  "HashAtHeight M h blockNum = (if Number h = blockNum then Some (Hash h) else (case Parent h of
     None \<Rightarrow> Some 0
   | Some p \<Rightarrow> (case M p of None \<Rightarrow> None | Some h' \<Rightarrow> HashAtHeight M h' blockNum)))"

text \<open>The two loops that panic on a head which is its own parent.\<close>

datatype chain_panic = CircularReference

partial_function (option) chainLengthLoop :: "head_mem \<Rightarrow> u32 \<Rightarrow> head \<Rightarrow> (chain_panic + u32) option" where
  "chainLengthLoop M l h = (case Parent h of
     None \<Rightarrow> Some (Inr l)
   | Some p \<Rightarrow> if p = Hash h then Some (Inl CircularReference)
       else (case M p of None \<Rightarrow> None | Some h' \<Rightarrow> chainLengthLoop M (l + 1) h'))"

definition ChainLength :: "head_mem \<Rightarrow> head option \<Rightarrow> (chain_panic + u32) option" where
  "ChainLength M h = (case h of None \<Rightarrow> Some (Inr 0) | Some h \<Rightarrow> chainLengthLoop M 1 h)"

partial_function (option) chainHashesLoop :: "head_mem \<Rightarrow> hash list \<Rightarrow> head \<Rightarrow> (chain_panic + hash list) option" where
  "chainHashesLoop M hashes h = (case Parent h of
     None \<Rightarrow> Some (Inr (hashes @ [Hash h]))
   | Some p \<Rightarrow> if p = Hash h then Some (Inl CircularReference)
       else (case M p of None \<Rightarrow> None | Some h' \<Rightarrow> chainHashesLoop M (hashes @ [Hash h]) h'))"

definition ChainHashes :: "head_mem \<Rightarrow> head \<Rightarrow> (chain_panic + hash list) option" where
  "ChainHashes M h = chainHashesLoop M [] h"

definition ToInt :: "head option \<Rightarrow> int option" where
  "ToInt h = map_option Number h"

definition GreaterThan :: "head option \<Rightarrow> head option \<Rightarrow> bool" where
  "GreaterThan h r = (case h of None \<Rightarrow> False | Some h' \<Rightarrow>
     (case r of None \<Rightarrow> True | Some r' \<Rightarrow> Number h' > Number r'))"

definition NextInt :: "head option \<Rightarrow> int option" where
  "NextInt h = (case h of None \<Rightarrow> None | Some h' \<Rightarrow> Some (Number h' + 1))"

section \<open>The collection of the latest heads\<close>

record heads_st =
  hs_heads :: "head list"
  hs_mem :: head_mem

definition NewHeads :: heads_st where
  "NewHeads = \<lparr>hs_heads = [], hs_mem = Map.empty\<rparr>"

definition LatestHead :: "heads_st \<Rightarrow> head option" where
  "LatestHead st = (case hs_heads st of [] \<Rightarrow> None | h # _ \<Rightarrow> Some h)"

definition HeadByHash :: "heads_st \<Rightarrow> hash \<Rightarrow> head option" where
  "HeadByHash st hash = find (\<lambda>h. Hash h = hash) (hs_heads st)"

definition Count :: "heads_st \<Rightarrow> nat" where
  "Count st = length (hs_heads st)"

text \<open>The map of copies, without heads that are their own parent; a later head replaces an earlier one
  of the same hash.\<close>

definition addHead :: "head \<Rightarrow> (hash \<times> head) list \<Rightarrow> (hash \<times> head) list" where
  "addHead h m = (if Hash h = ParentHash h then m else AList.update (Hash h) (h\<lparr>Parent := None\<rparr>) m)"

definition headsMap :: "head list \<Rightarrow> (hash \<times> head) list" where
  "headsMap hs = fold addHead hs []"

definition assignParent :: "(hash \<times> head) list \<Rightarrow> head \<Rightarrow> head" where
  "assignParent m h = (if map_of m (ParentHash h) = None then h else h\<lparr>Parent := Some (ParentHash h)\<rparr>)"

text \<open>The loop stops before the last head of the list.\<close>

definition assignParents :: "(hash \<times> head) list \<Rightarrow> head list \<Rightarrow> head list" where
  "assignParents m hs = map (assignParent m) (butlast hs) @ (if hs = [] then [] else [last hs])"

definition AddHeads :: "((hash \<times> head) list \<Rightarrow> (hash \<times> head) list) \<Rightarrow> nat \<Rightarrow> head list \<Rightarrow> heads_st \<Rightarrow> heads_st" where
  "AddHeads ord historyDepth newHeads st =
    (let m = headsMap (hs_heads st @ newHeads);
         heads = sort_key (\<lambda>h. - Number h) (map snd (ord m));
         cut = (if length heads > historyDepth then take historyDepth heads else heads);
         done = assignParents m cut
     in \<lparr>hs_heads = done,
         hs_mem = (\<lambda>p. case find (\<lambda>h. Hash h = p) done of None \<Rightarrow> map_of m p | Some h \<Rightarrow> Some h)\<rparr>)"

section \<open>Loops over parents follow the path to the earliest head\<close>

inductive chain_path :: "head_mem \<Rightarrow> head \<Rightarrow> head list \<Rightarrow> bool" for M where
  path_end: "Parent h = None \<Longrightarrow> chain_path M h [h]"
| path_step: "Parent h = Some p \<Longrightarrow> M p = Some h' \<Longrightarrow> chain_path M h' hs \<Longrightarrow> chain_path M h (h # hs)"

inductive_cases chain_pathE: "chain_path M h hs"

lemma chain_path_nonempty: "chain_path M h hs \<Longrightarrow> \<exists>t. hs = h # t"
  by (erule chain_pathE) simp_all

lemma EarliestInChain_path: "chain_path M h hs \<Longrightarrow> EarliestInChain M h = Some (last hs)"
  by (induction rule: chain_path.induct; subst EarliestInChain.simps) (auto dest: chain_path_nonempty)

lemma IsInChain_path: "chain_path M h hs \<Longrightarrow> IsInChain M h b = Some (b \<in> Hash ` set hs)"
  by (induction rule: chain_path.induct; subst IsInChain.simps) auto

lemma HashAtHeight_path:
  "chain_path M h hs \<Longrightarrow> HashAtHeight M h n = Some (case find (\<lambda>x. Number x = n) hs of None \<Rightarrow> 0 | Some x \<Rightarrow> Hash x)"
  by (induction rule: chain_path.induct; subst HashAtHeight.simps) auto

lemma EarliestInChain_Some: "EarliestInChain M h = Some e \<Longrightarrow> \<exists>hs. chain_path M h hs"
proof (induction rule: EarliestInChain.raw_induct [rotated, consumes 1, case_names step])
  case (step f M h e)
  show ?case
  proof (cases "Parent h")
    case (Some p)
    with step(2) obtain h' where h': "M p = Some h'" "f M h' = Some e" by (auto split: option.splits)
    from step(1) [OF h'(2)] show ?thesis using path_step [where M = M, OF Some h'(1)] by blast
  qed (use path_end in blast)
qed

lemma chainLengthLoop_Some: "chainLengthLoop M l h = Some r \<Longrightarrow> r \<noteq> Inl CircularReference \<Longrightarrow> \<exists>hs. chain_path M h hs"
proof (induction rule: chainLengthLoop.raw_induct [rotated, consumes 1, case_names step])
  case (step f M l h r)
  show ?case
  proof (cases "Parent h")
    case (Some p)
    with step(2,3) obtain h' where h': "M p = Some h'" "f M (l + 1) h' = Some r" by (auto split: option.splits if_splits)
    from step(1) [OF h'(2) step(3)] show ?thesis using path_step [where M = M, OF Some h'(1)] by blast
  qed (use path_end in blast)
qed

text \<open>No loop panics and all return when no head of the memory is its own parent.\<close>

definition no_self :: "head_mem \<Rightarrow> bool" where
  "no_self M \<longleftrightarrow> (\<forall>p h. M p = Some h \<longrightarrow> Hash h = p \<and> Parent h \<noteq> Some p)"

lemma chainLengthLoop_path:
  "chain_path M h hs \<Longrightarrow> no_self M \<Longrightarrow> Parent h \<noteq> Some (Hash h) \<Longrightarrow>
   chainLengthLoop M l h = Some (Inr (l + of_nat (length hs - 1)))"
proof (induction arbitrary: l rule: chain_path.induct)
  case (path_step h p h' hs)
  have "Parent h' \<noteq> Some (Hash h')" using path_step by (auto simp: no_self_def)
  with path_step obtain t where "chainLengthLoop M (l + 1) h' = Some (Inr (l + 1 + of_nat (length hs - 1)))" "hs = h' # t"
    using chain_path_nonempty by blast
  with path_step show ?case by (subst chainLengthLoop.simps) (auto simp: add_ac)
qed (subst chainLengthLoop.simps, simp)

lemma chainLengthLoop_no_panic:
  "chainLengthLoop M l h = Some r \<Longrightarrow> no_self M \<Longrightarrow> M (Hash h) = Some h \<Longrightarrow> r \<noteq> Inl CircularReference"
proof (induction rule: chainLengthLoop.raw_induct [rotated, consumes 1, case_names step])
  case (step f M l h r)
  show ?case
  proof (cases "Parent h")
    case (Some p)
    have "p \<noteq> Hash h" using Some step(3,4) unfolding no_self_def by blast
    with Some step(2) obtain h' where h': "M p = Some h'" "f M (l + 1) h' = Some r" by (auto split: option.splits)
    moreover have "M (Hash h') = Some h'" using step(3) h'(1) unfolding no_self_def by metis
    ultimately show ?thesis using step(1) [OF h'(2) step(3)] by blast
  qed (use step(2) in auto)
qed

lemma ChainLength_path:
  assumes "chain_path M h hs" and "no_self M" and "Parent h \<noteq> Some (Hash h)"
  shows "ChainLength M (Some h) = Some (Inr (of_nat (length hs)))"
proof -
  obtain t where "hs = h # t" using chain_path_nonempty [OF assms(1)] by blast
  with chainLengthLoop_path [OF assms, of 1] show ?thesis by (simp add: ChainLength_def)
qed

lemma chainHashesLoop_path:
  "chain_path M h hs \<Longrightarrow> no_self M \<Longrightarrow> Parent h \<noteq> Some (Hash h) \<Longrightarrow>
   chainHashesLoop M acc h = Some (Inr (acc @ map Hash hs))"
proof (induction arbitrary: acc rule: chain_path.induct)
  case (path_step h p h' hs)
  have "Parent h' \<noteq> Some (Hash h')" using path_step by (auto simp: no_self_def)
  with path_step show ?case by (subst chainHashesLoop.simps) auto
qed (subst chainHashesLoop.simps, simp)

text \<open>The path exists when parents have smaller numbers, as they have on a block chain.\<close>

definition descending :: "head_mem \<Rightarrow> bool" where
  "descending M \<longleftrightarrow> (\<forall>q h. M q = Some h \<longrightarrow> min_i64 \<le> Number h \<and>
     (\<forall>p. Parent h = Some p \<longrightarrow> (\<exists>h'. M p = Some h' \<and> Number h' < Number h)))"

lemma descending_path: "descending M \<Longrightarrow> M q = Some h \<Longrightarrow> \<exists>hs. chain_path M h hs"
proof (induction "nat (Number h - min_i64)" arbitrary: q h rule: less_induct)
  case less
  show ?case
  proof (cases "Parent h")
    case (Some p)
    with less.prems obtain h' where h': "M p = Some h'" "Number h' < Number h" "min_i64 \<le> Number h'"
      unfolding descending_def by metis
    then have "nat (Number h' - min_i64) < nat (Number h - min_i64)" by simp
    from less.hyps [OF this less.prems(1) h'(1)] show ?thesis using path_step [where M = M, OF Some h'(1)] by blast
  qed (use path_end in blast)
qed

section \<open>What AddHeads keeps\<close>

definition erase :: "head \<Rightarrow> head" where "erase h = h\<lparr>Parent := None\<rparr>"

lemma erase_simps [simp]: "Hash (erase h) = Hash h" "Number (erase h) = Number h" "ParentHash (erase h) = ParentHash h"
  "Parent (erase h) = None" "erase (erase h) = erase h" "erase (h\<lparr>Parent := x\<rparr>) = erase h"
  by (simp_all add: erase_def)

text \<open>The newest version of a usable head among those given.\<close>

definition newest :: "head list \<Rightarrow> hash \<Rightarrow> head option" where
  "newest hs p = find (\<lambda>h. Hash h = p \<and> Hash h \<noteq> ParentHash h) (rev hs)"

lemma headsMap_snoc: "headsMap (hs @ [h]) = addHead h (headsMap hs)"
  by (simp add: headsMap_def)

lemma headsMap_newest: "map_of (headsMap hs) p = map_option erase (newest hs p)"
proof (induction hs rule: rev_induct)
  case Nil
  then show ?case by (simp add: headsMap_def newest_def)
next
  case (snoc h hs)
  then show ?case by (auto simp: headsMap_snoc addHead_def newest_def erase_def)
qed

lemma headsMap_distinct: "distinct (map fst (headsMap hs))"
proof (induction hs rule: rev_induct)
  case Nil
  then show ?case by (simp add: headsMap_def)
next
  case (snoc h hs)
  then show ?case unfolding headsMap_snoc addHead_def by (simp del: map_of_update)
qed

lemma newest_Some: "newest hs p = Some h \<Longrightarrow> h \<in> set hs \<and> Hash h = p \<and> Hash h \<noteq> ParentHash h"
  unfolding newest_def using find_SomeD [where xs = "rev hs" and x = h] by fastforce

lemma newest_ex: "h \<in> set hs \<Longrightarrow> Hash h \<noteq> ParentHash h \<Longrightarrow> \<exists>h'. newest hs (Hash h) = Some h'"
  unfolding newest_def by (rule find_ex) simp_all

lemma headsMap_hash: "(p, h) \<in> set (headsMap hs) \<longleftrightarrow> (\<exists>h0. newest hs p = Some h0 \<and> h = erase h0)"
  using in_set_map_of [OF headsMap_distinct [of hs], of p h] by (auto simp: headsMap_newest)

lemma headsMap_values:
  "h \<in> set (map snd (headsMap hs)) \<longleftrightarrow> (\<exists>h0. newest hs (Hash h) = Some h0 \<and> h = erase h0)"
proof
  assume "h \<in> set (map snd (headsMap hs))"
  then obtain p where "(p, h) \<in> set (headsMap hs)" by auto
  then obtain h0 where "newest hs p = Some h0" "h = erase h0" using headsMap_hash by blast
  moreover have "p = Hash h" using newest_Some [OF \<open>newest hs p = Some h0\<close>] \<open>h = erase h0\<close> by simp
  ultimately show "\<exists>h0. newest hs (Hash h) = Some h0 \<and> h = erase h0" by blast
next
  assume "\<exists>h0. newest hs (Hash h) = Some h0 \<and> h = erase h0"
  then have "(Hash h, h) \<in> set (headsMap hs)" using headsMap_hash by blast
  then show "h \<in> set (map snd (headsMap hs))" by (metis image_eqI list.set_map snd_conv)
qed

lemma map_Hash_headsMap: "map Hash (map snd (headsMap hs)) = map fst (headsMap hs)"
proof -
  have "Hash (snd x) = fst x" if "x \<in> set (headsMap hs)" for x
    using that headsMap_hash [of "fst x" "snd x" hs] newest_Some by fastforce
  then show ?thesis by simp
qed

lemma erase_assignParents: "map erase (assignParents m hs) = map erase hs"
  by (cases hs rule: rev_cases) (auto simp: assignParents_def assignParent_def)

lemma erase_eqD: "erase a = erase b \<Longrightarrow> Hash a = Hash b \<and> Number a = Number b \<and> ParentHash a = ParentHash b"
  by (metis erase_simps(1) erase_simps(2) erase_simps(3))

lemma map_erase_eqD:
  assumes "map erase xs = map erase ys"
  shows "map Hash xs = map Hash ys" and "map Number xs = map Number ys"
  using arg_cong [OF assms, of "map Hash"] arg_cong [OF assms, of "map Number"] by (simp_all add: comp_def)

definition permutes_maps :: "((hash \<times> head) list \<Rightarrow> (hash \<times> head) list) \<Rightarrow> bool" where
  "permutes_maps ord \<longleftrightarrow> (\<forall>m. mset (ord m) = mset m)"

text \<open>The heads kept, before the parents are assigned.\<close>

definition kept :: "((hash \<times> head) list \<Rightarrow> (hash \<times> head) list) \<Rightarrow> nat \<Rightarrow> head list \<Rightarrow> head list" where
  "kept ord depth hs = take depth (sort_key (\<lambda>h. - Number h) (map snd (ord (headsMap hs))))"

lemma AddHeads_kept:
  "hs_heads (AddHeads ord depth new st) = assignParents (headsMap (hs_heads st @ new)) (kept ord depth (hs_heads st @ new))"
  by (simp add: AddHeads_def kept_def Let_def)

lemma AddHeads_erase:
  "map erase (hs_heads (AddHeads ord depth new st)) = map erase (kept ord depth (hs_heads st @ new))"
  by (simp add: AddHeads_kept erase_assignParents)

lemma all_heads:
  assumes "permutes_maps ord"
  shows sorted_all: "mset (sort_key (\<lambda>h. - Number h) (map snd (ord (headsMap hs)))) = mset (map snd (headsMap hs))"
    and distinct_all: "distinct (map Hash (sort_key (\<lambda>h. - Number h) (map snd (ord (headsMap hs)))))"
proof -
  show m: "mset (sort_key (\<lambda>h. - Number h) (map snd (ord (headsMap hs)))) = mset (map snd (headsMap hs))"
    using assms by (simp add: permutes_maps_def)
  have "mset (map Hash (sort_key (\<lambda>h. - Number h) (map snd (ord (headsMap hs))))) = mset (map fst (headsMap hs))"
    using m map_Hash_headsMap [of hs] by (metis mset_map)
  then show "distinct (map Hash (sort_key (\<lambda>h. - Number h) (map snd (ord (headsMap hs)))))"
    using headsMap_distinct [of hs] by (metis mset_eq_imp_distinct_iff)
qed

lemma kept_distinct: "permutes_maps ord \<Longrightarrow> distinct (map Hash (kept ord depth hs))"
  using distinct_all [of ord hs] by (simp add: kept_def take_map [symmetric] distinct_take)

lemma kept_sorted: "sorted_wrt (\<lambda>a b. Number b \<le> Number a) (kept ord depth hs)"
proof -
  have "sorted (map (\<lambda>h. - Number h) (sort_key (\<lambda>h. - Number h) (map snd (ord (headsMap hs)))))" by simp
  then have "sorted_wrt (\<lambda>a b. Number b \<le> Number a) (sort_key (\<lambda>h. - Number h) (map snd (ord (headsMap hs))))"
    by (simp add: sorted_wrt_map)
  then show ?thesis by (simp add: kept_def sorted_wrt_take)
qed

lemma kept_newest:
  assumes "permutes_maps ord" and "h \<in> set (kept ord depth hs)"
  shows "\<exists>h0. newest hs (Hash h) = Some h0 \<and> h = erase h0"
proof -
  have "h \<in> set (sort_key (\<lambda>h. - Number h) (map snd (ord (headsMap hs))))"
    using assms(2) unfolding kept_def by (rule in_set_takeD)
  then have "h \<in> set (map snd (headsMap hs))" using sorted_all [OF assms(1), of hs] by (metis mset_eq_setD)
  then show ?thesis by (simp only: headsMap_values)
qed

lemma kept_highest:
  assumes "permutes_maps ord" and "newest hs p = Some h" and "p \<notin> Hash ` set (kept ord depth hs)"
    and "k \<in> set (kept ord depth hs)"
  shows "Number h \<le> Number k"
proof -
  let ?s = "sort_key (\<lambda>h. - Number h) (map snd (ord (headsMap hs)))"
  have "erase h \<in> set (map snd (headsMap hs))" using assms(2) newest_Some headsMap_values by auto
  then have "erase h \<in> set ?s" using sorted_all [OF assms(1), of hs] by (metis mset_eq_setD)
  moreover have "Hash (erase h) = p" using newest_Some [OF assms(2)] by simp
  ultimately have "erase h \<in> set (drop depth ?s)"
    using assms(3) by (metis append_take_drop_id Un_iff image_eqI kept_def set_append)
  moreover have "sorted_wrt (\<lambda>a b. Number b \<le> Number a) (take depth ?s @ drop depth ?s)"
    using kept_sorted [of ord "length ?s" hs] by (simp add: kept_def)
  ultimately show ?thesis using assms(4) unfolding sorted_wrt_append kept_def by fastforce
qed

lemma length_kept:
  assumes "permutes_maps ord"
  shows "length (kept ord depth hs) = min depth (card {p. newest hs p \<noteq> None})"
proof -
  have "p \<in> set (map fst (headsMap hs)) \<longleftrightarrow> newest hs p \<noteq> None" for p
    unfolding set_map fst_set_map_of by (simp add: headsMap_newest)
  then have "{p. newest hs p \<noteq> None} = set (map fst (headsMap hs))" by blast
  then have c: "card {p. newest hs p \<noteq> None} = length (headsMap hs)"
    using distinct_card [OF headsMap_distinct [of hs]] by simp
  have "size (mset (ord (headsMap hs))) = size (mset (headsMap hs))" using assms by (simp add: permutes_maps_def)
  then show ?thesis unfolding c by (simp add: kept_def min.commute)
qed

section \<open>The chains that AddHeads builds\<close>

lemma assignParents_cases:
  assumes "h \<in> set (assignParents m hs)"
  obtains h0 where "h0 \<in> set hs" and "h = h0 \<or> h = assignParent m h0"
proof -
  have "h \<in> assignParent m ` set hs \<or> h \<in> set hs"
    using assms by (auto simp: assignParents_def dest: in_set_butlastD split: if_splits)
  then show ?thesis using that by blast
qed

lemma AddHeads_mem:
  assumes "permutes_maps ord" and "hs_mem (AddHeads ord depth new st) p = Some h"
  shows "Hash h = p \<and> (\<exists>h0. newest (hs_heads st @ new) p = Some h0 \<and> erase h = erase h0) \<and>
    (\<forall>q. Parent h = Some q \<longrightarrow> q = ParentHash h \<and> newest (hs_heads st @ new) q \<noteq> None)"
proof -
  let ?k = "hs_heads st @ new"
  let ?done = "assignParents (headsMap ?k) (kept ord depth ?k)"
  have mem: "hs_mem (AddHeads ord depth new st) p =
      (case find (\<lambda>h. Hash h = p) ?done of None \<Rightarrow> map_of (headsMap ?k) p | Some h \<Rightarrow> Some h)"
    by (simp add: AddHeads_def kept_def Let_def)
  show ?thesis
  proof (cases "find (\<lambda>h. Hash h = p) ?done")
    case None
    then obtain h0 where h0: "newest ?k p = Some h0" "h = erase h0" using assms(2) mem by (auto simp: headsMap_newest)
    then show ?thesis using newest_Some [OF h0(1)] by simp
  next
    case (Some x)
    then have "x = h" using assms(2) mem by simp
    then have hd: "h \<in> set ?done" "Hash h = p" using find_SomeD [OF Some] by simp_all
    then obtain k where k: "k \<in> set (kept ord depth ?k)" "h = k \<or> h = assignParent (headsMap ?k) k"
      by (metis assignParents_cases)
    obtain h0 where h0: "newest ?k (Hash k) = Some h0" "k = erase h0" using kept_newest [OF assms(1) k(1)] by blast
    have "Hash h = Hash k" "erase h = erase k" using k(2) by (auto simp: assignParent_def)
    moreover have "Parent h = Some q \<Longrightarrow> q = ParentHash h \<and> newest ?k q \<noteq> None" for q
      using k(2) h0(2) by (auto simp: assignParent_def headsMap_newest split: if_splits)
    ultimately show ?thesis using hd h0 by simp
  qed
qed

lemma AddHeads_mem_newest:
  assumes "newest (hs_heads st @ new) p = Some h0"
  shows "hs_mem (AddHeads ord depth new st) p \<noteq> None"
  using assms by (auto simp: AddHeads_def Let_def headsMap_newest split: option.split)

lemma AddHeads_distinct:
  assumes "permutes_maps ord"
  shows "distinct (map Hash (hs_heads (AddHeads ord depth new st)))"
proof -
  have "map Hash (hs_heads (AddHeads ord depth new st)) = map Hash (kept ord depth (hs_heads st @ new))"
    by (rule map_erase_eqD(1) [OF AddHeads_erase])
  then show ?thesis using kept_distinct [OF assms] by metis
qed

lemma find_distinct: "distinct (map f xs) \<Longrightarrow> x \<in> set xs \<Longrightarrow> find (\<lambda>y. f y = f x) xs = Some x"
  by (induction xs) auto

lemma AddHeads_mem_heads:
  assumes "permutes_maps ord" and "h \<in> set (hs_heads (AddHeads ord depth new st))"
  shows "hs_mem (AddHeads ord depth new st) (Hash h) = Some h"
  using find_distinct [OF AddHeads_distinct [OF assms(1)] assms(2)] by (simp add: AddHeads_def Let_def)

lemma AddHeads_no_self:
  assumes "permutes_maps ord"
  shows "no_self (hs_mem (AddHeads ord depth new st))"
  unfolding no_self_def
proof (intro allI impI)
  fix p h assume "hs_mem (AddHeads ord depth new st) p = Some h"
  from AddHeads_mem [OF assms this] obtain h0 where h: "Hash h = p" "newest (hs_heads st @ new) p = Some h0"
    "erase h = erase h0" "\<forall>q. Parent h = Some q \<longrightarrow> q = ParentHash h" by blast
  have "ParentHash h = ParentHash h0" using erase_eqD [OF h(3)] by simp
  then have "ParentHash h \<noteq> p" using newest_Some [OF h(2)] by argo
  then show "Hash h = p \<and> Parent h \<noteq> Some p" using h(1) h(4) [rule_format, of p] by argo
qed

text \<open>Known heads are numbered like a block chain: a parent has a smaller number than its child.\<close>

definition numbered :: "head list \<Rightarrow> bool" where
  "numbered hs \<longleftrightarrow> (\<forall>a \<in> set hs. min_i64 \<le> Number a \<and>
     (\<forall>b \<in> set hs. ParentHash a = Hash b \<longrightarrow> Hash a \<noteq> Hash b \<longrightarrow> Number b < Number a))"

lemma AddHeads_descending:
  assumes "permutes_maps ord" and "numbered (hs_heads st @ new)"
  shows "descending (hs_mem (AddHeads ord depth new st))"
  unfolding descending_def
proof (intro allI impI conjI)
  let ?k = "hs_heads st @ new"
  let ?M = "hs_mem (AddHeads ord depth new st)"
  fix p h assume "?M p = Some h"
  from AddHeads_mem [OF assms(1) this] obtain h0 where h: "Hash h = p" "newest ?k p = Some h0"
    "erase h = erase h0" "\<And>q. Parent h = Some q \<Longrightarrow> q = ParentHash h \<and> newest ?k q \<noteq> None" by blast
  have n: "Number h = Number h0" "ParentHash h = ParentHash h0" using erase_eqD [OF h(3)] by simp_all
  have in0: "h0 \<in> set ?k" "Hash h0 \<noteq> ParentHash h0" "Hash h0 = p" using newest_Some [OF h(2)] by auto
  show "min_i64 \<le> Number h" using assms(2) in0(1) by (auto simp: numbered_def n)
  fix q assume "Parent h = Some q"
  then obtain g0 where q: "q = ParentHash h0" "newest ?k q = Some g0" using h(4) n by auto
  obtain g where g: "?M q = Some g" using AddHeads_mem_newest [OF q(2)] by blast
  from AddHeads_mem [OF assms(1) g] q(2) have "erase g = erase g0" by auto
  then have "Number g = Number g0" using erase_eqD by blast
  moreover have "g0 \<in> set ?k" "Hash g0 = q" using newest_Some [OF q(2)] by auto
  then have "Number g0 < Number h0" using assms(2) in0 q(1) unfolding numbered_def by metis
  ultimately show "\<exists>h'. ?M q = Some h' \<and> Number h' < Number h" using g n by simp
qed

lemma chain_path_linked:
  "chain_path M h hs \<Longrightarrow> (\<And>p x q. M p = Some x \<Longrightarrow> Hash x = p \<and> (Parent x = Some q \<longrightarrow> q = ParentHash x)) \<Longrightarrow>
   (\<forall>q. Parent h = Some q \<longrightarrow> q = ParentHash h) \<Longrightarrow> successively (\<lambda>a b. ParentHash a = Hash b) hs"
proof (induction rule: chain_path.induct)
  case (path_step h p h' hs)
  obtain t where "hs = h' # t" using chain_path_nonempty [OF path_step.hyps(3)] by blast
  moreover have "Hash h' = p" "\<forall>q. Parent h' = Some q \<longrightarrow> q = ParentHash h'" using path_step.prems(1) path_step.hyps(2) by blast+
  ultimately show ?case using path_step by simp
qed simp

lemma ChainLength_None: "(\<And>r. chainLengthLoop M 1 h \<noteq> Some r) \<Longrightarrow> ChainLength M (Some h) = None"
  by (cases "chainLengthLoop M 1 h") (auto simp add: ChainLength_def)

lemma cycle_no_path:
  assumes "Parent a = Some q" and "M q = Some b" and "Parent b = Some p" and "M p = Some a"
  shows "\<not> chain_path M a hs"
proof -
  have "chain_path M h hs \<Longrightarrow> h \<noteq> a \<and> h \<noteq> b" for h
  proof (induction rule: chain_path.induct)
    case (path_end h)
    then show ?case using assms by auto
  next
    case (path_step h p' h' hs)
    then show ?case using assms by (metis option.inject)
  qed
  then show ?thesis by blast
qed

section \<open>Properties\<close>

text \<open>C21: After new heads are added, the collection is sorted by descending number and without
  duplicates, every head in it is the newest usable version of its hash (usable means not its
  own parent), it has as many of them as fit the history depth, and any usable head left out is
  not higher than any head kept; so the latest head is one of the highest known. This holds
  for every iteration order of the map.\<close>
theorem AddHeads_keeps_highest:
  assumes "\<forall>m. mset (ord m) = mset m"
  shows "let st' = AddHeads ord depth new st; known = hs_heads st @ new in
    sorted_wrt (\<lambda>a b. Number b \<le> Number a) (hs_heads st') \<and> distinct (map Hash (hs_heads st')) \<and>
    (\<forall>h \<in> set (hs_heads st'). map_option erase (newest known (Hash h)) = Some (erase h) \<and> HeadByHash st' (Hash h) = Some h) \<and>
    Count st' = min depth (card {p. newest known p \<noteq> None}) \<and>
    (\<forall>p h. newest known p = Some h \<longrightarrow> HeadByHash st' p = None \<longrightarrow> (\<forall>k \<in> set (hs_heads st'). Number h \<le> Number k))"
proof -
  let ?st = "AddHeads ord depth new st"
  let ?k = "hs_heads st @ new"
  have ord: "permutes_maps ord" using assms by (simp add: permutes_maps_def)
  note er = AddHeads_erase [of ord depth new st]
  note hash = map_erase_eqD(1) [OF er] and num = map_erase_eqD(2) [OF er]
  have sorted: "sorted_wrt (\<lambda>a b. Number b \<le> Number a) (hs_heads ?st)"
    using kept_sorted [of ord depth ?k] sorted_wrt_map [of "\<lambda>a b. b \<le> a" Number "kept ord depth ?k"]
      sorted_wrt_map [of "\<lambda>a b. b \<le> a" Number "hs_heads ?st"] unfolding num by blast
  have dist: "distinct (map Hash (hs_heads ?st))" by (rule AddHeads_distinct [OF ord])
  have new: "map_option erase (newest ?k (Hash h)) = Some (erase h)" if "h \<in> set (hs_heads ?st)" for h
    using AddHeads_mem [OF ord AddHeads_mem_heads [OF ord that]] by auto
  have cnt: "Count ?st = min depth (card {p. newest ?k p \<noteq> None})"
    using length_kept [OF ord] hash by (metis Count_def length_map)
  have out: "Number h \<le> Number k" if "newest ?k p = Some h" "HeadByHash ?st p = None" "k \<in> set (hs_heads ?st)" for p h k
  proof -
    note a = that
    have "p \<notin> set (map Hash (hs_heads ?st))" using a(2) by (auto simp: HeadByHash_def find_None)
    then have "p \<notin> Hash ` set (kept ord depth ?k)" using hash by simp
    moreover obtain k0 where "k0 \<in> set (kept ord depth ?k)" "Number k0 = Number k"
      using a(3) num by (metis (no_types, lifting) imageE image_eqI set_map)
    ultimately show ?thesis using kept_highest [OF ord a(1)] by metis
  qed
  show ?thesis unfolding Let_def
    using sorted dist new cnt out find_distinct [OF dist] by (simp add: HeadByHash_def)
qed

text \<open>Heads of the examples.\<close>

definition mk_head :: "int \<Rightarrow> hash \<Rightarrow> hash \<Rightarrow> head" where
  "mk_head number hash parent = NewHead number hash parent 0 1"

theorem AddHeads_keeps_highest_witness:
  "Count (AddHeads rev 2 [mk_head 1 11 10, mk_head 2 12 11, mk_head 3 13 12] NewHeads) \<le> 2"
  using AddHeads_keeps_highest [of rev 2 "[mk_head 1 11 10, mk_head 2 12 11, mk_head 3 13 12]" NewHeads]
  by (simp add: Let_def)

text \<open>C22: When the known heads are numbered like a block chain (a parent has a smaller number than its
  child), every loop over the parents of a kept head returns without a panic: there is one finite list of
  heads, linked by parent hash and starting with the head itself, whose last is the earliest
  head, whose length is the chain length and whose hashes answer the membership and height
  queries.\<close>
theorem AddHeads_chains_finite:
  assumes "\<forall>m. mset (ord m) = mset m" and "numbered (hs_heads st @ new)"
    and "h \<in> set (hs_heads (AddHeads ord depth new st))"
  shows "\<exists>hs. let M = hs_mem (AddHeads ord depth new st) in
    hs \<noteq> [] \<and> hd hs = h \<and> successively (\<lambda>a b. ParentHash a = Hash b) hs \<and>
    EarliestInChain M h = Some (last hs) \<and> ChainLength M (Some h) = Some (Inr (of_nat (length hs))) \<and>
    ChainHashes M h = Some (Inr (map Hash hs)) \<and> (\<forall>b. IsInChain M h b = Some (b \<in> Hash ` set hs)) \<and>
    (\<forall>n. HashAtHeight M h n = Some (case find (\<lambda>x. Number x = n) hs of None \<Rightarrow> 0 | Some x \<Rightarrow> Hash x))"
proof -
  let ?M = "hs_mem (AddHeads ord depth new st)"
  have ord: "permutes_maps ord" using assms(1) by (simp add: permutes_maps_def)
  have m: "?M (Hash h) = Some h" by (rule AddHeads_mem_heads [OF ord assms(3)])
  obtain hs where hs: "chain_path ?M h hs"
    using descending_path [OF AddHeads_descending [OF ord assms(2)] m] by blast
  obtain t where t: "hs = h # t" using chain_path_nonempty [OF hs] by blast
  have ns: "no_self ?M" by (rule AddHeads_no_self [OF ord])
  then have nh: "Parent h \<noteq> Some (Hash h)" using m unfolding no_self_def by blast
  have "\<And>p x q. ?M p = Some x \<Longrightarrow> Hash x = p \<and> (Parent x = Some q \<longrightarrow> q = ParentHash x)"
    using AddHeads_mem [OF ord] by blast
  from chain_path_linked [OF hs this] this [OF m]
  have "successively (\<lambda>a b. ParentHash a = Hash b) hs" by blast
  moreover have "ChainHashes ?M h = Some (Inr (map Hash hs))"
    using chainHashesLoop_path [OF hs ns nh, of "[]"] by (simp add: ChainHashes_def)
  ultimately show ?thesis unfolding Let_def
    using EarliestInChain_path [OF hs] ChainLength_path [OF hs ns nh] IsInChain_path [OF hs] HashAtHeight_path [OF hs] t
    by (intro exI [of _ hs]) simp
qed

lemma AddHeads3:
  "hs_heads (AddHeads id 3 [mk_head 1 11 10, mk_head 2 12 11, mk_head 3 13 12] NewHeads) =
   [(mk_head 3 13 12)\<lparr>Parent := Some 12\<rparr>, (mk_head 2 12 11)\<lparr>Parent := Some 11\<rparr>, mk_head 1 11 10]"
  by (simp add: AddHeads_def NewHeads_def headsMap_def addHead_def mk_head_def NewHead_def assignParents_def
      assignParent_def is_i64_def min_i64_def max_i64_def)

theorem AddHeads_chains_finite_witness:
  "\<exists>h. h \<in> set (hs_heads (AddHeads id 3 [mk_head 1 11 10, mk_head 2 12 11, mk_head 3 13 12] NewHeads)) \<and>
     Number h = 3 \<and>
     EarliestInChain (hs_mem (AddHeads id 3 [mk_head 1 11 10, mk_head 2 12 11, mk_head 3 13 12] NewHeads)) h \<noteq> None"
proof -
  let ?h = "(mk_head 3 13 12)\<lparr>Parent := Some 12\<rparr>"
  have n: "numbered (hs_heads NewHeads @ [mk_head 1 11 10, mk_head 2 12 11, mk_head 3 13 12])"
    by (simp add: numbered_def NewHeads_def mk_head_def NewHead_def is_i64_def min_i64_def max_i64_def)
  have "?h \<in> set (hs_heads (AddHeads id 3 [mk_head 1 11 10, mk_head 2 12 11, mk_head 3 13 12] NewHeads))"
    by (simp add: AddHeads3)
  from AddHeads_chains_finite [OF _ n this] this show ?thesis
    by (intro exI [of _ ?h]) (auto simp: Let_def mk_head_def NewHead_def is_i64_def min_i64_def max_i64_def)
qed

text \<open>Only a head that is its own parent is rejected: two heads that name each other as parent, and
  any third lower head, make chains whose loops never return, the chain length that is read for
  every new head included.\<close>
theorem AddHeads_cycle_diverges:
  "let st = AddHeads id 3 [mk_head 3 13 12, mk_head 2 12 13, mk_head 1 11 10] NewHeads in
    (\<exists>h. LatestHead st = Some h \<and> Number h = 3 \<and> EarliestInChain (hs_mem st) h = None \<and>
      ChainLength (hs_mem st) (Some h) = None)"
proof -
  let ?st = "AddHeads id 3 [mk_head 3 13 12, mk_head 2 12 13, mk_head 1 11 10] NewHeads"
  let ?a = "(mk_head 3 13 12)\<lparr>Parent := Some 12\<rparr>"
  let ?b = "(mk_head 2 12 13)\<lparr>Parent := Some 13\<rparr>"
  let ?M = "hs_mem ?st"
  have hs: "hs_heads ?st = [?a, ?b, mk_head 1 11 10]"
    by (simp add: AddHeads_def NewHeads_def headsMap_def addHead_def mk_head_def NewHead_def assignParents_def
        assignParent_def is_i64_def min_i64_def max_i64_def)
  have ord: "permutes_maps id" by (simp add: permutes_maps_def)
  have "?a \<in> set (hs_heads ?st)" "?b \<in> set (hs_heads ?st)" by (simp_all add: hs)
  then have "?M (Hash ?a) = Some ?a" "?M (Hash ?b) = Some ?b" using AddHeads_mem_heads [OF ord] by blast+
  note Ma = \<open>?M (Hash ?a) = Some ?a\<close>
  from \<open>?M (Hash ?a) = Some ?a\<close> \<open>?M (Hash ?b) = Some ?b\<close> have M: "?M 13 = Some ?a" "?M 12 = Some ?b" by (simp_all add: mk_head_def NewHead_def)
  have no_path: "\<not> chain_path ?M ?a hs" for hs
    by (rule cycle_no_path [OF _ M(2) _ M(1)]) simp_all
  have "EarliestInChain ?M ?a = None" using EarliestInChain_Some no_path by (metis option.exhaust)
  moreover have "chainLengthLoop ?M 1 ?a \<noteq> Some r" for r
  proof
    assume e: "chainLengthLoop ?M 1 ?a = Some r"
    obtain hs where "chain_path ?M ?a hs"
      using chainLengthLoop_Some [OF e chainLengthLoop_no_panic [OF e AddHeads_no_self [OF ord] Ma]] ..
    then show False using no_path [of hs] by contradiction
  qed
  then have "ChainLength ?M (Some ?a) = None"
    by (rule ChainLength_None)
  moreover have "LatestHead ?st = Some ?a" by (simp add: LatestHead_def hs)
  moreover have "Number ?a = 3" by (simp add: mk_head_def NewHead_def is_i64_def min_i64_def max_i64_def)
  ultimately show ?thesis unfolding Let_def by blast
qed

end
