(* ===== verification/Mailbox.thy ===== *)
theory Mailbox
  imports Go_Prelude "HOL-Library.Sublist"
begin

text \<open>
  The mailbox through which services hand items to their worker goroutine
  (\<^verbatim>\<open>core/utils/mailbox.go\<close>): a queue that drops its oldest item when it is over capacity, and a
  notification channel of capacity one. The contract \<open>bounded_fifo\<close> is what the head tracker, the
  head broadcaster and the block history estimator rely on; the lemmas about delivering a
  sequence of items and draining are proved from the contract alone, and the code's mailbox is
  shown to provide it. The worker loops are a step relation between senders and one receiver;
  its invariant is that no delivered item is left waiting without a notification.
\<close>

section \<open>The mailbox\<close>

text \<open>The queue has the newest item first; a length is below \<open>2^63\<close>, so \<^verbatim>\<open>uint64(len(..))\<close> is exact. \<open>chNotify\<close> tells that the channel holds its one element.\<close>

record 'a mailbox =
  chNotify :: bool
  mb_queue :: "'a list"
  mb_capacity :: u64

definition NewMailbox :: "u64 \<Rightarrow> 'a mailbox" where
  "NewMailbox capacity = \<lparr>chNotify = False, mb_queue = [], mb_capacity = capacity\<rparr>"

definition NewHighCapacityMailbox :: "'a mailbox" where
  "NewHighCapacityMailbox = NewMailbox 100000"

definition Deliver :: "'a \<Rightarrow> 'a mailbox \<Rightarrow> 'a mailbox \<times> bool" where
  "Deliver x m =
    (let queue = x # mb_queue m;
         over = length queue > unat (mb_capacity m) \<and> mb_capacity m > 0;
         queue' = (if over then butlast queue else queue)
     in (m\<lparr>mb_queue := queue', chNotify := True\<rparr>, over))"

definition Retrieve :: "'a mailbox \<Rightarrow> 'a mailbox \<times> 'a option" where
  "Retrieve m = (if mb_queue m = [] then (m, None)
     else (m\<lparr>mb_queue := butlast (mb_queue m)\<rparr>, Some (last (mb_queue m))))"

text \<open>\<^verbatim>\<open>RetrieveAll\<close> reverses the queue in place, by swapping from both ends.\<close>

function swap_ends :: "'a list \<Rightarrow> nat \<Rightarrow> nat \<Rightarrow> 'a list" where
  "swap_ends queue i j = (if i < j then swap_ends (queue[i := queue ! j, j := queue ! i]) (Suc i) (j - 1) else queue)"
  by pat_completeness auto
termination by (relation "measure (\<lambda>(queue, i, j). j - i)") auto

declare swap_ends.simps [simp del]

definition RetrieveAll :: "'a mailbox \<Rightarrow> 'a mailbox \<times> 'a list" where
  "RetrieveAll m = (m\<lparr>mb_queue := []\<rparr>, swap_ends (mb_queue m) 0 (length (mb_queue m) - 1))"

definition RetrieveLatestAndClear :: "'a mailbox \<Rightarrow> 'a mailbox \<times> 'a option" where
  "RetrieveLatestAndClear m = (case mb_queue m of
     [] \<Rightarrow> (m, None)
   | x # _ \<Rightarrow> (m\<lparr>mb_queue := []\<rparr>, Some x))"

text \<open>The consumers' loop \<^verbatim>\<open>for { item, exists := mb.Retrieve(); if !exists { break }; ... }\<close>:
  the mailbox it leaves and the items it handled, in order.\<close>

function drain :: "'a mailbox \<Rightarrow> 'a mailbox \<times> 'a list" where
  "drain m = (case Retrieve m of
     (m', None) \<Rightarrow> (m', [])
   | (m', Some x) \<Rightarrow> (let (m'', xs) = drain m' in (m'', x # xs)))"
  by pat_completeness auto
termination
  by (relation "measure (\<lambda>m. length (mb_queue m))") (auto simp: Retrieve_def split: if_splits)

declare drain.simps [simp del]

section \<open>The contract of a bounded first-in first-out queue\<close>

text \<open>\<open>keep_last cap xs\<close> is \<open>xs\<close> without its oldest items beyond the capacity; 0 is no bound.\<close>

definition keep_last :: "nat \<Rightarrow> 'a list \<Rightarrow> 'a list" where
  "keep_last cap xs = (if cap = 0 then xs else drop (length xs - cap) xs)"

locale bounded_fifo =
  fixes ok :: "'m \<Rightarrow> bool" and bound :: "'m \<Rightarrow> nat" and waiting :: "'m \<Rightarrow> 'a list"
    and deliver :: "'a \<Rightarrow> 'm \<Rightarrow> 'm \<times> bool" and retrieve :: "'m \<Rightarrow> 'm \<times> 'a option"
  assumes deliver_ok: "ok m \<Longrightarrow> ok (fst (deliver x m))"
    and retrieve_ok: "ok m \<Longrightarrow> ok (fst (retrieve m))"
    and deliver_bound: "bound (fst (deliver x m)) = bound m"
    and retrieve_bound: "bound (fst (retrieve m)) = bound m"
    and deliver_waiting: "ok m \<Longrightarrow> waiting (fst (deliver x m)) = keep_last (bound m) (waiting m @ [x])"
    and retrieve_waiting: "waiting (fst (retrieve m)) = tl (waiting m)"
    and retrieve_first: "snd (retrieve m) = (case waiting m of [] \<Rightarrow> None | x # _ \<Rightarrow> Some x)"
begin

definition deliver_all :: "'a list \<Rightarrow> 'm \<Rightarrow> 'm" where
  "deliver_all xs m = fold (\<lambda>x m. fst (deliver x m)) xs m"

lemma keep_last_keep_last: "keep_last c (keep_last c xs @ ys) = keep_last c (xs @ ys)"
proof (cases "length xs \<le> c")
  case False
  then have "length ys + c + (length xs - c) = length xs + length ys" by simp
  then show ?thesis using False by (auto simp: keep_last_def add.commute)
qed (simp add: keep_last_def)

lemma deliver_all_waiting:
  "ok m \<Longrightarrow> ok (deliver_all xs m) \<and> bound (deliver_all xs m) = bound m \<and>
   (xs \<noteq> [] \<longrightarrow> waiting (deliver_all xs m) = keep_last (bound m) (waiting m @ xs))"
proof (induction xs arbitrary: m)
  case (Cons x xs)
  let ?m = "fst (deliver x m)"
  have "ok ?m" using Cons.prems by (rule deliver_ok)
  note IH = Cons.IH [OF this]
  have "deliver_all (x # xs) m = deliver_all xs ?m" by (simp add: deliver_all_def)
  with IH show ?case using deliver_waiting [OF Cons.prems, of x]
    by (cases "xs = []") (simp_all add: deliver_bound deliver_all_def keep_last_keep_last)
qed (simp add: deliver_all_def)

text \<open>The newest item is never the one dropped.\<close>

lemma latest_kept:
  assumes "ok m" and "xs \<noteq> []"
  shows "waiting (deliver_all xs m) \<noteq> [] \<and> last (waiting (deliver_all xs m)) = last xs"
proof -
  have w: "waiting (deliver_all xs m) = keep_last (bound m) (waiting m @ xs)"
    using deliver_all_waiting [OF assms(1)] assms(2) by blast
  have "\<not> length xs \<le> length xs - bound m" if "bound m \<noteq> 0" using that assms(2) by (cases xs) auto
  then show ?thesis using assms(2) by (cases "bound m = 0") (simp_all add: w keep_last_def last_append last_drop)
qed

lemma retrieve_some:
  "waiting m = x # xs \<Longrightarrow> snd (retrieve m) = Some x \<and> waiting (fst (retrieve m)) = xs"
  by (simp add: retrieve_first retrieve_waiting)

end

definition mb_waiting :: "'a mailbox \<Rightarrow> 'a list" where
  "mb_waiting m = rev (mb_queue m)"

definition mb_ok :: "'a mailbox \<Rightarrow> bool" where
  "mb_ok m \<longleftrightarrow> mb_capacity m = 0 \<or> length (mb_queue m) \<le> unat (mb_capacity m)"

lemma Deliver_waiting:
  assumes "mb_ok m"
  shows "mb_waiting (fst (Deliver x m)) = keep_last (unat (mb_capacity m)) (mb_waiting m @ [x])"
proof (cases "mb_capacity m = 0")
  case False
  then have c: "unat (mb_capacity m) \<noteq> 0" by (simp add: unat_eq_0)
  have le: "length (mb_queue m) \<le> unat (mb_capacity m)" using assms False by (simp add: mb_ok_def)
  have "rev (butlast (x # mb_queue m)) = tl (rev (x # mb_queue m))"
    by (metis butlast_rev rev_rev_ident)
  moreover have "mb_queue m \<noteq> []" if "length (mb_queue m) = unat (mb_capacity m)" using that c by auto
  ultimately show ?thesis using c le False
    by (cases "length (mb_queue m) = unat (mb_capacity m)")
      (auto simp: Deliver_def mb_waiting_def keep_last_def Let_def word_gt_0 drop_Suc Suc_diff_le tl_append2)
qed (simp add: Deliver_def mb_waiting_def keep_last_def Let_def)

interpretation mb: bounded_fifo mb_ok "\<lambda>m. unat (mb_capacity m)" mb_waiting Deliver Retrieve
proof
  fix m :: "'a mailbox" and x
  show "mb_ok m \<Longrightarrow> mb_ok (fst (Deliver x m))"
    by (auto simp: mb_ok_def Deliver_def Let_def word_gt_0)
  show "mb_ok m \<Longrightarrow> mb_ok (fst (Retrieve m))"
    by (auto simp: mb_ok_def Retrieve_def)
  show "mb_ok m \<Longrightarrow> mb_waiting (fst (Deliver x m)) = keep_last (unat (mb_capacity m)) (mb_waiting m @ [x])"
    by (rule Deliver_waiting)
  show "mb_waiting (fst (Retrieve m)) = tl (mb_waiting m)"
    by (simp add: mb_waiting_def Retrieve_def) (metis butlast_rev rev_rev_ident)
  show "snd (Retrieve m) = (case mb_waiting m of [] \<Rightarrow> None | x # _ \<Rightarrow> Some x)"
    by (cases "mb_queue m" rule: rev_cases) (simp_all add: mb_waiting_def Retrieve_def)
qed (simp_all add: Deliver_def Retrieve_def Let_def)

lemma NewMailbox_ok [simp]: "mb_ok (NewMailbox c)" "mb_waiting (NewMailbox c) = []" "mb_capacity (NewMailbox c) = c"
  by (simp_all add: NewMailbox_def mb_ok_def mb_waiting_def)

lemma drain_all: "snd (drain m) = mb_waiting m \<and> mb_waiting (fst (drain m)) = []"
proof (induction m rule: drain.induct)
  case (1 m)
  show ?case
  proof (cases "mb_waiting m")
    case Nil
    then show ?thesis by (subst (1 2) drain.simps) (simp add: mb_waiting_def Retrieve_def)
  next
    case (Cons x xs)
    obtain m' where r: "Retrieve m = (m', Some x)" using mb.retrieve_some [OF Cons] by (metis prod.collapse)
    have "mb_waiting m' = xs" using mb.retrieve_some [OF Cons] r by simp
    with 1 [OF r [symmetric] refl] r Cons show ?thesis
      by (subst (1 2) drain.simps) (simp add: split_beta Let_def)
  qed
qed

lemma length_swap_ends [simp]: "length (swap_ends q i j) = length q"
  by (induction q i j rule: swap_ends.induct) (subst swap_ends.simps, simp)

lemma nth_swap_ends:
  "j < length q \<Longrightarrow> k < length q \<Longrightarrow>
   swap_ends q i j ! k = (if i \<le> k \<and> k \<le> j then q ! (i + j - k) else q ! k)"
proof (induction q i j rule: swap_ends.induct)
  case (1 q i j)
  show ?case
  proof (cases "i < j")
    case True
    let ?q = "q[i := q ! j, j := q ! i]"
    have "swap_ends q i j = swap_ends ?q (Suc i) (j - 1)" using True by (subst swap_ends.simps) simp
    with 1(1) [OF True] 1(2,3) True show ?thesis
      by (cases "k = i"; cases "k = j") (auto simp: nth_list_update)
  next
    case False
    then have "swap_ends q i j = q" by (subst swap_ends.simps) simp
    with False show ?thesis by (cases "k = i") auto
  qed
qed

lemma swap_ends_rev: "swap_ends q 0 (length q - 1) = rev q"
proof (cases "q = []")
  case False
  then show ?thesis by (intro nth_equalityI) (auto simp: nth_swap_ends rev_nth)
qed (subst swap_ends.simps, simp)

lemma RetrieveAll_waiting: "snd (RetrieveAll m) = mb_waiting m"
  using swap_ends_rev [of "mb_queue m"] by (simp add: RetrieveAll_def mb_waiting_def)

lemma RetrieveLatest_waiting:
  "snd (RetrieveLatestAndClear m) = (if mb_waiting m = [] then None else Some (last (mb_waiting m)))"
  by (simp add: RetrieveLatestAndClear_def mb_waiting_def split: list.split)

section \<open>Senders and one receiver\<close>

text \<open>
  The receiver sleeps on the notification channel and drains the queue when woken (the loops of
  \<^verbatim>\<open>headtracker.backfillLoop\<close>, \<^verbatim>\<open>broadcastLoop\<close>); senders deliver at any moment in between.
\<close>

record 'a box_worker =
  bw_box :: "'a mailbox"
  bw_awake :: bool
  bw_handled :: "'a list"
  bw_sent :: "'a list"

inductive box_step :: "'a box_worker \<Rightarrow> 'a box_worker \<Rightarrow> bool" where
  send: "box_step w (w\<lparr>bw_box := fst (Deliver x (bw_box w)), bw_sent := bw_sent w @ [x]\<rparr>)"
| wake: "\<not> bw_awake w \<Longrightarrow> chNotify (bw_box w) \<Longrightarrow>
    box_step w (w\<lparr>bw_box := (bw_box w)\<lparr>chNotify := False\<rparr>, bw_awake := True\<rparr>)"
| handle: "bw_awake w \<Longrightarrow> Retrieve (bw_box w) = (b, Some x) \<Longrightarrow>
    box_step w (w\<lparr>bw_box := b, bw_handled := bw_handled w @ [x]\<rparr>)"
| rest: "bw_awake w \<Longrightarrow> Retrieve (bw_box w) = (b, None) \<Longrightarrow> box_step w (w\<lparr>bw_box := b, bw_awake := False\<rparr>)"

inductive_cases box_stepE: "box_step w w'"

definition box_start :: "u64 \<Rightarrow> 'a box_worker" where
  "box_start c = \<lparr>bw_box = NewMailbox c, bw_awake = False, bw_handled = [], bw_sent = []\<rparr>"

text \<open>The handled and the waiting items, in order, are some of the sent ones; the newest sent item
  is among them, at the end; and the receiver of waiting items is awake or about to be woken.\<close>

definition box_inv :: "'a box_worker \<Rightarrow> bool" where
  "box_inv w \<longleftrightarrow> mb_ok (bw_box w) \<and>
     subseq (bw_handled w @ mb_waiting (bw_box w)) (bw_sent w) \<and>
     (bw_sent w \<noteq> [] \<longrightarrow> bw_handled w @ mb_waiting (bw_box w) \<noteq> [] \<and>
        last (bw_handled w @ mb_waiting (bw_box w)) = last (bw_sent w)) \<and>
     (mb_waiting (bw_box w) \<noteq> [] \<longrightarrow> chNotify (bw_box w) \<or> bw_awake w)"

lemma keep_last_snoc: "\<exists>ys. keep_last c (xs @ [x]) = ys @ [x] \<and> subseq ys xs"
  by (cases c) (auto simp: keep_last_def intro!: suffix_imp_subseq suffix_drop)

lemma box_inv_step: "box_step w w' \<Longrightarrow> box_inv w \<Longrightarrow> box_inv w'"
proof (induction rule: box_step.induct)
  case (send w x)
  let ?b = "fst (Deliver x (bw_box w))"
  have ok: "mb_ok (bw_box w)" using send by (simp add: box_inv_def)
  obtain ys where "mb_waiting ?b = ys @ [x]" and "subseq ys (mb_waiting (bw_box w))"
    using Deliver_waiting [OF ok, of x] keep_last_snoc by metis
  moreover have "subseq (bw_handled w @ mb_waiting (bw_box w)) (bw_sent w)" using send by (simp add: box_inv_def)
  ultimately have "subseq ((bw_handled w @ ys) @ [x]) (bw_sent w @ [x])"
    by (meson list_emb_append_mono subseq_order.refl subseq_order.trans)
  moreover have "chNotify ?b" by (simp add: Deliver_def Let_def)
  ultimately show ?case using mb.deliver_ok [OF ok, of x] \<open>mb_waiting ?b = ys @ [x]\<close> by (simp add: box_inv_def)
next
  case (wake w)
  then show ?case by (simp add: box_inv_def mb_ok_def mb_waiting_def)
next
  case (handle w b x)
  have "mb_waiting (bw_box w) = x # mb_waiting b"
    using mb.retrieve_first [of "bw_box w"] mb.retrieve_waiting [of "bw_box w"] handle(2) by (simp split: list.splits)
  moreover have "mb_ok b" using mb.retrieve_ok [of "bw_box w"] handle by (simp add: box_inv_def)
  ultimately show ?case using handle by (simp add: box_inv_def)
next
  case (rest w b)
  then have "mb_waiting (bw_box w) = []" and "b = bw_box w"
    by (auto simp: Retrieve_def mb_waiting_def split: if_splits)
  with rest show ?case by (simp add: box_inv_def)
qed

lemma box_inv_reachable: "box_step\<^sup>*\<^sup>* (box_start c) w \<Longrightarrow> box_inv w"
  by (induction rule: rtranclp_induct) (simp add: box_inv_def box_start_def, rule box_inv_step)

section \<open>Properties\<close>

text \<open>C25: Items delivered to a fresh mailbox come out in delivery order, whole when the capacity is 0
  and without the oldest ones beyond the capacity otherwise, whether they are drained one by one
  or all at once; the latest one is never dropped.\<close>
theorem mailbox_delivers_newest:
  assumes "xs \<noteq> []"
  shows "let m = fold (\<lambda>x m. fst (Deliver x m)) xs (NewMailbox c) in
    snd (drain m) = keep_last (unat c) xs \<and> snd (RetrieveAll m) = keep_last (unat c) xs \<and>
    snd (RetrieveLatestAndClear m) = Some (last xs) \<and> mb_queue (fst (drain m)) = []"
proof -
  let ?m = "mb.deliver_all xs (NewMailbox c)"
  have "mb_waiting ?m = keep_last (unat c) xs" using mb.deliver_all_waiting [of "NewMailbox c" xs] assms by simp
  moreover have "mb_waiting ?m \<noteq> [] \<and> last (mb_waiting ?m) = last xs"
    using mb.latest_kept [of "NewMailbox c" xs] assms by simp
  ultimately show ?thesis
    using drain_all [of ?m] RetrieveAll_waiting [of ?m] RetrieveLatest_waiting [of ?m]
    by (simp add: mb.deliver_all_def mb_waiting_def)
qed

theorem mailbox_delivers_newest_witness:
  "snd (drain (fold (\<lambda>x m. fst (Deliver x m)) [1::int, 2, 3] (NewMailbox 2))) = [2, 3]"
  using mailbox_delivers_newest [of "[1::int, 2, 3]" 2] by (simp add: keep_last_def Let_def)

text \<open>C26: Whatever the interleaving of the senders with the receiver's loop, the items handled and
  still waiting are in the order they were sent, the newest item is handled or waiting, and a
  receiver that sleeps while items wait has a notification pending.\<close>
theorem mailbox_no_lost_wakeup:
  assumes "box_step\<^sup>*\<^sup>* (box_start c) w"
  shows "subseq (bw_handled w @ mb_waiting (bw_box w)) (bw_sent w) \<and>
    (bw_sent w \<noteq> [] \<longrightarrow> last (bw_sent w) \<in> set (bw_handled w @ mb_waiting (bw_box w))) \<and>
    (mb_waiting (bw_box w) \<noteq> [] \<and> \<not> bw_awake w \<longrightarrow> (\<exists>w'. box_step w w' \<and> bw_awake w'))"
proof -
  have inv: "box_inv w" using assms by (rule box_inv_reachable)
  then have "\<exists>w'. box_step w w' \<and> bw_awake w'" if "mb_waiting (bw_box w) \<noteq> []" "\<not> bw_awake w"
    using that box_step.wake [of w] by (intro exI conjI, assumption?) (auto simp: box_inv_def)
  with inv show ?thesis unfolding box_inv_def by (metis last_in_set)
qed

theorem mailbox_no_lost_wakeup_witness:
  "\<exists>w :: int box_worker. box_step\<^sup>*\<^sup>* (box_start 1) w \<and> bw_sent w = [7] \<and> (\<exists>w'. box_step w w' \<and> bw_awake w')"
proof -
  let ?w = "(box_start 1)\<lparr>bw_box := fst (Deliver (7::int) (NewMailbox 1)), bw_sent := [7]\<rparr>"
  have "box_step (box_start 1) ?w" using box_step.send [of "box_start 1" "7::int"] by (simp add: box_start_def)
  then have r: "box_step\<^sup>*\<^sup>* (box_start 1) ?w" by (rule r_into_rtranclp)
  from mailbox_no_lost_wakeup [OF r] have "\<exists>w'. box_step ?w w' \<and> bw_awake w'"
    by (simp add: mb_waiting_def Deliver_def NewMailbox_def box_start_def)
  with r show ?thesis by (intro exI [of _ ?w]) simp
qed

end
