(* ===== verification/Block_History.thy ===== *)
theory Block_History
  imports Gas_Bump Head_Chain Mailbox
begin

text \<open>
  The block history estimator (\<^verbatim>\<open>core/chains/evm/gas/block_history_estimator.go\<close>): it keeps the
  latest blocks, fetched from the node in batches and refetched after a reorganisation, sets the
  gas price and tip cap to a percentile of the prices paid in them, and refuses to bump a transaction
  that was priced high enough to be included.

  What the node answers to a batch request is a parameter. Following the parents of a head may not
  return (theory \<open>Head_Chain\<close>), then neither does the fetch: \<open>None\<close>. Metrics and logging are left out.
\<close>

section \<open>Blocks and the estimator's state\<close>

record transaction =
  tx_GasPrice :: "wei option"
  tx_GasLimit :: u32
  MaxFeePerGas :: "wei option"
  MaxPriorityFeePerGas :: "wei option"
  tx_Type :: "8 word"
  tx_Hash :: hash

record block =
  blk_Number :: int
  blk_Hash :: hash
  blk_ParentHash :: hash
  blk_BaseFeePerGas :: "wei option"
  blk_Timestamp :: int
  Transactions :: "transaction list"

record bhe =
  blocks :: "block list"
  bhe_size :: int
  gasPrice :: "wei option"
  tipCap :: "wei option"
  latest :: "head option"
  initialFetch :: bool
  bhe_started :: bool
  bhe_mb :: "chain mailbox"

definition NewBlockHistoryEstimator :: "gas_config \<Rightarrow> bhe" where
  "NewBlockHistoryEstimator cfg =
    \<lparr>blocks = [], bhe_size = max (uint (BlockHistorySize cfg)) (uint (CheckInclusionBlocks cfg)),
     gasPrice = None, tipCap = None, latest = None, initialFetch = False, bhe_started = False,
     bhe_mb = NewMailbox 1\<rparr>"

definition setLatest :: "head \<Rightarrow> bhe \<Rightarrow> bhe" where
  "setLatest head b = b\<lparr>latest := Some head\<rparr>"

definition getCurrentBaseFee :: "bhe \<Rightarrow> wei option" where
  "getCurrentBaseFee b = (case latest b of None \<Rightarrow> None | Some h \<Rightarrow> BaseFeePerGas h)"

definition getCurrentBlockNum :: "bhe \<Rightarrow> int option" where
  "getCurrentBlockNum b = (case latest b of None \<Rightarrow> None | Some h \<Rightarrow> Some (Number h))"

definition OnNewLongestChain :: "chain \<Rightarrow> bhe \<Rightarrow> bhe" where
  "OnNewLongestChain c b = (let b' = setLatest (snd c) b in b'\<lparr>bhe_mb := fst (Deliver c (bhe_mb b'))\<rparr>)"

section \<open>Prices of transactions\<close>

definition verifyBlock :: "block \<Rightarrow> bool \<Rightarrow> bool" where
  "verifyBlock block eip1559 \<longleftrightarrow> \<not> (eip1559 \<and> blk_BaseFeePerGas block = None)"

definition chainSpecificIsUsable :: "transaction \<Rightarrow> gas_config \<Rightarrow> bool" where
  "chainSpecificIsUsable tx cfg \<longleftrightarrow>
    \<not> (ChainIsXDai cfg \<and> (case tx_GasPrice tx of None \<Rightarrow> False | Some p \<Rightarrow> p < EvmMinGasPriceWei cfg))"

definition isUsable :: "transaction \<Rightarrow> gas_config \<Rightarrow> bool" where
  "isUsable tx cfg \<longleftrightarrow>
    (if tx_GasLimit tx = 0 then False
     else if tx_GasPrice tx = None \<and> tx_Type tx = 0 then False
     else chainSpecificIsUsable tx cfg)"

definition EffectiveGasPrice :: "block \<Rightarrow> transaction \<Rightarrow> wei option" where
  "EffectiveGasPrice block tx =
    (if tx_Type tx = 0 \<or> tx_Type tx = 1 then tx_GasPrice tx
     else if tx_Type tx = 2 then
       (case (blk_BaseFeePerGas block, MaxPriorityFeePerGas tx, MaxFeePerGas tx) of
          (Some baseFee, Some maxPriority, Some maxFee) \<Rightarrow>
            if maxFee < baseFee then None
            else if maxFee < maxPriority then None
            else if tx_GasPrice tx \<noteq> None then tx_GasPrice tx
            else (let maxFeeMinusBaseFee = maxFee - baseFee;
                      priorityFeePerGas = (if maxFeeMinusBaseFee < maxPriority then maxFeeMinusBaseFee else maxPriority)
                  in Some (priorityFeePerGas + baseFee))
        | _ \<Rightarrow> tx_GasPrice tx)
     else None)"

definition EffectiveTipCap :: "block \<Rightarrow> transaction \<Rightarrow> wei option" where
  "EffectiveTipCap block tx =
    (if tx_Type tx = 2 then MaxPriorityFeePerGas tx
     else if tx_Type tx = 0 \<or> tx_Type tx = 1 then
       (case tx_GasPrice tx of
          None \<Rightarrow> None
        | Some p \<Rightarrow> (case blk_BaseFeePerGas block of
            None \<Rightarrow> None
          | Some baseFee \<Rightarrow> (let effectiveTipCap = p - baseFee in if effectiveTipCap < 0 then None else Some effectiveTipCap)))
     else None)"

text \<open>One transaction appends to the gas prices and, in EIP-1559 mode, to the tip caps.\<close>

definition addTxPrices :: "gas_config \<Rightarrow> bool \<Rightarrow> block \<Rightarrow> transaction \<Rightarrow> wei list \<times> wei list \<Rightarrow> wei list \<times> wei list" where
  "addTxPrices cfg eip1559 block tx acc = (case acc of (gasPrices, tipCaps) \<Rightarrow>
    if isUsable tx cfg then
      (case EffectiveGasPrice block tx of
         None \<Rightarrow> (gasPrices, tipCaps)
       | Some gp \<Rightarrow>
           if eip1559 then
             (case EffectiveTipCap block tx of
                None \<Rightarrow> (gasPrices @ [gp], tipCaps)
              | Some tc \<Rightarrow> (gasPrices @ [gp], tipCaps @ [tc]))
           else (gasPrices @ [gp], tipCaps))
    else (gasPrices, tipCaps))"

definition getPercentilePricesFromBlocks :: "gas_config \<Rightarrow> block list \<Rightarrow> bool \<Rightarrow> wei list \<times> wei list" where
  "getPercentilePricesFromBlocks cfg bs eip1559 =
    fold (\<lambda>block. fold (addTxPrices cfg eip1559 block) (Transactions block)) bs ([], [])"

definition percentileOf :: "wei list \<Rightarrow> nat \<Rightarrow> gas_error + wei" where
  "percentileOf prices percentile =
    (let i = ((length prices - 1) * percentile) div 100
     in if i < length prices then Inr (sort prices ! i) else Inl IndexOutOfRange)"

text \<open>The two callbacks only export metrics.\<close>

definition calculatePercentilePrices :: "gas_config \<Rightarrow> block list \<Rightarrow> nat \<Rightarrow> bool \<Rightarrow> gas_error + wei \<times> wei option" where
  "calculatePercentilePrices cfg bs percentile eip1559 =
    (case getPercentilePricesFromBlocks cfg bs eip1559 of (gasPrices, tipCaps) \<Rightarrow>
       if length gasPrices = 0 then Inl ErrNoSuitableTransactions
       else (case percentileOf gasPrices percentile of
               Inl e \<Rightarrow> Inl e
             | Inr gp \<Rightarrow>
                 if \<not> eip1559 then Inr (gp, None)
                 else if length tipCaps = 0 then Inl ErrNoSuitableTransactions
                 else (case percentileOf tipCaps percentile of
                         Inl e \<Rightarrow> Inl e
                       | Inr tc \<Rightarrow> Inr (gp, Some tc))))"

definition setPercentileTipCap :: "gas_config \<Rightarrow> wei \<Rightarrow> bhe \<Rightarrow> bhe" where
  "setPercentileTipCap cfg tc b =
    (if tc > EvmMaxGasPriceWei cfg then b\<lparr>tipCap := Some (EvmMaxGasPriceWei cfg)\<rparr>
     else if tc < EvmGasTipCapMinimum cfg then b\<lparr>tipCap := Some (EvmGasTipCapMinimum cfg)\<rparr>
     else b\<lparr>tipCap := Some tc\<rparr>)"

definition setPercentileGasPrice :: "gas_config \<Rightarrow> wei \<Rightarrow> bhe \<Rightarrow> bhe" where
  "setPercentileGasPrice cfg gp b =
    (if gp > EvmMaxGasPriceWei cfg then b\<lparr>gasPrice := Some (EvmMaxGasPriceWei cfg)\<rparr>
     else if gp < EvmMinGasPriceWei cfg then b\<lparr>gasPrice := Some (EvmMinGasPriceWei cfg)\<rparr>
     else b\<lparr>gasPrice := Some gp\<rparr>)"

text \<open>A percentile above 100 can index past the prices: the panic is the only error that escapes.\<close>

definition Recalculate :: "gas_config \<Rightarrow> bhe \<Rightarrow> gas_error + bhe" where
  "Recalculate cfg b =
    (let percentile = unat (TransactionPercentile cfg); blockHistory = blocks b
     in if length blockHistory = 0 then Inr b
        else (let l = min (length blockHistory) (unat (BlockHistorySize cfg));
                  eip1559 = EvmEIP1559DynamicFees cfg
              in case calculatePercentilePrices cfg (take l blockHistory) percentile eip1559 of
                   Inl IndexOutOfRange \<Rightarrow> Inl IndexOutOfRange
                 | Inl _ \<Rightarrow> Inr b
                 | Inr (gp, tc) \<Rightarrow>
                     (let b' = setPercentileGasPrice cfg gp b
                      in case tc of None \<Rightarrow> Inr b' | Some t \<Rightarrow> Inr (setPercentileTipCap cfg t b'))))"

section \<open>Fetching blocks\<close>

datatype req_result = ReqError | ReqMissing | ReqWrongType | ReqNilBlock | ReqBlock block

datatype batch_answer = BatchOk "int \<Rightarrow> req_result" | BatchDeadline | BatchFailed

function batchLoop :: "nat \<Rightarrow> (int list \<Rightarrow> batch_answer) \<Rightarrow> int list \<Rightarrow> gas_error + (int \<times> req_result) list" where
  "batchLoop batchSize rpc reqs =
    (if reqs = [] \<or> batchSize = 0 then Inr []
     else (case rpc (take batchSize reqs) of
        BatchFailed \<Rightarrow> Inl ErrFetch
      | BatchDeadline \<Rightarrow> Inr (map (\<lambda>n. (n, ReqError)) reqs)
      | BatchOk f \<Rightarrow>
         (case batchLoop batchSize rpc (drop batchSize reqs) of
            Inl e \<Rightarrow> Inl e
          | Inr rs \<Rightarrow> Inr (map (\<lambda>n. (n, f n)) (take batchSize reqs) @ rs))))"
  by pat_completeness auto
termination by (relation "measure (\<lambda>(_, _, reqs). length reqs)") auto

declare batchLoop.simps [simp del]

definition batchFetch :: "gas_config \<Rightarrow> (int list \<Rightarrow> batch_answer) \<Rightarrow> int list \<Rightarrow> gas_error + (int \<times> req_result) list" where
  "batchFetch cfg rpc reqs =
    (let batchSize = unat (BatchSize cfg)
     in batchLoop (if batchSize = 0 then length reqs else batchSize) rpc reqs)"

type_synonym block_map = "(int \<times> block) list"

text \<open>The blocks of the history that are older than the head's chain, or in it.\<close>

fun keepBlocks :: "head_mem \<Rightarrow> head \<Rightarrow> block list \<Rightarrow> block_map \<Rightarrow> block_map option" where
  "keepBlocks M head [] m = Some m"
| "keepBlocks M head (b # bs) m =
    (case EarliestInChain M head of
       None \<Rightarrow> None
     | Some e \<Rightarrow>
         if blk_Number b < Number e then keepBlocks M head bs (AList.update (blk_Number b) b m)
         else (case IsInChain M head (blk_Hash b) of
                 None \<Rightarrow> None
               | Some True \<Rightarrow> keepBlocks M head bs (AList.update (blk_Number b) b m)
               | Some False \<Rightarrow> keepBlocks M head bs m))"

fun addResults :: "(int \<times> req_result) list \<Rightarrow> block_map \<Rightarrow> gas_error + block_map" where
  "addResults [] m = Inr m"
| "addResults ((n, r) # rs) m =
    (case r of
       ReqError \<Rightarrow> addResults rs m
     | ReqMissing \<Rightarrow> addResults rs m
     | ReqWrongType \<Rightarrow> Inl ErrResultType
     | ReqNilBlock \<Rightarrow> Inl ErrNilBlock
     | ReqBlock b \<Rightarrow>
         if blk_Hash b = 0 then addResults rs m else addResults rs (AList.update (blk_Number b) b m))"

text \<open>The map has one block per number, so sorting by number does not depend on its iteration order.\<close>

definition FetchBlocks :: "gas_config \<Rightarrow> (int list \<Rightarrow> batch_answer) \<Rightarrow> chain \<Rightarrow> bhe \<Rightarrow> (gas_error + bhe) option" where
  "FetchBlocks cfg rpc c b =
    (let blockDelay = uint (BlockDelay cfg); historySize = bhe_size b; head = snd c
     in if historySize \<le> 0 then Some (Inl ErrHistorySize)
        else (let highestBlockToFetch = wrap64 (Number head - blockDelay)
              in if highestBlockToFetch < 0 then Some (Inl ErrHeightBelowDelay)
                 else (let lowest = wrap64 (Number head - historySize - blockDelay + 1);
                           lowestBlockToFetch = (if lowest < 0 then 0 else lowest)
                       in case keepBlocks (fst c) head (blocks b) [] of
                            None \<Rightarrow> None
                          | Some m \<Rightarrow>
                             (let reqs = filter (\<lambda>i. map_of m i = None) (rev [lowestBlockToFetch..highestBlockToFetch])
                              in case batchFetch cfg rpc reqs of
                                   Inl e \<Rightarrow> Some (Inl e)
                                 | Inr results \<Rightarrow>
                                     (case addResults results m of
                                        Inl e \<Rightarrow> Some (Inl e)
                                      | Inr m' \<Rightarrow>
                                          (let newBlockHistory = sort_key blk_Number (map snd m')
                                           in Some (Inr (b\<lparr>blocks := drop (length newBlockHistory - nat historySize) newBlockHistory\<rparr>))))))))"

definition FetchBlocksAndRecalculate :: "gas_config \<Rightarrow> (int list \<Rightarrow> batch_answer) \<Rightarrow> chain \<Rightarrow> bhe \<Rightarrow> (gas_error + bhe) option" where
  "FetchBlocksAndRecalculate cfg rpc c b =
    (case FetchBlocks cfg rpc c b of
       None \<Rightarrow> None
     | Some (Inl _) \<Rightarrow> Some (Inr b)
     | Some (Inr b') \<Rightarrow> Some (Recalculate cfg (b'\<lparr>initialFetch := True\<rparr>)))"

text \<open>One round of the worker loop, after a notification.\<close>

definition runLoopRound :: "gas_config \<Rightarrow> (int list \<Rightarrow> batch_answer) \<Rightarrow> bhe \<Rightarrow> (gas_error + bhe) option" where
  "runLoopRound cfg rpc b =
    (case Retrieve (bhe_mb b) of
       (mb, None) \<Rightarrow> Some (Inr (b\<lparr>bhe_mb := mb\<rparr>))
     | (mb, Some head) \<Rightarrow> FetchBlocksAndRecalculate cfg rpc head (b\<lparr>bhe_mb := mb\<rparr>))"

text \<open>Starting: \<open>latestHead\<close> is the node's answer (with the chain it is given), \<open>ctxDone\<close> the start context at the end.\<close>

definition bhe_Start :: "gas_config \<Rightarrow> (int list \<Rightarrow> batch_answer) \<Rightarrow> chain option \<Rightarrow> bool \<Rightarrow> bhe \<Rightarrow> (gas_error + bhe) option" where
  "bhe_Start cfg rpc latestHead ctxDone b =
    (if BlockHistorySize cfg = 0 then Some (Inl ErrHistorySize)
     else (case (case latestHead of
                   None \<Rightarrow> Some (Inr b)
                 | Some c \<Rightarrow> FetchBlocksAndRecalculate cfg rpc c (setLatest (snd c) b)) of
             None \<Rightarrow> None
           | Some (Inl e) \<Rightarrow> Some (Inl e)
           | Some (Inr b') \<Rightarrow> if ctxDone then Some (Inl ErrFetch) else Some (Inr (b'\<lparr>bhe_started := True\<rparr>))))"

section \<open>Estimates and bumps\<close>

definition bhe_GetLegacyGas :: "gas_config \<Rightarrow> u32 \<Rightarrow> wei \<Rightarrow> bhe \<Rightarrow> gas_error + wei \<times> u32" where
  "bhe_GetLegacyGas cfg gasLimit userMax b =
    (if \<not> bhe_started b then Inl ErrNotStarted
     else (let chainSpecificGasLimit = applyMultiplier gasLimit (EvmGasLimitMultiplier cfg)
           in case gasPrice b of
                Some p \<Rightarrow> Inr (capGasPrice p userMax cfg, chainSpecificGasLimit)
              | None \<Rightarrow> if \<not> initialFetch b then Inl ErrNoInitialFetch
                        else Inr (capGasPrice (EvmGasPriceDefault cfg) userMax cfg, chainSpecificGasLimit)))"

definition bhe_GetDynamicFee :: "gas_config \<Rightarrow> u32 \<Rightarrow> wei \<Rightarrow> bhe \<Rightarrow> gas_error + dynamic_fee \<times> u32" where
  "bhe_GetDynamicFee cfg gasLimit userMax b =
    (if \<not> EvmEIP1559DynamicFees cfg then Inl ErrEIP1559Disabled
     else if \<not> bhe_started b then Inl ErrNotStarted
     else if tipCap b = None \<and> \<not> initialFetch b then Inl ErrNoInitialFetch
     else (let chainSpecificGasLimit = applyMultiplier gasLimit (EvmGasLimitMultiplier cfg);
               tip = (case tipCap b of Some t \<Rightarrow> Some t | None \<Rightarrow> EvmGasTipCapDefault cfg);
               maxGasPrice = getMaxGasPrice userMax cfg
           in if EvmGasBumpThreshold cfg = 0
              then Inr (\<lparr>FeeCap = Some maxGasPrice, TipCap = tip\<rparr>, chainSpecificGasLimit)
              else (case getCurrentBaseFee b of
                      None \<Rightarrow> Inl ErrNoBaseFee
                    | Some baseFee \<Rightarrow>
                        (case tip of
                           None \<Rightarrow> Inl NilDereference
                         | Some t \<Rightarrow> Inr (\<lparr>FeeCap = Some (calcFeeCap baseFee cfg t maxGasPrice), TipCap = Some t\<rparr>, chainSpecificGasLimit)))))"

record prior_attempt =
  GetGasPrice :: "wei option"
  att_DynamicFee :: dynamic_fee
  GetBroadcastBeforeBlockNum :: "int option"
  GetTxType :: int

text \<open>The loop over the checked blocks: whether the attempt's fee cap covers its tip cap and every base fee.\<close>

fun feeCapSuffices :: "dynamic_fee \<Rightarrow> block list \<Rightarrow> gas_error + bool" where
  "feeCapSuffices fee [] = Inr True"
| "feeCapSuffices fee (b # bs) =
    (case (FeeCap fee, TipCap fee, blk_BaseFeePerGas b) of
       (Some feeCap, Some tip, Some baseFee) \<Rightarrow>
         if feeCap < tip + baseFee then Inr False else feeCapSuffices fee bs
     | _ \<Rightarrow> Inl NilDereference)"

text \<open>Whether the attempt is priced above the percentile: \<open>NilDereference\<close> when a price it must have is missing.\<close>

definition attemptAbove :: "prior_attempt \<Rightarrow> bool \<Rightarrow> block list \<Rightarrow> wei \<times> wei option \<Rightarrow> gas_error + bool" where
  "attemptAbove attempt eip1559 bs prices = (case prices of (gp, tc) \<Rightarrow>
    if eip1559 then
      (case feeCapSuffices (att_DynamicFee attempt) bs of
         Inl e \<Rightarrow> Inl e
       | Inr False \<Rightarrow> Inr False
       | Inr True \<Rightarrow> (case (TipCap (att_DynamicFee attempt), tc) of
            (Some tip, Some t) \<Rightarrow> Inr (tip > t)
          | _ \<Rightarrow> Inl NilDereference))
    else (case GetGasPrice attempt of None \<Rightarrow> Inl NilDereference | Some p \<Rightarrow> Inr (p > gp)))"

text \<open>The blocks an attempt is checked against: from index \<open>l - 1\<close> of the history downwards.\<close>

definition checkedBlocks :: "block list \<Rightarrow> nat \<Rightarrow> int \<Rightarrow> block list" where
  "checkedBlocks blockHistory l broadcastBeforeBlockNum =
    takeWhile (\<lambda>b. blk_Number b \<ge> broadcastBeforeBlockNum) (rev (take l blockHistory))"

fun checkAttempts :: "gas_config \<Rightarrow> int \<Rightarrow> block list \<Rightarrow> nat \<Rightarrow> prior_attempt list \<Rightarrow> gas_error option" where
  "checkAttempts cfg latestBlockNum blockHistory l [] = None"
| "checkAttempts cfg latestBlockNum blockHistory l (attempt # attempts) =
    (case GetBroadcastBeforeBlockNum attempt of
       None \<Rightarrow> Some ErrBroadcastBeforeBlockNumNil
     | Some broadcastBeforeBlockNum \<Rightarrow>
        if wrap64 (latestBlockNum - broadcastBeforeBlockNum) < int l
        then checkAttempts cfg latestBlockNum blockHistory l attempts
        else if GetTxType attempt \<notin> {0, 1, 2} then Some ErrUnknownTxType
        else (let bs = checkedBlocks blockHistory l broadcastBeforeBlockNum; eip1559 = (GetTxType attempt = 2)
              in case calculatePercentilePrices cfg bs (unat (CheckInclusionPercentile cfg)) eip1559 of
                   Inl IndexOutOfRange \<Rightarrow> Some IndexOutOfRange
                 | Inl _ \<Rightarrow> None
                 | Inr prices \<Rightarrow>
                    (case attemptAbove attempt eip1559 bs prices of
                       Inl e \<Rightarrow> Some e
                     | Inr True \<Rightarrow> Some ErrConnectivity
                     | Inr False \<Rightarrow> checkAttempts cfg latestBlockNum blockHistory l attempts)))"

definition checkConnectivity :: "gas_config \<Rightarrow> prior_attempt list \<Rightarrow> bhe \<Rightarrow> gas_error option" where
  "checkConnectivity cfg attempts b =
    (case getCurrentBlockNum b of
       None \<Rightarrow> None
     | Some latestBlockNum \<Rightarrow>
        (let expectInclusionWithinBlocks = unat (CheckInclusionBlocks cfg); blockHistory = blocks b
         in if length blockHistory < expectInclusionWithinBlocks then None
            else checkAttempts cfg latestBlockNum blockHistory expectInclusionWithinBlocks attempts))"

definition bhe_BumpLegacyGas :: "gas_config \<Rightarrow> wei \<Rightarrow> u32 \<Rightarrow> wei \<Rightarrow> prior_attempt list \<Rightarrow> bhe \<Rightarrow> gas_error + wei \<times> u32" where
  "bhe_BumpLegacyGas cfg originalGasPrice gasLimit userMax attempts b =
    (case (if CheckInclusionBlocks cfg > 0 then checkConnectivity cfg attempts b else None) of
       Some e \<Rightarrow> Inl e
     | None \<Rightarrow> BumpLegacyGasPriceOnly cfg (gasPrice b) originalGasPrice gasLimit userMax)"

definition bhe_BumpDynamicFee :: "gas_config \<Rightarrow> dynamic_fee \<Rightarrow> u32 \<Rightarrow> wei \<Rightarrow> prior_attempt list \<Rightarrow> bhe \<Rightarrow> gas_error + dynamic_fee \<times> u32" where
  "bhe_BumpDynamicFee cfg originalFee originalGasLimit userMax attempts b =
    (case (if CheckInclusionBlocks cfg > 0 then checkConnectivity cfg attempts b else None) of
       Some e \<Rightarrow> Inl e
     | None \<Rightarrow> BumpDynamicFeeOnly cfg (tipCap b) (getCurrentBaseFee b) originalFee originalGasLimit userMax)"

text \<open>Without prior attempts nothing can be said against connectivity, and the bumps are those of the price arithmetic.\<close>

interpretation history: fee_bumper sane_bumps "\<lambda>cfg b p l m. bhe_BumpLegacyGas cfg p l m [] b" "\<lambda>cfg b f l m. bhe_BumpDynamicFee cfg f l m [] b"
  by unfold_locales
    (auto simp: bhe_BumpLegacyGas_def bhe_BumpDynamicFee_def dest: BumpLegacyGasPriceOnly_up BumpDynamicFeeOnly_up split: option.splits if_splits)

section \<open>The history is sorted, bounded and without duplicates\<close>

definition block_map_ok :: "block_map \<Rightarrow> bool" where
  "block_map_ok m \<longleftrightarrow> distinct (map fst m) \<and> (\<forall>n b. map_of m n = Some b \<longrightarrow> blk_Number b = n)"

lemma block_map_ok_Nil: "block_map_ok []"
  by (simp add: block_map_ok_def)

lemma block_map_ok_update: "block_map_ok m \<Longrightarrow> block_map_ok (AList.update (blk_Number b) b m)"
  by (auto simp: block_map_ok_def)

lemma keepBlocks_ok: "keepBlocks M h bs m = Some m' \<Longrightarrow> block_map_ok m \<Longrightarrow> block_map_ok m'"
  by (induction M h bs m rule: keepBlocks.induct)
    (auto split: option.splits if_splits bool.splits intro: block_map_ok_update)

lemma addResults_ok: "addResults rs m = Inr m' \<Longrightarrow> block_map_ok m \<Longrightarrow> block_map_ok m'"
  by (induction rs m rule: addResults.induct)
    (auto split: req_result.splits if_splits intro: block_map_ok_update)

lemma block_map_numbers: "block_map_ok m \<Longrightarrow> map (\<lambda>x. blk_Number (snd x)) m = map fst m"
  by (auto simp: block_map_ok_def in_set_map_of [symmetric])

lemma block_map_values: "block_map_ok m \<Longrightarrow> b \<in> set (map snd m) \<longleftrightarrow> map_of m (blk_Number b) = Some b"
proof -
  assume m: "block_map_ok m"
  then have iff: "(n, b) \<in> set m \<longleftrightarrow> map_of m n = Some b" for n by (intro in_set_map_of) (simp add: block_map_ok_def)
  show ?thesis
  proof
    assume "b \<in> set (map snd m)"
    then obtain n where n: "(n, b) \<in> set m" by auto
    then have "map_of m n = Some b" by (simp add: iff)
    moreover from this have "blk_Number b = n" using m unfolding block_map_ok_def by blast
    ultimately show "map_of m (blk_Number b) = Some b" by simp
  next
    assume "map_of m (blk_Number b) = Some b"
    then have "(blk_Number b, b) \<in> set m" by (simp add: iff)
    then show "b \<in> set (map snd m)" by force
  qed
qed

lemma strict_sorted_key:
  assumes "block_map_ok m"
  shows "sorted_wrt (<) (map blk_Number (sort_key blk_Number (map snd m)))"
proof -
  have "mset (map blk_Number (sort_key blk_Number (map snd m))) = mset (map blk_Number (map snd m))"
    unfolding mset_map by simp
  also have "map blk_Number (map snd m) = map fst m" using block_map_numbers [OF assms] by (simp add: comp_def)
  finally have "distinct (map blk_Number (sort_key blk_Number (map snd m)))"
    using assms by (metis block_map_ok_def mset_eq_imp_distinct_iff)
  then show ?thesis by (simp add: strict_sorted_iff)
qed

lemma sorted_wrt_drop_map: "sorted_wrt R (map f xs) \<Longrightarrow> sorted_wrt R (map f (drop n xs))"
  by (simp add: drop_map [symmetric] sorted_wrt_drop)

lemma FetchBlocks_Inr:
  assumes "FetchBlocks cfg rpc c b = Some (Inr b')"
  obtains m rs m' where "keepBlocks (fst c) (snd c) (blocks b) [] = Some m"
    and "batchFetch cfg rpc (filter (\<lambda>i. map_of m i = None)
       (rev [max 0 (wrap64 (Number (snd c) - bhe_size b - uint (BlockDelay cfg) + 1))..wrap64 (Number (snd c) - uint (BlockDelay cfg))])) = Inr rs"
    and "addResults rs m = Inr m'" and "0 < bhe_size b" and "0 \<le> wrap64 (Number (snd c) - uint (BlockDelay cfg))"
    and "b' = b\<lparr>blocks := drop (length m' - nat (bhe_size b)) (sort_key blk_Number (map snd m'))\<rparr>"
  using assms
  by (auto simp: FetchBlocks_def Let_def max_def not_less not_le split: if_splits option.splits sum.splits)

definition bhe_inv :: "gas_config \<Rightarrow> bhe \<Rightarrow> bool" where
  "bhe_inv cfg b \<longleftrightarrow> sorted_wrt (<) (map blk_Number (blocks b)) \<and> length (blocks b) \<le> nat (bhe_size b) \<and>
     (\<forall>p. gasPrice b = Some p \<longrightarrow> EvmMinGasPriceWei cfg \<le> p \<and> p \<le> EvmMaxGasPriceWei cfg) \<and>
     (\<forall>t. tipCap b = Some t \<longrightarrow> EvmGasTipCapMinimum cfg \<le> t \<and> t \<le> EvmMaxGasPriceWei cfg)"

lemma FetchBlocks_inv: "FetchBlocks cfg rpc c b = Some (Inr b') \<Longrightarrow> bhe_inv cfg b \<Longrightarrow> bhe_inv cfg b'"
proof (elim FetchBlocks_Inr)
  fix m rs m'
  assume inv: "bhe_inv cfg b" and keep: "keepBlocks (fst c) (snd c) (blocks b) [] = Some m"
    and add: "addResults rs m = Inr m'"
    and b': "b' = b\<lparr>blocks := drop (length m' - nat (bhe_size b)) (sort_key blk_Number (map snd m'))\<rparr>"
  have "block_map_ok m'" by (rule addResults_ok [OF add keepBlocks_ok [OF keep block_map_ok_Nil]])
  from sorted_wrt_drop_map [OF strict_sorted_key [OF this]] show "bhe_inv cfg b'"
    using inv by (simp add: bhe_inv_def b')
qed

lemma setPercentile_inv:
  assumes "EvmMinGasPriceWei cfg \<le> EvmMaxGasPriceWei cfg" and "EvmGasTipCapMinimum cfg \<le> EvmMaxGasPriceWei cfg" and "bhe_inv cfg b"
  shows "bhe_inv cfg (setPercentileGasPrice cfg p b)" and "bhe_inv cfg (setPercentileTipCap cfg p b)"
  using assms by (simp_all add: bhe_inv_def setPercentileGasPrice_def setPercentileTipCap_def)

lemma Recalculate_inv:
  assumes "EvmMinGasPriceWei cfg \<le> EvmMaxGasPriceWei cfg" and "EvmGasTipCapMinimum cfg \<le> EvmMaxGasPriceWei cfg"
    and "bhe_inv cfg b" and "Recalculate cfg b = Inr b'"
  shows "bhe_inv cfg b'"
  using assms(4) setPercentile_inv [OF assms(1,2)] assms(3)
  by (auto simp: Recalculate_def Let_def split: if_splits sum.splits gas_error.splits option.splits prod.splits)

lemma bhe_inv_simps [simp]:
  "bhe_inv cfg (b\<lparr>initialFetch := x\<rparr>) = bhe_inv cfg b" "bhe_inv cfg (b\<lparr>bhe_mb := m\<rparr>) = bhe_inv cfg b"
  "bhe_inv cfg (b\<lparr>latest := l\<rparr>) = bhe_inv cfg b" "bhe_inv cfg (b\<lparr>bhe_started := s\<rparr>) = bhe_inv cfg b"
  by (simp_all add: bhe_inv_def)

lemma FetchBlocksAndRecalculate_inv:
  assumes "EvmMinGasPriceWei cfg \<le> EvmMaxGasPriceWei cfg" and "EvmGasTipCapMinimum cfg \<le> EvmMaxGasPriceWei cfg"
    and "bhe_inv cfg b" and "FetchBlocksAndRecalculate cfg rpc c b = Some (Inr b')"
  shows "bhe_inv cfg b'"
proof (cases "FetchBlocks cfg rpc c b")
  case (Some r)
  show ?thesis
  proof (cases r)
    case (Inr b1)
    have "bhe_inv cfg (b1\<lparr>initialFetch := True\<rparr>)" using FetchBlocks_inv [OF _ assms(3)] Some Inr by simp
    moreover have "Recalculate cfg (b1\<lparr>initialFetch := True\<rparr>) = Inr b'"
      using assms(4) Some Inr by (simp add: FetchBlocksAndRecalculate_def)
    ultimately show ?thesis by (rule Recalculate_inv [OF assms(1,2)])
  qed (use assms Some in \<open>simp add: FetchBlocksAndRecalculate_def\<close>)
qed (use assms in \<open>simp add: FetchBlocksAndRecalculate_def\<close>)

text \<open>The estimator's life: it is started, told about new heads, and works on them, whatever the node answers.\<close>

inductive bhe_step :: "gas_config \<Rightarrow> bhe \<Rightarrow> bhe \<Rightarrow> bool" for cfg where
  start: "bhe_Start cfg rpc latestHead ctxDone b = Some (Inr b') \<Longrightarrow> bhe_step cfg b b'"
| new_head: "bhe_step cfg b (OnNewLongestChain c b)"
| work: "runLoopRound cfg rpc b = Some (Inr b') \<Longrightarrow> bhe_step cfg b b'"

lemma bhe_step_inv:
  assumes "EvmMinGasPriceWei cfg \<le> EvmMaxGasPriceWei cfg" and "EvmGasTipCapMinimum cfg \<le> EvmMaxGasPriceWei cfg"
  shows "bhe_step cfg b b' \<Longrightarrow> bhe_inv cfg b \<Longrightarrow> bhe_inv cfg b'"
proof (induction rule: bhe_step.induct)
  case (start rpc latestHead ctxDone b b')
  then show ?case
    by (auto simp: bhe_Start_def setLatest_def split: if_splits option.splits sum.splits
        dest!: FetchBlocksAndRecalculate_inv [OF assms, rotated])
next
  case (new_head b c)
  then show ?case by (simp add: OnNewLongestChain_def setLatest_def Let_def)
next
  case (work rpc b b')
  then show ?case
    by (auto simp: runLoopRound_def split: option.splits prod.splits dest!: FetchBlocksAndRecalculate_inv [OF assms, rotated])
qed

section \<open>Percentiles\<close>

lemma sorted_nth_count:
  assumes "sorted (xs :: int list)" and "i < length xs"
  shows "length (filter (\<lambda>x. x < xs ! i) xs) \<le> i" and "i < length (filter (\<lambda>x. x \<le> xs ! i) xs)"
proof -
  have "filter (\<lambda>x. x < xs ! i) xs = filter (\<lambda>x. x < xs ! i) (take i xs)"
  proof -
    have "filter (\<lambda>x. x < xs ! i) (drop i xs) = []"
      using assms by (auto simp: filter_empty_conv in_set_conv_nth sorted_iff_nth_mono not_less)
    then show ?thesis by (metis append_Nil2 append_take_drop_id filter_append)
  qed
  then show "length (filter (\<lambda>x. x < xs ! i) xs) \<le> i"
    using length_filter_le [of _ "take i xs"] by (metis length_take min.cobounded2 order_trans)
  have "filter (\<lambda>x. x \<le> xs ! i) (take (Suc i) xs) = take (Suc i) xs"
    using assms by (auto simp: filter_id_conv in_set_conv_nth sorted_iff_nth_mono)
  then have "filter (\<lambda>x. x \<le> xs ! i) xs = take (Suc i) xs @ filter (\<lambda>x. x \<le> xs ! i) (drop (Suc i) xs)"
    by (metis append_take_drop_id filter_append)
  then show "i < length (filter (\<lambda>x. x \<le> xs ! i) xs)" using assms(2) by simp
qed

lemma percentileOf_rank:
  assumes "percentileOf xs p = Inr v"
  shows "v \<in> set xs \<and> length (filter (\<lambda>x. x < v) xs) \<le> ((length xs - 1) * p) div 100 \<and>
    ((length xs - 1) * p) div 100 < length (filter (\<lambda>x. x \<le> v) xs)"
proof -
  let ?i = "((length xs - 1) * p) div 100"
  have i: "?i < length xs" and v: "v = sort xs ! ?i" using assms by (auto simp: percentileOf_def Let_def split: if_splits)
  have f: "length (filter P (sort xs)) = length (filter P xs)" for P
    by (metis mset_eq_length mset_filter mset_sort)
  from sorted_nth_count [of "sort xs" ?i] i show ?thesis
    unfolding v f by (metis f length_sort nth_mem set_sort sorted_sort)
qed

lemma percentileOf_total: "xs \<noteq> [] \<Longrightarrow> p \<le> 100 \<Longrightarrow> \<exists>v. percentileOf xs p = Inr v"
proof -
  assume a: "xs \<noteq> []" "p \<le> 100"
  have "(length xs - 1) * p \<le> (length xs - 1) * 100" using a(2) by (intro mult_left_mono) simp_all
  then have "((length xs - 1) * p) div 100 \<le> length xs - 1" by linarith
  then have "((length xs - 1) * p) div 100 < length xs" using a(1) by (cases xs) auto
  then show ?thesis by (simp add: percentileOf_def Let_def)
qed

lemma percentileOf_mono:
  assumes "p \<le> q" and "percentileOf xs p = Inr v" and "percentileOf xs q = Inr w"
  shows "v \<le> w"
proof -
  have "((length xs - 1) * p) div 100 \<le> ((length xs - 1) * q) div 100" using assms(1) by (intro div_le_mono mult_left_mono) simp_all
  then show ?thesis using assms(2,3) sorted_nth_mono [OF sorted_sort [of xs]]
    by (auto simp: percentileOf_def Let_def split: if_splits)
qed

section \<open>A fetch completes the history\<close>

lemma batchLoop_answers:
  assumes "\<And>ns. rpc ns = BatchOk ans" and "0 < k"
  shows "batchLoop k rpc reqs = Inr (map (\<lambda>n. (n, ans n)) reqs)"
proof (induction "length reqs" arbitrary: reqs rule: less_induct)
  case less
  show ?case
  proof (cases "reqs = []")
    case True
    then show ?thesis by (subst batchLoop.simps) simp
  next
    case False
    have "batchLoop k rpc (drop k reqs) = Inr (map (\<lambda>n. (n, ans n)) (drop k reqs))"
      using less [of "drop k reqs"] False assms(2) by simp
    then show ?thesis using False assms(2)
      by (subst batchLoop.simps) (simp add: assms(1) map_append [symmetric] del: map_append)
  qed
qed

lemma batchFetch_answers:
  assumes "\<And>ns. rpc ns = BatchOk ans"
  shows "batchFetch cfg rpc reqs = Inr (map (\<lambda>n. (n, ans n)) reqs)"
proof (cases "reqs = []")
  case True
  then show ?thesis by (simp add: batchFetch_def batchLoop.simps)
next
  case False
  then show ?thesis by (simp add: batchFetch_def Let_def batchLoop_answers [of rpc ans, OF assms])
qed

lemma addResults_blocks:
  assumes "\<And>n. n \<in> set reqs \<Longrightarrow> blk_Number (blk n) = n \<and> blk_Hash (blk n) \<noteq> 0"
  shows "\<exists>m'. addResults (map (\<lambda>n. (n, ReqBlock (blk n))) reqs) m = Inr m' \<and>
    map_of m' = map_of m ++ (\<lambda>n. if n \<in> set reqs then Some (blk n) else None)"
  using assms
proof (induction reqs arbitrary: m)
  case (Cons n reqs)
  obtain m' where m': "addResults (map (\<lambda>n. (n, ReqBlock (blk n))) reqs) (AList.update n (blk n) m) = Inr m'"
    "map_of m' = map_of (AList.update n (blk n) m) ++ (\<lambda>n. if n \<in> set reqs then Some (blk n) else None)"
    using Cons.IH [of "AList.update n (blk n) m"] Cons.prems by (metis (no_types, lifting) list.set_intros(2))
  have "blk_Number (blk n) = n" "blk_Hash (blk n) \<noteq> 0" using Cons.prems [of n] by simp_all
  with m' show ?case by (intro exI [of _ m']) (auto simp: map_add_def fun_eq_iff split: option.splits)
qed (simp add: map_add_def)

definition current :: "chain \<Rightarrow> block \<Rightarrow> bool" where
  "current c b \<longleftrightarrow> (\<exists>e. EarliestInChain (fst c) (snd c) = Some e \<and> blk_Number b < Number e) \<or>
     IsInChain (fst c) (snd c) (blk_Hash b) = Some True"

lemma keepBlocks_Cons:
  "keepBlocks M h (b # bs) m = Some m' \<Longrightarrow> keepBlocks M h bs m = Some m' \<or>
   (keepBlocks M h bs (AList.update (blk_Number b) b m) = Some m' \<and> current (M, h) b)"
  by (auto simp: current_def split: option.splits if_splits bool.splits)

lemma keepBlocks_from:
  "keepBlocks M h bs m = Some m' \<Longrightarrow> map_of m' n = Some b \<Longrightarrow>
   map_of m n = Some b \<or> (b \<in> set bs \<and> blk_Number b = n \<and> current (M, h) b)"
proof (induction bs arbitrary: m)
  case (Cons b0 bs)
  from keepBlocks_Cons [OF Cons.prems(1)] show ?case
  proof (elim disjE conjE)
    assume "keepBlocks M h bs m = Some m'"
    from Cons.IH [OF this Cons.prems(2)] show ?thesis by auto
  next
    assume c: "current (M, h) b0" and "keepBlocks M h bs (AList.update (blk_Number b0) b0 m) = Some m'"
    from Cons.IH [OF this(2) Cons.prems(2)] c show ?thesis by (cases "n = blk_Number b0") auto
  qed
qed simp

lemma last_block_of_range:
  assumes "sorted_wrt (<) ns" and "set ns = Q \<union> {lo..hi}" and "\<forall>x \<in> Q. x < (lo::int)" and "lo \<le> hi"
    and "Q = {} \<or> nat k = nat (hi - lo + 1)" and "hi - lo + 1 \<le> k"
  shows "drop (length ns - nat k) ns = [lo..hi]"
proof -
  have fin: "finite Q" using assms(2) by (metis List.finite_set finite_Un)
  let ?os = "sorted_list_of_set Q"
  have "sorted_wrt (<) (?os @ [lo..hi])"
    using assms(3) fin by (force simp: sorted_wrt_append strict_sorted_iff)
  moreover have "set (?os @ [lo..hi]) = set ns" using assms(2) fin by simp
  ultimately have ns: "ns = ?os @ [lo..hi]"
    using assms(1) by (metis strict_sorted_equal)
  have len: "length [lo..hi] = nat (hi - lo + 1)" by simp
  show ?thesis
  proof (cases "Q = {}")
    case True
    then show ?thesis using ns assms(6) by simp
  next
    case False
    then have "length ns - nat k = length ?os" using assms(5) ns len by simp
    then show ?thesis unfolding ns by simp
  qed
qed

lemma map_drop_sort: "map blk_Number (drop n xs) = drop n (map blk_Number xs)"
  by (simp add: drop_map)

section \<open>Checking connectivity\<close>

lemma feeCapSuffices_error: "feeCapSuffices fee bs = Inl e \<Longrightarrow> e = NilDereference"
  by (induction fee bs rule: feeCapSuffices.induct) (auto split: option.splits if_splits)

lemma attemptAbove_error: "attemptAbove a e1559 bs pr = Inl e \<Longrightarrow> e = NilDereference"
  by (auto simp: attemptAbove_def dest: feeCapSuffices_error split: prod.splits if_splits sum.splits bool.splits option.splits)

lemma checkAttempts_connectivity:
  "checkAttempts cfg n hist l attempts = Some ErrConnectivity \<Longrightarrow>
   \<exists>a \<in> set attempts. \<exists>bb gp tc. GetBroadcastBeforeBlockNum a = Some bb \<and> int l \<le> wrap64 (n - bb) \<and>
     GetTxType a \<in> {0, 1, 2} \<and>
     calculatePercentilePrices cfg (checkedBlocks hist l bb) (unat (CheckInclusionPercentile cfg)) (GetTxType a = 2) = Inr (gp, tc) \<and>
     attemptAbove a (GetTxType a = 2) (checkedBlocks hist l bb) (gp, tc) = Inr True"
proof (induction cfg n hist l attempts rule: checkAttempts.induct)
  case (2 cfg n hist l a as)
  obtain bb where bb: "GetBroadcastBeforeBlockNum a = Some bb" using "2.prems" by (cases "GetBroadcastBeforeBlockNum a") auto
  show ?case
  proof (cases "wrap64 (n - bb) < int l")
    case True
    with 2 bb show ?thesis by simp
  next
    case False
    have ty: "GetTxType a \<in> {0, 1, 2}" using "2.prems" bb False by (auto split: if_splits)
    let ?c = "calculatePercentilePrices cfg (checkedBlocks hist l bb) (unat (CheckInclusionPercentile cfg)) (GetTxType a = 2)"
    obtain pr where pr: "?c = Inr pr"
      using "2.prems" bb False ty by (cases ?c) (auto simp: Let_def split: gas_error.splits)
    obtain r where r: "attemptAbove a (GetTxType a = 2) (checkedBlocks hist l bb) pr = r" by simp
    consider "r = Inr True" | "r = Inr False" | e where "r = Inl e" by (cases r) auto
    then show ?thesis
    proof cases
      case 1
      obtain gp tc where "pr = (gp, tc)" by (cases pr)
      with 1 bb False ty pr r show ?thesis by (intro bexI [of _ a] exI) auto
    next
      case 2
      then have "checkAttempts cfg n hist l as = Some ErrConnectivity"
        using "2.prems" bb False ty pr r by (auto simp: Let_def)
      from "2.IH"(2) [OF bb False _ refl refl pr r [unfolded 2] ] ty this show ?thesis by auto
    next
      case 3
      then have "e = NilDereference" using r attemptAbove_error by blast
      with 3 "2.prems" bb False ty pr r show ?thesis by (auto simp: Let_def)
    qed
  qed
qed simp

lemma keepBlocks_total:
  assumes "EarliestInChain M h \<noteq> None"
  shows "\<exists>m'. keepBlocks M h bs m = Some m'"
proof -
  obtain e where e: "EarliestInChain M h = Some e" using assms by blast
  obtain hs where "chain_path M h hs" using EarliestInChain_Some [OF e] by blast
  note i = IsInChain_path [OF this]
  show ?thesis by (induction bs arbitrary: m) (auto simp: e i split: bool.splits)
qed

lemma FetchBlocks_answers:
  assumes rpc: "\<forall>ns. rpc ns = BatchOk (\<lambda>n. ReqBlock (blk n))"
    and blk: "\<forall>n. blk_Number (blk n) = n \<and> blk_Hash (blk n) \<noteq> 0"
    and size: "0 < bhe_size b" and hi: "0 \<le> Number (snd c) - uint (BlockDelay cfg)"
    and range: "is_i64 (Number (snd c))" "is_i64 (Number (snd c) - bhe_size b - uint (BlockDelay cfg) + 1)"
    and ear: "EarliestInChain (fst c) (snd c) \<noteq> None"
  shows "\<exists>m m'. keepBlocks (fst c) (snd c) (blocks b) [] = Some m \<and> block_map_ok m' \<and>
    (\<forall>n. map_of m' n = (if map_of m n = None \<and> max 0 (Number (snd c) - uint (BlockDelay cfg) - bhe_size b + 1) \<le> n \<and>
        n \<le> Number (snd c) - uint (BlockDelay cfg) then Some (blk n) else map_of m n)) \<and>
    FetchBlocks cfg rpc c b = Some (Inr (b\<lparr>blocks := drop (length m' - nat (bhe_size b)) (sort_key blk_Number (map snd m'))\<rparr>))"
proof -
  define h where "h = Number (snd c) - uint (BlockDelay cfg)"
  define lo where "lo = max 0 (h - bhe_size b + 1)"
  obtain m where m: "keepBlocks (fst c) (snd c) (blocks b) [] = Some m" using keepBlocks_total [OF ear] by blast
  define reqs where "reqs = filter (\<lambda>i. map_of m i = None) (rev [lo..h])"
  have "blk_Number (blk n) = n \<and> blk_Hash (blk n) \<noteq> 0" for n using blk by blast
  then obtain m' where m': "addResults (map (\<lambda>n. (n, ReqBlock (blk n))) reqs) m = Inr m'"
    "map_of m' = map_of m ++ (\<lambda>n. if n \<in> set reqs then Some (blk n) else None)"
    using addResults_blocks [of reqs blk m] by blast
  have bf: "batchFetch cfg rpc reqs = Inr (map (\<lambda>n. (n, ReqBlock (blk n))) reqs)"
    using batchFetch_answers [of rpc "\<lambda>n. ReqBlock (blk n)"] rpc by blast
  have "0 \<le> uint (BlockDelay cfg)" by simp
  then have ih: "is_i64 h" using range(1) hi unfolding h_def is_i64_def min_i64_def by linarith
  then have w1: "wrap64 h = h" by simp
  have "h - bhe_size b + 1 = Number (snd c) - bhe_size b - uint (BlockDelay cfg) + 1" by (simp add: h_def)
  then have w2: "wrap64 (Number (snd c) - bhe_size b - uint (BlockDelay cfg) + 1) = h - bhe_size b + 1" using range(2) by simp
  have lo: "(if h - bhe_size b + 1 < 0 then 0 else h - bhe_size b + 1) = lo" by (simp add: lo_def)
  have ok: "block_map_ok m'" by (rule addResults_ok [OF m'(1) keepBlocks_ok [OF m block_map_ok_Nil]])
  have "0 \<le> h" using hi by (simp add: h_def)
  then have f: "FetchBlocks cfg rpc c b = Some (Inr (b\<lparr>blocks := drop (length m' - nat (bhe_size b)) (sort_key blk_Number (map snd m'))\<rparr>))"
    using size m bf [unfolded reqs_def] m'(1) [unfolded reqs_def] unfolding FetchBlocks_def Let_def h_def [symmetric] w1 w2 lo
    by simp
  have "map_of m' n = (if map_of m n = None \<and> lo \<le> n \<and> n \<le> h then Some (blk n) else map_of m n)" for n
    unfolding m'(2) reqs_def by (simp add: map_add_def)
  then show ?thesis using m ok f unfolding lo_def h_def by blast
qed

section \<open>Properties\<close>

text \<open>C15: When the node answers every request with the block of that number, a fetch for a head whose chain is
  finite succeeds and leaves exactly the contiguous blocks of the window, as many as the history
  size up to the delayed head, in ascending order; each of them is newly fetched, or was in the
  history and is older than the head's chain or part of it, so blocks that a reorganisation
  removed are gone.\<close>
theorem FetchBlocks_complete:
  assumes "\<forall>ns. rpc ns = BatchOk (\<lambda>n. ReqBlock (blk n))" and "\<forall>n. blk_Number (blk n) = n \<and> blk_Hash (blk n) \<noteq> 0"
    and "0 < bhe_size b" and "0 \<le> Number (snd c) - uint (BlockDelay cfg)"
    and "is_i64 (Number (snd c))" and "is_i64 (Number (snd c) - bhe_size b - uint (BlockDelay cfg) + 1)"
    and "EarliestInChain (fst c) (snd c) \<noteq> None"
    and "\<forall>x \<in> set (blocks b). 0 \<le> blk_Number x \<and> blk_Number x \<le> Number (snd c) - uint (BlockDelay cfg)"
  shows "\<exists>b'. FetchBlocks cfg rpc c b = Some (Inr b') \<and>
    map blk_Number (blocks b') = [max 0 (Number (snd c) - uint (BlockDelay cfg) - bhe_size b + 1)..Number (snd c) - uint (BlockDelay cfg)] \<and>
    (\<forall>x \<in> set (blocks b'). x = blk (blk_Number x) \<or> (x \<in> set (blocks b) \<and>
       ((\<exists>e. EarliestInChain (fst c) (snd c) = Some e \<and> blk_Number x < Number e) \<or>
        IsInChain (fst c) (snd c) (blk_Hash x) = Some True)))"
proof -
  define hi where "hi = Number (snd c) - uint (BlockDelay cfg)"
  define lo where "lo = max 0 (hi - bhe_size b + 1)"
  obtain m m' where keep: "keepBlocks (fst c) (snd c) (blocks b) [] = Some m" and ok: "block_map_ok m'"
    and m': "\<And>n. map_of m' n = (if map_of m n = None \<and> lo \<le> n \<and> n \<le> hi then Some (blk n) else map_of m n)"
    and f: "FetchBlocks cfg rpc c b = Some (Inr (b\<lparr>blocks := drop (length m' - nat (bhe_size b)) (sort_key blk_Number (map snd m'))\<rparr>))"
    using FetchBlocks_answers [OF assms(1-7)] unfolding lo_def hi_def by blast
  let ?L = "sort_key blk_Number (map snd m')"
  have old: "x \<in> set (blocks b) \<and> blk_Number x = n \<and> current c x" if "map_of m n = Some x" for n x
    using keepBlocks_from [OF keep that] by simp
  define Q where "Q = {n. map_of m n \<noteq> None \<and> n < lo}"
  have "set (map blk_Number ?L) = fst ` set m'"
    using arg_cong [OF block_map_numbers [OF ok], of set] by (simp add: image_image)
  also have "\<dots> = {n. map_of m' n \<noteq> None}" using fst_set_map_of [of _ m'] by blast
  also have "\<dots> = Q \<union> {lo..hi}"
  proof -
    have "n \<le> hi" if "map_of m n \<noteq> None" for n using old [of n] that assms(8) by (auto simp: hi_def)
    then show ?thesis by (auto simp: m' Q_def not_less simp del: not_None_eq split: if_splits)
  qed
  finally have keys: "set (map blk_Number ?L) = Q \<union> {lo..hi}" .
  have nn: "0 \<le> n" if "n \<in> Q" for n using old [of n] that assms(8) by (auto simp: Q_def)
  have "drop (length (map blk_Number ?L) - nat (bhe_size b)) (map blk_Number ?L) = [lo..hi]"
  proof (rule last_block_of_range [OF strict_sorted_key [OF ok] keys])
    show "\<forall>x \<in> Q. x < lo" by (simp add: Q_def)
    show "lo \<le> hi" using assms(3,4) by (simp add: lo_def hi_def)
    show "hi - lo + 1 \<le> bhe_size b" by (simp add: lo_def)
    show "Q = {} \<or> nat (bhe_size b) = nat (hi - lo + 1)"
    proof (cases "lo = 0")
      case True
      then have "Q = {}" using nn by (force simp: Q_def)
      then show ?thesis ..
    next
      case False
      then show ?thesis by (simp add: lo_def max_def split: if_splits)
    qed
  qed
  then have nums: "map blk_Number (drop (length m' - nat (bhe_size b)) ?L) = [lo..hi]" by (simp add: drop_map)
  have "x = blk (blk_Number x) \<or> (x \<in> set (blocks b) \<and> current c x)" if "x \<in> set (drop (length m' - nat (bhe_size b)) ?L)" for x
  proof -
    have "x \<in> set (map snd m')" using in_set_dropD [OF that] by simp
    then have "map_of m' (blk_Number x) = Some x" using block_map_values [OF ok] by blast
    then show ?thesis using old [of "blk_Number x" x] by (simp add: m' split: if_splits)
  qed
  with nums f show ?thesis unfolding lo_def hi_def current_def by simp
qed

definition mk_block :: "int \<Rightarrow> wei \<Rightarrow> block" where
  "mk_block n p = \<lparr>blk_Number = n, blk_Hash = 1, blk_ParentHash = 0, blk_BaseFeePerGas = Some 1, blk_Timestamp = 0,
     Transactions = [\<lparr>tx_GasPrice = Some p, tx_GasLimit = 21000, MaxFeePerGas = None, MaxPriorityFeePerGas = None, tx_Type = 0, tx_Hash = 0\<rparr>]\<rparr>"

theorem FetchBlocks_complete_witness:
  "\<exists>b'. FetchBlocks cfg0 (\<lambda>_. BatchOk (\<lambda>n. ReqBlock (mk_block n 10))) (Map.empty, mk_head 7 8 9) (NewBlockHistoryEstimator cfg0) = Some (Inr b') \<and>
     map blk_Number (blocks b') = [6, 7]"
proof -
  have e: "EarliestInChain Map.empty (mk_head 7 8 9) \<noteq> None"
    by (subst EarliestInChain.simps) (simp add: mk_head_def NewHead_def)
  have r: "[6..7] = [6, 7::int]" by (simp add: upto.simps)
  show ?thesis
    using FetchBlocks_complete [of "\<lambda>_. BatchOk (\<lambda>n. ReqBlock (mk_block n 10))" "\<lambda>n. mk_block n 10" "NewBlockHistoryEstimator cfg0"
        "(Map.empty, mk_head 7 8 9)" cfg0] e
    by (auto simp: r mk_block_def NewBlockHistoryEstimator_def cfg0_def mk_head_def NewHead_def is_i64_def min_i64_def max_i64_def)
qed

text \<open>C18: In every reachable state, whatever the node answered, the history is strictly ascending and no
  longer than its size, and the current gas price and tip cap are within the configured bounds, so an
  estimate never exceeds the configured or the caller's maximum, and is below the configured minimum only to respect the caller's maximum.\<close>
theorem bhe_prices_bounded:
  assumes "EvmMinGasPriceWei cfg \<le> EvmMaxGasPriceWei cfg" and "EvmGasTipCapMinimum cfg \<le> EvmMaxGasPriceWei cfg"
    and "EvmMinGasPriceWei cfg \<le> EvmGasPriceDefault cfg" and "(bhe_step cfg)\<^sup>*\<^sup>* (NewBlockHistoryEstimator cfg) b"
  shows "sorted_wrt (<) (map blk_Number (blocks b)) \<and> length (blocks b) \<le> nat (bhe_size b) \<and>
    (\<forall>t. tipCap b = Some t \<longrightarrow> EvmGasTipCapMinimum cfg \<le> t \<and> t \<le> EvmMaxGasPriceWei cfg) \<and>
    (\<forall>gasLimit userMax p l. bhe_GetLegacyGas cfg gasLimit userMax b = Inr (p, l) \<longrightarrow>
       p \<le> EvmMaxGasPriceWei cfg \<and> p \<le> userMax \<and> min (EvmMinGasPriceWei cfg) userMax \<le> p)"
proof -
  have inv: "bhe_inv cfg b" using assms(4)
    by (induction rule: rtranclp_induct)
      (simp add: bhe_inv_def NewBlockHistoryEstimator_def, rule bhe_step_inv [OF assms(1,2)])
  then show ?thesis using assms(1,3)
    by (auto simp: bhe_inv_def bhe_GetLegacyGas_def capGasPrice_def getMaxGasPrice_def Let_def split: if_splits option.splits)
qed

theorem bhe_prices_bounded_witness:
  "\<exists>b. (bhe_step cfg0)\<^sup>*\<^sup>* (NewBlockHistoryEstimator cfg0) b \<and> bhe_started b \<and> length (blocks b) \<le> 2"
proof -
  have "bhe_Start cfg0 (\<lambda>_. BatchFailed) None False (NewBlockHistoryEstimator cfg0) =
      Some (Inr ((NewBlockHistoryEstimator cfg0)\<lparr>bhe_started := True\<rparr>))"
    by (simp add: bhe_Start_def cfg0_def)
  then have r: "(bhe_step cfg0)\<^sup>*\<^sup>* (NewBlockHistoryEstimator cfg0) ((NewBlockHistoryEstimator cfg0)\<lparr>bhe_started := True\<rparr>)"
    by (intro r_into_rtranclp) (rule bhe_step.start)
  from bhe_prices_bounded [OF _ _ _ r]
  have "length (blocks ((NewBlockHistoryEstimator cfg0)\<lparr>bhe_started := True\<rparr>)) \<le> 2"
    by (simp add: cfg0_def NewBlockHistoryEstimator_def)
  with r show ?thesis by (intro exI [of _ "(NewBlockHistoryEstimator cfg0)\<lparr>bhe_started := True\<rparr>"]) simp
qed

text \<open>C28: The price computed for a percentile is one of the prices paid in the blocks, with at least the
  percentile's share of the prices not above it and at most that share below it; it exists for every
  percentile up to 100 as soon as one usable price was paid, and it grows with the percentile.\<close>
theorem percentile_price:
  assumes "p \<le> q" and "q \<le> 100" and "fst (getPercentilePricesFromBlocks cfg bs False) = prices" and "prices \<noteq> []"
  shows "\<exists>v w. calculatePercentilePrices cfg bs p False = Inr (v, None) \<and> calculatePercentilePrices cfg bs q False = Inr (w, None) \<and>
    v \<le> w \<and> v \<in> set prices \<and> length (filter (\<lambda>x. x < v) prices) \<le> ((length prices - 1) * p) div 100 \<and>
    ((length prices - 1) * p) div 100 < length (filter (\<lambda>x. x \<le> v) prices)"
proof -
  obtain v w where v: "percentileOf prices p = Inr v" and w: "percentileOf prices q = Inr w"
    using percentileOf_total [OF assms(4)] assms(1,2) by (meson order_trans)
  have "getPercentilePricesFromBlocks cfg bs False = (prices, snd (getPercentilePricesFromBlocks cfg bs False))"
    using assms(3) by (metis prod.collapse)
  then have "calculatePercentilePrices cfg bs p False = Inr (v, None)" "calculatePercentilePrices cfg bs q False = Inr (w, None)"
    using assms(4) v w unfolding calculatePercentilePrices_def by (auto split: prod.splits)
  then show ?thesis using percentileOf_rank [OF v] percentileOf_mono [OF assms(1) v w] by blast
qed

theorem percentile_price_witness:
  "\<exists>v w. calculatePercentilePrices cfg0 [mk_block 1 30, mk_block 2 10, mk_block 3 20] 60 False = Inr (v, None) \<and>
     calculatePercentilePrices cfg0 [mk_block 1 30, mk_block 2 10, mk_block 3 20] 100 False = Inr (w, None) \<and> v \<le> w"
  using percentile_price [of 60 100 cfg0 "[mk_block 1 30, mk_block 2 10, mk_block 3 20]" "[30, 10, 20]"]
  by (auto simp: getPercentilePricesFromBlocks_def addTxPrices_def mk_block_def isUsable_def chainSpecificIsUsable_def
      EffectiveGasPrice_def cfg0_def)

text \<open>A bump is refused for connectivity only if some earlier attempt was broadcast at least the
  configured number of blocks ago and is priced above the percentile price of the checked blocks
  (and, for an EIP-1559 attempt, could pay the base fee of each of them).\<close>
theorem connectivity_error_justified:
  assumes "checkConnectivity cfg attempts b = Some ErrConnectivity"
  shows "\<exists>a \<in> set attempts. \<exists>n bb gp tc. getCurrentBlockNum b = Some n \<and> GetBroadcastBeforeBlockNum a = Some bb \<and>
    int (unat (CheckInclusionBlocks cfg)) \<le> wrap64 (n - bb) \<and> unat (CheckInclusionBlocks cfg) \<le> length (blocks b) \<and>
    calculatePercentilePrices cfg (checkedBlocks (blocks b) (unat (CheckInclusionBlocks cfg)) bb)
      (unat (CheckInclusionPercentile cfg)) (GetTxType a = 2) = Inr (gp, tc) \<and>
    (if GetTxType a = 2 then \<exists>tip t. TipCap (att_DynamicFee a) = Some tip \<and> tc = Some t \<and> t < tip \<and>
        feeCapSuffices (att_DynamicFee a) (checkedBlocks (blocks b) (unat (CheckInclusionBlocks cfg)) bb) = Inr True
     else \<exists>p. GetGasPrice a = Some p \<and> gp < p)"
proof -
  obtain n where n: "getCurrentBlockNum b = Some n" and len: "unat (CheckInclusionBlocks cfg) \<le> length (blocks b)"
    and chk: "checkAttempts cfg n (blocks b) (unat (CheckInclusionBlocks cfg)) attempts = Some ErrConnectivity"
    using assms by (auto simp: checkConnectivity_def Let_def split: option.splits if_splits)
  from checkAttempts_connectivity [OF chk] obtain a bb gp tc where a: "a \<in> set attempts"
    "GetBroadcastBeforeBlockNum a = Some bb" "int (unat (CheckInclusionBlocks cfg)) \<le> wrap64 (n - bb)"
    "calculatePercentilePrices cfg (checkedBlocks (blocks b) (unat (CheckInclusionBlocks cfg)) bb)
      (unat (CheckInclusionPercentile cfg)) (GetTxType a = 2) = Inr (gp, tc)"
    "attemptAbove a (GetTxType a = 2) (checkedBlocks (blocks b) (unat (CheckInclusionBlocks cfg)) bb) (gp, tc) = Inr True"
    by auto
  have "if GetTxType a = 2 then \<exists>tip t. TipCap (att_DynamicFee a) = Some tip \<and> tc = Some t \<and> t < tip \<and>
        feeCapSuffices (att_DynamicFee a) (checkedBlocks (blocks b) (unat (CheckInclusionBlocks cfg)) bb) = Inr True
     else \<exists>p. GetGasPrice a = Some p \<and> gp < p"
    using a(5) by (auto simp: attemptAbove_def split: if_splits sum.splits bool.splits option.splits)
  with a n len show ?thesis by blast
qed

definition mk_bhe :: "int list \<Rightarrow> wei \<Rightarrow> int \<Rightarrow> bhe" where
  "mk_bhe ns p n = (NewBlockHistoryEstimator cfg0)\<lparr>blocks := map (\<lambda>n. mk_block n p) ns, latest := Some (mk_head n 8 9)\<rparr>"

definition mk_attempt :: "wei \<Rightarrow> int \<Rightarrow> prior_attempt" where
  "mk_attempt p bb = \<lparr>GetGasPrice = Some p, att_DynamicFee = \<lparr>FeeCap = None, TipCap = None\<rparr>,
     GetBroadcastBeforeBlockNum = Some bb, GetTxType = 0\<rparr>"

lemmas connectivity_eval = checkConnectivity_def mk_bhe_def mk_attempt_def NewBlockHistoryEstimator_def cfg0_def getCurrentBlockNum_def
  mk_head_def NewHead_def checkedBlocks_def calculatePercentilePrices_def getPercentilePricesFromBlocks_def addTxPrices_def
  mk_block_def isUsable_def chainSpecificIsUsable_def EffectiveGasPrice_def percentileOf_def attemptAbove_def is_i64_def min_i64_def max_i64_def

theorem connectivity_error_justified_witness:
  "\<exists>a \<in> {mk_attempt 50 5}. \<exists>p. GetGasPrice a = Some p \<and> 10 < p"
proof -
  have "checkConnectivity cfg0 [mk_attempt 50 5] (mk_bhe [6, 7] 10 7) = Some ErrConnectivity"
    by (simp add: connectivity_eval)
  from connectivity_error_justified [OF this] show ?thesis
    by (auto simp: connectivity_eval)
qed

text \<open>When the history is longer than the number of blocks a computation is configured to use, it is the
  newest blocks that are left out: prices and connectivity checks depend on the oldest ones only.\<close>
theorem newest_blocks_ignored:
  assumes "blocks b = old @ newer"
  shows "(old \<noteq> [] \<and> length old = unat (BlockHistorySize cfg) \<longrightarrow>
      map_sum id (\<lambda>r. (gasPrice r, tipCap r)) (Recalculate cfg b) =
      map_sum id (\<lambda>r. (gasPrice r, tipCap r)) (Recalculate cfg (b\<lparr>blocks := old @ newer'\<rparr>))) \<and>
    (length old = unat (CheckInclusionBlocks cfg) \<longrightarrow>
      checkConnectivity cfg attempts b = checkConnectivity cfg attempts (b\<lparr>blocks := old @ newer'\<rparr>))"
proof (intro conjI impI)
  assume o: "old \<noteq> [] \<and> length old = unat (BlockHistorySize cfg)"
  let ?c = "calculatePercentilePrices cfg old (unat (TransactionPercentile cfg)) (EvmEIP1559DynamicFees cfg)"
  have sp: "(gasPrice (setPercentileGasPrice cfg p x), tipCap (setPercentileGasPrice cfg p x)) =
      (gasPrice (setPercentileGasPrice cfg p y), tipCap (setPercentileGasPrice cfg p y))"
    if "tipCap x = tipCap y" for p x y
    using that by (simp add: setPercentileGasPrice_def)
  have st: "(gasPrice (setPercentileTipCap cfg t x), tipCap (setPercentileTipCap cfg t x)) =
      (gasPrice (setPercentileTipCap cfg t y), tipCap (setPercentileTipCap cfg t y))"
    if "gasPrice x = gasPrice y" for t x y
    using that by (simp add: setPercentileTipCap_def)
  have eq: "Recalculate cfg (b\<lparr>blocks := old @ ys\<rparr>) = (case ?c of
      Inl IndexOutOfRange \<Rightarrow> Inl IndexOutOfRange | Inl _ \<Rightarrow> Inr (b\<lparr>blocks := old @ ys\<rparr>)
    | Inr (gp, tc) \<Rightarrow> (let b' = setPercentileGasPrice cfg gp (b\<lparr>blocks := old @ ys\<rparr>)
        in case tc of None \<Rightarrow> Inr b' | Some t \<Rightarrow> Inr (setPercentileTipCap cfg t b')))" for ys
    using o by (simp add: Recalculate_def Let_def)
  have "b = b\<lparr>blocks := old @ newer\<rparr>" using assms by simp
  then have "Recalculate cfg b = Recalculate cfg (b\<lparr>blocks := old @ newer\<rparr>)" by simp
  then show "map_sum id (\<lambda>r. (gasPrice r, tipCap r)) (Recalculate cfg b) =
      map_sum id (\<lambda>r. (gasPrice r, tipCap r)) (Recalculate cfg (b\<lparr>blocks := old @ newer'\<rparr>))"
    unfolding eq
    using sp [of "b\<lparr>blocks := old @ newer\<rparr>" "b\<lparr>blocks := old @ newer'\<rparr>"]
    by (auto simp: Let_def setPercentileGasPrice_def setPercentileTipCap_def split: sum.split gas_error.split option.split prod.split)
next
  assume l: "length old = unat (CheckInclusionBlocks cfg)"
  have cb: "checkedBlocks (old @ ys) (length old) bb = checkedBlocks old (length old) bb" for ys bb
    by (simp add: checkedBlocks_def)
  have ca: "checkAttempts cfg n (old @ ys) (length old) as = checkAttempts cfg n (old @ zs) (length old) as" for n as ys zs
    by (induction as) (simp_all add: cb Let_def split: option.split sum.split bool.split gas_error.split)
  show "checkConnectivity cfg attempts b = checkConnectivity cfg attempts (b\<lparr>blocks := old @ newer'\<rparr>)"
    unfolding checkConnectivity_def getCurrentBlockNum_def l [symmetric]
    by (simp add: Let_def assms ca [where ys = newer and zs = "[]"] ca [where ys = newer' and zs = "[]"] split: option.split)
qed

theorem newest_blocks_ignored_witness:
  "checkConnectivity cfg0 [mk_attempt 50 6] (mk_bhe [4, 5, 6, 7] 10 8) = None \<and>
   checkConnectivity cfg0 [mk_attempt 50 6] (mk_bhe [6, 7] 10 8) = Some ErrConnectivity"
proof -
  have "checkConnectivity cfg0 [mk_attempt 50 6] (mk_bhe [4, 5, 6, 7] 10 8) =
     checkConnectivity cfg0 [mk_attempt 50 6] ((mk_bhe [4, 5, 6, 7] 10 8)\<lparr>blocks := [mk_block 4 10, mk_block 5 10] @ []\<rparr>)"
    using newest_blocks_ignored [of "mk_bhe [4, 5, 6, 7] 10 8" "[mk_block 4 10, mk_block 5 10]" "[mk_block 6 10, mk_block 7 10]" cfg0
        "[]" "[mk_attempt 50 6]"]
    by (simp add: mk_bhe_def cfg0_def)
  then show ?thesis by (simp add: connectivity_eval)
qed

end
