(* ===== verification/Head_Tracker.thy ===== *)
theory Head_Tracker
  imports Head_Chain Mailbox "HOL-Library.Product_Lexorder"
begin

text \<open>
  The head tracker (\<^verbatim>\<open>core/chains/evm/headtracker\<close>): the table of heads and its queries (\<^verbatim>\<open>orm.go\<close>), the
  head saver that keeps table and memory in step (\<^verbatim>\<open>head_saver.go\<close>), the handling of a new head and
  the backfill of missing ancestors (\<^verbatim>\<open>head_tracker.go\<close>), and the broadcaster that relays the
  longest chain to its subscribers (\<^verbatim>\<open>head_broadcaster.go\<close>).

  The SQL statements are modelled over the list of rows in insertion order. Whether a query fails, what
  the RPC node answers and whether the context is done are parameters. A head handed on with its chain is
  a pair of the memory its parents are read in and the head.
\<close>

section \<open>The table of heads\<close>

datatype track_error = ErrInsert | ErrTrim | ErrSelect | ErrHeadWithChainNil | ErrRPC | ErrNilHead | PanicCircular

record head_db =
  db_rows :: "head list"
  db_nextID :: int

definition InsertHead :: "head \<Rightarrow> head_db \<Rightarrow> head_db" where
  "InsertHead h db =
    (if \<exists>r \<in> set (db_rows db). EVMChainID r = EVMChainID h \<and> Hash r = Hash h
     then db\<lparr>db_nextID := db_nextID db + 1\<rparr>
     else db\<lparr>db_rows := db_rows db @ [h\<lparr>ID := db_nextID db, Parent := None\<rparr>], db_nextID := db_nextID db + 1\<rparr>)"

definition IdempotentInsertHead :: "bool \<Rightarrow> head \<Rightarrow> head_db \<Rightarrow> track_error + head_db" where
  "IdempotentInsertHead fails h db = (if fails then Inl ErrInsert else Inr (InsertHead h db))"

definition rows_of :: "int \<Rightarrow> head_db \<Rightarrow> head list" where
  "rows_of chainID db = filter (\<lambda>r. EVMChainID r = chainID) (db_rows db)"

text \<open>\<^verbatim>\<open>ORDER BY number DESC LIMIT n\<close>; the minimum of no rows is NULL, and then no row compares below it.\<close>

definition TrimHeads :: "int \<Rightarrow> nat \<Rightarrow> head_db \<Rightarrow> head_db" where
  "TrimHeads chainID n db =
    (case take n (rev (sort (map Number (rows_of chainID db)))) of
       [] \<Rightarrow> db
     | numbers \<Rightarrow> db\<lparr>db_rows := filter (\<lambda>r. \<not> (EVMChainID r = chainID \<and> Number r < Min (set numbers))) (db_rows db)\<rparr>)"

definition TrimOldHeads :: "bool \<Rightarrow> int \<Rightarrow> nat \<Rightarrow> head_db \<Rightarrow> track_error + head_db" where
  "TrimOldHeads fails chainID n db = (if fails then Inl ErrTrim else Inr (TrimHeads chainID n db))"

text \<open>\<^verbatim>\<open>ORDER BY number DESC, created_at DESC, id DESC\<close>\<close>

definition newest_first :: "head list \<Rightarrow> head list" where
  "newest_first rs = sort_key (\<lambda>r. (- Number r, - CreatedAt r, - ID r)) rs"

definition orm_LatestHead :: "bool \<Rightarrow> int \<Rightarrow> head_db \<Rightarrow> track_error + head option" where
  "orm_LatestHead fails chainID db = (if fails then Inl ErrSelect
     else Inr (case newest_first (rows_of chainID db) of [] \<Rightarrow> None | r # _ \<Rightarrow> Some r))"

definition LatestHeads :: "bool \<Rightarrow> int \<Rightarrow> nat \<Rightarrow> head_db \<Rightarrow> track_error + head list" where
  "LatestHeads fails chainID limit db = (if fails then Inl ErrSelect else Inr (take limit (newest_first (rows_of chainID db))))"

definition orm_HeadByHash :: "bool \<Rightarrow> int \<Rightarrow> hash \<Rightarrow> head_db \<Rightarrow> track_error + head option" where
  "orm_HeadByHash fails chainID hash db = (if fails then Inl ErrSelect
     else Inr (find (\<lambda>r. EVMChainID r = chainID \<and> Hash r = hash) (db_rows db)))"

section \<open>The head saver\<close>

record tracker_config =
  EvmHeadTrackerHistoryDepth :: u32
  EvmFinalityDepth :: u32
  ht_chainID :: int

record saver =
  hs_db :: head_db
  hs_col :: heads_st

type_synonym map_order = "(hash \<times> head) list \<Rightarrow> (hash \<times> head) list"

text \<open>\<open>f\<close> tells which of the two queries of a call fails.\<close>

definition saver_Save :: "tracker_config \<Rightarrow> map_order \<Rightarrow> bool \<times> bool \<Rightarrow> head \<Rightarrow> saver \<Rightarrow> saver \<times> track_error option" where
  "saver_Save cfg ord f h st =
    (case IdempotentInsertHead (fst f) h (hs_db st) of
       Inl e \<Rightarrow> (st, Some e)
     | Inr db \<Rightarrow>
        (let historyDepth = unat (EvmHeadTrackerHistoryDepth cfg);
             st' = st\<lparr>hs_db := db, hs_col := AddHeads ord historyDepth [h] (hs_col st)\<rparr>
         in case TrimOldHeads (snd f) (ht_chainID cfg) historyDepth db of
              Inl e \<Rightarrow> (st', Some e)
            | Inr db' \<Rightarrow> (st'\<lparr>hs_db := db'\<rparr>, None)))"

definition LoadFromDB :: "tracker_config \<Rightarrow> map_order \<Rightarrow> bool \<Rightarrow> saver \<Rightarrow> saver \<times> (track_error + head option)" where
  "LoadFromDB cfg ord fails st =
    (let historyDepth = unat (EvmHeadTrackerHistoryDepth cfg)
     in case LatestHeads fails (ht_chainID cfg) historyDepth (hs_db st) of
          Inl e \<Rightarrow> (st, Inl e)
        | Inr heads \<Rightarrow>
            (let col = AddHeads ord historyDepth heads (hs_col st) in (st\<lparr>hs_col := col\<rparr>, Inr (LatestHead col))))"

definition LatestHeadFromDB :: "tracker_config \<Rightarrow> bool \<Rightarrow> saver \<Rightarrow> track_error + head option" where
  "LatestHeadFromDB cfg fails st = orm_LatestHead fails (ht_chainID cfg) (hs_db st)"

text \<open>\<^verbatim>\<open>LatestChain\<close> reads the chain length only to log, but that loop can panic or not return.\<close>

definition LatestChain :: "saver \<Rightarrow> (track_error + head option) option" where
  "LatestChain st = (case LatestHead (hs_col st) of
     None \<Rightarrow> Some (Inr None)
   | Some h \<Rightarrow> (case ChainLength (hs_mem (hs_col st)) (Some h) of
        None \<Rightarrow> None
      | Some (Inl CircularReference) \<Rightarrow> Some (Inl PanicCircular)
      | Some (Inr _) \<Rightarrow> Some (Inr (Some h))))"

definition Chain :: "hash \<Rightarrow> saver \<Rightarrow> head option" where
  "Chain hash st = HeadByHash (hs_col st) hash"

section \<open>The head tracker\<close>

record tracker =
  ht_saver :: saver
  backfillMB :: "chain mailbox"
  broadcastMB :: "chain mailbox"

definition HeadsBufferSize :: u64 where "HeadsBufferSize = 10"

definition NewHeadTracker :: "saver \<Rightarrow> tracker" where
  "NewHeadTracker s = \<lparr>ht_saver = s, backfillMB = NewMailbox 1, broadcastMB = NewMailbox HeadsBufferSize\<rparr>"

text \<open>\<open>None\<close>: the handler does not return, because the chain length of the previous head does not.\<close>

definition handleNewHead :: "tracker_config \<Rightarrow> map_order \<Rightarrow> bool \<times> bool \<Rightarrow> bool \<Rightarrow> head \<Rightarrow> tracker \<Rightarrow>
    (tracker \<times> track_error option) option" where
  "handleNewHead cfg ord f ctxDone head ht =
    (case LatestChain (ht_saver ht) of
       None \<Rightarrow> None
     | Some (Inl e) \<Rightarrow> Some (ht, Some e)
     | Some (Inr prevHead) \<Rightarrow> Some
        (let (s, err) = saver_Save cfg ord f head (ht_saver ht); ht' = ht\<lparr>ht_saver := s\<rparr>
         in if ctxDone then (ht', None)
            else (case err of
                Some e \<Rightarrow> (ht', Some e)
              | None \<Rightarrow>
                  if GreaterThan (Some head) prevHead then
                    (case Chain (Hash head) s of
                       None \<Rightarrow> (ht', Some ErrHeadWithChainNil)
                     | Some headWithChain \<Rightarrow>
                         (let c = (hs_mem (hs_col s), headWithChain)
                          in (ht'\<lparr>backfillMB := fst (Deliver c (backfillMB ht)),
                                  broadcastMB := fst (Deliver c (broadcastMB ht))\<rparr>, None)))
                  else (ht', None))))"

text \<open>What the RPC node answers to \<^verbatim>\<open>HeadByNumber\<close>.\<close>

datatype rpc_head = RpcError | RpcNil | RpcHead head

definition fetchAndSaveHead :: "tracker_config \<Rightarrow> map_order \<Rightarrow> bool \<times> bool \<Rightarrow> (int \<Rightarrow> rpc_head) \<Rightarrow> int \<Rightarrow> saver \<Rightarrow>
    saver \<times> (track_error + head)" where
  "fetchAndSaveHead cfg ord f rpc n st =
    (case rpc n of
       RpcError \<Rightarrow> (st, Inl ErrRPC)
     | RpcNil \<Rightarrow> (st, Inl ErrNilHead)
     | RpcHead head \<Rightarrow>
        (case saver_Save cfg ord f head st of
           (st', Some e) \<Rightarrow> (st', Inl e)
         | (st', None) \<Rightarrow> (st', Inr head)))"

text \<open>
  The loop of \<^verbatim>\<open>backfill\<close> from height \<open>i\<close> down to \<open>baseHeight\<close>. \<open>ctxErr i\<close> and \<open>dbErr i\<close> are the context and the
  database at the moment of height \<open>i\<close>. When the context is done after a failed fetch the loop breaks with
  that error, after a successful one without. The heights fetched are recorded.
\<close>

function backfillHeights :: "tracker_config \<Rightarrow> map_order \<Rightarrow> (int \<Rightarrow> bool \<times> bool) \<Rightarrow> (int \<Rightarrow> bool) \<Rightarrow> (int \<Rightarrow> rpc_head) \<Rightarrow>
    int \<Rightarrow> int \<Rightarrow> head \<Rightarrow> int list \<Rightarrow> saver \<Rightarrow> saver \<times> int list \<times> track_error option" where
  "backfillHeights cfg ord dbErr ctxErr rpc baseHeight i head fetched st =
    (if i < baseHeight then (st, fetched, None)
     else (case Chain (ParentHash head) st of
        Some existingHead \<Rightarrow> backfillHeights cfg ord dbErr ctxErr rpc baseHeight (i - 1) existingHead fetched st
      | None \<Rightarrow>
          (case fetchAndSaveHead cfg ord (dbErr i) rpc i st of
             (st', Inl e) \<Rightarrow> (st', fetched @ [i], Some e)
           | (st', Inr head') \<Rightarrow>
               if ctxErr i then (st', fetched @ [i], None)
               else backfillHeights cfg ord dbErr ctxErr rpc baseHeight (i - 1) head' (fetched @ [i]) st')))"
  by pat_completeness auto
termination by (relation "measure (\<lambda>(cfg, ord, dbErr, ctxErr, rpc, b, i, h, fs, st). nat (i - b + 1))") auto

declare backfillHeights.simps [simp del]

definition backfill :: "tracker_config \<Rightarrow> map_order \<Rightarrow> (int \<Rightarrow> bool \<times> bool) \<Rightarrow> (int \<Rightarrow> bool) \<Rightarrow> (int \<Rightarrow> rpc_head) \<Rightarrow>
    head \<Rightarrow> int \<Rightarrow> saver \<Rightarrow> saver \<times> int list \<times> track_error option" where
  "backfill cfg ord dbErr ctxErr rpc head baseHeight st =
    (if Number head \<le> baseHeight then (st, [], None)
     else backfillHeights cfg ord dbErr ctxErr rpc baseHeight (Number head - 1) head [] st)"

definition Backfill :: "tracker_config \<Rightarrow> map_order \<Rightarrow> (int \<Rightarrow> bool \<times> bool) \<Rightarrow> (int \<Rightarrow> bool) \<Rightarrow> (int \<Rightarrow> rpc_head) \<Rightarrow>
    chain \<Rightarrow> nat \<Rightarrow> saver \<Rightarrow> (saver \<times> int list \<times> track_error option) option" where
  "Backfill cfg ord dbErr ctxErr rpc c depth st =
    (case ChainLength (fst c) (Some (snd c)) of
       None \<Rightarrow> None
     | Some (Inl CircularReference) \<Rightarrow> Some (st, [], Some PanicCircular)
     | Some (Inr len) \<Rightarrow>
         if unat len \<ge> depth then Some (st, [], None)
         else (let baseHeight = wrap64 (Number (snd c) - int (depth - 1));
                   baseHeight' = (if baseHeight < 0 then 0 else baseHeight)
               in case EarliestInChain (fst c) (snd c) of
                    None \<Rightarrow> None
                  | Some e \<Rightarrow> Some (backfill cfg ord dbErr ctxErr rpc e baseHeight' st)))"

text \<open>Starting: the heads of the table are loaded, the node's latest head is handled as a new one, and the loops are
  launched, unless the context is done and the node's answer is the context's error: \<open>isCtxErr\<close> is
  \<^verbatim>\<open>errors.Is(err, ctx.Err())\<close> for a context that is done (for one that is not, no error is nil).\<close>

datatype start_result = StartError track_error | StartIdle | StartRunning

definition tracker_Start :: "tracker_config \<Rightarrow> map_order \<Rightarrow> bool \<Rightarrow> bool \<times> bool \<Rightarrow> bool \<Rightarrow> bool \<Rightarrow> rpc_head \<Rightarrow> tracker \<Rightarrow>
    (tracker \<times> start_result) option" where
  "tracker_Start cfg ord selErr f ctxDone isCtxErr latest ht =
    (case LoadFromDB cfg ord selErr (ht_saver ht) of
       (s, Inl e) \<Rightarrow> Some (ht\<lparr>ht_saver := s\<rparr>, StartError e)
     | (s, Inr latestChain) \<Rightarrow>
        (let ht' = ht\<lparr>ht_saver := s\<rparr>
         in case latest of
              RpcError \<Rightarrow> Some (ht', if ctxDone \<and> isCtxErr then StartIdle else StartRunning)
            | RpcNil \<Rightarrow> Some (ht', StartRunning)
            | RpcHead initialHead \<Rightarrow>
                (case handleNewHead cfg ord f ctxDone initialHead ht' of
                   None \<Rightarrow> None
                 | Some (ht'', Some e) \<Rightarrow> Some (ht'', StartError e)
                 | Some (ht'', None) \<Rightarrow> Some (ht'', StartRunning))))"

section \<open>The head broadcaster\<close>

text \<open>Subscribers are numbered; what a callback does with a head is outside the model, so running the
  callbacks returns the subscribers called.\<close>

record 'c broadcaster =
  callbacks :: "(int \<times> 'c) list"
  hb_mailbox :: "chain mailbox"
  hb_latest :: "chain option"
  lastCallbackID :: int

definition NewHeadBroadcaster :: "'c broadcaster" where
  "NewHeadBroadcaster = \<lparr>callbacks = [], hb_mailbox = NewMailbox 1, hb_latest = None, lastCallbackID = 0\<rparr>"

definition BroadcastNewLongestChain :: "chain \<Rightarrow> 'c broadcaster \<Rightarrow> 'c broadcaster" where
  "BroadcastNewLongestChain head hb = hb\<lparr>hb_mailbox := fst (Deliver head (hb_mailbox hb))\<rparr>"

text \<open>\<^verbatim>\<open>Subscribe\<close> returns the latest chain and the number its unsubscribe function deletes; \<^verbatim>\<open>lastCallbackID\<close> is
  an \<^verbatim>\<open>int\<close>, of 64 bits, so that the number after the largest is the smallest.\<close>

definition Subscribe :: "'c \<Rightarrow> 'c broadcaster \<Rightarrow> 'c broadcaster \<times> chain option \<times> int" where
  "Subscribe callback hb =
    (let callbackID = wrap64 (lastCallbackID hb + 1)
     in (hb\<lparr>lastCallbackID := callbackID, callbacks := AList.update callbackID callback (callbacks hb)\<rparr>,
         hb_latest hb, callbackID))"

definition unsubscribe :: "int \<Rightarrow> 'c broadcaster \<Rightarrow> 'c broadcaster" where
  "unsubscribe callbackID hb = hb\<lparr>callbacks := AList.delete callbackID (callbacks hb)\<rparr>"

definition broadcaster_Close :: "'c broadcaster \<Rightarrow> 'c broadcaster" where
  "broadcaster_Close hb = hb\<lparr>callbacks := []\<rparr>"

definition callbackSet_values :: "(int \<times> 'c) list \<Rightarrow> 'c list" where
  "callbackSet_values cs = map snd cs"

definition executeCallbacks :: "'c broadcaster \<Rightarrow> 'c broadcaster \<times> (chain \<times> 'c list) option" where
  "executeCallbacks hb =
    (case Retrieve (hb_mailbox hb) of
       (mb, None) \<Rightarrow> (hb\<lparr>hb_mailbox := mb\<rparr>, None)
     | (mb, Some head) \<Rightarrow> (hb\<lparr>hb_mailbox := mb, hb_latest := Some head\<rparr>, Some (head, callbackSet_values (callbacks hb))))"

section \<open>Trimming the table\<close>

lemma filter_takeWhile_desc:
  "sorted_wrt (\<lambda>a b. b \<le> a) L \<Longrightarrow> filter (\<lambda>y. (x::int) < y) L = takeWhile (\<lambda>y. x < y) L"
proof (induction L)
  case (Cons a L)
  have "filter (\<lambda>y. x < y) L = []" if "\<not> x < a" using that Cons.prems by (auto simp: filter_empty_conv)
  moreover have "filter (\<lambda>y. x < y) L = takeWhile (\<lambda>y. x < y) L" using Cons by simp
  ultimately show ?case by auto
qed simp

lemma take_all_takeWhile: "n \<le> length L \<Longrightarrow> (\<forall>y \<in> set (take n L). P y) \<longleftrightarrow> n \<le> length (takeWhile P L)"
proof (induction L arbitrary: n)
  case (Cons a L)
  then show ?case by (cases n) auto
qed simp

lemma below_top:
  assumes "sorted_wrt (\<lambda>a b. b \<le> a) L" and "(x::int) \<in> set L" and "take n L \<noteq> []"
  shows "x < Min (set (take n L)) \<longleftrightarrow> n \<le> length (filter (\<lambda>y. x < y) L)"
proof (cases "n \<le> length L")
  case True
  have "x < Min (set (take n L)) \<longleftrightarrow> (\<forall>y \<in> set (take n L). x < y)" using assms(3) by simp
  then show ?thesis using take_all_takeWhile [OF True, of "\<lambda>y. x < y"] filter_takeWhile_desc [OF assms(1)] by simp
next
  case False
  then have "\<not> x < Min (set (take n L))" using assms(2) Min_le [of "set L" x] by (simp add: not_less)
  moreover have "length (filter (\<lambda>y. x < y) L) \<le> length L" by simp
  ultimately show ?thesis using False by linarith
qed

lemma TrimHeads_rows:
  assumes "0 < n" and "r \<in> set (db_rows db)" and "EVMChainID r = chainID"
  shows "r \<in> set (db_rows (TrimHeads chainID n db)) \<longleftrightarrow>
    length (filter (\<lambda>r'. Number r < Number r') (rows_of chainID db)) < n"
proof -
  let ?ns = "map Number (rows_of chainID db)"
  let ?L = "rev (sort ?ns)"
  have desc: "sorted_wrt (\<lambda>a b. b \<le> a) ?L" by (simp add: sorted_wrt_rev)
  have mem: "Number r \<in> set ?L" using assms(2,3) by (simp add: rows_of_def)
  then have ne: "take n ?L \<noteq> []" using assms(1) by (cases ?L) auto
  have "mset (filter (\<lambda>y. Number r < y) ?L) = mset (filter (\<lambda>y. Number r < y) ?ns)"
    unfolding mset_filter by simp
  then have "length (filter (\<lambda>y. Number r < y) ?L) = length (filter (\<lambda>y. Number r < y) ?ns)" by (rule mset_eq_length)
  then have "length (filter (\<lambda>y. Number r < y) ?L) = length (filter (\<lambda>r'. Number r < Number r') (rows_of chainID db))"
    by (simp add: filter_map comp_def)
  moreover have "r \<in> set (db_rows (TrimHeads chainID n db)) \<longleftrightarrow> \<not> Number r < Min (set (take n ?L))"
    using ne assms(2,3) unfolding TrimHeads_def by (auto split: list.split)
  ultimately show ?thesis using below_top [OF desc mem ne] by linarith
qed

lemma TrimHeads_other: "EVMChainID r \<noteq> chainID \<Longrightarrow> r \<in> set (db_rows (TrimHeads chainID n db)) \<longleftrightarrow> r \<in> set (db_rows db)"
  by (auto simp: TrimHeads_def split: list.split)

lemma TrimHeads_subset: "set (db_rows (TrimHeads chainID n db)) \<subseteq> set (db_rows db)"
  by (auto simp: TrimHeads_def split: list.split)

section \<open>The invariant of the saver\<close>

definition saver_inv :: "saver \<Rightarrow> bool" where
  "saver_inv st \<longleftrightarrow> sorted_wrt (\<lambda>a b. Number b \<le> Number a) (hs_heads (hs_col st)) \<and>
     (\<forall>h \<in> set (hs_heads (hs_col st)). Hash h \<noteq> ParentHash h) \<and> distinct (map Hash (hs_heads (hs_col st)))"

lemma AddHeads_inv:
  assumes "permutes_maps ord"
  shows "sorted_wrt (\<lambda>a b. Number b \<le> Number a) (hs_heads (AddHeads ord d new st)) \<and>
    (\<forall>h \<in> set (hs_heads (AddHeads ord d new st)). Hash h \<noteq> ParentHash h) \<and>
    distinct (map Hash (hs_heads (AddHeads ord d new st)))"
proof (intro conjI ballI)
  note num = map_erase_eqD(2) [OF AddHeads_erase [of ord d new st]]
  show "sorted_wrt (\<lambda>a b. Number b \<le> Number a) (hs_heads (AddHeads ord d new st))"
    using kept_sorted [of ord d "hs_heads st @ new"] sorted_wrt_map [of "\<lambda>a b. b \<le> a" Number "kept ord d (hs_heads st @ new)"]
      sorted_wrt_map [of "\<lambda>a b. b \<le> a" Number "hs_heads (AddHeads ord d new st)"] unfolding num by blast
  show "distinct (map Hash (hs_heads (AddHeads ord d new st)))" by (rule AddHeads_distinct [OF assms])
  fix h assume "h \<in> set (hs_heads (AddHeads ord d new st))"
  from AddHeads_mem [OF assms AddHeads_mem_heads [OF assms this]]
  obtain h0 where "newest (hs_heads st @ new) (Hash h) = Some h0" "erase h = erase h0" by blast
  then show "Hash h \<noteq> ParentHash h" using newest_Some [of "hs_heads st @ new" "Hash h" h0] erase_eqD [of h h0] by argo
qed

lemma newest_last: "Hash h \<noteq> ParentHash h \<Longrightarrow> newest (hs @ [h]) (Hash h) = Some h"
  by (simp add: newest_def)

text \<open>A head higher than all others is kept, at the front.\<close>

lemma AddHeads_highest:
  assumes ord: "permutes_maps ord" and "0 < d" and "Hash h \<noteq> ParentHash h"
    and "\<forall>k \<in> set (hs_heads st). Number k < Number h"
  shows "\<exists>h'. HeadByHash (AddHeads ord d [h] st) (Hash h) = Some h' \<and> erase h' = erase h \<and>
    LatestHead (AddHeads ord d [h] st) = Some h'"
proof -
  let ?k = "hs_heads st @ [h]" and ?st = "AddHeads ord d [h] st"
  have nw: "newest ?k (Hash h) = Some h" by (rule newest_last [OF assms(3)])
  then have "{p. newest ?k p \<noteq> None} \<noteq> {}" by auto
  moreover have "finite {p. newest ?k p \<noteq> None}"
  proof (rule finite_subset)
    show "{p. newest ?k p \<noteq> None} \<subseteq> Hash ` set ?k" by (auto simp del: set_append dest!: newest_Some)
  qed simp
  ultimately have "0 < card {p. newest ?k p \<noteq> None}" by (simp add: card_gt_0_iff)
  with length_kept [OF ord, of d ?k] assms(2) have "kept ord d ?k \<noteq> []" by auto
  then obtain k0 ks where hs: "hs_heads ?st = k0 # ks"
    using map_erase_eqD(1) [OF AddHeads_erase [of ord d "[h]" st]] by (cases "hs_heads ?st") auto
  have k0: "\<exists>h0. newest ?k (Hash k) = Some h0 \<and> erase k = erase h0" if "k \<in> set (hs_heads ?st)" for k
    using AddHeads_mem [OF ord AddHeads_mem_heads [OF ord that]] by blast
  have "Hash k0 = Hash h"
  proof (rule ccontr)
    assume ne: "Hash k0 \<noteq> Hash h"
    obtain h0 where h0: "newest ?k (Hash k0) = Some h0" "erase k0 = erase h0" using k0 [of k0] hs by auto
    have "h0 \<in> set (hs_heads st)" using newest_Some [OF h0(1)] ne by auto
    then have lt: "Number k0 < Number h" using assms(4) erase_eqD [OF h0(2)] by simp
    have "Number h \<le> Number k0"
    proof (cases "Hash h \<in> Hash ` set (kept ord d ?k)")
      case True
      then have "Hash h \<in> Hash ` set (hs_heads ?st)"
        using map_erase_eqD(1) [OF AddHeads_erase [of ord d "[h]" st]] by (metis list.set_map)
      then obtain k where k: "k \<in> set (hs_heads ?st)" "Hash k = Hash h" by auto
      then have "Number k = Number h" using k0 [OF k(1)] nw erase_eqD by (metis option.inject)
      moreover have "Number k \<le> Number k0" using AddHeads_inv [OF ord, of d "[h]" st] k(1) hs by auto
      ultimately show ?thesis by simp
    next
      case False
      obtain c where c: "c \<in> set (kept ord d ?k)" "Number c = Number k0"
        using map_erase_eqD(2) [OF AddHeads_erase [of ord d "[h]" st]] hs
        by (metis (no_types, lifting) imageE list.set_intros(1) list.set_map list.simps(9))
      then show ?thesis using kept_highest [OF ord nw False] by metis
    qed
    with lt show False by simp
  qed
  moreover obtain h0 where "newest ?k (Hash k0) = Some h0" "erase k0 = erase h0" using k0 [of k0] hs by auto
  ultimately have "erase k0 = erase h" using nw by simp
  then show ?thesis using hs \<open>Hash k0 = Hash h\<close> by (auto simp: HeadByHash_def LatestHead_def)
qed

section \<open>What a backfill fetches\<close>

definition descending_from :: "int \<Rightarrow> int \<Rightarrow> int list \<Rightarrow> bool" where
  "descending_from b i ys \<longleftrightarrow> sorted_wrt (>) ys \<and> (\<forall>y \<in> set ys. b \<le> y \<and> y \<le> i)"

lemma descending_from_length: "descending_from b i ys \<Longrightarrow> length ys \<le> nat (i - b + 1)"
proof -
  assume d: "descending_from b i ys"
  then have "sorted_wrt (<) (rev ys)" by (simp add: descending_from_def sorted_wrt_rev)
  then have "distinct ys" by (simp add: strict_sorted_iff)
  moreover have "set ys \<subseteq> {b..i}" using d by (auto simp: descending_from_def)
  ultimately have "length ys \<le> card {b..i}" by (metis card_mono distinct_card finite_atLeastAtMost_int)
  then show ?thesis by simp
qed

lemma backfillHeights_fetched:
  "\<exists>ys. fst (snd (backfillHeights cfg ord dbErr ctxErr rpc b i h fetched st)) = fetched @ ys \<and> descending_from b i ys"
proof (induction cfg ord dbErr ctxErr rpc b i h fetched st rule: backfillHeights.induct)
  case (1 cfg ord dbErr ctxErr rpc b i h fetched st)
  show ?case
  proof (cases "i < b")
    case True
    then show ?thesis by (subst backfillHeights.simps) (simp add: descending_from_def)
  next
    case False
    have mono: "descending_from b (i - 1) ys \<Longrightarrow> descending_from b i ys" for ys by (auto simp: descending_from_def)
    have mono': "descending_from b (i - 1) ys \<Longrightarrow> descending_from b i (i # ys)" for ys
      using False by (fastforce simp: descending_from_def)
    have single: "descending_from b i [i]" using False by (simp add: descending_from_def)
    show ?thesis
    proof (cases "Chain (ParentHash h) st")
      case (Some e)
      from 1(2) [OF False Some] mono False Some show ?thesis by (subst backfillHeights.simps) auto
    next
      case None
      obtain st' r where f: "fetchAndSaveHead cfg ord (dbErr i) rpc i st = (st', r)" by fastforce
      show ?thesis
      proof (cases r)
        case (Inl e)
        with False None f single show ?thesis by (subst backfillHeights.simps) auto
      next
        case (Inr h')
        show ?thesis
        proof (cases "ctxErr i")
          case True
          with False None f Inr single show ?thesis by (subst backfillHeights.simps) auto
        next
          case nc: False
          from 1(1) [OF False None f [symmetric] Inr nc] obtain ys where
            "fst (snd (backfillHeights cfg ord dbErr ctxErr rpc b (i - 1) h' (fetched @ [i]) st')) = (fetched @ [i]) @ ys"
            "descending_from b (i - 1) ys" by blast
          with False None f Inr nc mono' show ?thesis by (subst backfillHeights.simps) auto
        qed
      qed
    qed
  qed
qed

text \<open>A backfill against a node that answers with one chain of blocks.\<close>

definition canonical :: "int \<Rightarrow> int \<Rightarrow> (int \<Rightarrow> head) \<Rightarrow> bool" where
  "canonical b t c \<longleftrightarrow> (\<forall>i. b < i \<longrightarrow> i < t \<longrightarrow> ParentHash (c i) = Hash (c (i - 1))) \<and> inj_on (\<lambda>i. Hash (c i)) {b..<t}"

text \<open>The hash of a block determines its parent, also for the heads in memory.\<close>

definition agrees :: "int \<Rightarrow> int \<Rightarrow> (int \<Rightarrow> head) \<Rightarrow> saver \<Rightarrow> bool" where
  "agrees b t c st \<longleftrightarrow>
    (\<forall>x \<in> set (hs_heads (hs_col st)). \<forall>i \<in> {b..<t}. Hash x = Hash (c i) \<longrightarrow> ParentHash x = ParentHash (c i))"

lemma AddHeads_sources:
  assumes "permutes_maps ord" and "x \<in> set (hs_heads (AddHeads ord d [h] st))"
  shows "\<exists>y. (y \<in> set (hs_heads st) \<or> y = h) \<and> erase x = erase y"
proof -
  from AddHeads_mem [OF assms(1) AddHeads_mem_heads [OF assms]]
  obtain y where y: "newest (hs_heads st @ [h]) (Hash x) = Some y" "erase x = erase y" by blast
  from newest_Some [OF y(1)] have "y \<in> set (hs_heads st) \<or> y = h" by auto
  with y(2) show ?thesis by blast
qed

lemma saver_Save_ok:
  "saver_Save cfg ord (False, False) h st =
    (st\<lparr>hs_db := TrimHeads (ht_chainID cfg) (unat (EvmHeadTrackerHistoryDepth cfg)) (InsertHead h (hs_db st)),
        hs_col := AddHeads ord (unat (EvmHeadTrackerHistoryDepth cfg)) [h] (hs_col st)\<rparr>, None)"
  by (simp add: saver_Save_def IdempotentInsertHead_def TrimOldHeads_def Let_def)

lemma backfillHeights_covers:
  assumes ord: "permutes_maps ord" and c: "canonical b t c"
  shows "agrees b t c st \<Longrightarrow> i < t \<Longrightarrow> (b \<le> i \<longrightarrow> ParentHash h = Hash (c i)) \<Longrightarrow>
    (case backfillHeights cfg ord (\<lambda>_. (False, False)) (\<lambda>_. False) (\<lambda>n. RpcHead (c n)) b i h fetched st of
       (st', fs, err) \<Rightarrow> err = None \<and>
         (\<forall>j. b \<le> j \<longrightarrow> j \<le> i \<longrightarrow> j \<in> set fs \<or> Hash (c j) \<in> Hash ` set (hs_heads (hs_col st))))"
proof (induction "nat (i - b + 1)" arbitrary: i h fetched st)
  case 0
  then show ?case by (subst backfillHeights.simps) auto
next
  case (Suc n)
  have ib: "\<not> i < b" and n: "n = nat (i - 1 - b + 1)" and it: "i - 1 < t" "i \<in> {b..<t}"
    using Suc.hyps(2) Suc.prems(2) by auto
  then have ph: "ParentHash h = Hash (c i)" using Suc.prems(3) by simp
  have par: "b \<le> i - 1 \<longrightarrow> ParentHash (c i) = Hash (c (i - 1))" using c it by (simp add: canonical_def)
  show ?case
  proof (cases "Chain (ParentHash h) st")
    case (Some e)
    then have e: "e \<in> set (hs_heads (hs_col st))" "Hash e = Hash (c i)"
      using find_SomeD [of "\<lambda>h'. Hash h' = ParentHash h" "hs_heads (hs_col st)" e] ph
      unfolding Chain_def HeadByHash_def by simp_all
    then have "ParentHash e = ParentHash (c i)" using Suc.prems(1) it(2) unfolding agrees_def by blast
    with par have "b \<le> i - 1 \<longrightarrow> ParentHash e = Hash (c (i - 1))" by simp
    from Suc.hyps(1) [OF n Suc.prems(1) it(1) this, of fetched]
    have IH: "case backfillHeights cfg ord (\<lambda>_. (False, False)) (\<lambda>_. False) (\<lambda>n. RpcHead (c n)) b (i - 1) e fetched st of
       (st', fs, err) \<Rightarrow> err = None \<and>
         (\<forall>j. b \<le> j \<longrightarrow> j \<le> i - 1 \<longrightarrow> j \<in> set fs \<or> Hash (c j) \<in> Hash ` set (hs_heads (hs_col st)))" .
    obtain st' fs err where r: "backfillHeights cfg ord (\<lambda>_. (False, False)) (\<lambda>_. False) (\<lambda>n. RpcHead (c n)) b (i - 1) e
        fetched st = (st', fs, err)" by (metis prod_cases3)
    have "Hash (c i) \<in> Hash ` set (hs_heads (hs_col st))" using e by (metis imageI)
    then have "j \<in> set fs \<or> Hash (c j) \<in> Hash ` set (hs_heads (hs_col st))" if "b \<le> j" "j \<le> i" for j
      using IH r that by (cases "j = i") auto
    then show ?thesis using IH Some ib r by (subst backfillHeights.simps) simp
  next
    case None
    let ?st = "fst (saver_Save cfg ord (False, False) (c i) st)"
    have src: "\<exists>y. (y \<in> set (hs_heads (hs_col st)) \<or> y = c i) \<and> erase x = erase y" if "x \<in> set (hs_heads (hs_col ?st))" for x
      using AddHeads_sources [OF ord] that by (simp add: saver_Save_ok)
    have "agrees b t c ?st"
      unfolding agrees_def
    proof (intro ballI impI)
      fix x j assume x: "x \<in> set (hs_heads (hs_col ?st))" and j: "j \<in> {b..<t}" and h: "Hash x = Hash (c j)"
      obtain y where y: "y \<in> set (hs_heads (hs_col st)) \<or> y = c i" "erase x = erase y" using src [OF x] by blast
      have "Hash y = Hash (c j)" using erase_eqD [OF y(2)] h by simp
      moreover have "i = j" if "y = c i" using c that calculation j it(2) unfolding canonical_def inj_on_def by blast
      ultimately have "ParentHash y = ParentHash (c j)" using y(1) Suc.prems(1) j unfolding agrees_def by blast
      then show "ParentHash x = ParentHash (c j)" using erase_eqD [OF y(2)] by simp
    qed
    from Suc.hyps(1) [OF n this it(1) par, of "fetched @ [i]"]
    have IH: "case backfillHeights cfg ord (\<lambda>_. (False, False)) (\<lambda>_. False) (\<lambda>n. RpcHead (c n)) b (i - 1) (c i) (fetched @ [i]) ?st of
       (st', fs, err) \<Rightarrow> err = None \<and>
         (\<forall>j. b \<le> j \<longrightarrow> j \<le> i - 1 \<longrightarrow> j \<in> set fs \<or> Hash (c j) \<in> Hash ` set (hs_heads (hs_col ?st)))" .
    obtain ys where ys: "fst (snd (backfillHeights cfg ord (\<lambda>_. (False, False)) (\<lambda>_. False) (\<lambda>n. RpcHead (c n)) b (i - 1) (c i)
        (fetched @ [i]) ?st)) = (fetched @ [i]) @ ys"
      using backfillHeights_fetched by blast
    have old: "Hash (c j) \<in> Hash ` set (hs_heads (hs_col st)) \<or> j = i"
      if jt: "j \<in> {b..<t}" and "Hash (c j) \<in> Hash ` set (hs_heads (hs_col ?st))" for j
    proof -
      from that(2) obtain x where x: "x \<in> set (hs_heads (hs_col ?st))" "Hash x = Hash (c j)" by auto
      obtain y where y: "y \<in> set (hs_heads (hs_col st)) \<or> y = c i" "erase x = erase y" using src [OF x(1)] by blast
      have h: "Hash y = Hash (c j)" using erase_eqD [OF y(2)] x(2) by simp
      show ?thesis
      proof (cases "y = c i")
        case True
        with h c jt it(2) show ?thesis unfolding canonical_def inj_on_def by blast
      next
        case False
        with y(1) h show ?thesis by (metis imageI)
      qed
    qed
    have st: "fetchAndSaveHead cfg ord (False, False) (\<lambda>n. RpcHead (c n)) i st = (?st, Inr (c i))"
      by (simp add: fetchAndSaveHead_def saver_Save_ok)
    obtain st' fs err where r: "backfillHeights cfg ord (\<lambda>_. (False, False)) (\<lambda>_. False) (\<lambda>n. RpcHead (c n)) b (i - 1) (c i)
        (fetched @ [i]) ?st = (st', fs, err)" by (metis prod_cases3)
    have "err = None" "\<And>j. b \<le> j \<Longrightarrow> j \<le> i \<Longrightarrow> j \<in> set fs \<or> Hash (c j) \<in> Hash ` set (hs_heads (hs_col st))"
    proof -
      show "err = None" using IH r by simp
      fix j assume j: "b \<le> j" "j \<le> i"
      have "i \<in> set fs" using ys r by simp
      then show "j \<in> set fs \<or> Hash (c j) \<in> Hash ` set (hs_heads (hs_col st))"
        using IH r j old [of j] it by (cases "j = i") auto
    qed
    then show ?thesis using None ib st r by (subst backfillHeights.simps) simp
  qed
qed

section \<open>Properties\<close>

text \<open>Trimming to n heads removes exactly the rows of the chain that have n or more rows of the
  chain above them, and no row of another chain.\<close>
theorem TrimHeads_correct:
  assumes "0 < n"
  shows "r \<in> set (db_rows (TrimHeads chainID n db)) \<longleftrightarrow> r \<in> set (db_rows db) \<and>
    (EVMChainID r = chainID \<longrightarrow> length (filter (\<lambda>r'. Number r < Number r') (rows_of chainID db)) < n)"
  using TrimHeads_rows [OF assms, of r db chainID] TrimHeads_other [of r chainID n db] TrimHeads_subset [of chainID n db]
  by (cases "r \<in> set (db_rows db)") auto

definition mk_db :: "head list \<Rightarrow> head_db" where
  "mk_db hs = fold InsertHead hs \<lparr>db_rows = [], db_nextID = 1\<rparr>"

theorem TrimHeads_correct_witness:
  "length (filter (\<lambda>r'. Number (mk_head 1 11 10) < Number r') (rows_of 1 (mk_db [mk_head 3 13 12, mk_head 2 12 11]))) = 2 \<and>
   mk_head 1 11 10 \<notin> set (db_rows (TrimHeads 1 2 (mk_db [mk_head 3 13 12, mk_head 2 12 11, mk_head 1 11 10])))"
  using TrimHeads_correct [of 2 "mk_head 1 11 10" 1 "mk_db [mk_head 3 13 12, mk_head 2 12 11, mk_head 1 11 10]"]
  by (simp add: mk_db_def InsertHead_def rows_of_def mk_head_def NewHead_def is_i64_def min_i64_def max_i64_def)

text \<open>The rows kept when trimming to the top two block numbers can all have the same number, since the limit counts
  rows and not numbers; and trimming to none removes nothing.\<close>
theorem TrimHeads_forks:
  "map Number (db_rows (TrimHeads 1 2 (mk_db [mk_head 3 13 12, mk_head 3 14 12, mk_head 2 12 11]))) = [3, 3] \<and>
   TrimHeads 1 0 db = db"
  by (simp add: TrimHeads_def mk_db_def InsertHead_def rows_of_def mk_head_def NewHead_def is_i64_def min_i64_def max_i64_def)

lemma saver_Save_content:
  assumes "0 < unat (EvmHeadTrackerHistoryDepth cfg)"
  shows "let d = unat (EvmHeadTrackerHistoryDepth cfg); inserted = InsertHead head (hs_db st);
      st' = fst (saver_Save cfg ord (False, False) head st) in
    hs_col st' = AddHeads ord d [head] (hs_col st) \<and>
    (\<forall>r. r \<in> set (db_rows (hs_db st')) \<longleftrightarrow> r \<in> set (db_rows inserted) \<and>
      (EVMChainID r = ht_chainID cfg \<longrightarrow> length (filter (\<lambda>r'. Number r < Number r') (rows_of (ht_chainID cfg) inserted)) < d)) \<and>
    (\<exists>r \<in> set (db_rows inserted). EVMChainID r = EVMChainID head \<and> Hash r = Hash head)"
proof -
  have "\<exists>r \<in> set (db_rows (InsertHead head db)). EVMChainID r = EVMChainID head \<and> Hash r = Hash head" for db
    by (auto simp: InsertHead_def)
  moreover have "r \<in> set (db_rows (TrimHeads c d db)) \<longleftrightarrow> r \<in> set (db_rows db) \<and>
    (EVMChainID r = c \<longrightarrow> length (filter (\<lambda>r'. Number r < Number r') (rows_of c db)) < d)" if "0 < d" for r c d db
    using TrimHeads_rows [OF that, of r db c] TrimHeads_other [of r c d db] TrimHeads_subset [of c d db]
    by (cases "r \<in> set (db_rows db)") auto
  ultimately show ?thesis using assms by (simp add: Let_def saver_Save_ok)
qed

text \<open>C19: Every new head is saved, higher or not: its row is added to the table unless the block is in it, then the rows
  with as many rows of the chain above them as the history is deep are removed, and memory takes it over in the
  same way. A head that is higher than every head in memory is moreover put, with its chain, at the end of both
  mailboxes and becomes the latest chain; any other head leaves the mailboxes as they are, so the subscribers never see
  the chain go back.\<close>
theorem handleNewHead_longest:
  assumes "\<forall>m. mset (ord m) = mset m" and "0 < unat (EvmHeadTrackerHistoryDepth cfg)" and "Hash head \<noteq> ParentHash head"
    and "sorted_wrt (\<lambda>a b. Number b \<le> Number a) (hs_heads (hs_col (ht_saver ht)))"
    and "LatestChain (ht_saver ht) = Some (Inr prev)"
  shows "\<exists>ht'. handleNewHead cfg ord (False, False) False head ht = Some (ht', None) \<and>
    (let d = unat (EvmHeadTrackerHistoryDepth cfg); inserted = InsertHead head (hs_db (ht_saver ht)) in
      hs_col (ht_saver ht') = AddHeads ord d [head] (hs_col (ht_saver ht)) \<and>
      (\<forall>r. r \<in> set (db_rows (hs_db (ht_saver ht'))) \<longleftrightarrow> r \<in> set (db_rows inserted) \<and>
        (EVMChainID r = ht_chainID cfg \<longrightarrow> length (filter (\<lambda>r'. Number r < Number r') (rows_of (ht_chainID cfg) inserted)) < d)) \<and>
      (\<exists>r \<in> set (db_rows inserted). EVMChainID r = EVMChainID head \<and> Hash r = Hash head)) \<and>
    (if \<forall>k \<in> set (hs_heads (hs_col (ht_saver ht))). Number k < Number head
     then \<exists>h. LatestHead (hs_col (ht_saver ht')) = Some h \<and> erase h = erase head \<and>
       broadcastMB ht' = fst (Deliver (hs_mem (hs_col (ht_saver ht')), h) (broadcastMB ht)) \<and>
       backfillMB ht' = fst (Deliver (hs_mem (hs_col (ht_saver ht')), h) (backfillMB ht))
     else broadcastMB ht' = broadcastMB ht \<and> backfillMB ht' = backfillMB ht)"
proof -
  have ord: "permutes_maps ord" using assms(1) by (simp add: permutes_maps_def)
  let ?col = "hs_col (ht_saver ht)"
  let ?st = "fst (saver_Save cfg ord (False, False) head (ht_saver ht))"
  have prev: "prev = LatestHead ?col"
    using assms(5) by (auto simp: LatestChain_def split: option.splits sum.splits chain_panic.splits)
  have gt: "GreaterThan (Some head) prev \<longleftrightarrow> (\<forall>k \<in> set (hs_heads ?col). Number k < Number head)"
    using assms(4) unfolding prev by (cases "hs_heads ?col") (auto simp: GreaterThan_def LatestHead_def)
  have sv: "saver_Save cfg ord (False, False) head (ht_saver ht) = (?st, None)" by (simp add: saver_Save_ok)
  note saved = saver_Save_content [OF assms(2), where ord = ord and head = head and st = "ht_saver ht"]
  show ?thesis
  proof (cases "GreaterThan (Some head) prev")
    case True
    with gt AddHeads_highest [OF ord assms(2,3), of ?col] obtain h where
      h: "Chain (Hash head) ?st = Some h" "erase h = erase head" "LatestHead (hs_col ?st) = Some h"
      by (auto simp: Chain_def saver_Save_ok)
    let ?c = "(hs_mem (hs_col ?st), h)"
    have "handleNewHead cfg ord (False, False) False head ht = Some (ht\<lparr>ht_saver := ?st,
        backfillMB := fst (Deliver ?c (backfillMB ht)), broadcastMB := fst (Deliver ?c (broadcastMB ht))\<rparr>, None)"
      unfolding handleNewHead_def assms(5) by (subst sv) (simp add: Let_def True h(1))
    moreover have "\<forall>k \<in> set (hs_heads ?col). Number k < Number head" using gt True by simp
    ultimately show ?thesis using saved h by (intro exI conjI) (assumption | simp add: Let_def)+
  next
    case False
    have "handleNewHead cfg ord (False, False) False head ht = Some (ht\<lparr>ht_saver := ?st\<rparr>, None)"
      unfolding handleNewHead_def assms(5) by (subst sv) (simp add: Let_def False)
    moreover have lower: "\<not> (\<forall>k \<in> set (hs_heads ?col). Number k < Number head)" using gt False by simp
    ultimately show ?thesis using saved unfolding if_not_P [OF lower]
      by (intro exI conjI) (assumption | simp add: Let_def)+
  qed
qed

definition cfg_ht :: tracker_config where
  "cfg_ht = \<lparr>EvmHeadTrackerHistoryDepth = 10, EvmFinalityDepth = 5, ht_chainID = 1\<rparr>"

definition saver0 :: saver where
  "saver0 = \<lparr>hs_db = mk_db [], hs_col = NewHeads\<rparr>"

theorem handleNewHead_longest_witness:
  "\<exists>ht'. handleNewHead cfg_ht id (False, False) False (mk_head 3 13 12) (NewHeadTracker saver0) = Some (ht', None) \<and>
     mb_queue (broadcastMB ht') \<noteq> []"
  using handleNewHead_longest [of id cfg_ht "mk_head 3 13 12" "NewHeadTracker saver0" None]
  by (auto simp: cfg_ht_def mk_head_def NewHead_def NewHeadTracker_def saver0_def NewHeads_def LatestChain_def LatestHead_def
      Deliver_def Let_def NewMailbox_def HeadsBufferSize_def)

text \<open>C14: A backfill against a node that serves one chain returns without error; the heights it fetches are
  strictly descending and between the base height and the head, each at most once, and every height of that range is fetched
  unless its block was in memory at the start.\<close>
theorem backfill_complete:
  assumes "\<forall>m. mset (ord m) = mset m"
    and "\<forall>i. base < i \<longrightarrow> i < Number head \<longrightarrow> ParentHash (c i) = Hash (c (i - 1))"
    and "inj_on (\<lambda>i. Hash (c i)) {base..<Number head}"
    and "\<forall>x \<in> set (hs_heads (hs_col st)). \<forall>i \<in> {base..<Number head}. Hash x = Hash (c i) \<longrightarrow> ParentHash x = ParentHash (c i)"
    and "ParentHash head = Hash (c (Number head - 1))"
  shows "case backfill cfg ord (\<lambda>_. (False, False)) (\<lambda>_. False) (\<lambda>n. RpcHead (c n)) head base st of (st', fetched, err) \<Rightarrow>
    err = None \<and> sorted_wrt (>) fetched \<and> set fetched \<subseteq> {base..<Number head} \<and> length fetched \<le> nat (Number head - base) \<and>
    (\<forall>i \<in> {base..<Number head}. i \<in> set fetched \<or> HeadByHash (hs_col st) (Hash (c i)) \<noteq> None)"
proof (cases "Number head \<le> base")
  case False
  let ?r = "backfillHeights cfg ord (\<lambda>_. (False, False)) (\<lambda>_. False) (\<lambda>n. RpcHead (c n)) base (Number head - 1) head [] st"
  have r: "backfill cfg ord (\<lambda>_. (False, False)) (\<lambda>_. False) (\<lambda>n. RpcHead (c n)) head base st = ?r"
    using False by (simp add: backfill_def)
  obtain st' fs err where e: "?r = (st', fs, err)" by (metis prod_cases3)
  have "permutes_maps ord" and "canonical base (Number head) c" and "agrees base (Number head) c st"
    using assms(1-4) by (simp_all add: permutes_maps_def canonical_def agrees_def)
  from backfillHeights_covers [OF this, of "Number head - 1" head cfg "[]"]
  have cov: "err = None" "\<And>j. base \<le> j \<Longrightarrow> j \<le> Number head - 1 \<Longrightarrow> j \<in> set fs \<or> Hash (c j) \<in> Hash ` set (hs_heads (hs_col st))"
    using e assms(5) by simp_all
  have d: "descending_from base (Number head - 1) fs"
    using backfillHeights_fetched [of cfg ord "\<lambda>_. (False, False)" "\<lambda>_. False" "\<lambda>n. RpcHead (c n)" base "Number head - 1" head "[]" st] e
    by auto
  have "HeadByHash (hs_col st) p \<noteq> None \<longleftrightarrow> p \<in> Hash ` set (hs_heads (hs_col st))" for p
    unfolding HeadByHash_def find_None by blast
  then have "\<forall>i \<in> {base..<Number head}. i \<in> set fs \<or> HeadByHash (hs_col st) (Hash (c i)) \<noteq> None" using cov(2) by simp
  moreover have "length fs \<le> nat (Number head - base)" using descending_from_length [OF d] by simp
  moreover have "set fs \<subseteq> {base..<Number head}" and "sorted_wrt (>) fs" using d by (auto simp: descending_from_def)
  ultimately show ?thesis using cov(1) unfolding r e by simp
qed (simp add: backfill_def)

theorem backfill_complete_witness:
  "case backfill cfg_ht id (\<lambda>_. (False, False)) (\<lambda>_. False) (\<lambda>n. RpcHead (mk_head n (word_of_int n + 1) (word_of_int n)))
      (mk_head 3 4 3) 1 saver0 of (st', fetched, err) \<Rightarrow> err = None \<and> {1, 2} \<subseteq> set fetched"
proof -
  have n: "Number (mk_head 3 4 3) = 3" by (simp add: mk_head_def NewHead_def is_i64_def min_i64_def max_i64_def)
  have s: "{1..<3} = {1, 2::int}" by auto
  have i: "inj_on (\<lambda>i. Hash (mk_head i (word_of_int i + 1) (word_of_int i))) {1..<3}"
    unfolding s by (simp add: mk_head_def NewHead_def)
  from backfill_complete [of id 1 "mk_head 3 4 3" "\<lambda>n. mk_head n (word_of_int n + 1) (word_of_int n)" saver0 cfg_ht, unfolded n]
  show ?thesis using i
    by (simp add: s saver0_def NewHeads_def mk_head_def NewHead_def HeadByHash_def split: prod.splits)
qed

section \<open>The broadcaster\<close>

datatype 'c hb_event = EvSubscribe 'c | EvUnsubscribe int | EvBroadcast chain | EvExecute

fun hb_run :: "'c hb_event list \<Rightarrow> 'c broadcaster \<Rightarrow> 'c broadcaster" where
  "hb_run [] hb = hb"
| "hb_run (EvSubscribe c # es) hb = hb_run es (fst (Subscribe c hb))"
| "hb_run (EvUnsubscribe i # es) hb = hb_run es (unsubscribe i hb)"
| "hb_run (EvBroadcast h # es) hb = hb_run es (BroadcastNewLongestChain h hb)"
| "hb_run (EvExecute # es) hb = hb_run es (fst (executeCallbacks hb))"

text \<open>What the events mean: the subscriptions that are active, by number, and how many there have been.\<close>

fun hb_active :: "'c hb_event list \<Rightarrow> int \<times> (int \<rightharpoonup> 'c) \<Rightarrow> int \<times> (int \<rightharpoonup> 'c)" where
  "hb_active [] a = a"
| "hb_active (EvSubscribe c # es) (n, m) = hb_active es (n + 1, m(n + 1 \<mapsto> c))"
| "hb_active (EvUnsubscribe i # es) (n, m) = hb_active es (n, m(i := None))"
| "hb_active (EvBroadcast h # es) a = hb_active es a"
| "hb_active (EvExecute # es) a = hb_active es a"

lemma hb_active_mono: "fst a \<le> fst (hb_active es a)"
  by (induction es a rule: hb_active.induct) auto

lemma hb_run_active:
  "distinct (map fst (callbacks hb)) \<Longrightarrow> 0 \<le> lastCallbackID hb \<Longrightarrow>
   fst (hb_active es (lastCallbackID hb, map_of (callbacks hb))) \<le> max_i64 \<Longrightarrow>
   hb_active es (lastCallbackID hb, map_of (callbacks hb)) =
     (lastCallbackID (hb_run es hb), map_of (callbacks (hb_run es hb))) \<and>
   distinct (map fst (callbacks (hb_run es hb)))"
proof (induction es hb rule: hb_run.induct)
  case (2 c es hb)
  have "lastCallbackID hb + 1 \<le> max_i64"
    using "2.prems"(3) hb_active_mono [of "(lastCallbackID hb + 1, (map_of (callbacks hb))(lastCallbackID hb + 1 \<mapsto> c))" es] by simp
  then have "wrap64 (lastCallbackID hb + 1) = lastCallbackID hb + 1" using "2.prems"(2) by (simp add: is_i64_def min_i64_def)
  with 2 show ?case by (simp add: Subscribe_def Let_def del: fun_upd_apply)
next
  case (3 i es hb)
  then show ?case by (simp add: unsubscribe_def distinct_keys_delete del: fun_upd_apply)
next
  case (4 h es hb)
  then show ?case by (simp add: BroadcastNewLongestChain_def)
next
  case (5 es hb)
  have "callbacks (fst (executeCallbacks hb)) = callbacks hb" "lastCallbackID (fst (executeCallbacks hb)) = lastCallbackID hb"
    by (auto simp: executeCallbacks_def split: prod.splits option.splits)
  with 5 show ?case by simp
qed simp

lemma hb_active_fresh:
  "\<forall>i \<in> dom (snd a). i \<le> fst a \<Longrightarrow> \<forall>i \<in> dom (snd (hb_active es a)). i \<le> fst (hb_active es a)"
proof (induction es a rule: hb_active.induct)
  case (2 c es n m)
  have "\<forall>i \<in> dom (snd (n + 1, m(n + 1 \<mapsto> c))). i \<le> fst (n + 1, m(n + 1 \<mapsto> c))" 
  proof
    fix i assume "i \<in> dom (snd (n + 1, m(n + 1 \<mapsto> c)))"
    then have "i = n + 1 \<or> i \<in> dom m" by auto
    then show "i \<le> fst (n + 1, m(n + 1 \<mapsto> c))" using "2.prems" by (metis fst_conv order.trans less_add_one order_less_imp_le order_refl snd_conv)
  qed
  from "2.IH" [OF this] show ?case by simp
next
  case (3 i es n m)
  have "\<forall>j \<in> dom (snd (n, m(i := None))). j \<le> fst (n, m(i := None))" using "3.prems" by auto
  from "3.IH" [OF this] show ?case by simp
qed simp_all

lemma hb_mailbox_run: "mb_capacity (hb_mailbox hb) = 1 \<and> mb_ok (hb_mailbox hb) \<Longrightarrow>
    mb_capacity (hb_mailbox (hb_run es hb)) = 1 \<and> mb_ok (hb_mailbox (hb_run es hb))"
proof (induction es hb rule: hb_run.induct)
  case (2 c es hb)
  then show ?case by (simp add: Subscribe_def Let_def)
next
  case (3 i es hb)
  then show ?case by (simp add: unsubscribe_def)
next
  case (4 h es hb)
  then show ?case
    using mb.deliver_ok [of "hb_mailbox hb" h] by (simp add: BroadcastNewLongestChain_def Deliver_def Let_def)
next
  case (5 es hb)
  have "hb_mailbox (fst (executeCallbacks hb)) = fst (Retrieve (hb_mailbox hb))"
    by (auto simp: executeCallbacks_def split: prod.splits option.splits)
  with 5 mb.retrieve_ok [of "hb_mailbox hb"] show ?case by (simp add: Retrieve_def)
qed simp

text \<open>C27: Whatever subscriptions, cancellations, broadcasts and rounds came before, as long as there were fewer
  subscriptions than the largest \<^verbatim>\<open>int\<close>, running the callbacks after a broadcast of a chain calls exactly the active
  subscribers, each once, with that chain, and a new subscriber then gets it as the latest; its number is no
  active subscriber's, so a subscription never replaces another one.\<close>
theorem broadcaster_notifies_subscribers:
  assumes "fst (hb_active es (0, Map.empty)) < max_i64"
  shows "let hb = hb_run es NewHeadBroadcaster; active = snd (hb_active es (0, Map.empty));
       (hb', called) = executeCallbacks (BroadcastNewLongestChain c hb);
       (hb'', latest, callbackID) = Subscribe s hb' in
    (\<exists>cs. called = Some (c, map snd cs) \<and> distinct (map fst cs) \<and> map_of cs = active) \<and>
    latest = Some c \<and> active callbackID = None \<and> map_of (callbacks hb'') = active(callbackID \<mapsto> s)"
proof -
  let ?hb = "hb_run es NewHeadBroadcaster"
  have b: "fst (hb_active es (lastCallbackID NewHeadBroadcaster, map_of (callbacks NewHeadBroadcaster))) \<le> max_i64"
    using assms by (simp add: NewHeadBroadcaster_def)
  from hb_run_active [OF _ _ b] have run: "hb_active es (0, Map.empty) = (lastCallbackID ?hb, map_of (callbacks ?hb))"
    and a: "distinct (map fst (callbacks ?hb))" by (simp_all add: NewHeadBroadcaster_def)
  have mb: "mb_capacity (hb_mailbox ?hb) = 1 \<and> mb_ok (hb_mailbox ?hb)"
    using hb_mailbox_run [of NewHeadBroadcaster es] by (simp add: NewHeadBroadcaster_def)
  let ?m = "fst (Deliver c (hb_mailbox ?hb))"
  have "mb_waiting ?m = [c]"
  proof -
    have "length (mb_waiting (hb_mailbox ?hb)) \<le> 1" using mb by (auto simp: mb_ok_def mb_waiting_def)
    then have "mb_waiting (hb_mailbox ?hb) = [] \<or> (\<exists>x. mb_waiting (hb_mailbox ?hb) = [x])"
      by (cases "mb_waiting (hb_mailbox ?hb)") auto
    then show ?thesis using Deliver_waiting [of "hb_mailbox ?hb" c] mb by (auto simp: keep_last_def)
  qed
  then obtain m where "Retrieve ?m = (m, Some c)" using mb.retrieve_some [of ?m c "[]"] by (metis prod.collapse)
  then have ex: "executeCallbacks (BroadcastNewLongestChain c ?hb) =
      (?hb\<lparr>hb_mailbox := m, hb_latest := Some c\<rparr>, Some (c, map snd (callbacks ?hb)))"
    by (simp add: executeCallbacks_def BroadcastNewLongestChain_def callbackSet_values_def)
  have lo: "0 \<le> lastCallbackID ?hb" using hb_active_mono [of "(0, Map.empty)" es] run by simp
  then have id: "wrap64 (lastCallbackID ?hb + 1) = lastCallbackID ?hb + 1"
    using assms run by (simp add: is_i64_def min_i64_def)
  have "\<forall>i \<in> dom (map_of (callbacks ?hb)). i \<le> lastCallbackID ?hb"
    using hb_active_fresh [of "(0, Map.empty)" es] run by simp
  then have fresh: "map_of (callbacks ?hb) (lastCallbackID ?hb + 1) = None" by force
  have sub: "Subscribe s (?hb\<lparr>hb_mailbox := m, hb_latest := Some c\<rparr>) =
      (?hb\<lparr>hb_mailbox := m, hb_latest := Some c, lastCallbackID := lastCallbackID ?hb + 1,
        callbacks := AList.update (lastCallbackID ?hb + 1) s (callbacks ?hb)\<rparr>, Some c, lastCallbackID ?hb + 1)"
    by (simp add: Subscribe_def id Let_def)
  show ?thesis
    unfolding Let_def ex run using a fresh
    by (auto simp: sub simp del: fun_upd_apply)
qed

theorem broadcaster_notifies_subscribers_witness:
  "let es = [EvSubscribe ''a'', EvSubscribe ''b'', EvBroadcast (Map.empty, mk_head 1 11 10), EvExecute, EvUnsubscribe 1, EvSubscribe ''c''];
       (hb', called) = executeCallbacks (BroadcastNewLongestChain (Map.empty, mk_head 2 12 11) (hb_run es NewHeadBroadcaster));
       (hb'', latest, callbackID) = Subscribe ''d'' hb' in
    called = Some ((Map.empty, mk_head 2 12 11), [''b'', ''c'']) \<and> latest = Some (Map.empty, mk_head 2 12 11) \<and> callbackID = 4"
proof -
  let ?es = "[EvSubscribe ''a'', EvSubscribe ''b'', EvBroadcast (Map.empty, mk_head 1 11 10), EvExecute, EvUnsubscribe 1, EvSubscribe ''c'']"
  have "fst (hb_active ?es (0, Map.empty)) < max_i64" by (simp add: max_i64_def)
  from broadcaster_notifies_subscribers [OF this, of "(Map.empty, mk_head 2 12 11)" "''d''"]
  show ?thesis
    by (simp add: executeCallbacks_def BroadcastNewLongestChain_def Subscribe_def unsubscribe_def NewHeadBroadcaster_def
        NewMailbox_def Deliver_def Retrieve_def callbackSet_values_def is_i64_def min_i64_def max_i64_def Let_def)
qed

end
