(* ===== verification/Start_Stop.thy ===== *)
theory Start_Stop
  imports Go_Prelude
begin

text \<open>
  The life cycle guard of every service, \<^verbatim>\<open>StartStopOnce\<close> (\<^verbatim>\<open>core/utils/utils.go\<close>). Any number of
  goroutines call its operations at the same time. \<^verbatim>\<open>StartOnce\<close> is four atomic steps: a compare-and-swap outside the
  lock, taking the lock, running the function, and a second compare-and-swap with the release of
  the lock; \<^verbatim>\<open>StopOnce\<close> takes the lock first. The step relation interleaves the steps of all goroutines; the
  invariant is proved by induction on it.
\<close>

section \<open>States and operations\<close>

datatype once_state = Unstarted | Started | Starting | StartFailed | Stopping | Stopped | StopFailed

datatype once_error = ErrAlreadyStarted once_state | ErrAlreadyStopped | ErrCannotStopUnstarted | ErrCannotStop once_state | ErrFn

definition StopOnce_error :: "once_state \<Rightarrow> once_error" where
  "StopOnce_error s = (case s of Stopped \<Rightarrow> ErrAlreadyStopped | Unstarted \<Rightarrow> ErrCannotStopUnstarted | _ \<Rightarrow> ErrCannotStop s)"

definition IfStarted :: "once_state \<Rightarrow> bool" where "IfStarted s \<longleftrightarrow> s = Started"

definition IfNotStopped :: "once_state \<Rightarrow> bool" where "IfNotStopped s \<longleftrightarrow> s \<noteq> Stopped"

definition Ready :: "once_state \<Rightarrow> once_state option" where
  "Ready s = (if s = Started then None else Some s)"

definition Healthy :: "once_state \<Rightarrow> once_state option" where
  "Healthy s = (if s = Started then None else Some s)"

text \<open>Where a goroutine is in its call. \<open>Panicked\<close> is the panic of an unreachable state.\<close>

datatype pc = Idle
  | StartWait | StartRun
  | StopWait | StopRun
  | FnWait | FnRun
  | Returned "once_error option" | Panicked

text \<open>\<open>writer\<close> is the goroutine that holds the lock exclusively; \<open>readers\<close> hold it shared. \<open>starts\<close> and \<open>stops\<close>
  count the runs of the start and stop functions, \<open>fn_runs\<close> those of functions run by \<^verbatim>\<open>IfStarted\<close>.\<close>

record once =
  once_st :: once_state
  writer :: "nat option"
  readers :: "nat set"
  pcs :: "nat \<Rightarrow> pc"
  starts :: nat
  stops :: nat

definition once_init :: once where
  "once_init = \<lparr>once_st = Unstarted, writer = None, readers = {}, pcs = (\<lambda>_. Idle), starts = 0, stops = 0\<rparr>"

inductive once_step :: "once \<Rightarrow> nat \<Rightarrow> once \<Rightarrow> bool" where
  start_cas: "pcs o' t = Idle \<Longrightarrow> once_st o' = Unstarted \<Longrightarrow>
    once_step o' t (o'\<lparr>once_st := Starting, pcs := (pcs o')(t := StartWait)\<rparr>)"
| start_refused: "pcs o' t = Idle \<Longrightarrow> once_st o' \<noteq> Unstarted \<Longrightarrow>
    once_step o' t (o'\<lparr>pcs := (pcs o')(t := Returned (Some (ErrAlreadyStarted (once_st o'))))\<rparr>)"
| start_lock: "pcs o' t = StartWait \<Longrightarrow> writer o' = None \<Longrightarrow> readers o' = {} \<Longrightarrow>
    once_step o' t (o'\<lparr>writer := Some t, pcs := (pcs o')(t := StartRun), starts := starts o' + 1\<rparr>)"
| start_done: "pcs o' t = StartRun \<Longrightarrow> once_st o' = Starting \<Longrightarrow>
    once_step o' t (o'\<lparr>once_st := (if ok then Started else StartFailed), writer := None,
      pcs := (pcs o')(t := Returned (if ok then None else Some ErrFn))\<rparr>)"
| start_panic: "pcs o' t = StartRun \<Longrightarrow> once_st o' \<noteq> Starting \<Longrightarrow>
    once_step o' t (o'\<lparr>writer := None, pcs := (pcs o')(t := Panicked)\<rparr>)"
| stop_call: "pcs o' t = Idle \<Longrightarrow> once_step o' t (o'\<lparr>pcs := (pcs o')(t := StopWait)\<rparr>)"
| stop_cas: "pcs o' t = StopWait \<Longrightarrow> writer o' = None \<Longrightarrow> readers o' = {} \<Longrightarrow> once_st o' = Started \<Longrightarrow>
    once_step o' t (o'\<lparr>once_st := Stopping, writer := Some t, pcs := (pcs o')(t := StopRun), stops := stops o' + 1\<rparr>)"
| stop_refused: "pcs o' t = StopWait \<Longrightarrow> writer o' = None \<Longrightarrow> readers o' = {} \<Longrightarrow> once_st o' \<noteq> Started \<Longrightarrow>
    once_step o' t (o'\<lparr>pcs := (pcs o')(t := Returned (Some (StopOnce_error (once_st o'))))\<rparr>)"
| stop_done: "pcs o' t = StopRun \<Longrightarrow> once_st o' = Stopping \<Longrightarrow>
    once_step o' t (o'\<lparr>once_st := (if ok then Stopped else StopFailed), writer := None,
      pcs := (pcs o')(t := Returned (if ok then None else Some ErrFn))\<rparr>)"
| stop_panic: "pcs o' t = StopRun \<Longrightarrow> once_st o' \<noteq> Stopping \<Longrightarrow>
    once_step o' t (o'\<lparr>writer := None, pcs := (pcs o')(t := Panicked)\<rparr>)"
| if_call: "pcs o' t = Idle \<Longrightarrow> once_step o' t (o'\<lparr>pcs := (pcs o')(t := FnWait)\<rparr>)"
| if_run: "pcs o' t = FnWait \<Longrightarrow> writer o' = None \<Longrightarrow> IfStarted (once_st o') \<Longrightarrow>
    once_step o' t (o'\<lparr>readers := insert t (readers o'), pcs := (pcs o')(t := FnRun)\<rparr>)"
| if_skip: "pcs o' t = FnWait \<Longrightarrow> writer o' = None \<Longrightarrow> \<not> IfStarted (once_st o') \<Longrightarrow>
    once_step o' t (o'\<lparr>pcs := (pcs o')(t := Returned None)\<rparr>)"
| if_done: "pcs o' t = FnRun \<Longrightarrow>
    once_step o' t (o'\<lparr>readers := readers o' - {t}, pcs := (pcs o')(t := Returned None)\<rparr>)"

inductive_cases once_stepE: "once_step s t s'"

definition once_moves :: "once \<Rightarrow> once \<Rightarrow> bool" where
  "once_moves s s' \<longleftrightarrow> (\<exists>t. once_step s t s')"

section \<open>The invariant\<close>

definition starting :: "pc \<Rightarrow> bool" where "starting p \<longleftrightarrow> p = StartWait \<or> p = StartRun"

text \<open>What holds of any two goroutines, so that a step needs the invariant only of the goroutine that moves and the two observed.\<close>

definition pair_inv :: "once \<Rightarrow> nat \<Rightarrow> nat \<Rightarrow> bool" where
  "pair_inv s t u \<longleftrightarrow>
    ((pcs s t = StartRun \<or> pcs s t = StopRun) \<longleftrightarrow> writer s = Some t) \<and>
    (pcs s t = FnRun \<longleftrightarrow> t \<in> readers s) \<and> (writer s \<noteq> None \<longrightarrow> readers s = {}) \<and>
    (starting (pcs s t) \<longrightarrow> once_st s = Starting) \<and>
    (starting (pcs s t) \<longrightarrow> starting (pcs s u) \<longrightarrow> t = u) \<and>
    (pcs s t = StopRun \<longrightarrow> once_st s = Stopping) \<and> (t \<in> readers s \<longrightarrow> once_st s = Started) \<and>
    pcs s t \<noteq> Panicked \<and>
    starts s \<le> 1 \<and> (once_st s = Unstarted \<longrightarrow> starts s = 0) \<and> (pcs s t = StartWait \<longrightarrow> starts s = 0) \<and>
    (pcs s t = StartRun \<longrightarrow> starts s = 1) \<and> (once_st s \<noteq> Unstarted \<and> once_st s \<noteq> Starting \<longrightarrow> starts s = 1) \<and>
    stops s = (if once_st s = Stopping \<or> once_st s = Stopped \<or> once_st s = StopFailed then 1 else 0)"

lemma pair_step:
  "once_step s t s' \<Longrightarrow> pair_inv s t t \<Longrightarrow> pair_inv s a b \<Longrightarrow> pair_inv s t a \<Longrightarrow> pair_inv s t b \<Longrightarrow> pair_inv s b t \<Longrightarrow> pair_inv s' a b"
  by (cases "a = t"; cases "b = t"; induction rule: once_step.induct) (simp_all add: pair_inv_def starting_def IfStarted_def split: if_splits, auto)

lemma once_reachable: "once_moves\<^sup>*\<^sup>* once_init s \<Longrightarrow> pair_inv s a b"
proof (induction arbitrary: a b rule: rtranclp_induct)
  case base
  then show ?case by (simp add: pair_inv_def once_init_def starting_def)
next
  case (step y z)
  then obtain t where t: "once_step y t z" by (auto simp: once_moves_def)
  show ?case by (rule pair_step [OF t]) (rule step.IH)+
qed

section \<open>Properties\<close>

text \<open>C23: However the calls of any number of goroutines interleave, the start function runs at most once, the stop
  function at most once and only after the start function has succeeded, never two of them at the same time nor
  together with a function guarded by IfStarted, such functions run only while the service is
  started, and the panics for unreachable states are not reached.\<close>
theorem once_safe:
  assumes "once_moves\<^sup>*\<^sup>* once_init s"
  shows "starts s \<le> 1 \<and> stops s \<le> 1 \<and> (stops s = 1 \<longrightarrow> starts s = 1 \<and> once_st s \<in> {Stopping, Stopped, StopFailed}) \<and>
    (\<forall>t. pcs s t \<noteq> Panicked) \<and> (\<forall>t. pcs s t = FnRun \<longrightarrow> once_st s = Started) \<and>
    (\<forall>t u. pcs s t \<in> {StartRun, StopRun} \<longrightarrow> pcs s u \<in> {StartRun, StopRun, FnRun} \<longrightarrow> t = u)"
proof -
  have inv: "pair_inv s a b" for a b by (rule once_reachable [OF assms])
  have excl: "t = u" if r: "pcs s t \<in> {StartRun, StopRun}" "pcs s u \<in> {StartRun, StopRun, FnRun}" for t u
  proof -
    have w: "writer s = Some t" using inv [of t t] r(1) by (auto simp: pair_inv_def)
    then have "pcs s u \<noteq> FnRun" using inv [of u u] by (auto simp: pair_inv_def)
    then have "writer s = Some u" using inv [of u u] r(2) by (auto simp: pair_inv_def)
    with w show ?thesis by simp
  qed
  have "pcs s t \<noteq> Panicked \<and> (pcs s t = FnRun \<longrightarrow> once_st s = Started)" for t
    using inv [of t t] by (auto simp: pair_inv_def)
  moreover have "starts s \<le> 1 \<and> stops s \<le> 1 \<and> (stops s = 1 \<longrightarrow> starts s = 1 \<and> once_st s \<in> {Stopping, Stopped, StopFailed})"
    using inv [of 0 0] by (auto simp: pair_inv_def split: if_splits)
  ultimately show ?thesis using excl by blast
qed

text \<open>The trace of a start and a stop at the same time.\<close>

definition trace1 :: once where
  "trace1 = once_init\<lparr>once_st := Starting, pcs := (\<lambda>_. Idle)(0 := StartWait)\<rparr>"

definition trace2 :: once where
  "trace2 = trace1\<lparr>pcs := (pcs trace1)(1 := StopWait)\<rparr>"

definition trace3 :: once where
  "trace3 = trace2\<lparr>pcs := (pcs trace2)(1 := Returned (Some (ErrCannotStop Starting)))\<rparr>"

definition trace4 :: once where
  "trace4 = trace3\<lparr>writer := Some 0, pcs := (pcs trace3)(0 := StartRun), starts := 1\<rparr>"

definition trace5 :: once where
  "trace5 = trace4\<lparr>once_st := Started, writer := None, pcs := (pcs trace4)(0 := Returned None)\<rparr>"

lemmas traces = trace1_def trace2_def trace3_def trace4_def trace5_def once_init_def StopOnce_error_def

lemma trace_reachable: "once_moves\<^sup>*\<^sup>* once_init trace5"
proof -
  have "once_step once_init 0 trace1" using once_step.start_cas [of once_init 0] by (simp add: traces)
  moreover have "once_step trace1 1 trace2" using once_step.stop_call [of trace1 1] by (simp add: traces)
  moreover have "once_step trace2 1 trace3" using once_step.stop_refused [of trace2 1] by (simp add: traces)
  moreover have "once_step trace3 0 trace4" using once_step.start_lock [of trace3 0] by (simp add: traces)
  moreover have "once_step trace4 0 trace5" using once_step.start_done [of trace4 0 True] by (simp add: traces)
  ultimately have "once_moves once_init trace1" "once_moves trace1 trace2" "once_moves trace2 trace3" "once_moves trace3 trace4"
    "once_moves trace4 trace5" unfolding once_moves_def by blast+
  then show ?thesis by (meson converse_rtranclp_into_rtranclp rtranclp.rtrancl_refl)
qed

theorem once_safe_witness: "starts trace5 \<le> 1 \<and> once_st trace5 = Started"
  using once_safe [OF trace_reachable] by (simp add: traces)

text \<open>A stop that arrives while the start has marked itself as starting but does not hold the lock yet does not wait
  for the start: it fails, and the service is then started and never stopped.\<close>
theorem fast_stop_does_not_wait:
  "\<exists>s. once_moves\<^sup>*\<^sup>* once_init s \<and> pcs s 1 = Returned (Some (ErrCannotStop Starting)) \<and>
     pcs s 0 = Returned None \<and> once_st s = Started \<and> starts s = 1 \<and> stops s = 0"
  using trace_reachable by (intro exI [of _ trace5]) (simp add: traces)

end
