(* ===== verification/Node_FSM.thy ===== *)
theory Node_FSM
  imports Go_Prelude
begin

text \<open>
  The life cycle of a connection to an RPC node (\<^verbatim>\<open>core/chains/evm/client/node_fsm.go\<close>,
  \<^verbatim>\<open>node_lifecycle.go\<close>, and start, verify and close of \<^verbatim>\<open>node.go\<close>): a state machine whose state has a
  goroutine, a loop that watches the node and hands over to the loop of the next state. \<open>loop\<close> is
  where the one running goroutine is; what it waits for (the result of a dial, a head, a timer)
  is an event, so the loops are functions from events to the next state, and the step relation
  interleaves them with a call of Close at any moment. The RPC connection itself, timers and
  metrics are outside the model; that a request under a cancelled context fails is the condition
  \<open>possible\<close> on events.
\<close>

section \<open>States and loops\<close>

datatype NodeState = NodeStateUndialed | NodeStateDialed | NodeStateInvalidChainID | NodeStateAlive
  | NodeStateUnreachable | NodeStateOutOfSync | NodeStateClosed

definition allNodeStates :: "NodeState list" where
  "allNodeStates = [NodeStateUndialed, NodeStateDialed, NodeStateInvalidChainID, NodeStateAlive, NodeStateUnreachable,
     NodeStateOutOfSync, NodeStateClosed]"

text \<open>Who called verify: the start, the out-of-sync loop (with the block it is stuck at), the unreachable loop or the
  invalid chain id loop.\<close>

datatype verifier = ByStart | ByOutOfSync int | ByUnreachable | ByInvalidChainID

text \<open>The points where a goroutine waits or another one can intervene. \<open>AliveRun\<close> has the highest block seen and the
  poll failures.\<close>

datatype loop = StartDial | StartDialed | Verify verifier | Verifying verifier
  | AliveEntry | AliveSubscribe | AliveRun int u32
  | OutOfSyncEntry int | OutOfSyncDial int | OutOfSyncSubscribe int | OutOfSyncRun int
  | UnreachableEntry | UnreachableRun | UnreachableDialed
  | InvalidChainIDEntry | InvalidChainIDRun
  | LoopDone | LoopPanic

record node =
  nd_state :: NodeState
  latestReceivedBlockNumber :: int
  subs :: nat
  ctxDone :: bool
  nd_loop :: loop

record node_config =
  NodeNoNewHeadsThreshold :: int
  NodePollFailureThreshold :: u32
  NodePollInterval :: int

definition NewNode :: node where
  "NewNode = \<lparr>nd_state = NodeStateUndialed, latestReceivedBlockNumber = -1, subs = 0, ctxDone = False, nd_loop = StartDial\<rparr>"

definition StateAndLatestBlockNumber :: "node \<Rightarrow> NodeState \<times> int" where
  "StateAndLatestBlockNumber n = (nd_state n, latestReceivedBlockNumber n)"

definition setState :: "NodeState \<Rightarrow> node \<Rightarrow> node" where
  "setState s n = n\<lparr>nd_state := s\<rparr>"

definition setLatestReceivedBlockNumber :: "int \<Rightarrow> node \<Rightarrow> node" where
  "setLatestReceivedBlockNumber number n = n\<lparr>latestReceivedBlockNumber := number\<rparr>"

definition disconnectAll :: "node \<Rightarrow> node" where
  "disconnectAll n = n\<lparr>subs := 0\<rparr>"

definition registerSub :: "node \<Rightarrow> node" where
  "registerSub n = n\<lparr>subs := subs n + 1\<rparr>"

section \<open>Transitions\<close>

text \<open>Every transition does nothing on a closed node (the goroutine ends), panics from a state it is not meant for,
  and otherwise hands over to the loop of the new state.\<close>

definition transition :: "NodeState set \<Rightarrow> NodeState \<Rightarrow> bool \<Rightarrow> loop \<Rightarrow> node \<Rightarrow> node" where
  "transition allowed to_state disconnect next_loop n =
    (if nd_state n = NodeStateClosed then n\<lparr>nd_loop := LoopDone\<rparr>
     else if nd_state n \<in> allowed then
       (let n' = (if disconnect then disconnectAll n else n) in n'\<lparr>nd_state := to_state, nd_loop := next_loop\<rparr>)
     else n\<lparr>nd_loop := LoopPanic\<rparr>)"

definition declareAlive :: "node \<Rightarrow> node" where
  "declareAlive = transition {NodeStateDialed, NodeStateInvalidChainID} NodeStateAlive False AliveEntry"

definition declareInSync :: "node \<Rightarrow> node" where
  "declareInSync = transition {NodeStateOutOfSync} NodeStateAlive False AliveEntry"

definition declareOutOfSync :: "int \<Rightarrow> node \<Rightarrow> node" where
  "declareOutOfSync latest = transition {NodeStateAlive} NodeStateOutOfSync True (OutOfSyncEntry latest)"

definition declareUnreachable :: "node \<Rightarrow> node" where
  "declareUnreachable = transition {NodeStateUndialed, NodeStateDialed, NodeStateAlive, NodeStateOutOfSync, NodeStateInvalidChainID}
     NodeStateUnreachable True UnreachableEntry"

definition declareInvalidChainID :: "node \<Rightarrow> node" where
  "declareInvalidChainID = transition {NodeStateDialed, NodeStateOutOfSync} NodeStateInvalidChainID True InvalidChainIDEntry"

section \<open>The loops\<close>

datatype verify_result = VerifyOk | VerifyInvalidChainID | VerifyError

text \<open>What dialling and verifying find out from the answers of the connections: the websocket one, and the HTTP one if
  the node has it.\<close>

definition dial_succeeds :: "bool \<Rightarrow> bool option \<Rightarrow> bool" where
  "dial_succeeds ws http \<longleftrightarrow> ws \<and> (case http of None \<Rightarrow> True | Some ok \<Rightarrow> ok)"

definition verifyChainID :: "int \<Rightarrow> (unit + int) \<Rightarrow> (unit + int) option \<Rightarrow> verify_result" where
  "verifyChainID local ws http =
    (case ws of Inl _ \<Rightarrow> VerifyError
     | Inr c \<Rightarrow> if c \<noteq> local then VerifyInvalidChainID
         else (case http of None \<Rightarrow> VerifyOk
               | Some (Inl _) \<Rightarrow> VerifyError
               | Some (Inr c') \<Rightarrow> if c' \<noteq> local then VerifyInvalidChainID else VerifyOk))"

datatype node_event = EvRun | EvDial bool | EvVerify verify_result | EvSubscribe bool
  | EvPoll bool | EvHead int | EvHeadsClosed | EvSubError | EvNoHeads | EvTimer | EvCtxDone

text \<open>The start of verify: it panics in any state but three.\<close>

definition verifyCheck :: "verifier \<Rightarrow> node \<Rightarrow> node" where
  "verifyCheck v n =
    (if nd_state n \<in> {NodeStateDialed, NodeStateOutOfSync, NodeStateInvalidChainID}
     then n\<lparr>nd_loop := Verifying v\<rparr> else n\<lparr>nd_loop := LoopPanic\<rparr>)"

text \<open>The dials and verification of \<^verbatim>\<open>start\<close>; \<^verbatim>\<open>setState\<close> does not look at the state it overwrites.\<close>

definition node_start :: "node_event \<Rightarrow> node \<Rightarrow> node option" where
  "node_start ev n = (case (nd_loop n, ev) of
     (StartDial, EvDial ok) \<Rightarrow>
       Some (if nd_state n \<noteq> NodeStateUndialed then n\<lparr>nd_loop := LoopPanic\<rparr>
             else if ok then n\<lparr>nd_loop := StartDialed\<rparr> else declareUnreachable n)
   | (StartDialed, EvRun) \<Rightarrow> Some ((setState NodeStateDialed n)\<lparr>nd_loop := Verify ByStart\<rparr>)
   | (Verify ByStart, EvRun) \<Rightarrow> Some (verifyCheck ByStart n)
   | (Verifying ByStart, EvVerify r) \<Rightarrow> Some (case r of
         VerifyInvalidChainID \<Rightarrow> declareInvalidChainID n
       | VerifyError \<Rightarrow> declareUnreachable n
       | VerifyOk \<Rightarrow> declareAlive n)
   | _ \<Rightarrow> None)"

text \<open>\<open>live\<close> is \<^verbatim>\<open>nLiveNodes()\<close>, \<open>None\<close> for a node without a pool.\<close>

definition aliveLoop :: "node_config \<Rightarrow> nat option \<Rightarrow> node_event \<Rightarrow> node \<Rightarrow> node option" where
  "aliveLoop cfg live ev n =
    (let lastNode = (case live of None \<Rightarrow> False | Some k \<Rightarrow> k < 2)
     in case (nd_loop n, ev) of
       (AliveEntry, EvRun) \<Rightarrow>
         Some (case nd_state n of
             NodeStateAlive \<Rightarrow> n\<lparr>nd_loop := (if NodeNoNewHeadsThreshold cfg > 0 then AliveSubscribe
                                            else AliveRun (latestReceivedBlockNumber n) 0)\<rparr>
           | NodeStateClosed \<Rightarrow> n\<lparr>nd_loop := LoopDone\<rparr>
           | _ \<Rightarrow> n\<lparr>nd_loop := LoopPanic\<rparr>)
     | (AliveSubscribe, EvSubscribe ok) \<Rightarrow>
         Some (if nd_state n \<noteq> NodeStateAlive \<or> \<not> ok then declareUnreachable n
               else (registerSub n)\<lparr>nd_loop := AliveRun (latestReceivedBlockNumber n) 0\<rparr>)
     | (AliveRun highest pollFailures, EvCtxDone) \<Rightarrow> Some (n\<lparr>nd_loop := LoopDone\<rparr>)
     | (AliveRun highest pollFailures, EvPoll ok) \<Rightarrow>
         if NodePollInterval cfg \<le> 0 then None
         else (let failures = (if ok then 0 else if pollFailures < 4294967295 then pollFailures + 1 else pollFailures)
               in Some (if NodePollFailureThreshold cfg > 0 \<and> failures \<ge> NodePollFailureThreshold cfg \<and> \<not> lastNode
                        then declareUnreachable n
                        else n\<lparr>nd_loop := AliveRun highest failures\<rparr>))
     | (AliveRun highest pollFailures, EvHead number) \<Rightarrow>
         if NodeNoNewHeadsThreshold cfg \<le> 0 then None
         else Some ((setLatestReceivedBlockNumber number n)
                \<lparr>nd_loop := AliveRun (if number > highest then number else highest) pollFailures\<rparr>)
     | (AliveRun highest pollFailures, EvHeadsClosed) \<Rightarrow>
         if NodeNoNewHeadsThreshold cfg \<le> 0 then None else Some (declareUnreachable n)
     | (AliveRun highest pollFailures, EvSubError) \<Rightarrow>
         if NodeNoNewHeadsThreshold cfg \<le> 0 then None else Some (declareUnreachable n)
     | (AliveRun highest pollFailures, EvNoHeads) \<Rightarrow>
         if NodeNoNewHeadsThreshold cfg \<le> 0 then None
         else Some (if lastNode then n else declareOutOfSync highest n)
     | _ \<Rightarrow> None)"

definition outOfSyncLoop :: "nat option \<Rightarrow> node_event \<Rightarrow> node \<Rightarrow> node option" where
  "outOfSyncLoop live ev n =
    (case (nd_loop n, ev) of
       (OutOfSyncEntry stuck, EvRun) \<Rightarrow>
         Some (case nd_state n of
             NodeStateOutOfSync \<Rightarrow> n\<lparr>nd_loop := OutOfSyncDial stuck\<rparr>
           | NodeStateClosed \<Rightarrow> n\<lparr>nd_loop := LoopDone\<rparr>
           | _ \<Rightarrow> n\<lparr>nd_loop := LoopPanic\<rparr>)
     | (OutOfSyncDial stuck, EvDial ok) \<Rightarrow>
         Some (if ok then n\<lparr>nd_loop := Verify (ByOutOfSync stuck)\<rparr> else declareUnreachable n)
     | (Verify (ByOutOfSync stuck), EvRun) \<Rightarrow> Some (verifyCheck (ByOutOfSync stuck) n)
     | (Verifying (ByOutOfSync stuck), EvVerify r) \<Rightarrow>
         Some (if r = VerifyOk then n\<lparr>nd_loop := OutOfSyncSubscribe stuck\<rparr> else declareInvalidChainID n)
     | (OutOfSyncSubscribe stuck, EvSubscribe ok) \<Rightarrow>
         Some (if ok then n\<lparr>nd_loop := OutOfSyncRun stuck\<rparr> else declareUnreachable n)
     | (OutOfSyncRun stuck, EvCtxDone) \<Rightarrow> Some (n\<lparr>nd_loop := LoopDone\<rparr>)
     | (OutOfSyncRun stuck, EvHeadsClosed) \<Rightarrow> Some (declareUnreachable n)
     | (OutOfSyncRun stuck, EvHead number) \<Rightarrow> Some (if number > stuck then declareInSync n else n)
     | (OutOfSyncRun stuck, EvTimer) \<Rightarrow>
         Some (if (case live of None \<Rightarrow> False | Some k \<Rightarrow> k < 1) then declareInSync n else n)
     | (OutOfSyncRun stuck, EvSubError) \<Rightarrow> Some (declareUnreachable n)
     | _ \<Rightarrow> None)"

definition unreachableLoop :: "node_event \<Rightarrow> node \<Rightarrow> node option" where
  "unreachableLoop ev n =
    (case (nd_loop n, ev) of
       (UnreachableEntry, EvRun) \<Rightarrow>
         Some (case nd_state n of
             NodeStateUnreachable \<Rightarrow> n\<lparr>nd_loop := UnreachableRun\<rparr>
           | NodeStateClosed \<Rightarrow> n\<lparr>nd_loop := LoopDone\<rparr>
           | _ \<Rightarrow> n\<lparr>nd_loop := LoopPanic\<rparr>)
     | (UnreachableRun, EvCtxDone) \<Rightarrow> Some (n\<lparr>nd_loop := LoopDone\<rparr>)
     | (UnreachableRun, EvDial ok) \<Rightarrow> Some (if ok then n\<lparr>nd_loop := UnreachableDialed\<rparr> else n)
     | (UnreachableDialed, EvRun) \<Rightarrow> Some ((setState NodeStateDialed n)\<lparr>nd_loop := Verify ByUnreachable\<rparr>)
     | (Verify ByUnreachable, EvRun) \<Rightarrow> Some (verifyCheck ByUnreachable n)
     | (Verifying ByUnreachable, EvVerify r) \<Rightarrow> Some (case r of
           VerifyInvalidChainID \<Rightarrow> declareInvalidChainID n
         | VerifyError \<Rightarrow> declareUnreachable n
         | VerifyOk \<Rightarrow> declareAlive n)
     | _ \<Rightarrow> None)"

definition invalidChainIDLoop :: "node_event \<Rightarrow> node \<Rightarrow> node option" where
  "invalidChainIDLoop ev n =
    (case (nd_loop n, ev) of
       (InvalidChainIDEntry, EvRun) \<Rightarrow>
         Some (case nd_state n of
             NodeStateInvalidChainID \<Rightarrow> n\<lparr>nd_loop := InvalidChainIDRun\<rparr>
           | NodeStateClosed \<Rightarrow> n\<lparr>nd_loop := LoopDone\<rparr>
           | _ \<Rightarrow> n\<lparr>nd_loop := LoopPanic\<rparr>)
     | (InvalidChainIDRun, EvCtxDone) \<Rightarrow> Some (n\<lparr>nd_loop := LoopDone\<rparr>)
     | (InvalidChainIDRun, EvTimer) \<Rightarrow> Some (n\<lparr>nd_loop := Verify ByInvalidChainID\<rparr>)
     | (Verify ByInvalidChainID, EvRun) \<Rightarrow> Some (verifyCheck ByInvalidChainID n)
     | (Verifying ByInvalidChainID, EvVerify r) \<Rightarrow> Some (case r of
           VerifyInvalidChainID \<Rightarrow> n\<lparr>nd_loop := InvalidChainIDRun\<rparr>
         | VerifyError \<Rightarrow> declareUnreachable n
         | VerifyOk \<Rightarrow> declareAlive n)
     | _ \<Rightarrow> None)"

text \<open>The step of whichever loop runs.\<close>

definition loopStep :: "node_config \<Rightarrow> nat option \<Rightarrow> node_event \<Rightarrow> node \<Rightarrow> node option" where
  "loopStep cfg live ev n =
    (case nd_loop n of
       StartDial \<Rightarrow> node_start ev n | StartDialed \<Rightarrow> node_start ev n
     | Verify ByStart \<Rightarrow> node_start ev n | Verifying ByStart \<Rightarrow> node_start ev n
     | AliveEntry \<Rightarrow> aliveLoop cfg live ev n | AliveSubscribe \<Rightarrow> aliveLoop cfg live ev n
     | AliveRun h p \<Rightarrow> aliveLoop cfg live ev n
     | OutOfSyncEntry s \<Rightarrow> outOfSyncLoop live ev n | OutOfSyncDial s \<Rightarrow> outOfSyncLoop live ev n
     | Verify (ByOutOfSync s) \<Rightarrow> outOfSyncLoop live ev n | Verifying (ByOutOfSync s) \<Rightarrow> outOfSyncLoop live ev n
     | OutOfSyncSubscribe s \<Rightarrow> outOfSyncLoop live ev n | OutOfSyncRun s \<Rightarrow> outOfSyncLoop live ev n
     | UnreachableEntry \<Rightarrow> unreachableLoop ev n | UnreachableRun \<Rightarrow> unreachableLoop ev n
     | UnreachableDialed \<Rightarrow> unreachableLoop ev n | Verify ByUnreachable \<Rightarrow> unreachableLoop ev n
     | Verifying ByUnreachable \<Rightarrow> unreachableLoop ev n
     | InvalidChainIDEntry \<Rightarrow> invalidChainIDLoop ev n | InvalidChainIDRun \<Rightarrow> invalidChainIDLoop ev n
     | Verify ByInvalidChainID \<Rightarrow> invalidChainIDLoop ev n | Verifying ByInvalidChainID \<Rightarrow> invalidChainIDLoop ev n
     | LoopDone \<Rightarrow> None | LoopPanic \<Rightarrow> None)"

text \<open>Close cancels the context and sets the state under the lock.\<close>

definition node_Close :: "node \<Rightarrow> node" where
  "node_Close n = n\<lparr>ctxDone := True, nd_state := NodeStateClosed\<rparr>"

text \<open>Under a cancelled context no dial, verification or subscription succeeds; the context is only seen done when it is.\<close>

definition possible :: "node_event \<Rightarrow> node \<Rightarrow> bool" where
  "possible ev n \<longleftrightarrow> (case ev of
     EvDial ok \<Rightarrow> ok \<longrightarrow> \<not> ctxDone n
   | EvVerify r \<Rightarrow> r \<noteq> VerifyError \<longrightarrow> \<not> ctxDone n
   | EvSubscribe ok \<Rightarrow> ok \<longrightarrow> \<not> ctxDone n
   | EvCtxDone \<Rightarrow> ctxDone n
   | _ \<Rightarrow> True)"

text \<open>Close runs at most once and only after Start has returned (theory \<open>Start_Stop\<close>).\<close>

definition starting_up :: "loop \<Rightarrow> bool" where
  "starting_up l \<longleftrightarrow> l \<in> {StartDial, StartDialed, Verify ByStart, Verifying ByStart}"

inductive node_step :: "node_config \<Rightarrow> node \<Rightarrow> node \<Rightarrow> bool" for cfg where
  loop: "possible ev n \<Longrightarrow> loopStep cfg live ev n = Some n' \<Longrightarrow> node_step cfg n n'"
| close: "\<not> ctxDone n \<Longrightarrow> \<not> starting_up (nd_loop n) \<Longrightarrow> node_step cfg n (node_Close n)"

inductive_cases node_stepE: "node_step cfg n n'"

lemmas loop_defs = loopStep_def node_start_def aliveLoop_def outOfSyncLoop_def unreachableLoop_def invalidChainIDLoop_def
lemmas declare_defs = declareAlive_def declareInSync_def declareOutOfSync_def declareUnreachable_def declareInvalidChainID_def
  transition_def disconnectAll_def verifyCheck_def setState_def registerSub_def setLatestReceivedBlockNumber_def

section \<open>Every loop runs in its state\<close>

fun loop_state :: "loop \<Rightarrow> NodeState option" where
  "loop_state StartDial = Some NodeStateUndialed"
| "loop_state StartDialed = Some NodeStateUndialed"
| "loop_state (Verify ByStart) = Some NodeStateDialed"
| "loop_state (Verify ByUnreachable) = Some NodeStateDialed"
| "loop_state (Verify (ByOutOfSync s)) = Some NodeStateOutOfSync"
| "loop_state (Verify ByInvalidChainID) = Some NodeStateInvalidChainID"
| "loop_state (Verifying ByStart) = Some NodeStateDialed"
| "loop_state (Verifying ByUnreachable) = Some NodeStateDialed"
| "loop_state (Verifying (ByOutOfSync s)) = Some NodeStateOutOfSync"
| "loop_state (Verifying ByInvalidChainID) = Some NodeStateInvalidChainID"
| "loop_state AliveEntry = Some NodeStateAlive"
| "loop_state AliveSubscribe = Some NodeStateAlive"
| "loop_state (AliveRun h p) = Some NodeStateAlive"
| "loop_state (OutOfSyncEntry s) = Some NodeStateOutOfSync"
| "loop_state (OutOfSyncDial s) = Some NodeStateOutOfSync"
| "loop_state (OutOfSyncSubscribe s) = Some NodeStateOutOfSync"
| "loop_state (OutOfSyncRun s) = Some NodeStateOutOfSync"
| "loop_state UnreachableEntry = Some NodeStateUnreachable"
| "loop_state UnreachableRun = Some NodeStateUnreachable"
| "loop_state UnreachableDialed = Some NodeStateUnreachable"
| "loop_state InvalidChainIDEntry = Some NodeStateInvalidChainID"
| "loop_state InvalidChainIDRun = Some NodeStateInvalidChainID"
| "loop_state LoopDone = None"
| "loop_state LoopPanic = None"

text \<open>Before Close the state is that of the running loop; afterwards it is Closed, or the unreachable loop has overwritten
  it, but never Alive.\<close>

definition node_inv :: "node \<Rightarrow> bool" where
  "node_inv n \<longleftrightarrow> (if ctxDone n
     then \<not> starting_up (nd_loop n) \<and> (nd_state n = NodeStateClosed \<or> (nd_loop n \<in> {Verify ByUnreachable, Verifying ByUnreachable} \<and> nd_state n = NodeStateDialed) \<or>
       (nd_loop n \<in> {UnreachableEntry, UnreachableRun, LoopDone} \<and> nd_state n = NodeStateUnreachable))
     else loop_state (nd_loop n) = Some (nd_state n))"

lemmas loop_splits = loop.splits node_event.splits verifier.splits if_splits option.splits NodeState.splits verify_result.splits
lemmas inv_defs = node_inv_def possible_def starting_up_def Let_def

lemma node_start_inv: "node_start ev n = Some n' \<Longrightarrow> possible ev n \<Longrightarrow> node_inv n \<Longrightarrow> node_inv n'"
  by (auto simp: node_start_def declare_defs inv_defs split: loop_splits)

lemma aliveLoop_inv: "aliveLoop cfg live ev n = Some n' \<Longrightarrow> possible ev n \<Longrightarrow> node_inv n \<Longrightarrow> node_inv n'"
  by (auto simp: aliveLoop_def declare_defs inv_defs split: loop_splits)

lemma outOfSyncLoop_inv: "outOfSyncLoop live ev n = Some n' \<Longrightarrow> possible ev n \<Longrightarrow> node_inv n \<Longrightarrow> node_inv n'"
  by (auto simp: outOfSyncLoop_def declare_defs inv_defs split: loop_splits)

lemma unreachableLoop_inv: "unreachableLoop ev n = Some n' \<Longrightarrow> possible ev n \<Longrightarrow> node_inv n \<Longrightarrow> node_inv n'"
  by (auto simp: unreachableLoop_def declare_defs inv_defs split: loop_splits)

lemma invalidChainIDLoop_inv: "invalidChainIDLoop ev n = Some n' \<Longrightarrow> possible ev n \<Longrightarrow> node_inv n \<Longrightarrow> node_inv n'"
  by (auto simp: invalidChainIDLoop_def declare_defs inv_defs split: loop_splits)

lemmas loops_inv = node_start_inv aliveLoop_inv outOfSyncLoop_inv unreachableLoop_inv invalidChainIDLoop_inv

lemma loopStep_inv: "loopStep cfg live ev n = Some n' \<Longrightarrow> possible ev n \<Longrightarrow> node_inv n \<Longrightarrow> node_inv n'"
  by (simp add: loopStep_def split: loop.splits verifier.splits; blast intro: loops_inv)

lemma node_reachable:
  assumes "(node_step cfg)\<^sup>*\<^sup>* NewNode n"
  shows "node_inv n"
  using assms
proof (induction rule: rtranclp_induct)
  case base
  then show ?case by (simp add: node_inv_def NewNode_def)
next
  case (step y z)
  from step.hyps(2) show ?case
  proof (cases rule: node_step.cases)
    case (loop ev live)
    then show ?thesis using loopStep_inv step.IH by blast
  next
    case close
    then show ?thesis by (simp add: node_Close_def node_inv_def)
  qed
qed

section \<open>Properties\<close>

text \<open>C16: Until it is closed, the goroutine that runs is always the one of the node's state, whatever happens to the
  connection, so none of the sanity checks and transition guards panics; and once closed, the node is
  never in the state in which the pool uses it.\<close>
theorem node_states_consistent:
  assumes "(node_step cfg)\<^sup>*\<^sup>* NewNode n"
  shows "if ctxDone n then nd_state n \<noteq> NodeStateAlive
    else nd_loop n \<noteq> LoopPanic \<and> nd_loop n \<noteq> LoopDone \<and> loop_state (nd_loop n) = Some (nd_state n)"
  using node_reachable [OF assms] by (auto simp: node_inv_def split: if_splits)

definition node_cfg0 :: node_config where
  "node_cfg0 = \<lparr>NodeNoNewHeadsThreshold = 10, NodePollFailureThreshold = 3, NodePollInterval = 1\<rparr>"

text \<open>A run of the goroutine over a list of events, with Close where the list has \<open>None\<close>.\<close>

fun run_events :: "node_config \<Rightarrow> nat option \<Rightarrow> node_event option list \<Rightarrow> node \<Rightarrow> node option" where
  "run_events cfg live [] n = Some n"
| "run_events cfg live (None # es) n =
    (if \<not> ctxDone n \<and> \<not> starting_up (nd_loop n) then run_events cfg live es (node_Close n) else None)"
| "run_events cfg live (Some ev # es) n =
    (if possible ev n then (case loopStep cfg live ev n of None \<Rightarrow> None | Some n' \<Rightarrow> run_events cfg live es n') else None)"

lemma run_events_steps: "run_events cfg live es n = Some n' \<Longrightarrow> (node_step cfg)\<^sup>*\<^sup>* n n'"
proof (induction cfg live es n rule: run_events.induct)
  case (2 cfg live es n)
  then have "node_step cfg n (node_Close n)" by (intro node_step.close) (auto split: if_splits)
  with 2 show ?case by (auto split: if_splits intro: converse_rtranclp_into_rtranclp)
next
  case (3 cfg live ev es n)
  then obtain n1 where n1: "possible ev n" "loopStep cfg live ev n = Some n1" "run_events cfg live es n1 = Some n'"
    by (auto split: if_splits option.splits)
  then have "node_step cfg n n1" by (intro node_step.loop)
  with 3 n1 show ?case by (auto intro: converse_rtranclp_into_rtranclp)
qed simp

definition to_alive :: "node_event option list" where
  "to_alive = [Some (EvDial True), Some EvRun, Some EvRun, Some (EvVerify VerifyOk), Some EvRun, Some (EvSubscribe True)]"

lemmas run_eval = to_alive_def loop_defs declare_defs NewNode_def node_cfg0_def possible_def starting_up_def node_Close_def

theorem node_states_consistent_witness:
  "\<exists>n. (node_step node_cfg0)\<^sup>*\<^sup>* NewNode n \<and> nd_state n = NodeStateAlive \<and> nd_loop n \<noteq> LoopPanic"
proof -
  let ?n = "\<lparr>nd_state = NodeStateAlive, latestReceivedBlockNumber = -1, subs = 1, ctxDone = False, nd_loop = AliveRun (-1) 0\<rparr>"
  have "run_events node_cfg0 (Some 2) to_alive NewNode = Some ?n" by (simp add: run_eval)
  note st = run_events_steps [OF this]
  have "nd_loop ?n \<noteq> LoopPanic" using node_states_consistent [OF st] by simp
  with st show ?thesis by (intro exI [of _ ?n]) simp
qed

text \<open>A node that is closed while its out-of-sync, unreachable or invalid chain id loop is about to verify
  the connection panics, since verify accepts no closed node.\<close>
theorem close_during_verify_panics:
  "\<exists>n. (node_step node_cfg0)\<^sup>*\<^sup>* NewNode n \<and> ctxDone n \<and> nd_state n = NodeStateClosed \<and> nd_loop n = LoopPanic"
proof -
  have "run_events node_cfg0 (Some 2)
      (to_alive @ [Some EvNoHeads, Some EvRun, Some (EvDial True), None, Some EvRun]) NewNode =
      Some \<lparr>nd_state = NodeStateClosed, latestReceivedBlockNumber = -1, subs = 0, ctxDone = True, nd_loop = LoopPanic\<rparr>"
    by (simp add: run_eval)
  from run_events_steps [OF this] show ?thesis by fastforce
qed

text \<open>Closed is not the last state of a node: a close between a successful redial and the change to Dialed is
  overwritten, and the goroutines end with the node in the state Unreachable.\<close>
theorem closed_state_overwritten:
  "\<exists>n. (node_step node_cfg0)\<^sup>*\<^sup>* NewNode n \<and> ctxDone n \<and> nd_state n = NodeStateUnreachable \<and> nd_loop n = LoopDone"
proof -
  have "run_events node_cfg0 (Some 2)
      [Some (EvDial False), Some EvRun, Some (EvDial True), None, Some EvRun, Some EvRun, Some (EvVerify VerifyError), Some EvRun, Some EvCtxDone]
      NewNode = Some \<lparr>nd_state = NodeStateUnreachable, latestReceivedBlockNumber = -1, subs = 0, ctxDone = True, nd_loop = LoopDone\<rparr>"
    by (simp add: run_eval)
  from run_events_steps [OF this] show ?thesis by fastforce
qed

text \<open>An out-of-sync node goes back to alive when it gets a later head than it is stuck at, or when no node is live any more.\<close>

lemma outOfSync_recovers:
  assumes "nd_state m = NodeStateOutOfSync" and "nd_loop m = OutOfSyncRun stuck" and "stuck < number"
  shows "\<exists>m'. outOfSyncLoop live (EvHead number) m = Some m' \<and> nd_state m' = NodeStateAlive \<and> nd_loop m' = AliveEntry"
    and "\<exists>m'. outOfSyncLoop (Some 0) EvTimer m = Some m' \<and> nd_state m' = NodeStateAlive \<and> nd_loop m' = AliveEntry"
  using assms by (simp_all add: outOfSyncLoop_def declare_defs)

end
