(* ===== verification/Multi_Service.thy ===== *)
theory Multi_Service
  imports Go_Prelude
begin

text \<open>
  Starting and closing several services together (\<^verbatim>\<open>core/services/multi.go\<close>). What a service answers to \<^verbatim>\<open>Start\<close> and
  \<^verbatim>\<open>Close\<close> is a parameter; the calls made are recorded in order, so that what is left running can be read off them.
  A \<^verbatim>\<open>multierr\<close> value is the list of the errors combined, nil the empty list.
\<close>

datatype 'a svc_call = CallStart 'a | CallClose 'a

record 'a multi_start =
  started :: "'a list"

definition new_multi_start :: "'a multi_start" where
  "new_multi_start = \<lparr>started = []\<rparr>"

section \<open>MultiStart\<close>

text \<open>\<^verbatim>\<open>Close\<close> walks the started services from the end; it does not empty the list.\<close>

definition ms_Close :: "('a \<Rightarrow> 'e option) \<Rightarrow> 'a multi_start \<Rightarrow> 'e list \<times> 'a svc_call list" where
  "ms_Close cl m =
    fold (\<lambda>s (errs, calls). (errs @ (case cl s of None \<Rightarrow> [] | Some e \<Rightarrow> [e]), calls @ [CallClose s]))
      (rev (started m)) ([], [])"

definition ms_start_one ::
  "('a \<Rightarrow> 'e option) \<Rightarrow> ('a \<Rightarrow> 'e option) \<Rightarrow> 'a multi_start \<Rightarrow> 'a \<Rightarrow> 'a multi_start \<times> 'e list \<times> 'a svc_call list" where
  "ms_start_one st cl m s =
    (case st s of
       Some e \<Rightarrow> (case ms_Close cl m of (errs, calls) \<Rightarrow> (m, e # errs, CallStart s # calls))
     | None \<Rightarrow> (m\<lparr>started := started m @ [s]\<rparr>, [], [CallStart s]))"

fun ms_Start ::
  "('a \<Rightarrow> 'e option) \<Rightarrow> ('a \<Rightarrow> 'e option) \<Rightarrow> 'a multi_start \<Rightarrow> 'a list \<Rightarrow> 'a multi_start \<times> 'e list \<times> 'a svc_call list" where
  "ms_Start st cl m [] = (m, [], [])"
| "ms_Start st cl m (s # ss) =
    (case ms_start_one st cl m s of
       (m', err, calls) \<Rightarrow>
         if err \<noteq> [] then (m', err, calls)
         else (case ms_Start st cl m' ss of (m'', err', calls') \<Rightarrow> (m'', err', calls @ calls')))"

section \<open>MultiClose\<close>

text \<open>Every service is closed by a goroutine of its own; the calls are listed in the order the goroutines are
  started, and \<open>order\<close> is the order in which they report to the channel.\<close>

definition mc_Close :: "('a \<Rightarrow> 'e option) \<Rightarrow> 'a list \<Rightarrow> 'a list \<Rightarrow> 'e list \<times> 'a svc_call list" where
  "mc_Close cl m order = (if m = [] then ([], []) else (List.map_filter cl order, map CallClose m))"

section \<open>What is left running\<close>

text \<open>A service runs if its last call is a start that succeeded.\<close>

fun running :: "('a \<Rightarrow> 'e option) \<Rightarrow> 'a svc_call list \<Rightarrow> 'a set \<Rightarrow> 'a set" where
  "running st [] r = r"
| "running st (CallStart s # cs) r = running st cs (if st s = None then insert s r else r)"
| "running st (CallClose s # cs) r = running st cs (r - {s})"

lemma running_append [simp]: "running st (xs @ ys) r = running st ys (running st xs r)"
  by (induction st xs r rule: running.induct) simp_all

lemma running_closes [simp]: "running st (map CallClose ss) r = r - set ss"
  by (induction ss arbitrary: r) auto

lemma running_starts [simp]:
  "(\<And>s. s \<in> set ss \<Longrightarrow> st s = None) \<Longrightarrow> running st (map CallStart ss) r = r \<union> set ss"
  by (induction ss arbitrary: r) auto

lemma ms_Close_fold:
  "fold (\<lambda>s (errs, calls). (errs @ (case cl s of None \<Rightarrow> [] | Some e \<Rightarrow> [e]), calls @ [CallClose s])) ss (es, cs)
    = (es @ List.map_filter cl ss, cs @ map CallClose ss)"
  by (induction ss arbitrary: es cs) (simp_all add: List.map_filter_simps split: option.splits)

lemma ms_Close_calls: "ms_Close cl m = (List.map_filter cl (rev (started m)), map CallClose (rev (started m)))"
  by (simp add: ms_Close_def ms_Close_fold)

lemma ms_start_one_ok: "st s = None \<Longrightarrow> ms_start_one st cl m s = (m\<lparr>started := started m @ [s]\<rparr>, [], [CallStart s])"
  by (simp add: ms_start_one_def)

lemma ms_start_one_fail: "st s = Some e \<Longrightarrow> ms_start_one st cl m s =
    (m, e # List.map_filter cl (rev (started m)), CallStart s # map CallClose (rev (started m)))"
  by (simp add: ms_start_one_def ms_Close_calls)

lemmas ms_start_one_cases = ms_start_one_ok ms_start_one_fail

lemma ms_Start_ok:
  "(\<And>s. s \<in> set ss \<Longrightarrow> st s = None) \<Longrightarrow> ms_Start st cl m ss = (m\<lparr>started := started m @ ss\<rparr>, [], map CallStart ss)"
  by (induction ss arbitrary: m) (simp_all add: ms_start_one_ok)

lemma ms_Start_fail:
  "(\<And>s. s \<in> set ss \<Longrightarrow> st s = None) \<Longrightarrow> st x = Some e \<Longrightarrow>
   ms_Start st cl m (ss @ x # ys) =
    (m\<lparr>started := started m @ ss\<rparr>, e # List.map_filter cl (rev (started m @ ss)),
     map CallStart ss @ CallStart x # map CallClose (rev (started m @ ss)))"
  by (induction ss arbitrary: m) (simp_all add: ms_start_one_cases)

lemma first_failure:
  "(\<forall>s \<in> set ss. st s = None) \<or>
   (\<exists>ps x e ys. ss = ps @ x # ys \<and> (\<forall>s \<in> set ps. st s = None) \<and> st x = Some e)"
  using split_list_first_prop [of ss "\<lambda>s. st s \<noteq> None"] by fastforce

text \<open>starting a group is all or nothing: without a failure every service runs, started in the given order and
  closed by none; with one the services before the first that fails are the ones started, each is closed in the
  reverse order, nothing of the group is left running, no service after the failing one is touched, and the error holds
  the start error first and then every close error.\<close>
theorem MultiStart_all_or_nothing:
  "(let (m, err, calls) = ms_Start st cl new_multi_start ss in
    ((\<forall>s \<in> set ss. st s = None) \<and> err = [] \<and> calls = map CallStart ss \<and> running st calls {} = set ss \<and> started m = ss)
    \<or> (\<exists>ps x e ys. ss = ps @ x # ys \<and> (\<forall>s \<in> set ps. st s = None) \<and> st x = Some e
        \<and> err = e # List.map_filter cl (rev ps)
        \<and> calls = map CallStart ps @ [CallStart x] @ map CallClose (rev ps)
        \<and> running st calls {} = {}))"
proof -
  consider (ok) "\<forall>s \<in> set ss. st s = None"
    | (fail) ps x e ys where "ss = ps @ x # ys" "\<forall>s \<in> set ps. st s = None" "st x = Some e"
    using first_failure [of ss st] by blast
  then show ?thesis
  proof cases
    case ok
    then show ?thesis by (simp add: ms_Start_ok new_multi_start_def)
  next
    case fail
    have r: "running st (map CallStart ps @ [CallStart x] @ map CallClose (rev ps)) {} = {}"
      using fail by simp
    have "ms_Start st cl new_multi_start ss =
      (\<lparr>started = ps\<rparr>, e # List.map_filter cl (rev ps), map CallStart ps @ [CallStart x] @ map CallClose (rev ps))"
      using fail by (simp add: ms_Start_fail new_multi_start_def)
    then show ?thesis using fail r by auto
  qed
qed

theorem MultiStart_all_or_nothing_witness:
  "ms_Start (\<lambda>s. if s = 3 then Some ''boom'' else None) (\<lambda>s. if s = 1 then Some ''stuck'' else None) new_multi_start [1, 2, 3, 4::nat]
    = (\<lparr>started = [1, 2]\<rparr>, [''boom'', ''stuck''], [CallStart 1, CallStart 2, CallStart 3, CallClose 2, CallClose 1])
   \<and> running (\<lambda>s. if s = 3 then Some ''boom'' else None) [CallStart 1, CallStart 2, CallStart 3, CallClose 2, CallClose 1] {} = {}"
  using MultiStart_all_or_nothing [of "\<lambda>s. if s = 3 then Some ''boom'' else None" "\<lambda>s. if s = 1 then Some ''stuck'' else None" "[1, 2, 3, 4::nat]"]
  by (simp add: new_multi_start_def ms_start_one_def ms_Close_def)

end
