(* ===== verification/Node_Pool.thy ===== *)
theory Node_Pool
  imports Node_FSM Multi_Service
begin

text \<open>
  The pool of RPC nodes (\<^verbatim>\<open>core/chains/evm/client/pool.go\<close>) and the two strategies that select the node a request goes to
  (\<^verbatim>\<open>node_selector_highest_head.go\<close>, \<^verbatim>\<open>node_selector_round_robin.go\<close>). The contract \<open>node_selector\<close> is what the pool
  relies on; the pool's lemmas are proved from it once, and both strategies provide it.

  Nodes are referred to by their position in the pool; what the pool reads of them (state and latest block) is a
  snapshot taken at the moment of the call. What a node answers to a request is a parameter.
\<close>

section \<open>The pool's view of its nodes\<close>

record pool_node =
  pn_chainID :: int
  pn_raw :: bool      \<comment> \<open>the dynamic type is *node\<close>
  pn_state :: NodeState
  pn_latest :: int

definition is_alive :: "pool_node list \<Rightarrow> nat \<Rightarrow> bool" where
  "is_alive nodes i \<longleftrightarrow> i < length nodes \<and> pn_state (nodes ! i) = NodeStateAlive"

definition nLiveNodes :: "pool_node list \<Rightarrow> nat" where
  "nLiveNodes nodes = length (filter (\<lambda>n. pn_state n = NodeStateAlive) nodes)"

section \<open>The selection strategies\<close>

record highest_head =
  lastBestNode :: "nat option"

definition NewHighestHeadNodeSelector :: highest_head where
  "NewHighestHeadNodeSelector = \<lparr>lastBestNode = None\<rparr>"

text \<open>One node of the loop: \<open>best\<close> is the node chosen so far and its block number.\<close>

definition betterNode :: "pool_node list \<Rightarrow> nat option \<Rightarrow> nat \<Rightarrow> nat option \<times> int \<Rightarrow> nat option \<times> int" where
  "betterNode nodes lastBest i best =
    (if lastBest = Some i then best
     else if pn_state (nodes ! i) = NodeStateAlive \<and> pn_latest (nodes ! i) > snd best then (Some i, pn_latest (nodes ! i))
     else best)"

definition highest_Select :: "pool_node list \<Rightarrow> highest_head \<Rightarrow> highest_head \<times> nat option" where
  "highest_Select nodes s =
    (let start = (case lastBestNode s of
           None \<Rightarrow> (None, min_i64)
         | Some l \<Rightarrow> if pn_state (nodes ! l) = NodeStateAlive then (Some l, pn_latest (nodes ! l)) else (None, min_i64));
         node = fst (fold (betterNode nodes (lastBestNode s)) [0..<length nodes] start)
     in (s\<lparr>lastBestNode := node\<rparr>, node))"

record round_robin =
  roundRobinCount :: u32

definition NewRoundRobinSelector :: round_robin where
  "NewRoundRobinSelector = \<lparr>roundRobinCount = 0\<rparr>"

definition liveNodes :: "pool_node list \<Rightarrow> nat list" where
  "liveNodes nodes = filter (\<lambda>i. pn_state (nodes ! i) = NodeStateAlive) [0..<length nodes]"

definition roundRobin_Select :: "pool_node list \<Rightarrow> round_robin \<Rightarrow> round_robin \<times> nat option" where
  "roundRobin_Select nodes s =
    (let live = liveNodes nodes; nNodes = length live
     in if nNodes = 0 then (s, None)
        else (let s' = s\<lparr>roundRobinCount := roundRobinCount s + 1\<rparr>; count = roundRobinCount s' - 1;
                  idx = unat (count mod of_nat nNodes)
              in (s', Some (live ! idx))))"

section \<open>The contract of a selector\<close>

locale node_selector =
  fixes select :: "pool_node list \<Rightarrow> 's \<Rightarrow> 's \<times> nat option" and ok :: "pool_node list \<Rightarrow> 's \<Rightarrow> bool"
  assumes select_ok: "ok nodes s \<Longrightarrow> ok nodes (fst (select nodes s))"
    and select_alive: "ok nodes s \<Longrightarrow> snd (select nodes s) = Some i \<Longrightarrow> is_alive nodes i"
    and select_none: "ok nodes s \<Longrightarrow> snd (select nodes s) = None \<Longrightarrow> nLiveNodes nodes = 0"
begin

lemma selects_iff_live: "ok nodes s \<Longrightarrow> snd (select nodes s) \<noteq> None \<longleftrightarrow> 0 < nLiveNodes nodes"
proof
  assume o: "ok nodes s" and "snd (select nodes s) \<noteq> None"
  then obtain i where "is_alive nodes i" using select_alive by blast
  then have "nodes ! i \<in> set (filter (\<lambda>n. pn_state n = NodeStateAlive) nodes)" by (auto simp: is_alive_def)
  then show "0 < nLiveNodes nodes" unfolding nLiveNodes_def by (metis length_pos_if_in_set)
next
  assume "ok nodes s" and "0 < nLiveNodes nodes"
  then show "snd (select nodes s) \<noteq> None" using select_none by fastforce
qed

end

lemma liveNodes_alive: "i \<in> set (liveNodes nodes) \<longleftrightarrow> is_alive nodes i"
  by (auto simp: liveNodes_def is_alive_def)

lemma distinct_liveNodes: "distinct (liveNodes nodes)"
  by (simp add: liveNodes_def)

lemma length_liveNodes: "length (liveNodes nodes) = nLiveNodes nodes"
proof -
  have "filter (\<lambda>n. pn_state n = NodeStateAlive) (map ((!) nodes) [0..<length nodes]) = map ((!) nodes) (liveNodes nodes)"
    unfolding liveNodes_def filter_map by (simp add: comp_def)
  then show ?thesis unfolding nLiveNodes_def map_nth by (metis length_map)
qed

section \<open>The highest head\<close>

text \<open>The loop keeps an alive node at least as high as all it has seen.\<close>

definition best_of :: "pool_node list \<Rightarrow> nat set \<Rightarrow> nat option \<times> int \<Rightarrow> bool" where
  "best_of nodes seen best \<longleftrightarrow>
    (case fst best of
       None \<Rightarrow> snd best = min_i64 \<and> (\<forall>i \<in> seen. \<not> is_alive nodes i)
     | Some b \<Rightarrow> is_alive nodes b \<and> snd best = pn_latest (nodes ! b) \<and>
         (\<forall>i \<in> seen. is_alive nodes i \<longrightarrow> pn_latest (nodes ! i) \<le> pn_latest (nodes ! b)))"

definition heads_known :: "pool_node list \<Rightarrow> bool" where
  "heads_known nodes \<longleftrightarrow> (\<forall>n \<in> set nodes. min_i64 < pn_latest n)"

lemma betterNode_best:
  assumes "best_of nodes seen best" and "heads_known nodes" and "i < length nodes"
    and "lst = Some i \<Longrightarrow> i \<in> seen \<or> \<not> is_alive nodes i"
  shows "best_of nodes (insert i seen) (betterNode nodes lst i best)"
proof -
  have h: "min_i64 < pn_latest (nodes ! i)" using assms(2,3) by (simp add: heads_known_def)
  show ?thesis using assms h
    by (cases "fst best") (auto simp: best_of_def betterNode_def is_alive_def split: if_splits option.splits)
qed

lemma fold_best:
  assumes "heads_known nodes" and "\<And>i. lst = Some i \<Longrightarrow> i \<in> seen \<or> \<not> is_alive nodes i" and "best_of nodes seen best"
  shows "set js \<subseteq> {0..<length nodes} \<Longrightarrow> best_of nodes (seen \<union> set js) (fold (betterNode nodes lst) js best)"
proof (induction js rule: rev_induct)
  case (snoc i js)
  have "best_of nodes (insert i (seen \<union> set js)) (betterNode nodes lst i (fold (betterNode nodes lst) js best))"
    using snoc assms(1,2) by (intro betterNode_best) auto
  then show ?case by simp
qed (use assms in simp)

definition highest_ok :: "pool_node list \<Rightarrow> highest_head \<Rightarrow> bool" where
  "highest_ok nodes s \<longleftrightarrow> heads_known nodes \<and> (\<forall>l. lastBestNode s = Some l \<longrightarrow> l < length nodes)"

lemma highest_best:
  assumes "highest_ok nodes s"
  shows "\<exists>h. best_of nodes {0..<length nodes} (snd (highest_Select nodes s), h)"
proof -
  let ?last = "lastBestNode s"
  define start where "start = (case ?last of None \<Rightarrow> (None, min_i64)
    | Some l \<Rightarrow> if pn_state (nodes ! l) = NodeStateAlive then (Some l, pn_latest (nodes ! l)) else (None, min_i64))"
  define seen where "seen = (case ?last of None \<Rightarrow> {} | Some l \<Rightarrow> if is_alive nodes l then {l} else ({}::nat set))"
  have "best_of nodes seen start"
    using assms by (auto simp: best_of_def start_def seen_def highest_ok_def is_alive_def split: option.splits)
  then have "best_of nodes (seen \<union> set [0..<length nodes]) (fold (betterNode nodes ?last) [0..<length nodes] start)"
    using assms by (intro fold_best) (auto simp: highest_ok_def seen_def split: if_splits)
  moreover have "seen \<union> set [0..<length nodes] = {0..<length nodes}"
    by (auto simp: seen_def is_alive_def split: option.splits if_splits)
  ultimately have "best_of nodes {0..<length nodes} (fold (betterNode nodes ?last) [0..<length nodes] start)" by simp
  moreover have "snd (highest_Select nodes s) = fst (fold (betterNode nodes ?last) [0..<length nodes] start)"
    by (simp add: highest_Select_def start_def Let_def)
  ultimately show ?thesis by (metis prod.collapse)
qed

lemma highest_last: "lastBestNode (fst (highest_Select nodes s)) = snd (highest_Select nodes s)"
  by (simp add: highest_Select_def Let_def)

lemma nLiveNodes_zero: "nLiveNodes nodes = 0 \<longleftrightarrow> (\<forall>i. \<not> is_alive nodes i)"
  unfolding nLiveNodes_def by (auto simp: filter_empty_conv is_alive_def all_set_conv_all_nth)

interpretation highest: node_selector highest_Select highest_ok
proof
  fix nodes :: "pool_node list" and s :: highest_head and i
  assume ok: "highest_ok nodes s"
  obtain h where h: "best_of nodes {0..<length nodes} (snd (highest_Select nodes s), h)" using highest_best [OF ok] by blast
  show alive: "is_alive nodes i" if "snd (highest_Select nodes s) = Some i" for i
    using h that by (simp add: best_of_def)
  show "nLiveNodes nodes = 0" if "snd (highest_Select nodes s) = None"
    using h that by (auto simp: best_of_def nLiveNodes_zero is_alive_def)
  show "highest_ok nodes (fst (highest_Select nodes s))"
    using ok alive by (auto simp: highest_ok_def highest_last is_alive_def)
qed

text \<open>The node selected last stays selected unless another one is strictly higher.\<close>

lemma fold_sticky:
  "(\<And>i. i \<in> set js \<Longrightarrow> is_alive nodes i \<Longrightarrow> pn_latest (nodes ! i) \<le> snd best) \<Longrightarrow> set js \<subseteq> {0..<length nodes} \<Longrightarrow>
   fold (betterNode nodes lst) js best = best"
  by (induction js) (fastforce simp: betterNode_def is_alive_def)+

section \<open>Round robin\<close>

definition robin_ok :: "pool_node list \<Rightarrow> round_robin \<Rightarrow> bool" where
  "robin_ok nodes s \<longleftrightarrow> length nodes < 2 ^ 32"

lemma length_live_le: "length (liveNodes nodes) \<le> length nodes"
  unfolding liveNodes_def using length_filter_le [of _ "[0..<length nodes]"] by simp

lemma roundRobin_pick:
  assumes "robin_ok nodes s" and "liveNodes nodes \<noteq> []"
  shows "roundRobin_Select nodes s =
    (s\<lparr>roundRobinCount := roundRobinCount s + 1\<rparr>,
     Some (liveNodes nodes ! (unat (roundRobinCount s) mod length (liveNodes nodes))))"
proof -
  have "length (liveNodes nodes) < 2 ^ 32"
    using assms(1) length_live_le [of nodes] by (simp add: robin_ok_def)
  then have "unat (of_nat (length (liveNodes nodes)) :: u32) = length (liveNodes nodes)" by (simp add: unat_of_nat take_bit_nat_eq_self)
  then show ?thesis using assms(2) by (simp add: roundRobin_Select_def Let_def unat_mod)
qed

interpretation robin: node_selector roundRobin_Select robin_ok
proof
  fix nodes :: "pool_node list" and s :: round_robin and i
  assume ok: "robin_ok nodes s"
  then show "robin_ok nodes (fst (roundRobin_Select nodes s))" by (simp add: robin_ok_def)
  show "is_alive nodes i" if "snd (roundRobin_Select nodes s) = Some i"
  proof -
    have ne: "liveNodes nodes \<noteq> []" using that by (auto simp: roundRobin_Select_def)
    then have "unat (roundRobinCount s) mod length (liveNodes nodes) < length (liveNodes nodes)" by simp
    then have "i \<in> set (liveNodes nodes)" using that roundRobin_pick [OF ok ne] by (auto intro: nth_mem)
    then show ?thesis by (simp add: liveNodes_alive)
  qed
  show "nLiveNodes nodes = 0" if "snd (roundRobin_Select nodes s) = None"
  proof (cases "liveNodes nodes = []")
    case True
    then show ?thesis using length_liveNodes [of nodes] by simp
  next
    case False
    then show ?thesis using that roundRobin_pick [OF ok False] by simp
  qed
qed

fun robin_picks :: "pool_node list \<Rightarrow> nat \<Rightarrow> round_robin \<Rightarrow> nat option list" where
  "robin_picks nodes 0 s = []"
| "robin_picks nodes (Suc k) s = (case roundRobin_Select nodes s of (s', x) \<Rightarrow> x # robin_picks nodes k s')"

lemma robin_picks_nth:
  "robin_ok nodes s \<Longrightarrow> liveNodes nodes \<noteq> [] \<Longrightarrow> unat (roundRobinCount s) + k \<le> 2 ^ 32 \<Longrightarrow>
   robin_picks nodes k s = map (\<lambda>j. Some (liveNodes nodes ! ((unat (roundRobinCount s) + j) mod length (liveNodes nodes)))) [0..<k]"
proof (induction k arbitrary: s)
  case (Suc k)
  let ?s = "s\<lparr>roundRobinCount := roundRobinCount s + 1\<rparr>"
  show ?case
  proof (cases k)
    case 0
    then show ?thesis by (simp add: roundRobin_pick [OF Suc.prems(1,2)])
  next
    case (Suc k')
    then have u: "unat (roundRobinCount s + 1) = unat (roundRobinCount s) + 1"
      using Suc.prems(3) by (subst unat_add_lem [THEN iffD1]) simp_all
    have "robin_picks nodes k ?s = map (\<lambda>j. Some (liveNodes nodes ! ((unat (roundRobinCount s) + Suc j) mod length (liveNodes nodes)))) [0..<k]"
      using Suc.IH [of ?s] Suc.prems u by (simp add: robin_ok_def)
    then show ?thesis by (simp add: roundRobin_pick [OF Suc.prems(1,2)] map_upt_Suc del: upt_Suc)
  qed
qed simp

lemma mod_cover:
  assumes "0 < (k::nat)"
  shows "(\<lambda>j. (c + j) mod k) ` {0..<k} = {0..<k}"
proof (rule antisym)
  show "{0..<k} \<subseteq> (\<lambda>j. (c + j) mod k) ` {0..<k}"
  proof
    fix i assume i: "i \<in> {0..<k}"
    let ?j = "(i + (k - c mod k)) mod k"
    have "(c + ?j) mod k = (c mod k + (i + (k - c mod k))) mod k" by (metis mod_add_left_eq mod_add_right_eq)
    also have "c mod k + (i + (k - c mod k)) = i + k" using assms mod_less_divisor [of k c] by linarith
    finally have "(c + ?j) mod k = i" using i by simp
    moreover have "?j \<in> {0..<k}" using assms by simp
    ultimately show "i \<in> (\<lambda>j. (c + j) mod k) ` {0..<k}" by (metis image_eqI)
  qed
qed (use assms in auto)


section \<open>The pool\<close>

datatype selection_mode = HighestHead | RoundRobin | OtherMode string

datatype node_selector_state = SelHighest highest_head | SelRobin round_robin

record pool =
  p_nodes :: "pool_node list"
  p_sendonlys :: "int list"     \<comment> \<open>the chain ID of each\<close>
  p_chainID :: int
  p_selector :: node_selector_state

text \<open>\<open>None\<close> is the panic: no chain ID, or an unknown mode.\<close>

definition NewPool :: "selection_mode \<Rightarrow> nat \<Rightarrow> pool_node list \<Rightarrow> int list \<Rightarrow> int option \<Rightarrow> pool option" where
  "NewPool mode noNewHeadsThreshold nodes sendonlys chainID =
    (case chainID of None \<Rightarrow> None
     | Some c \<Rightarrow>
         (case (case mode of HighestHead \<Rightarrow> Some (SelHighest NewHighestHeadNodeSelector)
                | RoundRobin \<Rightarrow> Some (SelRobin NewRoundRobinSelector)
                | OtherMode _ \<Rightarrow> None) of
            None \<Rightarrow> None
          | Some sel \<Rightarrow> Some \<lparr>p_nodes = nodes, p_sendonlys = sendonlys, p_chainID = c,
              p_selector = (if noNewHeadsThreshold = 0 \<and> mode = HighestHead then SelRobin NewRoundRobinSelector else sel)\<rparr>))"

definition pool_Select :: "pool_node list \<Rightarrow> node_selector_state \<Rightarrow> node_selector_state \<times> nat option" where
  "pool_Select nodes s =
    (case s of SelHighest h \<Rightarrow> (case highest_Select nodes h of (h', i) \<Rightarrow> (SelHighest h', i))
     | SelRobin r \<Rightarrow> (case roundRobin_Select nodes r of (r', i) \<Rightarrow> (SelRobin r', i)))"

definition pool_sel_ok :: "pool_node list \<Rightarrow> node_selector_state \<Rightarrow> bool" where
  "pool_sel_ok nodes s = (case s of SelHighest h \<Rightarrow> highest_ok nodes h | SelRobin r \<Rightarrow> robin_ok nodes r)"

interpretation pool_sel: node_selector pool_Select pool_sel_ok
proof
  fix nodes :: "pool_node list" and s :: node_selector_state and i
  assume ok: "pool_sel_ok nodes s"
  show "pool_sel_ok nodes (fst (pool_Select nodes s))"
    using ok highest.select_ok robin.select_ok
    by (auto simp: pool_sel_ok_def pool_Select_def split: node_selector_state.splits prod.splits) (metis fst_conv)+
  show "is_alive nodes i" if "snd (pool_Select nodes s) = Some i"
    using ok that highest.select_alive robin.select_alive
    by (auto simp: pool_sel_ok_def pool_Select_def split: node_selector_state.splits prod.splits)
  show "nLiveNodes nodes = 0" if "snd (pool_Select nodes s) = None"
    using ok that highest.select_none robin.select_none
    by (auto simp: pool_sel_ok_def pool_Select_def split: node_selector_state.splits prod.splits)
qed

section \<open>Requests\<close>

text \<open>The operations a node offers (interface \<^verbatim>\<open>Node\<close>); arguments are left out, the answer of a node is a parameter.\<close>

datatype request = CallContext | BatchCallContext | SendTransaction | PendingCodeAt | PendingNonceAt | NonceAt
  | TransactionReceipt | BlockByNumber | BlockByHash | BalanceAt | FilterLogs | SubscribeFilterLogs | EstimateGas
  | SuggestGasPrice | CallContract | CodeAt | HeaderByNumber | HeaderByHash | SuggestGasTipCap | EthSubscribe

text \<open>A node to send to: a primary node, a send-only node, or the stand-in that answers every request with an error.\<close>

datatype target = Primary nat | SendOnly nat | ErroringNode int

datatype 'e call_error = NoLiveNodes int | NodeError 'e

definition selectNode :: "pool \<Rightarrow> pool \<times> target" where
  "selectNode p = (case pool_Select (p_nodes p) (p_selector p) of
     (s', sel) \<Rightarrow> (p\<lparr>p_selector := s'\<rparr>, case sel of None \<Rightarrow> ErroringNode (p_chainID p) | Some i \<Rightarrow> Primary i))"

definition erroring_call :: "int \<Rightarrow> request \<Rightarrow> 'e call_error + 'r" where
  "erroring_call chainID req = Inl (NoLiveNodes chainID)"

definition target_call :: "(target \<Rightarrow> request \<Rightarrow> 'e + 'r) \<Rightarrow> target \<Rightarrow> request \<Rightarrow> 'e call_error + 'r" where
  "target_call answer t req = (case t of ErroringNode c \<Rightarrow> erroring_call c req
     | _ \<Rightarrow> (case answer t req of Inl e \<Rightarrow> Inl (NodeError e) | Inr r \<Rightarrow> Inr r))"

text \<open>All requests but the two that fan out have the same body.\<close>

definition pool_call :: "(target \<Rightarrow> request \<Rightarrow> 'e + 'r) \<Rightarrow> pool \<Rightarrow> request \<Rightarrow> pool \<times> ('e call_error + 'r)" where
  "pool_call answer p req = (case selectNode p of (p', t) \<Rightarrow> (p', target_call answer t req))"

definition allTargets :: "pool \<Rightarrow> target list" where
  "allTargets p = map Primary [0..<length (p_nodes p)] @ map SendOnly [0..<length (p_sendonlys p)]"

text \<open>The calls made are listed with the goroutines first, in the order they are started, and the call of the main
  node last; the answers of the goroutines are dropped.\<close>

definition BatchCallContextAll ::
  "(target \<Rightarrow> request \<Rightarrow> 'e + 'r) \<Rightarrow> pool \<Rightarrow> pool \<times> target list \<times> ('e call_error + 'r)" where
  "BatchCallContextAll answer p =
    (case selectNode p of (p', main) \<Rightarrow>
       (p', filter (\<lambda>n. n \<noteq> main) (allTargets p) @ [main], target_call answer main BatchCallContext))"

text \<open>\<open>notStopped\<close> is what \<^verbatim>\<open>IfNotStopped\<close> finds at the time of each send.\<close>

definition pool_SendTransaction ::
  "(target \<Rightarrow> request \<Rightarrow> 'e + 'r) \<Rightarrow> (target \<Rightarrow> bool) \<Rightarrow> pool \<Rightarrow> pool \<times> target list \<times> ('e call_error + 'r)" where
  "pool_SendTransaction answer notStopped p =
    (case selectNode p of (p', main) \<Rightarrow>
       (p', filter (\<lambda>n. n \<noteq> main \<and> notStopped n) (allTargets p) @ [main], target_call answer main SendTransaction))"

text \<open>The answers of a secondary send that are expected and not reported.\<close>

record send_error =
  nonceTooLow :: bool
  alreadyMined :: bool
  alreadyInMempool :: bool

definition secondary_send_ok :: "send_error option \<Rightarrow> bool" where
  "secondary_send_ok err = (case err of None \<Rightarrow> True | Some e \<Rightarrow> nonceTooLow e \<or> alreadyMined e \<or> alreadyInMempool e)"

section \<open>Dialling and closing\<close>

datatype pool_svc = SvcNode nat | SvcSendonly nat

datatype 'e dial_error = NoNodes int | NodeChain nat | SendonlyChain nat | DialStart "'e list"

record dial =
  d_multi :: "pool_svc multi_start"
  d_wired :: "nat list"               \<comment> \<open>nodes given the pool's nLiveNodes\<close>
  d_calls :: "pool_svc svc_call list"

definition dial_init :: dial where
  "dial_init = \<lparr>d_multi = new_multi_start, d_wired = [], d_calls = []\<rparr>"

definition dial_start :: "(pool_svc \<Rightarrow> 'e option) \<Rightarrow> (pool_svc \<Rightarrow> 'e option) \<Rightarrow> pool_svc \<Rightarrow> dial \<Rightarrow> dial \<times> 'e dial_error option" where
  "dial_start st cl s d = (case ms_Start st cl (d_multi d) [s] of
     (m, err, calls) \<Rightarrow> (d\<lparr>d_multi := m, d_calls := d_calls d @ calls\<rparr>, if err \<noteq> [] then Some (DialStart err) else None))"

fun dialNodes :: "(pool_svc \<Rightarrow> 'e option) \<Rightarrow> (pool_svc \<Rightarrow> 'e option) \<Rightarrow> int \<Rightarrow> nat \<Rightarrow> pool_node list \<Rightarrow> dial \<Rightarrow> dial \<times> 'e dial_error option" where
  "dialNodes st cl c i [] d = (d, None)"
| "dialNodes st cl c i (n # ns) d =
    (if pn_chainID n \<noteq> c then (d, Some (NodeChain i))
     else (let d1 = (if pn_raw n then d\<lparr>d_wired := d_wired d @ [i]\<rparr> else d)
           in case dial_start st cl (SvcNode i) d1 of
                (d2, Some e) \<Rightarrow> (d2, Some e)
              | (d2, None) \<Rightarrow> dialNodes st cl c (i + 1) ns d2))"

fun dialSendonlys :: "(pool_svc \<Rightarrow> 'e option) \<Rightarrow> (pool_svc \<Rightarrow> 'e option) \<Rightarrow> int \<Rightarrow> nat \<Rightarrow> int list \<Rightarrow> dial \<Rightarrow> dial \<times> 'e dial_error option" where
  "dialSendonlys st cl c i [] d = (d, None)"
| "dialSendonlys st cl c i (s # ss) d =
    (if s \<noteq> c then (d, Some (SendonlyChain i))
     else (case dial_start st cl (SvcSendonly i) d of
             (d2, Some e) \<Rightarrow> (d2, Some e)
           | (d2, None) \<Rightarrow> dialSendonlys st cl c (i + 1) ss d2))"

text \<open>The function \<^verbatim>\<open>Dial\<close> hands to \<^verbatim>\<open>StartOnce\<close>; the last component is whether the reporting loop is started.\<close>

definition pool_Dial :: "(pool_svc \<Rightarrow> 'e option) \<Rightarrow> (pool_svc \<Rightarrow> 'e option) \<Rightarrow> pool \<Rightarrow> dial \<times> 'e dial_error option \<times> bool" where
  "pool_Dial st cl p =
    (if p_nodes p = [] then (dial_init, Some (NoNodes (p_chainID p)), False)
     else (case dialNodes st cl (p_chainID p) 0 (p_nodes p) dial_init of
             (d, Some e) \<Rightarrow> (d, Some e, False)
           | (d, None) \<Rightarrow>
               (case dialSendonlys st cl (p_chainID p) 0 (p_sendonlys p) d of
                  (d', Some e) \<Rightarrow> (d', Some e, False)
                | (d', None) \<Rightarrow> (d', None, True))))"

text \<open>The function \<^verbatim>\<open>Close\<close> hands to \<^verbatim>\<open>StopOnce\<close>.\<close>

definition pool_Close :: "(pool_svc \<Rightarrow> 'e option) \<Rightarrow> pool \<Rightarrow> pool_svc list \<Rightarrow> 'e list \<times> pool_svc svc_call list" where
  "pool_Close cl p order =
    mc_Close cl (map SvcNode [0..<length (p_nodes p)] @ map SvcSendonly [0..<length (p_sendonlys p)]) order"

section \<open>The report\<close>

datatype report_level = ReportTrace | ReportCritical | ReportError

definition pool_report :: "pool_node list \<Rightarrow> (NodeState \<times> nat) list \<times> report_level" where
  "pool_report nodes =
    (let (total, dead, counts) = fold (\<lambda>n (t, dd, m). (t + 1, if pn_state n \<noteq> NodeStateAlive then dd + 1 else dd,
           m(pn_state n := m (pn_state n) + 1))) nodes (0::nat, 0::nat, (\<lambda>_. 0))
     in (map (\<lambda>s. (s, counts s)) allNodeStates,
         if total = dead then ReportCritical else if dead > 0 then ReportError else ReportTrace))"


section \<open>Selection\<close>

lemma highest_sticky:
  assumes "highest_ok nodes s" and "lastBestNode s = Some l" and "is_alive nodes l"
    and "\<And>i. is_alive nodes i \<Longrightarrow> pn_latest (nodes ! i) \<le> pn_latest (nodes ! l)"
  shows "snd (highest_Select nodes s) = Some l"
proof -
  have "fold (betterNode nodes (Some l)) [0..<length nodes] (Some l, pn_latest (nodes ! l)) = (Some l, pn_latest (nodes ! l))"
    using assms(4) by (intro fold_sticky) auto
  then show ?thesis using assms(2,3) by (simp add: highest_Select_def is_alive_def Let_def)
qed

text \<open>C30: the highest-head strategy returns no node exactly when none is alive; the node it returns is alive and no alive
  node is higher; it stays with the node it returned last as long as that one is alive and none is strictly higher.\<close>
theorem highest_head_selects_best:
  assumes "highest_ok nodes s"
  shows "(snd (highest_Select nodes s) = None \<longleftrightarrow> nLiveNodes nodes = 0) \<and>
    (\<forall>b. snd (highest_Select nodes s) = Some b \<longrightarrow>
       is_alive nodes b \<and> (\<forall>i. is_alive nodes i \<longrightarrow> pn_latest (nodes ! i) \<le> pn_latest (nodes ! b))) \<and>
    (\<forall>l. lastBestNode s = Some l \<and> is_alive nodes l \<and> (\<forall>i. is_alive nodes i \<longrightarrow> pn_latest (nodes ! i) \<le> pn_latest (nodes ! l))
       \<longrightarrow> snd (highest_Select nodes s) = Some l)"
proof (intro conjI allI impI)
  show "snd (highest_Select nodes s) = None \<longleftrightarrow> nLiveNodes nodes = 0"
    using highest.selects_iff_live [OF assms] by auto
  fix b assume b: "snd (highest_Select nodes s) = Some b"
  then show "is_alive nodes b" by (rule highest.select_alive [OF assms])
  obtain h where h: "best_of nodes {0..<length nodes} (Some b, h)" using highest_best [OF assms] b by auto
  fix i assume i: "is_alive nodes i"
  then have "i \<in> {0..<length nodes}" by (simp add: is_alive_def)
  with h i show "pn_latest (nodes ! i) \<le> pn_latest (nodes ! b)" by (simp add: best_of_def)
qed (use highest_sticky [OF assms] in blast)

definition three_nodes :: "pool_node list" where
  "three_nodes = [\<lparr>pn_chainID = 1, pn_raw = True, pn_state = NodeStateOutOfSync, pn_latest = 9\<rparr>,
    \<lparr>pn_chainID = 1, pn_raw = True, pn_state = NodeStateAlive, pn_latest = 7\<rparr>,
    \<lparr>pn_chainID = 1, pn_raw = True, pn_state = NodeStateAlive, pn_latest = 7\<rparr>]"

theorem highest_head_selects_best_witness:
  "highest_ok three_nodes \<lparr>lastBestNode = Some 2\<rparr> \<and> snd (highest_Select three_nodes \<lparr>lastBestNode = Some 2\<rparr>) = Some 2 \<and>
   nLiveNodes three_nodes = 2 \<and> snd (highest_Select three_nodes NewHighestHeadNodeSelector) = Some 1"
proof -
  have ok: "highest_ok three_nodes \<lparr>lastBestNode = Some 2\<rparr>"
    by (simp add: highest_ok_def heads_known_def three_nodes_def min_i64_def)
  have "is_alive three_nodes 2 \<and> (\<forall>i. is_alive three_nodes i \<longrightarrow> pn_latest (three_nodes ! i) \<le> pn_latest (three_nodes ! 2))"
    by (auto simp: is_alive_def three_nodes_def less_Suc_eq numeral_3_eq_3 numeral_2_eq_2)
  then show ?thesis using ok highest_head_selects_best [OF ok]
    by (simp add: three_nodes_def nLiveNodes_def highest_Select_def NewHighestHeadNodeSelector_def betterNode_def min_i64_def Let_def upt_rec)
qed

text \<open>round robin is fair: as many selections as there are live nodes return each live node exactly once (as long
  as the 32-bit counter does not pass its end on the way), and with no live node nothing is selected and the counter stays.\<close>
theorem round_robin_fair:
  assumes "robin_ok nodes s" and "unat (roundRobinCount s) + nLiveNodes nodes \<le> 2 ^ 32"
  shows "distinct (robin_picks nodes (nLiveNodes nodes) s) \<and>
    set (robin_picks nodes (nLiveNodes nodes) s) = Some ` {i. is_alive nodes i} \<and>
    (nLiveNodes nodes = 0 \<longrightarrow> roundRobin_Select nodes s = (s, None))"
proof (cases "liveNodes nodes = []")
  case True
  then have n: "nLiveNodes nodes = 0" using length_liveNodes [of nodes] by simp
  then have "{i. is_alive nodes i} = {}" by (simp add: nLiveNodes_zero)
  then show ?thesis using True by (simp add: n roundRobin_Select_def)
next
  case False
  define k where "k = length (liveNodes nodes)"
  define c where "c = unat (roundRobinCount s)"
  have k: "nLiveNodes nodes = k" and pos: "0 < k" using False unfolding length_liveNodes [symmetric] by (simp_all add: k_def)
  have picks: "robin_picks nodes k s = map (\<lambda>j. Some (liveNodes nodes ! ((c + j) mod k))) [0..<k]"
    using assms False unfolding k c_def by (simp add: robin_picks_nth k_def)
  have nth: "nth (liveNodes nodes) ` {0..<k} = set (liveNodes nodes)" by (simp add: k_def nth_image)
  have "set (robin_picks nodes k s) = Some ` nth (liveNodes nodes) ` ((\<lambda>j. (c + j) mod k) ` {0..<k})"
    by (simp add: picks image_image)
  also have "\<dots> = Some ` {i. is_alive nodes i}" unfolding mod_cover [OF pos] nth by (auto simp: liveNodes_alive)
  finally have s: "set (robin_picks nodes k s) = Some ` {i. is_alive nodes i}" .
  have "{i. is_alive nodes i} = set (liveNodes nodes)" by (auto simp: liveNodes_alive)
  then have "card (Some ` {i. is_alive nodes i}) = k"
    by (simp add: card_image distinct_card distinct_liveNodes k_def)
  then have "distinct (robin_picks nodes k s)" unfolding s [symmetric] by (intro card_distinct) (simp add: picks)
  then show ?thesis using s pos by (simp add: k)
qed

theorem round_robin_fair_witness:
  "robin_picks three_nodes 2 \<lparr>roundRobinCount = 5\<rparr> = [Some 2, Some 1] \<and> distinct (robin_picks three_nodes 2 \<lparr>roundRobinCount = 5\<rparr>)"
proof -
  have "robin_ok three_nodes \<lparr>roundRobinCount = 5\<rparr>" by (simp add: robin_ok_def three_nodes_def)
  moreover have n: "nLiveNodes three_nodes = 2" by (simp add: three_nodes_def nLiveNodes_def)
  ultimately have "distinct (robin_picks three_nodes 2 \<lparr>roundRobinCount = 5\<rparr>)"
    using round_robin_fair [of three_nodes "\<lparr>roundRobinCount = 5\<rparr>"] by simp
  moreover have "robin_picks three_nodes (Suc (Suc 0)) \<lparr>roundRobinCount = 5\<rparr> = [Some 2, Some 1]"
    by (simp add: three_nodes_def roundRobin_Select_def liveNodes_def Let_def upt_rec)
  ultimately show ?thesis by (simp only: numeral_2_eq_2)
qed

section \<open>Requests and the fan-out\<close>

lemma selectNode_live:
  assumes "pool_sel_ok (p_nodes p) (p_selector p)" and "selectNode p = (p', t)"
  shows "(case t of Primary i \<Rightarrow> is_alive (p_nodes p) i | SendOnly _ \<Rightarrow> False | ErroringNode c \<Rightarrow> c = p_chainID p \<and> nLiveNodes (p_nodes p) = 0)
    \<and> pool_sel_ok (p_nodes p') (p_selector p') \<and> p_nodes p' = p_nodes p"
  using assms pool_sel.select_alive [OF assms(1)] pool_sel.select_none [OF assms(1)] pool_sel.select_ok [OF assms(1)]
  by (auto simp: selectNode_def split: prod.splits option.splits)

lemma distinct_allTargets: "distinct (allTargets p)"
  by (auto simp: allTargets_def distinct_map inj_on_def)

lemma filter_out_notin: "x \<notin> set xs \<Longrightarrow> filter (\<lambda>n. n \<noteq> x) xs = xs"
  by (rule filter_True) blast

lemma filter_out_mset: "distinct xs \<Longrightarrow> x \<in> set xs \<Longrightarrow> mset (filter (\<lambda>n. n \<noteq> x) xs @ [x]) = mset xs"
  by (induction xs) (auto simp: filter_out_notin simp del: mset_filter)

text \<open>C17: while the pool is not stopped a transaction reaches every primary and every send-only node exactly once, the
  main node is alive and its answer is the answer of the pool; with no live node they all still get it, and the answer is
  the error that names the chain.\<close>
theorem send_reaches_every_node:
  assumes "pool_sel_ok (p_nodes p) (p_selector p)" and "pool_SendTransaction answer (\<lambda>_. True) p = (p', calls, res)"
  shows "(\<exists>i. is_alive (p_nodes p) i \<and> last calls = Primary i \<and> mset calls = mset (allTargets p) \<and>
        res = (case answer (Primary i) SendTransaction of Inl e \<Rightarrow> Inl (NodeError e) | Inr r \<Rightarrow> Inr r))
    \<or> (nLiveNodes (p_nodes p) = 0 \<and> mset (butlast calls) = mset (allTargets p) \<and> res = Inl (NoLiveNodes (p_chainID p)))"
proof -
  obtain t where sel: "selectNode p = (p', t)"
    and calls: "calls = filter (\<lambda>n. n \<noteq> t) (allTargets p) @ [t]" and res: "res = target_call answer t SendTransaction"
    using assms(2) by (auto simp: pool_SendTransaction_def split: prod.splits)
  show ?thesis
  proof (cases t)
    case (Primary i)
    then have alive: "is_alive (p_nodes p) i" using selectNode_live [OF assms(1) sel] by simp
    then have "t \<in> set (allTargets p)" by (auto simp: allTargets_def Primary is_alive_def)
    then have "mset calls = mset (allTargets p)" unfolding calls by (rule filter_out_mset [OF distinct_allTargets])
    then show ?thesis using alive by (auto simp: calls res Primary target_call_def)
  next
    case (SendOnly j)
    then show ?thesis using selectNode_live [OF assms(1) sel] by simp
  next
    case (ErroringNode c)
    then have "filter (\<lambda>n. n \<noteq> t) (allTargets p) = allTargets p" by (auto simp: filter_id_conv allTargets_def)
    then show ?thesis using selectNode_live [OF assms(1) sel]
      by (simp add: calls res ErroringNode target_call_def erroring_call_def)
  qed
qed

definition three_pool :: pool where
  "three_pool = \<lparr>p_nodes = three_nodes, p_sendonlys = [1], p_chainID = 1, p_selector = SelHighest NewHighestHeadNodeSelector\<rparr>"

theorem send_reaches_every_node_witness:
  "(let (p', calls, res) = pool_SendTransaction (\<lambda>t _. if t = Primary 1 then Inr (5::nat) else Inl ''down'') (\<lambda>_. True) three_pool
    in calls = [Primary 0, Primary 2, SendOnly 0, Primary 1] \<and> res = Inr 5 \<and> mset calls = mset (allTargets three_pool))"
proof -
  let ?a = "\<lambda>t (_::request). if t = Primary 1 then Inr (5::nat) else Inl ''down''"
  obtain p' calls res where r: "pool_SendTransaction ?a (\<lambda>_. True) three_pool = (p', calls, res)" by (metis prod_cases3)
  have ok: "pool_sel_ok (p_nodes three_pool) (p_selector three_pool)"
    by (simp add: pool_sel_ok_def three_pool_def three_nodes_def highest_ok_def heads_known_def min_i64_def NewHighestHeadNodeSelector_def)
  have n: "nLiveNodes (p_nodes three_pool) \<noteq> 0" by (simp add: three_pool_def three_nodes_def nLiveNodes_def)
  have "calls = [Primary 0, Primary 2, SendOnly 0, Primary 1] \<and> res = Inr 5"
    using r by (auto simp: pool_SendTransaction_def selectNode_def pool_Select_def three_pool_def three_nodes_def allTargets_def
        highest_Select_def NewHighestHeadNodeSelector_def betterNode_def min_i64_def Let_def upt_rec target_call_def)
  then show ?thesis using send_reaches_every_node [OF ok r] n unfolding r by auto
qed


section \<open>Dialling\<close>

lemma drop_Cons_nth: "drop i xs = y # ys \<Longrightarrow> y = xs ! i \<and> ys = drop (Suc i) xs"
  by (metis drop_Suc drop_tl list.sel(1,3) nth_via_drop)

definition dial_inv :: "pool_svc list \<Rightarrow> dial \<Rightarrow> bool" where
  "dial_inv ss d \<longleftrightarrow> started (d_multi d) = ss \<and> d_calls d = map CallStart ss"

lemma dial_start_ok:
  "dial_inv ss d \<Longrightarrow> st s = None \<Longrightarrow>
   dial_start st cl s d = (d\<lparr>d_multi := \<lparr>started = ss @ [s]\<rparr>, d_calls := map CallStart (ss @ [s])\<rparr>, None)"
  by (cases "d_multi d") (simp add: dial_inv_def dial_start_def ms_start_one_ok)

lemma dial_start_fail:
  assumes "dial_inv ss d" and "st s = Some e"
  shows "dial_start st cl s d =
    (d\<lparr>d_calls := map CallStart ss @ CallStart s # map CallClose (rev ss)\<rparr>, Some (DialStart (e # List.map_filter cl (rev ss))))"
proof -
  have "ms_Start st cl (d_multi d) [s] = (d_multi d, e # List.map_filter cl (rev ss), CallStart s # map CallClose (rev ss))"
    using ms_Start_fail [of "[]" st s e cl "d_multi d" "[]"] assms by (simp add: dial_inv_def)
  then show ?thesis using assms(1) by (simp add: dial_start_def dial_inv_def)
qed

text \<open>The chain ID of a service, and how dialling the services \<open>full\<close> of the pool of chain \<open>c\<close> fails at \<open>x\<close> after \<open>ps\<close>: a
  wrong chain leaves everything in \<open>ps\<close> started; a start error closes all of it.\<close>

definition svc_chainID :: "pool \<Rightarrow> pool_svc \<Rightarrow> int" where
  "svc_chainID p s = (case s of SvcNode i \<Rightarrow> pn_chainID (p_nodes p ! i) | SvcSendonly i \<Rightarrow> p_sendonlys p ! i)"

definition dial_good :: "(pool_svc \<Rightarrow> 'e option) \<Rightarrow> pool \<Rightarrow> pool_svc \<Rightarrow> bool" where
  "dial_good st p s \<longleftrightarrow> st s = None \<and> svc_chainID p s = p_chainID p"

definition dial_fails ::
  "(pool_svc \<Rightarrow> 'e option) \<Rightarrow> (pool_svc \<Rightarrow> 'e option) \<Rightarrow> pool \<Rightarrow> pool_svc list \<Rightarrow> pool_svc \<Rightarrow> dial \<Rightarrow> 'e dial_error \<Rightarrow> bool" where
  "dial_fails st cl p ps x d err \<longleftrightarrow> (case err of
     NoNodes _ \<Rightarrow> False
   | NodeChain i \<Rightarrow> x = SvcNode i \<and> svc_chainID p x \<noteq> p_chainID p \<and> dial_inv ps d
   | SendonlyChain i \<Rightarrow> x = SvcSendonly i \<and> svc_chainID p x \<noteq> p_chainID p \<and> dial_inv ps d
   | DialStart errs \<Rightarrow> svc_chainID p x = p_chainID p \<and> st x \<noteq> None \<and> errs = the (st x) # List.map_filter cl (rev ps) \<and>
        d_calls d = map CallStart ps @ CallStart x # map CallClose (rev ps))"

definition dial_result ::
  "(pool_svc \<Rightarrow> 'e option) \<Rightarrow> (pool_svc \<Rightarrow> 'e option) \<Rightarrow> pool \<Rightarrow> pool_svc list \<Rightarrow> pool_svc list \<Rightarrow> dial \<times> 'e dial_error option \<Rightarrow> bool" where
  "dial_result st cl p full goal r \<longleftrightarrow> (case snd r of None \<Rightarrow> dial_inv goal (fst r) \<and> (\<forall>s \<in> set goal. dial_good st p s)
     | Some err \<Rightarrow> \<exists>ps x ys. full = ps @ x # ys \<and> (\<forall>s \<in> set ps. dial_good st p s) \<and> dial_fails st cl p ps x (fst r) err)"

lemma dial_resultI_fail:
  "full = ps @ x # ys \<Longrightarrow> \<forall>s \<in> set ps. dial_good st p s \<Longrightarrow> dial_fails st cl p ps x d err \<Longrightarrow>
   dial_result st cl p full goal (d, Some err)"
  by (auto simp: dial_result_def)

lemma dial_result_goal: "snd r = Some e \<Longrightarrow> dial_result st cl p full goal r \<Longrightarrow> dial_result st cl p full goal' r"
  by (simp add: dial_result_def)

lemma dial_inv_wired [simp]: "dial_inv ss (d\<lparr>d_wired := w\<rparr>) = dial_inv ss d"
  by (simp add: dial_inv_def)

lemma dial_start_cases:
  fixes st cl :: "pool_svc \<Rightarrow> 'e option"
  assumes "dial_inv ss d" and "svc_chainID p s = p_chainID p"
  obtains (ok) d2 where "dial_start st cl s d = (d2, None)" "dial_good st p s" "dial_inv (ss @ [s]) d2"
    | (fails) d2 err where "dial_start st cl s d = (d2, Some err)" "dial_fails st cl p ss s d2 err"
proof (cases "st s")
  case None
  note r = dial_start_ok [where st = st and s = s and cl = cl, OF assms(1) None]
  show ?thesis using None assms(2) by (intro ok [OF r]) (simp_all add: dial_inv_def dial_good_def)
next
  case (Some e)
  note r = dial_start_fail [where st = st and s = s and cl = cl, OF assms(1) Some]
  show ?thesis using assms(2) by (intro fails [OF r]) (simp add: dial_fails_def Some)
qed

lemma dialNodes_result:
  "dial_inv ss d \<Longrightarrow> \<forall>s \<in> set ss. dial_good st p s \<Longrightarrow> full = ss @ map SvcNode [i..<i + length ns] @ rest \<Longrightarrow>
   ns = drop i (p_nodes p) \<Longrightarrow>
   dial_result st cl p full (ss @ map SvcNode [i..<i + length ns]) (dialNodes st cl (p_chainID p) i ns d)"
proof (induction ns arbitrary: i d ss)
  case Nil
  then show ?case by (simp add: dial_result_def)
next
  case (Cons n ns)
  have upt: "map SvcNode [i..<i + length (n # ns)] = SvcNode i # map SvcNode [Suc i..<Suc i + length ns]"
    by (simp add: upt_conv_Cons del: upt_Suc)
  have full: "full = ss @ SvcNode i # (map SvcNode [Suc i..<Suc i + length ns] @ rest)" using Cons.prems(3) unfolding upt by simp
  have n: "svc_chainID p (SvcNode i) = pn_chainID n" and ns: "ns = drop (Suc i) (p_nodes p)"
    using drop_Cons_nth [OF Cons.prems(4) [symmetric]] by (simp_all add: svc_chainID_def)
  let ?d = "if pn_raw n then d\<lparr>d_wired := d_wired d @ [i]\<rparr> else d"
  have inv: "dial_inv ss ?d" using Cons.prems by simp
  show ?case
  proof (cases "pn_chainID n = p_chainID p")
    case False
    then show ?thesis using dial_resultI_fail [OF full, of st p cl d "NodeChain i"] Cons.prems(1,2) n by (simp add: dial_fails_def)
  next
    case True
    with n have "svc_chainID p (SvcNode i) = p_chainID p" by simp
    from inv this show ?thesis
    proof (cases rule: dial_start_cases [where st = st and cl = cl])
      case (ok d2)
      have "dial_result st cl p full ((ss @ [SvcNode i]) @ map SvcNode [Suc i..<Suc i + length ns])
          (dialNodes st cl (p_chainID p) (Suc i) ns d2)"
        using ok Cons.prems full ns by (intro Cons.IH) auto
      then show ?thesis unfolding upt using True ok by (simp add: Let_def)
    next
      case (fails d2 err)
      have "dial_result st cl p full (ss @ map SvcNode [i..<i + length (n # ns)]) (d2, Some err)"
        using Cons.prems(1,2) fails by (intro dial_resultI_fail [OF full]) auto
      then show ?thesis using True fails by (simp add: Let_def)
    qed
  qed
qed

lemma dialSendonlys_result:
  "dial_inv ss d \<Longrightarrow> \<forall>s \<in> set ss. dial_good st p s \<Longrightarrow> full = ss @ map SvcSendonly [i..<i + length ns] \<Longrightarrow>
   ns = drop i (p_sendonlys p) \<Longrightarrow> dial_result st cl p full full (dialSendonlys st cl (p_chainID p) i ns d)"
proof (induction ns arbitrary: i d ss)
  case Nil
  then show ?case by (simp add: dial_result_def)
next
  case (Cons n ns)
  have full: "full = ss @ SvcSendonly i # map SvcSendonly [Suc i..<Suc i + length ns]"
    using Cons.prems(3) by (simp add: upt_conv_Cons del: upt_Suc)
  have n: "svc_chainID p (SvcSendonly i) = n" and ns: "ns = drop (Suc i) (p_sendonlys p)"
    using drop_Cons_nth [OF Cons.prems(4) [symmetric]] by (simp_all add: svc_chainID_def)
  show ?case
  proof (cases "n = p_chainID p")
    case False
    then show ?thesis using dial_resultI_fail [OF full, of st p cl d "SendonlyChain i"] Cons.prems(1,2) n by (simp add: dial_fails_def)
  next
    case True
    with n have "svc_chainID p (SvcSendonly i) = p_chainID p" by simp
    from Cons.prems(1) this show ?thesis
    proof (cases rule: dial_start_cases [where st = st and cl = cl])
      case (ok d2)
      have "dial_result st cl p full full (dialSendonlys st cl (p_chainID p) (Suc i) ns d2)"
        using ok Cons.prems full ns by (intro Cons.IH [of "ss @ [SvcSendonly i]"]) auto
      then show ?thesis using True ok by simp
    next
      case (fails d2 err)
      then show ?thesis using True dial_resultI_fail [OF full, of st p cl d2 err] Cons.prems(1,2) by simp
    qed
  qed
qed

definition pool_services :: "pool \<Rightarrow> pool_svc list" where
  "pool_services p = map SvcNode [0..<length (p_nodes p)] @ map SvcSendonly [0..<length (p_sendonlys p)]"


lemma pool_Dial_result:
  assumes "pool_Dial st cl p = (d, err, looping)" and "p_nodes p \<noteq> []"
  shows "dial_result st cl p (pool_services p) (pool_services p) (d, err) \<and> (looping \<longleftrightarrow> err = None)"
proof -
  let ?ns = "map SvcNode [0..<length (p_nodes p)]"
  have inv: "dial_inv [] dial_init" by (simp add: dial_inv_def dial_init_def new_multi_start_def)
  have r1: "dial_result st cl p (pool_services p) ?ns (dialNodes st cl (p_chainID p) 0 (p_nodes p) dial_init)"
    using dialNodes_result [OF inv, of st p "pool_services p" 0 "p_nodes p"] by (simp add: pool_services_def)
  show ?thesis
  proof (cases "snd (dialNodes st cl (p_chainID p) 0 (p_nodes p) dial_init)")
    case (Some e)
    then show ?thesis using dial_result_goal [OF Some r1] assms by (auto simp: pool_Dial_def split: prod.splits)
  next
    case None
    then obtain d1 where d1: "dialNodes st cl (p_chainID p) 0 (p_nodes p) dial_init = (d1, None)" by (metis prod.collapse)
    with r1 have "dial_inv ?ns d1" and "\<forall>s \<in> set ?ns. dial_good st p s" by (simp_all add: dial_result_def)
    then have "dial_result st cl p (pool_services p) (pool_services p) (dialSendonlys st cl (p_chainID p) 0 (p_sendonlys p) d1)"
      by (rule dialSendonlys_result) (simp_all add: pool_services_def)
    then show ?thesis using assms d1 by (auto simp: pool_Dial_def split: prod.splits option.splits)
  qed
qed

text \<open>C31: \<^verbatim>\<open>Dial\<close> succeeds exactly when the pool has a node and every node and send-only node has the pool's chain ID and
  starts, and then each has been started once, in order, and none closed. Otherwise it stops at the first service
  that does not: if that one has another chain ID, the error names it and the ones started before it are left
  running; if it fails to start, everything started before it is closed again, in reverse, and the error carries
  the start error and the close errors.\<close>
theorem Dial_outcome:
  assumes "pool_Dial st cl p = (d, err, looping)"
  shows "(err = None \<longleftrightarrow> p_nodes p \<noteq> [] \<and> (\<forall>s \<in> set (pool_services p). svc_chainID p s = p_chainID p \<and> st s = None))
    \<and> (looping \<longleftrightarrow> err = None)
    \<and> (err = None \<longrightarrow> d_calls d = map CallStart (pool_services p) \<and> running st (d_calls d) {} = set (pool_services p))
    \<and> (p_nodes p = [] \<longrightarrow> err = Some (NoNodes (p_chainID p)) \<and> d_calls d = [])
    \<and> (p_nodes p \<noteq> [] \<and> err \<noteq> None \<longrightarrow> (\<exists>ps x ys. pool_services p = ps @ x # ys \<and>
        (\<forall>s \<in> set ps. svc_chainID p s = p_chainID p \<and> st s = None) \<and>
        (if svc_chainID p x \<noteq> p_chainID p
         then err = Some (case x of SvcNode i \<Rightarrow> NodeChain i | SvcSendonly i \<Rightarrow> SendonlyChain i) \<and>
           d_calls d = map CallStart ps \<and> running st (d_calls d) {} = set ps
         else st x \<noteq> None \<and> err = Some (DialStart (the (st x) # List.map_filter cl (rev ps))) \<and>
           d_calls d = map CallStart ps @ CallStart x # map CallClose (rev ps) \<and> running st (d_calls d) {} = {})))"
proof (cases "p_nodes p = []")
  case True
  then show ?thesis using assms by (auto simp: pool_Dial_def dial_init_def)
next
  case False
  note r = pool_Dial_result [OF assms False]
  show ?thesis
  proof (cases err)
    case None
    then have "dial_inv (pool_services p) d" and good: "\<forall>s \<in> set (pool_services p). dial_good st p s" and looping
      using r by (simp_all add: dial_result_def)
    moreover have "running st (map CallStart (pool_services p)) {} = set (pool_services p)"
      using good by (simp add: dial_good_def)
    ultimately show ?thesis using False None by (auto simp: dial_inv_def dial_good_def)
  next
    case (Some e)
    then obtain ps x ys where s: "pool_services p = ps @ x # ys" and l: "\<not> looping"
      and ok: "\<forall>s \<in> set ps. svc_chainID p s = p_chainID p \<and> st s = None" and f: "dial_fails st cl p ps x d e"
      using r by (auto simp: dial_result_def dial_good_def)
    have closed: "running st (map CallStart ps @ CallStart x # map CallClose (rev ps)) {} = {}" if "st x \<noteq> None"
      using ok that by auto
    have left: "running st (map CallStart ps) {} = set ps" using ok by simp
    have x: "if svc_chainID p x \<noteq> p_chainID p
         then err = Some (case x of SvcNode i \<Rightarrow> NodeChain i | SvcSendonly i \<Rightarrow> SendonlyChain i) \<and>
           d_calls d = map CallStart ps \<and> running st (d_calls d) {} = set ps
         else st x \<noteq> None \<and> err = Some (DialStart (the (st x) # List.map_filter cl (rev ps))) \<and>
           d_calls d = map CallStart ps @ CallStart x # map CallClose (rev ps) \<and> running st (d_calls d) {} = {}"
      using f closed left Some by (cases e) (auto simp: dial_fails_def dial_inv_def)
    have "\<not> (svc_chainID p x = p_chainID p \<and> st x = None)" using x by (auto split: if_splits)
    then have "\<not> (\<forall>s \<in> set (pool_services p). svc_chainID p s = p_chainID p \<and> st s = None)" unfolding s by auto
    moreover have "\<exists>ps x ys. pool_services p = ps @ x # ys \<and>
        (\<forall>s \<in> set ps. svc_chainID p s = p_chainID p \<and> st s = None) \<and>
        (if svc_chainID p x \<noteq> p_chainID p
         then err = Some (case x of SvcNode i \<Rightarrow> NodeChain i | SvcSendonly i \<Rightarrow> SendonlyChain i) \<and>
           d_calls d = map CallStart ps \<and> running st (d_calls d) {} = set ps
         else st x \<noteq> None \<and> err = Some (DialStart (the (st x) # List.map_filter cl (rev ps))) \<and>
           d_calls d = map CallStart ps @ CallStart x # map CallClose (rev ps) \<and> running st (d_calls d) {} = {})"
      using s ok x by blast
    ultimately show ?thesis using False Some l by simp
  qed
qed

definition two_chain_pool :: pool where
  "two_chain_pool = three_pool\<lparr>p_nodes := [three_nodes ! 0, (three_nodes ! 1)\<lparr>pn_chainID := 4\<rparr>]\<rparr>"

theorem Dial_outcome_witness:
  "(let (d, err, looping) = pool_Dial (\<lambda>_. None) (\<lambda>_. None :: nat option) two_chain_pool
    in err = Some (NodeChain 1) \<and> \<not> looping \<and> d_calls d = [CallStart (SvcNode 0)] \<and>
       running (\<lambda>_. None :: nat option) (d_calls d) {} = {SvcNode 0})"
proof -
  obtain d err looping where r: "pool_Dial (\<lambda>_. None) (\<lambda>_. None :: nat option) two_chain_pool = (d, err, looping)" by (metis prod_cases3)
  then have "err = Some (NodeChain 1) \<and> \<not> looping \<and> d_calls d = [CallStart (SvcNode 0)]"
    by (auto simp: pool_Dial_def two_chain_pool_def three_pool_def three_nodes_def dial_start_def dial_init_def new_multi_start_def ms_start_one_def)
  then show ?thesis using Dial_outcome [OF r] unfolding r by auto
qed

end
