(* ===== verification/Pool_Liveness.thy ===== *)
theory Pool_Liveness
  imports Node_Pool
begin

text \<open>
  The nodes of a pool together. \<^verbatim>\<open>Dial\<close> hands every node the pool's \<^verbatim>\<open>nLiveNodes\<close> (\<^verbatim>\<open>pool.go\<close>), and the loops of
  \<^verbatim>\<open>node_lifecycle.go\<close> ask it before they give a node up, so that the last live node is kept. The goroutines of the nodes
  run side by side: between the moment a node reads the count and the moment it leaves, others may do the same.

  A step either begins the handling of an event by one node, at which the node reads the count, or finishes it. The
  parameter \<open>alone\<close> says whether a node begins only while no other one is between its two steps; the code has no lock that
  ensures that. \<open>E\<close> is the set of events that occur. Reading the states of the nodes one after another
  is modelled as one reading; the nodes are not closed.
\<close>

section \<open>The nodes and their steps\<close>

text \<open>A node and, while it handles an event, the event and the count it has read.\<close>

type_synonym running_node = "node \<times> (node_event \<times> nat) option"

definition node_view :: "int \<Rightarrow> running_node \<Rightarrow> pool_node" where
  "node_view chainID r = \<lparr>pn_chainID = chainID, pn_raw = True, pn_state = nd_state (fst r), pn_latest = latestReceivedBlockNumber (fst r)\<rparr>"

definition liveCount :: "running_node list \<Rightarrow> nat" where
  "liveCount rs = nLiveNodes (map (node_view 0) rs)"

definition begin_event :: "nat \<Rightarrow> node_event \<Rightarrow> running_node list \<Rightarrow> running_node list" where
  "begin_event i ev rs = rs[i := (fst (rs ! i), Some (ev, liveCount rs))]"

definition finish_event :: "node_config \<Rightarrow> nat \<Rightarrow> running_node list \<Rightarrow> running_node list option" where
  "finish_event cfg i rs =
    (case snd (rs ! i) of None \<Rightarrow> None
     | Some (ev, k) \<Rightarrow> if possible ev (fst (rs ! i))
         then map_option (\<lambda>n. rs[i := (n, None)]) (loopStep cfg (Some k) ev (fst (rs ! i))) else None)"

inductive pool_step :: "node_config \<Rightarrow> bool \<Rightarrow> node_event set \<Rightarrow> running_node list \<Rightarrow> running_node list \<Rightarrow> bool"
  for cfg alone E where
  begins: "i < length rs \<Longrightarrow> snd (rs ! i) = None \<Longrightarrow> ev \<in> E \<Longrightarrow> (alone \<Longrightarrow> \<forall>r \<in> set rs. snd r = None) \<Longrightarrow>
     pool_step cfg alone E rs (begin_event i ev rs)"
| finishes: "i < length rs \<Longrightarrow> finish_event cfg i rs = Some rs' \<Longrightarrow> pool_step cfg alone E rs rs'"

text \<open>The events that do not break a connection, cut off a subscription or end the context.\<close>

definition connections_hold :: "node_event set" where
  "connections_hold = - {EvHeadsClosed, EvSubError, EvSubscribe False, EvCtxDone}"

definition new_pool :: "nat \<Rightarrow> running_node list" where
  "new_pool m = replicate m (NewNode, None)"

section \<open>One node at a time\<close>

text \<open>A live node that gives up without a broken connection has read at least two live nodes.\<close>

lemma leaving_needs_two:
  assumes "loopStep cfg (Some k) ev n = Some n'" and "node_inv n" and "\<not> ctxDone n" and "ev \<in> connections_hold"
    and "nd_state n = NodeStateAlive" and "nd_state n' \<noteq> NodeStateAlive"
  shows "2 \<le> k"
proof -
  have "loop_state (nd_loop n) = Some NodeStateAlive" using assms(2,3,5) by (simp add: node_inv_def)
  then have "aliveLoop cfg (Some k) ev n = Some n'"
    using assms(1) by (auto simp: loopStep_def split: loop.splits verifier.splits)
  then show ?thesis using assms(4-6)
    by (auto simp: aliveLoop_def declare_defs connections_hold_def Let_def split: loop.splits node_event.splits if_splits NodeState.splits)
qed

lemma loopStep_ctxDone: "loopStep cfg live ev n = Some n' \<Longrightarrow> ctxDone n' = ctxDone n"
  by (auto simp: loop_defs declare_defs Let_def split: loop_splits)

text \<open>While one node at a time handles an event, its reading is up to date.\<close>

definition alone_inv :: "running_node list \<Rightarrow> bool" where
  "alone_inv rs \<longleftrightarrow> (\<forall>r \<in> set rs. node_inv (fst r) \<and> \<not> ctxDone (fst r)) \<and>
     (\<forall>i < length rs. \<forall>ev k. snd (rs ! i) = Some (ev, k) \<longrightarrow> ev \<in> connections_hold \<and> k = liveCount rs \<and>
        (\<forall>j < length rs. j \<noteq> i \<longrightarrow> snd (rs ! j) = None))"

lemma length_filter_update:
  "i < length xs \<Longrightarrow> length (filter P (xs[i := x])) + (if P (xs ! i) then 1 else 0) = length (filter P xs) + (if P x then 1 else 0)"
proof (induction xs arbitrary: i)
  case (Cons a xs)
  then show ?case by (cases i) auto
qed simp

lemma liveCount_filter: "liveCount rs = length (filter (\<lambda>r. nd_state (fst r) = NodeStateAlive) rs)"
  by (simp add: liveCount_def nLiveNodes_def node_view_def filter_map comp_def)

lemma liveCount_update:
  assumes "i < length rs"
  shows "liveCount (rs[i := (n, p)]) + (if nd_state (fst (rs ! i)) = NodeStateAlive then 1 else 0) =
    liveCount rs + (if nd_state n = NodeStateAlive then 1 else 0)"
  using length_filter_update [OF assms, of "\<lambda>r. nd_state (fst r) = NodeStateAlive" "(n, p)"] by (simp add: liveCount_filter)

lemma liveCount_begin: "i < length rs \<Longrightarrow> liveCount (begin_event i ev rs) = liveCount rs"
  using liveCount_update [of i rs "fst (rs ! i)" "Some (ev, liveCount rs)"] by (simp add: begin_event_def)

lemma finish_eventD:
  assumes "finish_event cfg i rs = Some rs'"
  obtains ev k n where "snd (rs ! i) = Some (ev, k)" "possible ev (fst (rs ! i))" "loopStep cfg (Some k) ev (fst (rs ! i)) = Some n"
    "rs' = rs[i := (n, None)]"
  using assms by (auto simp: finish_event_def split: option.splits if_splits)

lemma pool_step_alone:
  assumes "pool_step cfg True connections_hold rs rs'" and inv: "alone_inv rs"
  shows "alone_inv rs' \<and> (0 < liveCount rs \<longrightarrow> 0 < liveCount rs')"
  using assms(1)
proof (cases rule: pool_step.cases)
  case (begins i ev)
  then have "\<forall>j < length rs. snd (rs ! j) = None" by simp
  moreover have "\<forall>r \<in> set rs'. node_inv (fst r) \<and> \<not> ctxDone (fst r)"
    using inv begins(1,2) set_update_subset_insert [of rs i] by (fastforce simp: begin_event_def alone_inv_def)
  ultimately show ?thesis
    using liveCount_begin [OF begins(2)] begins(1,2,4) by (auto simp: alone_inv_def begin_event_def nth_list_update)
next
  case (finishes i)
  from finishes(2) obtain ev k n where f: "snd (rs ! i) = Some (ev, k)" "possible ev (fst (rs ! i))"
    "loopStep cfg (Some k) ev (fst (rs ! i)) = Some n" "rs' = rs[i := (n, None)]" by (rule finish_eventD)
  have ni: "node_inv (fst (rs ! i))" "\<not> ctxDone (fst (rs ! i))" using inv finishes(1) by (auto simp: alone_inv_def)
  have k: "ev \<in> connections_hold" "k = liveCount rs" and others: "\<forall>j < length rs. j \<noteq> i \<longrightarrow> snd (rs ! j) = None"
    using inv finishes(1) f(1) unfolding alone_inv_def by blast+
  have n: "node_inv n" "\<not> ctxDone n" using loopStep_inv [OF f(3,2) ni(1)] loopStep_ctxDone [OF f(3)] ni(2) by simp_all
  have "\<forall>r \<in> set rs'. node_inv (fst r) \<and> \<not> ctxDone (fst r)"
    using inv n set_update_subset_insert [of rs i "(n, None)"] unfolding f(4) alone_inv_def by auto
  moreover have "\<forall>j < length rs'. snd (rs' ! j) = None" using others finishes(1) unfolding f(4) by (auto simp: nth_list_update)
  moreover have "0 < liveCount rs'" if "0 < liveCount rs"
    using liveCount_update [OF finishes(1), of n None] leaving_needs_two [OF f(3) ni k(1)] k(2) that
    unfolding f(4) by (auto split: if_splits)
  ultimately show ?thesis by (simp add: alone_inv_def)
qed

lemma pool_run_alone:
  assumes "(pool_step cfg True connections_hold)\<^sup>*\<^sup>* rs rs'" and "alone_inv rs"
  shows "alone_inv rs' \<and> (0 < liveCount rs \<longrightarrow> 0 < liveCount rs')"
  using assms by (induction rule: rtranclp_induct) (use pool_step_alone in blast)+

lemma new_pool_inv: "alone_inv (new_pool m)"
  by (auto simp: alone_inv_def new_pool_def NewNode_def node_inv_def)

section \<open>Two nodes at a time\<close>

text \<open>A run as a list of actions.\<close>

datatype pool_action = Begin nat node_event | Finish nat

fun pool_run :: "node_config \<Rightarrow> bool \<Rightarrow> pool_action list \<Rightarrow> running_node list \<Rightarrow> running_node list option" where
  "pool_run cfg alone [] rs = Some rs"
| "pool_run cfg alone (Begin i ev # acts) rs =
    (if i < length rs \<and> snd (rs ! i) = None \<and> (alone \<longrightarrow> list_all (\<lambda>r. snd r = None) rs)
     then pool_run cfg alone acts (begin_event i ev rs) else None)"
| "pool_run cfg alone (Finish i # acts) rs =
    (if i < length rs then (case finish_event cfg i rs of None \<Rightarrow> None | Some rs1 \<Rightarrow> pool_run cfg alone acts rs1) else None)"

fun events_of :: "pool_action list \<Rightarrow> node_event set" where
  "events_of [] = {}"
| "events_of (Begin i ev # acts) = insert ev (events_of acts)"
| "events_of (Finish i # acts) = events_of acts"

lemma pool_run_steps: "pool_run cfg alone acts rs = Some rs' \<Longrightarrow> events_of acts \<subseteq> E \<Longrightarrow> (pool_step cfg alone E)\<^sup>*\<^sup>* rs rs'"
proof (induction cfg alone acts rs rule: pool_run.induct)
  case (2 cfg alone i ev acts rs)
  then have "pool_step cfg alone E rs (begin_event i ev rs)" by (intro pool_step.begins) (auto simp: list_all_iff split: if_splits)
  with 2 show ?case by (auto split: if_splits intro: converse_rtranclp_into_rtranclp)
next
  case (3 cfg alone i acts rs)
  then obtain rs1 where r: "i < length rs" "finish_event cfg i rs = Some rs1" "pool_run cfg alone acts rs1 = Some rs'"
    by (auto split: if_splits option.splits)
  then have "pool_step cfg alone E rs rs1" by (intro pool_step.finishes)
  with 3 r show ?case by (auto intro: converse_rtranclp_into_rtranclp)
qed simp

text \<open>Node \<open>i\<close> goes through its start; its handling of each event ends at once.\<close>

definition starts :: "nat \<Rightarrow> pool_action list" where
  "starts i = concat (map (\<lambda>ev. [Begin i ev, Finish i]) [EvDial True, EvRun, EvRun, EvVerify VerifyOk, EvRun, EvSubscribe True])"

definition live_node :: running_node where
  "live_node = (\<lparr>nd_state = NodeStateAlive, latestReceivedBlockNumber = -1, subs = 1, ctxDone = False, nd_loop = AliveRun (-1) 0\<rparr>, None)"

definition stuck_node :: running_node where
  "stuck_node = (\<lparr>nd_state = NodeStateOutOfSync, latestReceivedBlockNumber = -1, subs = 0, ctxDone = False, nd_loop = OutOfSyncEntry (-1)\<rparr>, None)"

lemmas pool_eval = starts_def begin_event_def finish_event_def loop_defs declare_defs possible_def liveCount_filter Let_def

lemma two_nodes_start:
  assumes "0 < NodeNoNewHeadsThreshold cfg"
  shows "(pool_step cfg alone connections_hold)\<^sup>*\<^sup>* (new_pool 2) [live_node, live_node]"
proof (rule pool_run_steps)
  show "pool_run cfg alone (starts 0 @ starts 1) (new_pool 2) = Some [live_node, live_node]"
    using assms by (simp add: pool_eval new_pool_def NewNode_def live_node_def numeral_2_eq_2)
qed (simp add: starts_def connections_hold_def)

lemma two_nodes_leave:
  assumes "0 < NodeNoNewHeadsThreshold cfg"
  shows "(pool_step cfg False connections_hold)\<^sup>*\<^sup>* [live_node, live_node] [stuck_node, stuck_node]"
proof (rule pool_run_steps)
  show "pool_run cfg False [Begin 0 EvNoHeads, Begin 1 EvNoHeads, Finish 0, Finish 1] [live_node, live_node] = Some [stuck_node, stuck_node]"
    using assms by (simp add: pool_eval live_node_def stuck_node_def)
qed (simp add: connections_hold_def)

section \<open>Property\<close>

text \<open>C29: As long as the connections hold and only one node at a time is between reading the count and acting on it, a
  pool with a live node always keeps one, however many nodes it has and whatever they go through. The code does not ensure the
  second: two live nodes that get no heads may both read two, and then both leave, so that no node is live.\<close>
theorem last_live_node_kept:
  "((pool_step cfg True connections_hold)\<^sup>*\<^sup>* (new_pool m) rs \<and> 0 < liveCount rs \<and>
      (pool_step cfg True connections_hold)\<^sup>*\<^sup>* rs rs' \<longrightarrow> 0 < liveCount rs') \<and>
   (0 < NodeNoNewHeadsThreshold cfg \<longrightarrow>
      (\<exists>live dead. (pool_step cfg False connections_hold)\<^sup>*\<^sup>* (new_pool 2) live \<and> liveCount live = 2 \<and>
        (pool_step cfg False connections_hold)\<^sup>*\<^sup>* live dead \<and> liveCount dead = 0))"
proof (intro conjI impI)
  assume *: "(pool_step cfg True connections_hold)\<^sup>*\<^sup>* (new_pool m) rs \<and> 0 < liveCount rs \<and>
      (pool_step cfg True connections_hold)\<^sup>*\<^sup>* rs rs'"
  then have "alone_inv rs" using pool_run_alone new_pool_inv by blast
  with * show "0 < liveCount rs'" using pool_run_alone by blast
next
  assume "0 < NodeNoNewHeadsThreshold cfg"
  note s = two_nodes_start [OF this] two_nodes_leave [OF this]
  have "liveCount [live_node, live_node] = 2" "liveCount [stuck_node, stuck_node] = 0"
    by (simp_all add: liveCount_filter live_node_def stuck_node_def)
  with s show "\<exists>live dead. (pool_step cfg False connections_hold)\<^sup>*\<^sup>* (new_pool 2) live \<and> liveCount live = 2 \<and>
        (pool_step cfg False connections_hold)\<^sup>*\<^sup>* live dead \<and> liveCount dead = 0" by blast
qed

text \<open>One after the other, the second of the two nodes stays.\<close>

theorem last_live_node_kept_witness:
  "\<exists>rs rs'. (pool_step node_cfg0 True connections_hold)\<^sup>*\<^sup>* (new_pool 2) rs \<and> liveCount rs = 2 \<and>
     (pool_step node_cfg0 True connections_hold)\<^sup>*\<^sup>* rs rs' \<and> nd_state (fst (rs' ! 0)) = NodeStateOutOfSync \<and> 0 < liveCount rs'"
proof -
  have c: "0 < NodeNoNewHeadsThreshold node_cfg0" by (simp add: node_cfg0_def)
  have l: "liveCount [live_node, live_node] = 2" by (simp add: liveCount_filter live_node_def)
  note s = two_nodes_start [OF c, of True]
  have r: "(pool_step node_cfg0 True connections_hold)\<^sup>*\<^sup>* [live_node, live_node] [stuck_node, live_node]"
  proof (rule pool_run_steps)
    show "pool_run node_cfg0 True [Begin 0 EvNoHeads, Finish 0, Begin 1 EvNoHeads, Finish 1] [live_node, live_node] =
      Some [stuck_node, live_node]"
      using c by (simp add: pool_eval live_node_def stuck_node_def)
  qed (simp add: connections_hold_def)
  have "0 < liveCount [stuck_node, live_node]"
    using last_live_node_kept [of node_cfg0 2 "[live_node, live_node]" "[stuck_node, live_node]"] s r l by simp
  with s r l show ?thesis by (intro exI [of _ "[live_node, live_node]"] exI [of _ "[stuck_node, live_node]"]) (simp add: stuck_node_def)
qed

end
