(* ===== verification/Log_Pool.thy ===== *)
theory Log_Pool
  imports Go_Prelude
begin

text \<open>
  The log pool of the log broadcaster (\<^verbatim>\<open>core/chains/evm/log/pool.go\<close>): logs received from the
  node, kept by block number and block hash until every subscriber is past its confirmation
  depth. Operations: \<open>addLog\<close>, \<open>getAndDeleteAll\<close>, \<open>getLogsToSend\<close>, \<open>deleteOlderLogs\<close>,
  \<open>removeBlock\<close> and \<open>getNumLogsForBlock\<close>.

  The pool keeps its block numbers in a priority queue of the package
  \<^verbatim>\<open>github.com/theodesp/go-heaps\<close>, which is not part of the repository: its three operations are
  the argument \<open>H\<close> of the model and the locale \<open>min_heap\<close> states their documented contract.
  The pool itself provides the contract \<open>log_store\<close> (a map from log keys to logs), which the
  \<^theory_text>\<open>sublocale\<close> below proves of the code's operations.
\<close>

section \<open>Data\<close>

record eth_log =
  Address :: address
  Topics :: "hash list"
  Data :: "8 word list"
  BlockNumber :: u64
  TxHash :: hash
  TxIndex :: u64
  BlockHash :: hash
  Index :: u64
  Removed :: bool

text \<open>\<^verbatim>\<open>map[uint]map[uint]types.Log\<close>: transaction index, then log index.\<close>

type_synonym tx_logs = "(u64 \<times> (u64 \<times> eth_log) list) list"

record 'h heap_ops =
  hp_new :: 'h
  hp_find_min :: "'h \<Rightarrow> u64 option"
  hp_insert :: "u64 \<Rightarrow> 'h \<Rightarrow> 'h"
  hp_delete_min :: "'h \<Rightarrow> u64 option \<times> 'h"

record 'h log_pool =
  hashesByBlockNumbers :: "u64 \<rightharpoonup> hash list"
  logsByBlockHash :: "hash \<rightharpoonup> tx_logs"
  pool_heap :: 'h

record logsOnBlock =
  lob_BlockNumber :: u64
  lob_Logs :: "eth_log list"

section \<open>Operations\<close>

definition newLogPool :: "'h heap_ops \<Rightarrow> 'h log_pool" where
  "newLogPool H = \<lparr>hashesByBlockNumbers = Map.empty, logsByBlockHash = Map.empty, pool_heap = hp_new H\<rparr>"

definition newLogsOnBlock :: "u64 \<Rightarrow> tx_logs \<Rightarrow> logsOnBlock" where
  "newLogsOnBlock num m =
     \<lparr>lob_BlockNumber = num, lob_Logs = concat (map (\<lambda>(_, txLogs). map snd txLogs) m)\<rparr>"

definition addLog :: "'h heap_ops \<Rightarrow> eth_log \<Rightarrow> 'h log_pool \<Rightarrow> 'h log_pool \<times> bool" where
  "addLog H log p =
    (let n = BlockNumber log; h = BlockHash log;
         hashes = get_or [] (hashesByBlockNumbers p) n;
         txs = get_or [] (logsByBlockHash p) h;
         logs = get_or [] (map_of txs) (TxIndex log);
         mn = hp_find_min H (pool_heap p)
     in (p\<lparr>hashesByBlockNumbers := (hashesByBlockNumbers p)(n \<mapsto> set_add h hashes),
           logsByBlockHash := (logsByBlockHash p)
             (h \<mapsto> AList.update (TxIndex log) (AList.update (Index log) log logs) txs),
           pool_heap := hp_insert H n (pool_heap p)\<rparr>,
         mn = None \<or> n < the mn))"

text \<open>
  The loop of \<open>getAndDeleteAll\<close> pops the queue until it is empty; whether it ends is a
  property of the queue, so the loop is partial. \<open>drainBlock\<close> is its inner loop over the
  hashes of one block number.
\<close>

fun drainBlock :: "u64 \<Rightarrow> hash list \<Rightarrow> (hash \<rightharpoonup> tx_logs) \<Rightarrow> logsOnBlock list \<Rightarrow>
    (hash \<rightharpoonup> tx_logs) \<times> logsOnBlock list" where
  "drainBlock n [] m acc = (m, acc)"
| "drainBlock n (h # hs) m acc =
     drainBlock n hs (m(h := None)) (acc @ [newLogsOnBlock n (get_or [] m h)])"

definition drainStep :: "u64 \<Rightarrow> 'h log_pool \<Rightarrow> logsOnBlock list \<Rightarrow> int \<Rightarrow> int \<Rightarrow>
    'h log_pool \<times> logsOnBlock list \<times> int \<times> int" where
  "drainStep n p acc lowest highest =
    (case hashesByBlockNumbers p n of
       None \<Rightarrow> (p, acc, lowest, highest)
     | Some hashes \<Rightarrow>
         (let (m, acc') = drainBlock n hashes (logsByBlockHash p) acc
          in (p\<lparr>logsByBlockHash := m, hashesByBlockNumbers := (hashesByBlockNumbers p)(n := None)\<rparr>,
              acc',
              if to_i64 n < lowest then to_i64 n else lowest,
              if to_i64 n > highest then to_i64 n else highest)))"

partial_function (option) drainLoop :: "'h heap_ops \<Rightarrow> 'h log_pool \<Rightarrow> logsOnBlock list \<Rightarrow> int \<Rightarrow> int \<Rightarrow>
    ('h log_pool \<times> logsOnBlock list \<times> int \<times> int) option" where
  "drainLoop H p acc lowest highest =
    (case hp_delete_min H (pool_heap p) of
       (None, h') \<Rightarrow> Some (p\<lparr>pool_heap := h'\<rparr>, acc, lowest, highest)
     | (Some n, h') \<Rightarrow>
         (case drainStep n (p\<lparr>pool_heap := h'\<rparr>) acc lowest highest of
            (p', acc', lowest', highest') \<Rightarrow> drainLoop H p' acc' lowest' highest'))"

definition getAndDeleteAll :: "'h heap_ops \<Rightarrow> 'h log_pool \<Rightarrow>
    ('h log_pool \<times> logsOnBlock list \<times> int \<times> int) option" where
  "getAndDeleteAll H p = drainLoop H p [] max_i64 0"

text \<open>The loop \<^verbatim>\<open>for num := min; num <= latest; num++\<close>, with \<^verbatim>\<open>num\<close> an \<^verbatim>\<open>int64\<close>.\<close>

partial_function (option) sendLoop :: "'h log_pool \<Rightarrow> int \<Rightarrow> int \<Rightarrow> logsOnBlock list \<Rightarrow>
    logsOnBlock list option" where
  "sendLoop p num latest acc =
    (if num \<le> latest then
       sendLoop p (wrap64 (num + 1)) latest
         (acc @ map (\<lambda>h. newLogsOnBlock (to_u64 num) (get_or [] (logsByBlockHash p) h))
                  (get_or [] (hashesByBlockNumbers p) (to_u64 num)))
     else Some acc)"

definition getLogsToSend :: "'h heap_ops \<Rightarrow> int \<Rightarrow> 'h log_pool \<Rightarrow> (logsOnBlock list \<times> int) option" where
  "getLogsToSend H latest p =
    (case hp_find_min H (pool_heap p) of
       None \<Rightarrow> Some ([], 0)
     | Some mn \<Rightarrow> map_option (\<lambda>logs. (logs, to_i64 mn)) (sendLoop p (to_i64 mn) latest []))"

definition deleteBlocksOf :: "u64 \<Rightarrow> 'h log_pool \<Rightarrow> 'h log_pool" where
  "deleteBlocksOf n p = p\<lparr>
     logsByBlockHash := fold (\<lambda>h m. m(h := None)) (get_or [] (hashesByBlockNumbers p) n) (logsByBlockHash p),
     hashesByBlockNumbers := (hashesByBlockNumbers p)(n := None)\<rparr>"

partial_function (option) deleteOlderLogs :: "'h heap_ops \<Rightarrow> int \<Rightarrow> 'h log_pool \<Rightarrow>
    ('h log_pool \<times> int option) option" where
  "deleteOlderLogs H keptDepth p =
    (case hp_find_min H (pool_heap p) of
       None \<Rightarrow> Some (p, None)
     | Some n \<Rightarrow>
         (if to_i64 n \<ge> keptDepth then Some (p, Some (to_i64 n))
          else deleteOlderLogs H keptDepth
                 (deleteBlocksOf n (p\<lparr>pool_heap := snd (hp_delete_min H (pool_heap p))\<rparr>))))"

definition removeBlock :: "hash \<Rightarrow> u64 \<Rightarrow> 'h log_pool \<Rightarrow> 'h log_pool" where
  "removeBlock h n p =
    (let m = (logsByBlockHash p)(h := None);
         hm = (case hashesByBlockNumbers p n of
                 None \<Rightarrow> hashesByBlockNumbers p
               | Some hs \<Rightarrow> (hashesByBlockNumbers p)(n \<mapsto> removeAll h hs));
         hm' = (if get_or [] hm n = [] then hm(n := None) else hm)
     in p\<lparr>logsByBlockHash := m, hashesByBlockNumbers := hm'\<rparr>)"

definition getNumLogsForBlock :: "hash \<Rightarrow> 'h log_pool \<Rightarrow> nat" where
  "getNumLogsForBlock h p =
     sum_list (map (\<lambda>(_, txLogs). length txLogs) (get_or [] (logsByBlockHash p) h))"

section \<open>The contract of the pool and of the queue below it\<close>

text \<open>
  Abstractly the pool is a finite map from log keys (block hash, transaction index, log
  index) to logs. \<open>pool_inv\<close> says how the two maps and the queue of the code agree.
\<close>

type_synonym log_key = "hash \<times> u64 \<times> u64"

definition log_key :: "eth_log \<Rightarrow> log_key" where
  "log_key l = (BlockHash l, TxIndex l, Index l)"

definition pool_abs :: "'h log_pool \<Rightarrow> log_key \<Rightarrow> eth_log option" where
  "pool_abs p = (\<lambda>(h, t, i). Option.bind (logsByBlockHash p h) (\<lambda>m. Option.bind (map_of m t) (\<lambda>ls. map_of ls i)))"

definition tx_logs_wf :: "tx_logs \<Rightarrow> bool" where
  "tx_logs_wf m \<longleftrightarrow> distinct (map fst m) \<and> (\<forall>(t, ls) \<in> set m. distinct (map fst ls))"

definition pool_inv :: "('h \<Rightarrow> u64 multiset) \<Rightarrow> 'h log_pool \<Rightarrow> bool" where
  "pool_inv elems p \<longleftrightarrow>
    (\<forall>n hs. hashesByBlockNumbers p n = Some hs \<longrightarrow> distinct hs \<and> n \<in># elems (pool_heap p)) \<and>
    (\<forall>n hs h. hashesByBlockNumbers p n = Some hs \<longrightarrow> h \<in> set hs \<longrightarrow>
       (\<exists>l \<in> ran (pool_abs p). BlockHash l = h \<and> BlockNumber l = n)) \<and>
    (\<forall>k l. pool_abs p k = Some l \<longrightarrow> k = log_key l \<and>
       (\<exists>hs. hashesByBlockNumbers p (BlockNumber l) = Some hs \<and> BlockHash l \<in> set hs)) \<and>
    (\<forall>l \<in> ran (pool_abs p). \<forall>l' \<in> ran (pool_abs p). BlockHash l = BlockHash l' \<longrightarrow> BlockNumber l = BlockNumber l') \<and>
    (\<forall>h m. logsByBlockHash p h = Some m \<longrightarrow> tx_logs_wf m) \<and>
    (\<forall>n \<in># elems (pool_heap p). small64 n)"

text \<open>
  A log may be added when its block number is a valid height and agrees with the logs of the
  same block that are already there (a block hash determines the block's number).
\<close>

definition log_fits :: "(log_key \<rightharpoonup> eth_log) \<Rightarrow> eth_log \<Rightarrow> bool" where
  "log_fits A log \<longleftrightarrow> small64 (BlockNumber log) \<and>
     (\<forall>l \<in> ran A. BlockHash l = BlockHash log \<longrightarrow> BlockNumber l = BlockNumber log)"

definition sent_logs :: "logsOnBlock list \<Rightarrow> eth_log set" where
  "sent_logs bs = (\<Union>b \<in> set bs. set (lob_Logs b))"

text \<open>The contract of the min-heap of the package go-heaps, with the multiset of its items.\<close>

locale min_heap =
  fixes H :: "'h heap_ops" and elems :: "'h \<Rightarrow> u64 multiset"
  assumes elems_new: "elems (hp_new H) = {#}"
    and find_min: "hp_find_min H q = (if elems q = {#} then None else Some (Min_mset (elems q)))"
    and elems_insert: "elems (hp_insert H x q) = add_mset x (elems q)"
    and delete_min: "fst (hp_delete_min H q) = (if elems q = {#} then None else Some (Min_mset (elems q)))"
    and elems_delete_min: "elems (snd (hp_delete_min H q)) =
        (if elems q = {#} then {#} else elems q - {#Min_mset (elems q)#})"

text \<open>
  The contract the broadcaster relies on: adding, removing by block, removing below a height,
  reading up to a height and draining act on the map of logs as their names say, return
  (the loops end), and keep the invariant.
\<close>

locale log_store =
  fixes abs :: "'p \<Rightarrow> log_key \<rightharpoonup> eth_log"
    and inv :: "'p \<Rightarrow> bool"
    and empty :: 'p
    and add :: "eth_log \<Rightarrow> 'p \<Rightarrow> 'p \<times> bool"
    and to_send :: "int \<Rightarrow> 'p \<Rightarrow> (logsOnBlock list \<times> int) option"
    and delete_older :: "int \<Rightarrow> 'p \<Rightarrow> ('p \<times> int option) option"
    and remove_block :: "hash \<Rightarrow> u64 \<Rightarrow> 'p \<Rightarrow> 'p"
    and drain :: "'p \<Rightarrow> ('p \<times> logsOnBlock list \<times> int \<times> int) option"
  assumes inv_empty: "inv empty" and abs_empty: "abs empty = Map.empty"
    and inv_add: "inv p \<Longrightarrow> log_fits (abs p) l \<Longrightarrow> inv (fst (add l p))"
    and abs_add: "inv p \<Longrightarrow> log_fits (abs p) l \<Longrightarrow> abs (fst (add l p)) = (abs p)(log_key l \<mapsto> l)"
    and to_send: "inv p \<Longrightarrow> is_i64 n \<Longrightarrow> n < max_i64 \<Longrightarrow>
        \<exists>bs mn. to_send n p = Some (bs, mn) \<and> sent_logs bs = {l \<in> ran (abs p). to_i64 (BlockNumber l) \<le> n}"
    and delete_older: "inv p \<Longrightarrow> \<exists>p' mn. delete_older k p = Some (p', mn) \<and> inv p' \<and>
        abs p' = (\<lambda>x. case abs p x of None \<Rightarrow> None | Some l \<Rightarrow> if k \<le> to_i64 (BlockNumber l) then Some l else None)"
    and inv_remove_block: "inv p \<Longrightarrow> (\<forall>l \<in> ran (abs p). BlockHash l = h \<longrightarrow> BlockNumber l = bn) \<Longrightarrow> inv (remove_block h bn p)"
    and abs_remove_block: "inv p \<Longrightarrow> abs (remove_block h bn p) = (\<lambda>(h', t, i). if h' = h then None else abs p (h', t, i))"
    and drain: "inv p \<Longrightarrow> \<exists>p' bs lo hi. drain p = Some (p', bs, lo, hi) \<and> inv p' \<and> abs p' = Map.empty \<and>
        sent_logs bs = ran (abs p)"
begin

text \<open>
  One round of the broadcaster on a new head of height \<open>n\<close>: read the logs up to \<open>n\<close>, then drop
  those below the kept depth. No log is lost unseen, and none below the kept depth is held.
\<close>

lemma round_keeps_or_sends:
  assumes "inv p" and "is_i64 n" and "n < max_i64" and "k \<le> n + 1"
    and "to_send n p = Some (bs, mn)" and "delete_older k p = Some (p', mn')"
  shows "ran (abs p) \<subseteq> sent_logs bs \<union> ran (abs p')"
    and "\<forall>l \<in> ran (abs p'). k \<le> to_i64 (BlockNumber l)"
proof -
  have sent: "sent_logs bs = {l \<in> ran (abs p). to_i64 (BlockNumber l) \<le> n}"
    using to_send [OF assms(1-3)] assms(5) by auto
  have kept: "abs p' = (\<lambda>x. case abs p x of None \<Rightarrow> None | Some l \<Rightarrow> if k \<le> to_i64 (BlockNumber l) then Some l else None)"
    using delete_older [OF assms(1), of k] assms(6) by auto
  show "\<forall>l \<in> ran (abs p'). k \<le> to_i64 (BlockNumber l)"
    by (auto simp: kept ran_def split: option.splits if_splits)
  show "ran (abs p) \<subseteq> sent_logs bs \<union> ran (abs p')"
  proof
    fix l assume "l \<in> ran (abs p)"
    then obtain x where x: "abs p x = Some l" by (auto simp: ran_def)
    show "l \<in> sent_logs bs \<union> ran (abs p')"
    proof (cases "to_i64 (BlockNumber l) \<le> n")
      case True
      with sent \<open>l \<in> ran (abs p)\<close> show ?thesis by simp
    next
      case False
      with x assms(4) have "abs p' x = Some l" by (simp add: kept)
      then show ?thesis by (simp add: ranI)
    qed
  qed
qed

end

section \<open>The pool's operations on the map of logs\<close>

lemma pool_invD:
  assumes "pool_inv elems p"
  shows "hashesByBlockNumbers p n = Some hs \<Longrightarrow> distinct hs"
    and "hashesByBlockNumbers p n = Some hs \<Longrightarrow> n \<in># elems (pool_heap p)"
    and "hashesByBlockNumbers p n = Some hs \<Longrightarrow> h \<in> set hs \<Longrightarrow>
           \<exists>l \<in> ran (pool_abs p). BlockHash l = h \<and> BlockNumber l = n"
    and "pool_abs p k = Some l \<Longrightarrow> k = log_key l"
    and "pool_abs p k = Some l \<Longrightarrow> \<exists>hs. hashesByBlockNumbers p (BlockNumber l) = Some hs \<and> BlockHash l \<in> set hs"
    and "l \<in> ran (pool_abs p) \<Longrightarrow> l' \<in> ran (pool_abs p) \<Longrightarrow> BlockHash l = BlockHash l' \<Longrightarrow> BlockNumber l = BlockNumber l'"
    and "logsByBlockHash p h = Some m \<Longrightarrow> tx_logs_wf m"
    and "n \<in># elems (pool_heap p) \<Longrightarrow> small64 n"
  using assms unfolding pool_inv_def by blast+

lemma pool_abs_addLog: "pool_abs (fst (addLog H log p)) = (pool_abs p)(log_key log \<mapsto> log)"
  by (auto simp: fun_eq_iff pool_abs_def addLog_def Let_def log_key_def get_or_def split: option.splits)

lemma tx_logs_wf_update:
  assumes "tx_logs_wf m"
  shows "tx_logs_wf (AList.update t (AList.update i l (get_or [] (map_of m) t)) m)"
proof -
  have d: "distinct (map fst m)" using assms by (simp add: tx_logs_wf_def)
  have ls: "distinct (map fst (get_or [] (map_of m) t))"
    using assms by (auto simp: tx_logs_wf_def get_or_def split: option.split dest!: map_of_SomeD)
  have "distinct (map fst ls')"
    if "(t', ls') \<in> set (AList.update t (AList.update i l (get_or [] (map_of m) t)) m)" for t' ls'
  proof -
    from that d have "map_of (AList.update t (AList.update i l (get_or [] (map_of m) t)) m) t' = Some ls'"
      by (meson distinct_keys_update map_of_is_SomeI)
    then show ?thesis
      using assms ls by (auto simp: tx_logs_wf_def split: if_splits dest!: map_of_SomeD)
  qed
  with d show ?thesis unfolding tx_logs_wf_def by auto
qed

lemma block_logs:
  assumes "pool_inv elems p"
  shows "set (lob_Logs (newLogsOnBlock n (get_or [] (logsByBlockHash p) h))) = {l \<in> ran (pool_abs p). BlockHash l = h}"
proof (cases "logsByBlockHash p h")
  case None
  then show ?thesis
    using pool_invD(4) [OF assms] by (fastforce simp: newLogsOnBlock_def ran_def pool_abs_def log_key_def)
next
  case (Some m)
  with pool_invD(7) [OF assms] have wf: "tx_logs_wf m" by blast
  have eq: "(\<exists>t ls i. (t, ls) \<in> set m \<and> (i, l) \<in> set ls) \<longleftrightarrow> (\<exists>t i. pool_abs p (h, t, i) = Some l)" for l
    using wf Some
    by (fastforce simp: tx_logs_wf_def pool_abs_def bind_eq_Some_conv in_set_map_of [symmetric] dest: map_of_SomeD)
  have "set (lob_Logs (newLogsOnBlock n m)) = {l. \<exists>t ls i. (t, ls) \<in> set m \<and> (i, l) \<in> set ls}"
    by (force simp: newLogsOnBlock_def)
  also have "\<dots> = {l \<in> ran (pool_abs p). BlockHash l = h}"
    unfolding eq using pool_invD(4) [OF assms] by (fastforce simp: ran_def log_key_def)
  finally show ?thesis using Some by simp
qed

text \<open>Every removal takes out all the logs of some block hashes.\<close>

lemma pool_remove:
  assumes inv: "pool_inv elems p"
    and logs: "logsByBlockHash p' = (\<lambda>h. if h \<in> S then None else logsByBlockHash p h)"
    and hashes: "\<And>n hs'. hashesByBlockNumbers p' n = Some hs' \<Longrightarrow> \<exists>hs. hashesByBlockNumbers p n = Some hs \<and>
                   set hs' = set hs - S \<and> distinct hs' \<and> n \<in># elems (pool_heap p')"
    and kept: "\<And>n hs. hashesByBlockNumbers p n = Some hs \<Longrightarrow> \<not> set hs \<subseteq> S \<Longrightarrow> hashesByBlockNumbers p' n \<noteq> None"
    and small: "\<And>n. n \<in># elems (pool_heap p') \<Longrightarrow> small64 n"
  shows "pool_abs p' = (\<lambda>(h, t, i). if h \<in> S then None else pool_abs p (h, t, i))"
    and "pool_inv elems p'"
proof -
  show abs: "pool_abs p' = (\<lambda>(h, t, i). if h \<in> S then None else pool_abs p (h, t, i))"
    by (auto simp: fun_eq_iff pool_abs_def logs)
  have ran: "l \<in> ran (pool_abs p') \<longleftrightarrow> l \<in> ran (pool_abs p) \<and> BlockHash l \<notin> S" for l
  proof
    assume "l \<in> ran (pool_abs p')"
    then obtain h t i where "pool_abs p' (h, t, i) = Some l" by (auto simp: ran_def)
    then have "h \<notin> S" and l: "pool_abs p (h, t, i) = Some l" by (simp_all add: abs split: if_splits)
    with pool_invD(4) [OF inv l] show "l \<in> ran (pool_abs p) \<and> BlockHash l \<notin> S" by (auto simp: log_key_def ranI)
  next
    assume "l \<in> ran (pool_abs p) \<and> BlockHash l \<notin> S"
    then obtain h t i where l: "pool_abs p (h, t, i) = Some l" and "BlockHash l \<notin> S" by (auto simp: ran_def)
    with pool_invD(4) [OF inv l] have "pool_abs p' (h, t, i) = Some l" by (simp add: abs log_key_def)
    then show "l \<in> ran (pool_abs p')" by (rule ranI)
  qed
  show "pool_inv elems p'"
    unfolding pool_inv_def
  proof (intro conjI allI ballI impI)
    fix n hs h assume "hashesByBlockNumbers p' n = Some hs"
    from hashes [OF this] obtain hs0 where hs0: "hashesByBlockNumbers p n = Some hs0"
      "set hs = set hs0 - S" "distinct hs" "n \<in># elems (pool_heap p')" by blast
    then show "distinct hs" and "n \<in># elems (pool_heap p')" by simp_all
    assume "h \<in> set hs"
    with hs0 pool_invD(3) [OF inv hs0(1), of h] show "\<exists>l \<in> ran (pool_abs p'). BlockHash l = h \<and> BlockNumber l = n"
      by (auto simp: ran)
  next
    fix k l assume "pool_abs p' k = Some l"
    then have l: "pool_abs p k = Some l" and "fst k \<notin> S"
      by (auto simp: abs split: prod.splits if_splits)
    with pool_invD(4) [OF inv l] have S: "BlockHash l \<notin> S" by (simp add: log_key_def)
    from l show "k = log_key l" by (rule pool_invD(4) [OF inv])
    from pool_invD(5) [OF inv l] obtain hs where
      hs: "hashesByBlockNumbers p (BlockNumber l) = Some hs" "BlockHash l \<in> set hs" by blast
    with S kept obtain hs' where hs': "hashesByBlockNumbers p' (BlockNumber l) = Some hs'" by blast
    from hashes [OF hs'] hs S have "BlockHash l \<in> set hs'" by auto
    with hs' show "\<exists>hs. hashesByBlockNumbers p' (BlockNumber l) = Some hs \<and> BlockHash l \<in> set hs" by blast
  next
    fix l l' assume "l \<in> ran (pool_abs p')" and "l' \<in> ran (pool_abs p')" and eq: "BlockHash l = BlockHash l'"
    then have "l \<in> ran (pool_abs p)" and "l' \<in> ran (pool_abs p)" unfolding ran by simp_all
    then show "BlockNumber l = BlockNumber l'" using eq by (rule pool_invD(6) [OF inv])
  next
    fix h m assume "logsByBlockHash p' h = Some m"
    then show "tx_logs_wf m" using pool_invD(7) [OF inv] by (auto simp: logs split: if_splits)
  qed (rule small)
qed

text \<open>Within the invariant a block hash is listed under one number only.\<close>

lemma hash_one_number:
  assumes "pool_inv elems p" and "hashesByBlockNumbers p n = Some hs" and "h \<in> set hs"
    and "pool_abs p k = Some l" and "BlockHash l = h"
  shows "BlockNumber l = n"
proof -
  from pool_invD(3) [OF assms(1-3)] obtain l' where
    "l' \<in> ran (pool_abs p)" "BlockHash l' = h" "BlockNumber l' = n" by blast
  with pool_invD(6) [OF assms(1), of l l'] assms(4,5) show ?thesis by (simp add: ranI)
qed

lemma hashes_disjoint:
  assumes "pool_inv elems p" and "hashesByBlockNumbers p n = Some hs" and "hashesByBlockNumbers p n' = Some hs'"
    and "h \<in> set hs" and "h \<in> set hs'"
  shows "n = n'"
proof -
  from pool_invD(3) [OF assms(1,3,5)] obtain l where "l \<in> ran (pool_abs p)" "BlockHash l = h" "BlockNumber l = n'" by blast
  then show ?thesis using hash_one_number [OF assms(1,2,4)] by (auto simp: ran_def)
qed

lemma ran_filter:
  "A' = (\<lambda>x. case A x of None \<Rightarrow> None | Some l \<Rightarrow> if P l then Some l else None) \<Longrightarrow> ran A' = {l \<in> ran A. P l}"
  by (auto simp: ran_def split: option.splits if_splits)

lemma ran_filter_not:
  "A' = (\<lambda>x. case A x of None \<Rightarrow> None | Some l \<Rightarrow> if P l then None else Some l) \<Longrightarrow> ran A' = {l \<in> ran A. \<not> P l}"
  by (auto simp: ran_def split: option.splits if_splits)

lemma snd_addLog: "snd (addLog H l p) =
    (case hp_find_min H (pool_heap p) of None \<Rightarrow> True | Some mn \<Rightarrow> BlockNumber l < mn)"
  by (simp add: addLog_def Let_def split: option.split)

lemma fold_forget: "fold (\<lambda>h m. m(h := None)) hs m = (\<lambda>h. if h \<in> set hs then None else m h)"
  by (induction hs arbitrary: m) (auto simp: fun_eq_iff)

lemma drainBlock_eq:
  "distinct hs \<Longrightarrow> drainBlock n hs m acc =
     (fold (\<lambda>h m. m(h := None)) hs m, acc @ map (\<lambda>h. newLogsOnBlock n (get_or [] m h)) hs)"
  by (induction hs arbitrary: m acc) (auto simp: get_or_def)

lemma drainStep_state: "pool_inv elems (p\<lparr>pool_heap := q\<rparr>) \<Longrightarrow> fst (drainStep n p acc lo hi) = deleteBlocksOf n p"
  using pool_invD(1) [of elems "p\<lparr>pool_heap := q\<rparr>" n]
  by (cases p) (auto simp: drainStep_def deleteBlocksOf_def drainBlock_eq fun_upd_idem split: option.splits)

lemma pool_abs_heap [simp]: "pool_abs (p\<lparr>pool_heap := q\<rparr>) = pool_abs p"
  by (simp add: pool_abs_def fun_eq_iff)

lemma pool_inv_heap:
  "elems q = elems (pool_heap p) \<Longrightarrow> pool_inv elems (p\<lparr>pool_heap := q\<rparr>) = pool_inv elems p"
  by (simp add: pool_inv_def)

lemma pool_heap_deleteBlocksOf [simp]: "pool_heap (deleteBlocksOf n p) = pool_heap p"
  by (simp add: deleteBlocksOf_def)

lemma deleteBlocksOf:
  assumes inv: "pool_inv elems p" and q: "elems q = elems (pool_heap p) - {#n#}"
  shows "pool_inv elems (deleteBlocksOf n (p\<lparr>pool_heap := q\<rparr>))"
    and "pool_abs (deleteBlocksOf n (p\<lparr>pool_heap := q\<rparr>)) =
      (\<lambda>k. case pool_abs p k of None \<Rightarrow> None | Some l \<Rightarrow> if BlockNumber l = n then None else Some l)"
proof -
  let ?S = "set (get_or [] (hashesByBlockNumbers p) n)"
  let ?p' = "deleteBlocksOf n (p\<lparr>pool_heap := q\<rparr>)"
  have logs: "logsByBlockHash ?p' = (\<lambda>h. if h \<in> ?S then None else logsByBlockHash p h)"
    by (simp add: deleteBlocksOf_def fold_forget)
  have hashes: "\<exists>hs. hashesByBlockNumbers p n' = Some hs \<and> set hs' = set hs - ?S \<and> distinct hs' \<and> n' \<in># elems (pool_heap ?p')"
    if "hashesByBlockNumbers ?p' n' = Some hs'" for n' hs'
  proof -
    from that have ne: "n' \<noteq> n" and hs': "hashesByBlockNumbers p n' = Some hs'"
      by (auto simp: deleteBlocksOf_def split: if_splits)
    have "set hs' \<inter> ?S = {}"
    proof (cases "hashesByBlockNumbers p n")
      case (Some hs)
      with hashes_disjoint [OF inv hs' Some] ne show ?thesis by auto
    qed simp
    moreover have "n' \<in># elems q"
      using pool_invD(2) [OF inv hs'] ne q by (simp add: in_diff_count)
    ultimately show ?thesis using hs' pool_invD(1) [OF inv hs'] by auto
  qed
  have kept: "hashesByBlockNumbers ?p' n' \<noteq> None" if "hashesByBlockNumbers p n' = Some hs" and "\<not> set hs \<subseteq> ?S" for n' hs
    using that by (auto simp: deleteBlocksOf_def)
  have small: "small64 n'" if "n' \<in># elems (pool_heap ?p')" for n'
    using that pool_invD(8) [OF inv] q by (auto dest: in_diffD)
  show "pool_inv elems ?p'" by (rule pool_remove(2) [OF inv logs hashes kept small])
  have "pool_abs ?p' = (\<lambda>(h, t, i). if h \<in> ?S then None else pool_abs p (h, t, i))"
    by (rule pool_remove(1) [OF inv logs hashes kept small])
  moreover have "fst k \<in> ?S \<longleftrightarrow> BlockNumber l = n" if l: "pool_abs p k = Some l" for k l
  proof -
    have k: "fst k = BlockHash l" using pool_invD(4) [OF inv l] by (simp add: log_key_def)
    from pool_invD(5) [OF inv l] obtain hs where
      "hashesByBlockNumbers p (BlockNumber l) = Some hs" "BlockHash l \<in> set hs" by blast
    moreover have "BlockNumber l = n" if "hashesByBlockNumbers p n = Some hs'" "BlockHash l \<in> set hs'" for hs'
      using hash_one_number [OF inv that l] by simp
    ultimately show ?thesis by (cases "hashesByBlockNumbers p n") (auto simp: k)
  qed
  ultimately show "pool_abs ?p' = (\<lambda>k. case pool_abs p k of None \<Rightarrow> None | Some l \<Rightarrow> if BlockNumber l = n then None else Some l)"
    by (auto simp: fun_eq_iff split: option.splits)
qed

lemma pool_inv_removeBlock:
  assumes inv: "pool_inv elems p" and num: "\<forall>l \<in> ran (pool_abs p). BlockHash l = h \<longrightarrow> BlockNumber l = n"
  shows "pool_inv elems (removeBlock h n p)"
proof -
  let ?p' = "removeBlock h n p"
  have logs: "logsByBlockHash ?p' = (\<lambda>h'. if h' \<in> {h} then None else logsByBlockHash p h')"
    by (auto simp: removeBlock_def Let_def)
  have other: "h \<notin> set hs" if "hashesByBlockNumbers p n' = Some hs" "n' \<noteq> n" for n' hs
    using pool_invD(3) [OF inv that(1), of h] num that(2) by auto
  have hashes: "\<exists>hs. hashesByBlockNumbers p n' = Some hs \<and> set hs' = set hs - {h} \<and> distinct hs' \<and> n' \<in># elems (pool_heap ?p')"
    if "hashesByBlockNumbers ?p' n' = Some hs'" for n' hs'
  proof (cases "n' = n")
    case True
    with that obtain hs where hs: "hashesByBlockNumbers p n = Some hs" and "hs' = removeAll h hs"
      by (auto simp: removeBlock_def Let_def get_or_def split: if_splits option.splits)
    with True pool_invD(1,2) [OF inv hs] show ?thesis by (simp add: distinct_removeAll removeBlock_def Let_def)
  next
    case False
    with that have hs: "hashesByBlockNumbers p n' = Some hs'"
      by (auto simp: removeBlock_def Let_def get_or_def split: if_splits option.splits)
    with other [OF hs False] pool_invD(1,2) [OF inv hs] show ?thesis by (simp add: removeBlock_def Let_def)
  qed
  have kept: "hashesByBlockNumbers ?p' n' \<noteq> None" if "hashesByBlockNumbers p n' = Some hs" and "\<not> set hs \<subseteq> {h}" for n' hs
  proof -
    from that(2) have "removeAll h hs \<noteq> []" by (metis Diff_eq_empty_iff set_removeAll set_empty)
    with that(1) show ?thesis
      by (cases "n' = n") (simp_all add: removeBlock_def Let_def get_or_def split: option.split)
  qed
  have small: "small64 n'" if "n' \<in># elems (pool_heap ?p')" for n'
    using that pool_invD(8) [OF inv] by (simp add: removeBlock_def Let_def)
  show ?thesis by (rule pool_remove(2) [OF inv logs hashes kept small])
qed

lemma pool_abs_removeBlock: "pool_abs (removeBlock h n p) = (\<lambda>(h', t, i). if h' = h then None else pool_abs p (h', t, i))"
  by (auto simp: removeBlock_def pool_abs_def Let_def fun_eq_iff)

text \<open>The sending loop, closed: it visits every height from \<open>num\<close> to \<open>latest\<close> once.\<close>

lemma sendLoop_eq:
  assumes "is_i64 latest" and "latest < max_i64" and "min_i64 \<le> num"
  shows "sendLoop p num latest acc = Some (acc @ concat (map (\<lambda>i.
     map (\<lambda>h. newLogsOnBlock (to_u64 i) (get_or [] (logsByBlockHash p) h))
       (get_or [] (hashesByBlockNumbers p) (to_u64 i))) [num..latest]))"
  using assms(3)
proof (induction "nat (latest + 1 - num)" arbitrary: num acc)
  case 0
  then show ?case by (simp add: sendLoop.simps [of p num])
next
  case (Suc d)
  then have le: "num \<le> latest" by simp
  with Suc.prems assms(2) have w: "wrap64 (num + 1) = num + 1" by (simp add: is_i64_def)
  have "d = nat (latest + 1 - (num + 1))" and "min_i64 \<le> num + 1" using Suc by simp_all
  from Suc.hyps(1) [OF this] show ?case
    using le by (subst sendLoop.simps) (simp add: w upto_rec1)
qed

section \<open>The pool provides the log store\<close>

context min_heap
begin

lemma pool_inv_new: "pool_inv elems (newLogPool H)"
  by (simp add: pool_inv_def newLogPool_def elems_new pool_abs_def ran_def)

lemma pool_abs_new: "pool_abs (newLogPool H) = Map.empty"
  by (simp add: newLogPool_def pool_abs_def fun_eq_iff)

lemma find_min_le:
  assumes "n \<in># elems q"
  shows "\<exists>mn. hp_find_min H q = Some mn \<and> mn \<in># elems q \<and> mn \<le> n"
  using assms find_min [of q] by (auto intro: Min_in)

lemma pool_inv_addLog:
  assumes inv: "pool_inv elems p" and fits: "log_fits (pool_abs p) l"
  shows "pool_inv elems (fst (addLog H l p))"
proof -
  let ?p' = "fst (addLog H l p)"
  let ?n = "BlockNumber l"
  have abs: "pool_abs ?p' = (pool_abs p)(log_key l \<mapsto> l)" by (rule pool_abs_addLog)
  have heap: "elems (pool_heap ?p') = add_mset ?n (elems (pool_heap p))"
    by (simp add: addLog_def Let_def elems_insert)
  have hashes: "hashesByBlockNumbers ?p' =
      (hashesByBlockNumbers p)(?n \<mapsto> set_add (BlockHash l) (get_or [] (hashesByBlockNumbers p) ?n))"
    by (simp add: addLog_def Let_def)
  have logs: "logsByBlockHash ?p' = (logsByBlockHash p)(BlockHash l \<mapsto> AList.update (TxIndex l)
      (AList.update (Index l) l (get_or [] (map_of (get_or [] (logsByBlockHash p) (BlockHash l))) (TxIndex l)))
      (get_or [] (logsByBlockHash p) (BlockHash l)))"
    by (simp add: addLog_def Let_def)
  have ran_sub: "ran (pool_abs ?p') \<subseteq> insert l (ran (pool_abs p))"
    by (auto simp: abs ran_def)
  have l_ran: "l \<in> ran (pool_abs ?p')" by (auto simp: abs intro: ranI)
  have same: "BlockNumber x = ?n" if "x \<in> ran (pool_abs p)" "BlockHash x = BlockHash l" for x
    using that fits by (simp add: log_fits_def)
  have old: "\<exists>y \<in> ran (pool_abs ?p'). BlockHash y = BlockHash x \<and> BlockNumber y = BlockNumber x"
    if x: "x \<in> ran (pool_abs p)" for x
  proof (cases "log_key x = log_key l")
    case True
    with same [OF x] l_ran show ?thesis by (auto simp: log_key_def)
  next
    case False
    from x obtain k where k: "pool_abs p k = Some x" by (auto simp: ran_def)
    with pool_invD(4) [OF inv k] False have "pool_abs ?p' k = Some x" by (simp add: abs)
    then show ?thesis using ranI by fast
  qed
  show ?thesis
    unfolding pool_inv_def
  proof (intro conjI allI ballI impI)
    fix n hs h assume hs: "hashesByBlockNumbers ?p' n = Some hs"
    show "distinct hs"
      using hs pool_invD(1) [OF inv] by (auto simp: hashes get_or_def split: if_splits option.splits)
    show "n \<in># elems (pool_heap ?p')"
      using hs pool_invD(2) [OF inv] by (auto simp: hashes heap split: if_splits)
    assume h: "h \<in> set hs"
    show "\<exists>x \<in> ran (pool_abs ?p'). BlockHash x = h \<and> BlockNumber x = n"
    proof (cases "n = ?n \<and> h = BlockHash l")
      case True
      with l_ran show ?thesis by auto
    next
      case False
      with hs h obtain hs0 where "hashesByBlockNumbers p n = Some hs0" "h \<in> set hs0"
        by (auto simp: hashes get_or_def split: if_splits option.splits)
      from pool_invD(3) [OF inv this] old show ?thesis by blast
    qed
  next
    fix k x assume x: "pool_abs ?p' k = Some x"
    show "k = log_key x"
      using x pool_invD(4) [OF inv] by (auto simp: abs split: if_splits)
    have "x = l \<or> pool_abs p k = Some x" using x by (auto simp: abs split: if_splits)
    then show "\<exists>hs. hashesByBlockNumbers ?p' (BlockNumber x) = Some hs \<and> BlockHash x \<in> set hs"
    proof
      assume "pool_abs p k = Some x"
      from pool_invD(5) [OF inv this] show ?thesis by (auto simp: hashes)
    qed (simp add: hashes)
  next
    fix x y assume xy: "x \<in> ran (pool_abs ?p')" "y \<in> ran (pool_abs ?p')" and eq: "BlockHash x = BlockHash y"
    from xy ran_sub have "x = l \<or> x \<in> ran (pool_abs p)" and "y = l \<or> y \<in> ran (pool_abs p)" by auto
    then show "BlockNumber x = BlockNumber y"
      using same [of x] same [of y] eq pool_invD(6) [OF inv, of x y] by metis
  next
    fix h m assume m: "logsByBlockHash ?p' h = Some m"
    show "tx_logs_wf m"
    proof (cases "h = BlockHash l")
      case True
      have "tx_logs_wf (get_or [] (logsByBlockHash p) h)"
        using pool_invD(7) [OF inv] by (cases "logsByBlockHash p h") (simp_all add: tx_logs_wf_def)
      from tx_logs_wf_update [OF this, of "TxIndex l" "Index l" l] show ?thesis using m True by (auto simp: logs)
    next
      case False
      with m pool_invD(7) [OF inv] show ?thesis by (simp add: logs)
    qed
  next
    fix n assume "n \<in># elems (pool_heap ?p')"
    then show "small64 n" using fits pool_invD(8) [OF inv] by (auto simp: heap log_fits_def)
  qed
qed

lemma getLogsToSend_spec:
  assumes inv: "pool_inv elems p" and n: "is_i64 n" "n < max_i64"
  shows "\<exists>bs mn. getLogsToSend H n p = Some (bs, mn) \<and>
    sent_logs bs = {l \<in> ran (pool_abs p). to_i64 (BlockNumber l) \<le> n}"
proof (cases "elems (pool_heap p) = {#}")
  case True
  with pool_invD(2,5) [OF inv] have "ran (pool_abs p) = {}" by (fastforce simp: ran_def)
  with True show ?thesis by (simp add: getLogsToSend_def find_min sent_logs_def)
next
  case False
  define mn where "mn = Min_mset (elems (pool_heap p))"
  define bs where "bs = concat (map (\<lambda>i. map (\<lambda>h. newLogsOnBlock (to_u64 i) (get_or [] (logsByBlockHash p) h))
     (get_or [] (hashesByBlockNumbers p) (to_u64 i))) [to_i64 mn..n])"
  have "getLogsToSend H n p = Some (bs, to_i64 mn)"
    using sendLoop_eq [OF n, of "to_i64 mn" p "[]"] to_i64_range [of mn] False
    by (simp add: getLogsToSend_def find_min mn_def bs_def is_i64_def)
  moreover have "l \<in> sent_logs bs \<longleftrightarrow> l \<in> ran (pool_abs p) \<and> to_i64 (BlockNumber l) \<le> n" for l
  proof -
    have "l \<in> sent_logs bs \<longleftrightarrow> (\<exists>i \<in> {to_i64 mn..n}. BlockHash l \<in> set (get_or [] (hashesByBlockNumbers p) (to_u64 i))) \<and>
        l \<in> ran (pool_abs p)"
      unfolding sent_logs_def bs_def by (auto simp: block_logs [OF inv])
    also have "\<dots> \<longleftrightarrow> l \<in> ran (pool_abs p) \<and> to_i64 (BlockNumber l) \<le> n"
    proof (intro iffI conjI; elim conjE bexE)
      fix i assume i: "i \<in> {to_i64 mn..n}" "BlockHash l \<in> set (get_or [] (hashesByBlockNumbers p) (to_u64 i))"
        and l: "l \<in> ran (pool_abs p)"
      from i(2) obtain hs where hs: "hashesByBlockNumbers p (to_u64 i) = Some hs" "BlockHash l \<in> set hs"
        by (auto simp: in_get_or)
      from l obtain k where "pool_abs p k = Some l" by (auto simp: ran_def)
      from hash_one_number [OF inv hs this] have "BlockNumber l = to_u64 i" by simp
      moreover have "is_i64 i" using i(1) n to_i64_range [of mn] by (simp add: is_i64_def)
      ultimately show "to_i64 (BlockNumber l) \<le> n" using i(1) by simp
    next
      assume l: "l \<in> ran (pool_abs p)" and le: "to_i64 (BlockNumber l) \<le> n"
      then obtain k where "pool_abs p k = Some l" by (auto simp: ran_def)
      from pool_invD(5) [OF inv this] obtain hs where
        hs: "hashesByBlockNumbers p (BlockNumber l) = Some hs" "BlockHash l \<in> set hs" by blast
      have inq: "BlockNumber l \<in># elems (pool_heap p)" by (rule pool_invD(2) [OF inv hs(1)])
      then have "mn \<le> BlockNumber l" and "mn \<in># elems (pool_heap p)"
        using False by (auto simp: mn_def intro: Min_in)
      with inq pool_invD(8) [OF inv] have "to_i64 mn \<le> to_i64 (BlockNumber l)" by (simp add: to_i64_le_iff)
      with le hs show "\<exists>i \<in> {to_i64 mn..n}. BlockHash l \<in> set (get_or [] (hashesByBlockNumbers p) (to_u64 i))"
        by (intro bexI [of _ "to_i64 (BlockNumber l)"]) auto
    qed
    finally show ?thesis .
  qed
  ultimately show ?thesis by blast
qed

lemma deleteOlderLogs_spec:
  "pool_inv elems p \<Longrightarrow> \<exists>p' mn. deleteOlderLogs H k p = Some (p', mn) \<and> pool_inv elems p' \<and>
     pool_abs p' = (\<lambda>x. case pool_abs p x of None \<Rightarrow> None
        | Some l \<Rightarrow> if k \<le> to_i64 (BlockNumber l) then Some l else None)"
proof (induction "size (elems (pool_heap p))" arbitrary: p)
  case 0
  then have "elems (pool_heap p) = {#}" by simp
  moreover from this pool_invD(2,5) [OF 0(2)] have "pool_abs p = Map.empty" by (fastforce simp: fun_eq_iff)
  ultimately show ?case using 0 by (simp add: deleteOlderLogs.simps [of H k p] find_min fun_eq_iff)
next
  case (Suc c)
  let ?q = "pool_heap p"
  define n where "n = Min_mset (elems ?q)"
  from Suc.hyps(2) have ne: "elems ?q \<noteq> {#}" by auto
  then have n_in: "n \<in># elems ?q" by (simp add: n_def)
  have fm: "hp_find_min H ?q = Some n" using ne by (simp add: find_min n_def)
  show ?case
  proof (cases "k \<le> to_i64 n")
    case True
    have "k \<le> to_i64 (BlockNumber l)" if "pool_abs p x = Some l" for x l
    proof -
      from pool_invD(5) [OF Suc.prems that] pool_invD(2) [OF Suc.prems] have l: "BlockNumber l \<in># elems ?q" by blast
      then have "n \<le> BlockNumber l" using ne by (simp add: n_def)
      with l n_in pool_invD(8) [OF Suc.prems] have "to_i64 n \<le> to_i64 (BlockNumber l)" by (simp add: to_i64_le_iff)
      with True show ?thesis by simp
    qed
    then show ?thesis using True Suc.prems by (auto simp: deleteOlderLogs.simps [of H k p] fm fun_eq_iff split: option.split)
  next
    case False
    let ?q' = "snd (hp_delete_min H ?q)"
    let ?p' = "deleteBlocksOf n (p\<lparr>pool_heap := ?q'\<rparr>)"
    have q': "elems ?q' = elems ?q - {#n#}" using ne by (simp add: elems_delete_min n_def)
    have inv': "pool_inv elems ?p'" by (rule deleteBlocksOf(1) [OF Suc.prems q'])
    have abs': "pool_abs ?p' = (\<lambda>x. case pool_abs p x of None \<Rightarrow> None | Some l \<Rightarrow> if BlockNumber l = n then None else Some l)"
      by (rule deleteBlocksOf(2) [OF Suc.prems q'])
    have "c = size (elems (pool_heap ?p'))"
      using Suc.hyps(2) n_in by (simp add: q' size_Diff_singleton)
    from Suc.hyps(1) [OF this inv'] False show ?thesis
      by (auto simp: deleteOlderLogs.simps [of H k p] fm abs' fun_eq_iff split: option.split)
  qed
qed

lemma drainLoop_spec:
  "pool_inv elems p \<Longrightarrow> \<exists>p' bs lo' hi'. drainLoop H p acc lo hi = Some (p', bs, lo', hi') \<and> pool_inv elems p' \<and>
     pool_abs p' = Map.empty \<and> sent_logs bs = sent_logs acc \<union> ran (pool_abs p)"
proof (induction "size (elems (pool_heap p))" arbitrary: p acc lo hi)
  case 0
  then have e: "elems (pool_heap p) = {#}" by simp
  moreover from this pool_invD(2,5) [OF 0(2)] have abs: "pool_abs p = Map.empty" by (fastforce simp: fun_eq_iff)
  moreover obtain q' where q': "hp_delete_min H (pool_heap p) = (None, q')" "elems q' = {#}"
    using delete_min [of "pool_heap p"] elems_delete_min [of "pool_heap p"] e
    by (metis prod.collapse)
  moreover have "pool_inv elems (p\<lparr>pool_heap := q'\<rparr>)" using 0(2) e q' by (simp add: pool_inv_heap)
  ultimately show ?case by (simp add: drainLoop.simps [of H p])
next
  case (Suc c)
  let ?q = "pool_heap p"
  define n where "n = Min_mset (elems ?q)"
  from Suc.hyps(2) have ne: "elems ?q \<noteq> {#}" by auto
  then have n_in: "n \<in># elems ?q" by (simp add: n_def)
  obtain q' where dm: "hp_delete_min H ?q = (Some n, q')" and q': "elems q' = elems ?q - {#n#}"
    using delete_min [of ?q] elems_delete_min [of ?q] ne unfolding n_def by (metis prod.collapse)
  let ?p1 = "p\<lparr>pool_heap := q'\<rparr>"
  let ?p' = "deleteBlocksOf n ?p1"
  obtain p2 acc' lo' hi' where step: "drainStep n ?p1 acc lo hi = (p2, acc', lo', hi')"
    by (cases "drainStep n ?p1 acc lo hi") auto
  have p2: "p2 = ?p'"
    using drainStep_state [of elems ?q ?p1 n acc lo hi] Suc.prems step by simp
  have inv': "pool_inv elems ?p'" by (rule deleteBlocksOf(1) [OF Suc.prems q'])
  have abs': "pool_abs ?p' = (\<lambda>x. case pool_abs p x of None \<Rightarrow> None | Some l \<Rightarrow> if BlockNumber l = n then None else Some l)"
    by (rule deleteBlocksOf(2) [OF Suc.prems q'])
  have acc': "sent_logs acc' = sent_logs acc \<union> {l \<in> ran (pool_abs p). BlockNumber l = n}"
  proof (cases "hashesByBlockNumbers p n")
    case None
    with pool_invD(5) [OF Suc.prems] have "{l \<in> ran (pool_abs p). BlockNumber l = n} = {}" by (force simp: ran_def)
    with None step show ?thesis unfolding drainStep_def by auto
  next
    case (Some hs)
    have d: "distinct hs" by (rule pool_invD(1) [OF Suc.prems Some])
    have "BlockHash l \<in> set hs \<longleftrightarrow> BlockNumber l = n" if "l \<in> ran (pool_abs p)" for l
    proof -
      from that obtain k where k: "pool_abs p k = Some l" by (auto simp: ran_def)
      show ?thesis using pool_invD(5) [OF Suc.prems k] hash_one_number [OF Suc.prems Some _ k] Some by fastforce
    qed
    moreover have "acc' = acc @ map (\<lambda>h. newLogsOnBlock n (get_or [] (logsByBlockHash p) h)) hs"
      using step Some by (simp add: drainStep_def drainBlock_eq [OF d])
    ultimately show ?thesis by (auto simp: sent_logs_def block_logs [OF Suc.prems])
  qed
  have "c = size (elems (pool_heap ?p'))"
    using Suc.hyps(2) n_in by (simp add: q' size_Diff_singleton)
  from Suc.hyps(1) [OF this inv', of acc' lo' hi'] obtain p3 bs lo3 hi3 where
    "drainLoop H ?p' acc' lo' hi' = Some (p3, bs, lo3, hi3)" "pool_inv elems p3" "pool_abs p3 = Map.empty"
    "sent_logs bs = sent_logs acc' \<union> ran (pool_abs ?p')" by blast
  moreover have "ran (pool_abs p) = {l \<in> ran (pool_abs p). BlockNumber l = n} \<union> ran (pool_abs ?p')"
    using ran_filter_not [OF abs'] by auto
  ultimately show ?case using acc' by (simp add: drainLoop.simps [of H p] dm step p2 Un_assoc)
qed

end

sublocale min_heap \<subseteq> pool: log_store pool_abs "pool_inv elems" "newLogPool H" "addLog H" "getLogsToSend H"
  "deleteOlderLogs H" removeBlock "getAndDeleteAll H"
proof unfold_locales
  fix p :: "'h log_pool" and h bn assume "pool_inv elems p"
  from drainLoop_spec [OF this, of "[]" max_i64 0]
  show "\<exists>p' bs lo hi. getAndDeleteAll H p = Some (p', bs, lo, hi) \<and> pool_inv elems p' \<and> pool_abs p' = Map.empty \<and>
        sent_logs bs = ran (pool_abs p)"
    by (simp add: getAndDeleteAll_def sent_logs_def)
  show "pool_abs (removeBlock h bn p) = (\<lambda>(h', t, i). if h' = h then None else pool_abs p (h', t, i))"
    by (rule pool_abs_removeBlock)
qed (rule pool_inv_new pool_abs_new pool_inv_addLog pool_abs_addLog getLogsToSend_spec deleteOlderLogs_spec
  pool_inv_removeBlock; assumption)+

section \<open>A queue that meets the contract\<close>

text \<open>An unordered list, used where a closed example needs a queue that computes.\<close>

definition list_min :: "u64 list \<Rightarrow> u64 option" where
  "list_min q = (case q of [] \<Rightarrow> None | x # xs \<Rightarrow> Some (fold min xs x))"

definition list_heap :: "u64 list heap_ops" where
  "list_heap = \<lparr>hp_new = [], hp_find_min = list_min, hp_insert = Cons,
     hp_delete_min = (\<lambda>q. (list_min q, case list_min q of None \<Rightarrow> [] | Some m \<Rightarrow> remove1 m q))\<rparr>"

lemma list_min_eq: "list_min q = (if mset q = {#} then None else Some (Min_mset (mset q)))"
  by (cases q) (simp_all add: list_min_def Min.set_eq_fold [symmetric])

interpretation list_queue: min_heap list_heap mset
  by unfold_locales (auto simp: list_heap_def list_min_eq)

section \<open>Properties\<close>

text \<open>On a new head of height \<open>n\<close> the broadcaster reads the logs up to \<open>n\<close> and then drops those
  below the kept depth \<open>k\<close>. Both loops end, the logs handed out are exactly the pool's logs of
  blocks up to \<open>n\<close>, the logs left are exactly those of blocks from \<open>k\<close> on, and so no log is
  dropped that was not handed out.\<close>
theorem new_head_round:
  assumes "min_heap H elems" and "pool_inv elems p" and "is_i64 n" and "n < max_i64" and "k \<le> n + 1"
  shows "\<exists>bs mn p' mn'. getLogsToSend H n p = Some (bs, mn) \<and> deleteOlderLogs H k p = Some (p', mn') \<and>
    sent_logs bs = {l \<in> ran (pool_abs p). to_i64 (BlockNumber l) \<le> n} \<and>
    ran (pool_abs p') = {l \<in> ran (pool_abs p). k \<le> to_i64 (BlockNumber l)} \<and>
    ran (pool_abs p) \<subseteq> sent_logs bs \<union> ran (pool_abs p') \<and> pool_inv elems p'"
proof -
  note pool = min_heap.getLogsToSend_spec [OF assms(1-4)] min_heap.deleteOlderLogs_spec [OF assms(1,2), of k]
  from pool obtain bs mn p' mn' where
    r: "getLogsToSend H n p = Some (bs, mn)" "deleteOlderLogs H k p = Some (p', mn')" and
    sent: "sent_logs bs = {l \<in> ran (pool_abs p). to_i64 (BlockNumber l) \<le> n}" and inv: "pool_inv elems p'" and
    abs: "pool_abs p' = (\<lambda>x. case pool_abs p x of None \<Rightarrow> None | Some l \<Rightarrow> if k \<le> to_i64 (BlockNumber l) then Some l else None)"
    by blast
  from ran_filter [OF abs] r sent inv assms(5) show ?thesis by auto
qed

definition log7 :: eth_log where
  "log7 = \<lparr>Address = 1, Topics = [2], Data = [], BlockNumber = 7, TxHash = 3, TxIndex = 0, BlockHash = 70,
     Index = 4, Removed = False\<rparr>"

lemma log7_small: "small64 (BlockNumber log7)" "to_i64 (BlockNumber log7) = 7"
  by (simp_all add: log7_def small64_def max_i64_def to_i64_def)

lemma pool_with_log7:
  "pool_inv mset (fst (addLog list_heap log7 (newLogPool list_heap)))"
  by (rule list_queue.pool_inv_addLog) (simp_all add: list_queue.pool_inv_new list_queue.pool_abs_new log_fits_def log7_small)

theorem new_head_round_witness:
  "\<exists>bs mn p' mn'. getLogsToSend list_heap 9 (fst (addLog list_heap log7 (newLogPool list_heap))) = Some (bs, mn) \<and>
     deleteOlderLogs list_heap 8 (fst (addLog list_heap log7 (newLogPool list_heap))) = Some (p', mn') \<and>
     sent_logs bs = {log7} \<and> ran (pool_abs p') = {}"
  using new_head_round [OF list_queue.min_heap_axioms pool_with_log7, of 9 8]
  by (auto simp: is_i64_def min_i64_def max_i64_def pool_abs_addLog list_queue.pool_abs_new log7_small)

text \<open>C20: Adding a log stores it under its block hash, transaction index and log index, leaves every
  other log of the pool as it was, and keeps the pool's maps and queue in agreement; the result
  is true exactly when the block number is below every number in the queue.\<close>
theorem addLog_refines_update:
  assumes "min_heap H elems" and "pool_inv elems p" and "log_fits (pool_abs p) l"
  shows "pool_abs (fst (addLog H l p)) = (pool_abs p)(log_key l \<mapsto> l) \<and>
    pool_inv elems (fst (addLog H l p)) \<and>
    snd (addLog H l p) = (\<forall>n \<in># elems (pool_heap p). BlockNumber l < n)"
  using min_heap.pool_inv_addLog [OF assms]
  by (auto simp: pool_abs_addLog snd_addLog min_heap.find_min [OF assms(1)])

theorem addLog_refines_update_witness:
  "pool_abs (fst (addLog list_heap log7 (newLogPool list_heap))) = [log_key log7 \<mapsto> log7] \<and>
   snd (addLog list_heap log7 (newLogPool list_heap))"
proof -
  have "log_fits (pool_abs (newLogPool list_heap)) log7"
    by (simp add: log_fits_def list_queue.pool_abs_new log7_small)
  from addLog_refines_update [OF list_queue.min_heap_axioms list_queue.pool_inv_new this] show ?thesis
    by (simp add: list_queue.pool_abs_new) (simp add: newLogPool_def list_heap_def)
qed

text \<open>Draining the pool (before a resubscription) ends, returns every log of the pool and leaves
  it empty.\<close>
theorem getAndDeleteAll_drains:
  assumes "min_heap H elems" and "pool_inv elems p"
  shows "\<exists>p' bs lo hi. getAndDeleteAll H p = Some (p', bs, lo, hi) \<and> sent_logs bs = ran (pool_abs p) \<and>
    pool_abs p' = Map.empty \<and> pool_inv elems p'"
  using min_heap.drainLoop_spec [OF assms, of "[]" max_i64 0] by (auto simp: getAndDeleteAll_def sent_logs_def)

theorem getAndDeleteAll_drains_witness:
  "\<exists>p' bs lo hi. getAndDeleteAll list_heap (fst (addLog list_heap log7 (newLogPool list_heap))) = Some (p', bs, lo, hi) \<and>
     sent_logs bs = {log7} \<and> pool_abs p' = Map.empty"
  using getAndDeleteAll_drains [OF list_queue.min_heap_axioms pool_with_log7]
  by (auto simp: pool_abs_addLog list_queue.pool_abs_new)

text \<open>\<open>deleteOlderLogs\<close> is documented to return nil when the pool ends up empty. It need not:
  \<open>removeBlock\<close> leaves the block's number in the queue, so after adding one log and removing its
  block the pool is empty and the height of the removed block is returned.\<close>
theorem deleteOlderLogs_stale_minimum:
  assumes "min_heap H elems" and "k \<le> to_i64 (BlockNumber l)"
  shows "\<exists>p'. deleteOlderLogs H k (removeBlock (BlockHash l) (BlockNumber l) (fst (addLog H l (newLogPool H)))) =
      Some (p', Some (to_i64 (BlockNumber l))) \<and> pool_abs p' = Map.empty"
proof -
  note mh = min_heap.elems_insert [OF assms(1)] min_heap.elems_new [OF assms(1)]
    min_heap.find_min [OF assms(1)] min_heap.pool_abs_new [OF assms(1)]
  let ?p = "removeBlock (BlockHash l) (BlockNumber l) (fst (addLog H l (newLogPool H)))"
  have "elems (pool_heap ?p) = {#BlockNumber l#}"
    by (simp add: removeBlock_def Let_def addLog_def newLogPool_def mh)
  then have "hp_find_min H (pool_heap ?p) = Some (BlockNumber l)" by (simp add: mh)
  moreover have "pool_abs ?p = Map.empty"
    by (auto simp: pool_abs_removeBlock pool_abs_addLog mh log_key_def fun_eq_iff)
  ultimately show ?thesis using assms(2) by (simp add: deleteOlderLogs.simps [of H k ?p])
qed

theorem deleteOlderLogs_stale_minimum_witness:
  "\<exists>p'. deleteOlderLogs list_heap 5 (removeBlock 70 7 (fst (addLog list_heap log7 (newLogPool list_heap)))) =
      Some (p', Some 7) \<and> pool_abs p' = Map.empty"
  using deleteOlderLogs_stale_minimum [OF list_queue.min_heap_axioms, of 5 log7] log7_small
  by (simp add: log7_def)

end
