(* ===== verification/Log_Registrations.thy ===== *)
theory Log_Registrations
  imports Log_Pool
begin

text \<open>
  Who listens to which logs (\<^verbatim>\<open>core/chains/evm/log/registrations.go\<close>): subscribers are kept by the number
  of confirmations they wait for, then by contract address, then by log topic. Adding and removing a subscriber tell
  whether the subscription at the node has to be renewed; sending offers every log that is deep enough to the
  subscribers of its address and topic.

  A subscriber is a pointer in the code; \<open>s_ptr\<close> is its identity and the other fields are never changed. A Go map is an
  association list whose order is the (arbitrary) iteration order. A panic is \<open>Inl\<close>.
\<close>

section \<open>State\<close>

record subscriber =
  s_ptr :: nat
  s_job :: int                                    \<comment> \<open>listener.JobID()\<close>
  s_contract :: address
  s_topics :: "(hash \<times> hash list list) list"      \<comment> \<open>LogsWithTopics\<close>
  s_conf :: u32                                   \<comment> \<open>MinIncomingConfirmations\<close>
  s_replay :: bool                                \<comment> \<open>ReplayStartedCallback is set\<close>

type_synonym subscribers = "(subscriber \<times> hash list list) list"
type_synonym handler = "(address \<times> (hash \<times> subscribers) list) list"

record registrations =
  registeredSubs :: "subscriber list"
  jobIDAddrs :: "(int \<times> address list) list"
  handlersByConfs :: "(u32 \<times> handler) list"
  highestNumConfirmations :: u32

datatype reg_panic = NeedsConfirmation | AlreadyAdded | OnePerJobAndContract | NotRegistered | MissingJob
  | MissingAddress | AssumptionViolation

definition newRegistrations :: registrations where
  "newRegistrations = \<lparr>registeredSubs = [], jobIDAddrs = [], handlersByConfs = [], highestNumConfirmations = 0\<rparr>"

definition newHandler :: handler where
  "newHandler = []"

section \<open>Handlers\<close>

definition handler_get :: "handler \<Rightarrow> address \<Rightarrow> hash \<Rightarrow> subscribers option" where
  "handler_get h a t = (case map_of h a of None \<Rightarrow> None | Some m \<Rightarrow> map_of m t)"

definition listened :: "handler list \<Rightarrow> address \<Rightarrow> hash \<Rightarrow> bool" where
  "listened hs a t \<longleftrightarrow> (\<exists>h \<in> set hs. handler_get h a t \<noteq> None)"

definition addTopic :: "subscriber \<Rightarrow> handler list \<Rightarrow> hash \<times> hash list list \<Rightarrow> handler \<times> bool \<Rightarrow> handler \<times> bool" where
  "addTopic sub higher tf hn =
    (case (tf, hn) of ((topic, filters), (h, needs)) \<Rightarrow>
       let addr = s_contract sub; topics = get_or [] (map_of h) addr; subs = get_or [] (map_of topics) topic
       in (AList.update addr (AList.update topic (AList.update sub filters subs) topics) h,
           if map_of topics topic = None then needs \<or> \<not> listened higher addr topic else needs))"

definition handler_addSubscriber :: "subscriber \<Rightarrow> handler list \<Rightarrow> handler \<Rightarrow> reg_panic + handler \<times> bool" where
  "handler_addSubscriber sub higher h =
    (if s_conf sub \<le> 0 then Inl NeedsConfirmation
     else let h' = (if map_of h (s_contract sub) = None then AList.update (s_contract sub) [] h else h)
          in Inr (fold (addTopic sub higher) (s_topics sub) (h', False)))"

definition removeTopic :: "subscriber \<Rightarrow> handler list \<Rightarrow> hash \<Rightarrow> handler \<times> bool \<Rightarrow> reg_panic + handler \<times> bool" where
  "removeTopic sub others topic hn =
    (case hn of (h, needs) \<Rightarrow>
       let addr = s_contract sub
       in case map_of h addr of None \<Rightarrow> Inl AssumptionViolation
          | Some topics \<Rightarrow>
              (case map_of topics topic of None \<Rightarrow> Inl AssumptionViolation
               | Some subs \<Rightarrow>
                   if map_of subs sub = None then Inl AssumptionViolation
                   else let subs' = AList.delete sub subs;
                            needs' = (if subs' = [] then needs \<or> \<not> listened others addr topic else needs);
                            topics' = (if subs' = [] then AList.delete topic topics else AList.update topic subs' topics)
                        in Inr (if topics' = [] then AList.delete addr h else AList.update addr topics' h, needs')))"

fun removeTopics :: "subscriber \<Rightarrow> handler list \<Rightarrow> hash list \<Rightarrow> handler \<times> bool \<Rightarrow> reg_panic + handler \<times> bool" where
  "removeTopics sub others [] hn = Inr hn"
| "removeTopics sub others (t # ts) hn =
    (case removeTopic sub others t hn of Inl e \<Rightarrow> Inl e | Inr hn' \<Rightarrow> removeTopics sub others ts hn')"

definition handler_removeSubscriber :: "subscriber \<Rightarrow> (u32 \<times> handler) list \<Rightarrow> handler \<Rightarrow> reg_panic + handler \<times> bool" where
  "handler_removeSubscriber sub allHandlers h =
    removeTopics sub (map snd (filter (\<lambda>(c, _). c \<noteq> s_conf sub) allHandlers)) (map fst (s_topics sub)) (h, False)"

definition handler_addressesAndTopics :: "handler \<Rightarrow> address list \<times> hash list" where
  "handler_addressesAndTopics h = (map fst h, concat (map (\<lambda>a. map fst (get_or [] (map_of h) a)) (map fst h)))"

definition handler_isAddressRegistered :: "handler \<Rightarrow> address \<Rightarrow> bool" where
  "handler_isAddressRegistered h a \<longleftrightarrow> map_of h a \<noteq> None"

section \<open>Registrations\<close>

text \<open>The maps changed here serve only to check assumptions.\<close>

definition checkAddSubscriber :: "subscriber \<Rightarrow> registrations \<Rightarrow> reg_panic + registrations" where
  "checkAddSubscriber sub r =
    (if s_conf sub \<le> 0 then Inl NeedsConfirmation
     else if sub \<in> set (registeredSubs r) then Inl AlreadyAdded
     else let addrs = get_or [] (map_of (jobIDAddrs r)) (s_job sub)
          in if s_contract sub \<in> set addrs then Inl OnePerJobAndContract
             else Inr (r\<lparr>registeredSubs := sub # registeredSubs r,
                         jobIDAddrs := AList.update (s_job sub) (s_contract sub # addrs) (jobIDAddrs r)\<rparr>))"

definition handlersWithGreaterConfs :: "u32 \<Rightarrow> registrations \<Rightarrow> handler list" where
  "handlersWithGreaterConfs confs r = map snd (filter (\<lambda>(c, _). c > confs) (handlersByConfs r))"

definition addSubscriber :: "subscriber \<Rightarrow> registrations \<Rightarrow> reg_panic + registrations \<times> bool" where
  "addSubscriber sub r =
    (case checkAddSubscriber sub r of Inl e \<Rightarrow> Inl e
     | Inr r1 \<Rightarrow>
         (case handler_addSubscriber sub (handlersWithGreaterConfs (s_conf sub) r1)
                 (case map_of (handlersByConfs r1) (s_conf sub) of None \<Rightarrow> newHandler | Some h \<Rightarrow> h) of
            Inl e \<Rightarrow> Inl e
          | Inr (h, needs) \<Rightarrow>
              Inr (r1\<lparr>handlersByConfs := AList.update (s_conf sub) h (handlersByConfs r1),
                      highestNumConfirmations := (if s_conf sub > highestNumConfirmations r1 then s_conf sub
                                                  else highestNumConfirmations r1)\<rparr>, needs)))"

definition checkRemoveSubscriber :: "subscriber \<Rightarrow> registrations \<Rightarrow> reg_panic + registrations" where
  "checkRemoveSubscriber sub r =
    (if sub \<notin> set (registeredSubs r) then Inl NotRegistered
     else case map_of (jobIDAddrs r) (s_job sub) of None \<Rightarrow> Inl MissingJob
          | Some addrs \<Rightarrow>
              if s_contract sub \<notin> set addrs then Inl MissingAddress
              else let addrs' = removeAll (s_contract sub) addrs
                   in Inr (r\<lparr>registeredSubs := removeAll sub (registeredSubs r),
                        jobIDAddrs := (if addrs' = [] then AList.delete (s_job sub) (jobIDAddrs r)
                                       else AList.update (s_job sub) addrs' (jobIDAddrs r))\<rparr>))"

definition resetHighestNumConfirmationsValue :: "registrations \<Rightarrow> registrations" where
  "resetHighestNumConfirmationsValue r =
    r\<lparr>highestNumConfirmations := fold (\<lambda>(c, _) m. if c > m then c else m) (handlersByConfs r) 0\<rparr>"

definition removeSubscriber :: "subscriber \<Rightarrow> registrations \<Rightarrow> reg_panic + registrations \<times> bool" where
  "removeSubscriber sub r =
    (case checkRemoveSubscriber sub r of Inl e \<Rightarrow> Inl e
     | Inr r1 \<Rightarrow>
         (case map_of (handlersByConfs r1) (s_conf sub) of None \<Rightarrow> Inr (r1, False)
          | Some h \<Rightarrow>
              (case handler_removeSubscriber sub (handlersByConfs r1) h of Inl e \<Rightarrow> Inl e
               | Inr (h', needs) \<Rightarrow>
                   Inr (if h' = [] then resetHighestNumConfirmationsValue (r1\<lparr>handlersByConfs := AList.delete (s_conf sub) (handlersByConfs r1)\<rparr>)
                        else r1\<lparr>handlersByConfs := AList.update (s_conf sub) h' (handlersByConfs r1)\<rparr>, needs))))"

definition addressesAndTopics :: "registrations \<Rightarrow> address list \<times> hash list" where
  "addressesAndTopics r =
    (concat (map (\<lambda>(_, h). fst (handler_addressesAndTopics h)) (handlersByConfs r)),
     concat (map (\<lambda>(_, h). snd (handler_addressesAndTopics h)) (handlersByConfs r)))"

definition isAddressRegistered :: "registrations \<Rightarrow> address \<Rightarrow> bool" where
  "isAddressRegistered r a \<longleftrightarrow> (\<exists>(c, h) \<in> set (handlersByConfs r). handler_isAddressRegistered h a)"

section \<open>What a handler holds\<close>

definition held :: "handler \<Rightarrow> address \<Rightarrow> hash \<Rightarrow> subscriber \<Rightarrow> hash list list option" where
  "held h a t s = (case handler_get h a t of None \<Rightarrow> None | Some subs \<Rightarrow> map_of subs s)"

definition subs_ok :: "subscribers \<Rightarrow> bool" where
  "subs_ok subs \<longleftrightarrow> subs \<noteq> [] \<and> distinct (map fst subs)"

definition no_empty :: "handler \<Rightarrow> bool" where
  "no_empty h \<longleftrightarrow> (\<forall>a m. map_of h a = Some m \<longrightarrow> m \<noteq> [] \<and> (\<forall>t subs. map_of m t = Some subs \<longrightarrow> subs_ok subs))"

definition no_empty_topics :: "handler \<Rightarrow> bool" where
  "no_empty_topics h \<longleftrightarrow> (\<forall>a m t subs. map_of h a = Some m \<longrightarrow> map_of m t = Some subs \<longrightarrow> subs_ok subs)"

lemma update_nonempty [simp]: "AList.update k v al \<noteq> []"
  by (cases al) auto

lemma map_of_nonempty: "al \<noteq> [] \<longleftrightarrow> (\<exists>k v. map_of al k = Some v)"
proof -
  have "al = [] \<longleftrightarrow> map_of al = Map.empty" by simp
  then show ?thesis by (metis not_None_eq)
qed

lemma handler_get_subs_ok: "no_empty_topics h \<Longrightarrow> handler_get h a t = Some subs \<Longrightarrow> subs_ok subs"
  by (auto simp: handler_get_def no_empty_topics_def split: option.splits)

lemma handler_get_listens:
  assumes "no_empty_topics h"
  shows "handler_get h a t \<noteq> None \<longleftrightarrow> (\<exists>s f. held h a t s = Some f)"
proof (cases "handler_get h a t")
  case None
  then show ?thesis by (simp add: held_def)
next
  case (Some subs)
  then have "subs \<noteq> []" using handler_get_subs_ok [OF assms Some] by (simp add: subs_ok_def)
  then show ?thesis unfolding map_of_nonempty by (simp add: held_def Some)
qed

lemma get_None:
  assumes "no_empty_topics h"
  shows "handler_get h a t = None \<longleftrightarrow> held h a t = Map.empty"
  using handler_get_listens [OF assms, of a t] by (auto simp: fun_eq_iff)

lemma no_empty_alt: "no_empty h \<longleftrightarrow> no_empty_topics h \<and> (\<forall>a. map_of h a \<noteq> Some [])"
  by (auto simp: no_empty_def no_empty_topics_def)

lemma held_new: "(map_of h a = None \<Longrightarrow> h' = AList.update a [] h) \<Longrightarrow> (map_of h a \<noteq> None \<Longrightarrow> h' = h) \<Longrightarrow> held h' = held h"
  by (cases "map_of h a") (auto simp: held_def handler_get_def fun_eq_iff split: option.splits)

lemma held_addTopic:
  "held (fst (addTopic sub g (t, f) (h, n))) a t' s =
    (if a = s_contract sub \<and> t' = t \<and> s = sub then Some f else held h a t' s)"
  by (auto simp: addTopic_def held_def handler_get_def Let_def get_or_def split: option.splits)

lemma needs_addTopic:
  "snd (addTopic sub g (t, f) (h, n)) \<longleftrightarrow> n \<or> (handler_get h (s_contract sub) t = None \<and> \<not> listened g (s_contract sub) t)"
  by (auto simp: addTopic_def handler_get_def Let_def get_or_def split: option.splits)

lemma handler_get_addTopic:
  "handler_get (fst (addTopic sub g (t, f) (h, n))) a t' \<noteq> None \<longleftrightarrow> (a = s_contract sub \<and> t' = t) \<or> handler_get h a t' \<noteq> None"
  by (auto simp: addTopic_def handler_get_def Let_def get_or_def split: option.splits)

lemma no_empty_topics_addTopic:
  "no_empty_topics h \<Longrightarrow> no_empty_topics (fst (addTopic sub g (t, f) (h, n)))"
  by (auto simp: addTopic_def no_empty_topics_def subs_ok_def Let_def get_or_def split: option.splits if_splits)


lemma addTopics:
  fixes sub g
  defines "a \<equiv> s_contract sub"
  assumes "distinct (map fst ts)" and "no_empty_topics h"
  shows "held (fst (fold (addTopic sub g) ts (h, n))) a' t s =
      (if a' = a \<and> s = sub \<and> map_of ts t \<noteq> None then map_of ts t else held h a' t s)
    \<and> no_empty_topics (fst (fold (addTopic sub g) ts (h, n)))
    \<and> (snd (fold (addTopic sub g) ts (h, n)) \<longleftrightarrow> n \<or> (\<exists>t \<in> fst ` set ts. handler_get h a t = None \<and> \<not> listened g a t))
    \<and> (\<forall>a'. (map_of (fst (fold (addTopic sub g) ts (h, n))) a' = Some [] \<longrightarrow> map_of h a' = Some [] \<and> (a' = a \<longrightarrow> ts = [])))"
  using assms(2,3)
proof (induction ts arbitrary: h n)
  case (Cons tf ts)
  obtain t1 f1 where tf: "tf = (t1, f1)" by (cases tf)
  obtain h1 n1 where h1: "addTopic sub g (t1, f1) (h, n) = (h1, n1)" by (cases "addTopic sub g (t1, f1) (h, n)")
  have n1: "n1 \<longleftrightarrow> n \<or> (handler_get h a t1 = None \<and> \<not> listened g a t1)"
    using needs_addTopic [of sub g t1 f1 h n] h1 by (simp add: a_def)
  have held1: "held h1 a' t s = (if a' = a \<and> t = t1 \<and> s = sub then Some f1 else held h a' t s)"
    using held_addTopic [of sub g t1 f1 h n] h1 by (simp add: a_def)
  have get1: "handler_get h1 a t = None \<longleftrightarrow> t \<noteq> t1 \<and> handler_get h a t = None" for t
    using handler_get_addTopic [of sub g t1 f1 h n a t] h1 by (auto simp: a_def)
  have ne1: "no_empty_topics h1" using no_empty_topics_addTopic [OF Cons.prems(2), of sub g t1 f1 n] h1 by simp
  have emp: "map_of h1 a' = Some [] \<longleftrightarrow> a' \<noteq> a \<and> map_of h a' = Some []" for a'
    using h1 by (auto simp: addTopic_def a_def Let_def split: if_splits)
  have IH: "held (fst (fold (addTopic sub g) ts (h1, n1))) a' t s =
      (if a' = a \<and> s = sub \<and> map_of ts t \<noteq> None then map_of ts t else held h1 a' t s)
    \<and> no_empty_topics (fst (fold (addTopic sub g) ts (h1, n1)))
    \<and> (snd (fold (addTopic sub g) ts (h1, n1)) \<longleftrightarrow> n1 \<or> (\<exists>t \<in> fst ` set ts. handler_get h1 a t = None \<and> \<not> listened g a t))
    \<and> (\<forall>a'. (map_of (fst (fold (addTopic sub g) ts (h1, n1))) a' = Some [] \<longrightarrow> map_of h1 a' = Some [] \<and> (a' = a \<longrightarrow> ts = [])))"
    using Cons.prems ne1 by (intro Cons.IH) (auto simp: tf)
  have new: "t1 \<notin> fst ` set ts" and none: "map_of ts t1 = None"
    using Cons.prems(1) by (simp_all add: tf map_of_eq_None_iff)
  show ?case
  proof (intro conjI)
    show "held (fst (fold (addTopic sub g) (tf # ts) (h, n))) a' t s =
      (if a' = a \<and> s = sub \<and> map_of (tf # ts) t \<noteq> None then map_of (tf # ts) t else held h a' t s)"
      using IH held1 none by (auto simp: tf h1)
    show "snd (fold (addTopic sub g) (tf # ts) (h, n)) \<longleftrightarrow> n \<or> (\<exists>t \<in> fst ` set (tf # ts). handler_get h a t = None \<and> \<not> listened g a t)"
      using IH n1 get1 new by (auto simp: tf h1)
    show "\<forall>a'. map_of (fst (fold (addTopic sub g) (tf # ts) (h, n))) a' = Some [] \<longrightarrow> map_of h a' = Some [] \<and> (a' = a \<longrightarrow> tf # ts = [])"
      using IH emp by (auto simp: tf h1)
  qed (use IH in \<open>simp add: tf h1\<close>)
qed simp

lemma handler_addSubscriber:
  assumes "s_conf sub \<noteq> 0" and "distinct (map fst (s_topics sub))" and "s_topics sub \<noteq> []" and "no_empty h"
  obtains h' needs where "handler_addSubscriber sub g h = Inr (h', needs)"
    and "\<And>a t s. held h' a t s = (if a = s_contract sub \<and> s = sub \<and> map_of (s_topics sub) t \<noteq> None then map_of (s_topics sub) t else held h a t s)"
    and "no_empty h'" and "h' \<noteq> []"
    and "needs \<longleftrightarrow> (\<exists>t \<in> fst ` set (s_topics sub). handler_get h (s_contract sub) t = None \<and> \<not> listened g (s_contract sub) t)"
proof -
  define h0 where "h0 = (if map_of h (s_contract sub) = None then AList.update (s_contract sub) [] h else h)"
  have held0: "held h0 = held h" by (rule held_new) (auto simp: h0_def)
  have get0: "handler_get h0 a t = handler_get h a t" for a t by (simp add: h0_def handler_get_def)
  have ne0: "no_empty_topics h0" using assms(4) by (auto simp: h0_def no_empty_def no_empty_topics_def split: if_splits)
  have emp: "map_of h0 a = Some [] \<Longrightarrow> a = s_contract sub" for a using assms(4) by (auto simp: h0_def no_empty_def split: if_splits)
  let ?r = "fold (addTopic sub g) (s_topics sub) (h0, False)"
  note add = addTopics [OF assms(2) ne0, of sub g False]
  note add_held = add [THEN conjunct1] and add_ne = add [THEN conjunct2, THEN conjunct1]
    and add_needs = add [THEN conjunct2, THEN conjunct2, THEN conjunct1] and add_emp = add [THEN conjunct2, THEN conjunct2, THEN conjunct2]
  have "map_of (fst ?r) a \<noteq> Some []" for a
  proof
    assume "map_of (fst ?r) a = Some []"
    then have "map_of h0 a = Some [] \<and> (a = s_contract sub \<longrightarrow> s_topics sub = [])" by (rule add_emp [rule_format])
    then show False using emp [of a] assms(3) by simp
  qed
  then have ne: "no_empty (fst ?r)" using add_ne by (simp add: no_empty_alt)
  obtain t f where tf: "map_of (s_topics sub) t = Some f" using map_of_nonempty [THEN iffD1, OF assms(3)] by blast
  then have "held (fst ?r) (s_contract sub) t sub = Some f" by (simp add: add_held)
  then have nonempty: "fst ?r \<noteq> []" by (auto simp: held_def handler_get_def)
  show ?thesis
  proof (rule that [of "fst ?r" "snd ?r"])
    show "handler_addSubscriber sub g h = Inr (fst ?r, snd ?r)" using assms(1) by (simp add: handler_addSubscriber_def h0_def)
    show "held (fst ?r) a t s = (if a = s_contract sub \<and> s = sub \<and> map_of (s_topics sub) t \<noteq> None then map_of (s_topics sub) t else held h a t s)"
      for a t s using add_held [of a t s] unfolding held0 .
    show "snd ?r \<longleftrightarrow> (\<exists>t \<in> fst ` set (s_topics sub). handler_get h (s_contract sub) t = None \<and> \<not> listened g (s_contract sub) t)"
      using add_needs unfolding get0 by simp
  qed (fact ne nonempty)+
qed


lemma delete_empty_iff: "AList.delete k al = [] \<longleftrightarrow> (\<forall>k'. k' \<noteq> k \<longrightarrow> map_of al k' = None)"
proof -
  have "AList.delete k al = [] \<longleftrightarrow> map_of (AList.delete k al) = Map.empty" by (rule map_of_eq_empty_iff [symmetric])
  also have "\<dots> \<longleftrightarrow> (\<forall>k'. k' \<noteq> k \<longrightarrow> map_of al k' = None)" by (auto simp: fun_eq_iff)
  finally show ?thesis .
qed

lemma no_emptyD: "no_empty h \<Longrightarrow> map_of h a = Some m \<Longrightarrow> m \<noteq> []"
  "no_empty h \<Longrightarrow> map_of h a = Some m \<Longrightarrow> map_of m t = Some subs \<Longrightarrow> subs_ok subs"
  by (auto simp: no_empty_def)

lemma no_empty_topics [simp]: "no_empty h \<Longrightarrow> no_empty_topics h"
  by (simp add: no_empty_alt)

lemma no_emptyI:
  "(\<And>a m. map_of h a = Some m \<Longrightarrow> m \<noteq> []) \<Longrightarrow> (\<And>a m t subs. map_of h a = Some m \<Longrightarrow> map_of m t = Some subs \<Longrightarrow> subs_ok subs) \<Longrightarrow> no_empty h"
  by (simp add: no_empty_def)

lemma removeTopic_ok:
  assumes "no_empty h" and "held h (s_contract sub) t sub = Some f"
  obtains h' n' where "removeTopic sub others t (h, n) = Inr (h', n')"
    and "\<And>a' t' s. held h' a' t' s = (if a' = s_contract sub \<and> t' = t \<and> s = sub then None else held h a' t' s)"
    and "no_empty h'"
    and "n' \<longleftrightarrow> n \<or> (handler_get h' (s_contract sub) t = None \<and> \<not> listened others (s_contract sub) t)"
proof -
  let ?a = "s_contract sub"
  obtain m subs where m: "map_of h ?a = Some m" and subs: "map_of m t = Some subs" and f: "map_of subs sub = Some f"
    using assms(2) by (auto simp: held_def handler_get_def split: option.splits)
  define subs' where "subs' = AList.delete sub subs"
  define m' where "m' = (if subs' = [] then AList.delete t m else AList.update t subs' m)"
  define h' where "h' = (if m' = [] then AList.delete ?a h else AList.update ?a m' h)"
  define n' where "n' = (if subs' = [] then n \<or> \<not> listened others ?a t else n)"
  have run: "removeTopic sub others t (h, n) = Inr (h', n')"
    by (simp add: removeTopic_def m subs f Let_def subs'_def m'_def h'_def n'_def)
  have get_m': "map_of m' t' = (if t' = t then (if subs' = [] then None else Some subs') else map_of m t')" for t'
    by (simp add: m'_def)
  have get: "handler_get h' a' t' = (if a' = ?a then map_of m' t' else handler_get h a' t')" for a' t'
    by (auto simp: handler_get_def h'_def split: option.splits)
  have held: "held h' a' t' s = (if a' = ?a \<and> t' = t \<and> s = sub then None else held h a' t' s)" for a' t' s
  proof (cases "a' = ?a \<and> t' = t")
    case True
    have "subs' = [] \<Longrightarrow> s \<noteq> sub \<Longrightarrow> map_of subs s = None" by (simp add: subs'_def delete_empty_iff)
    then show ?thesis using True m subs by (auto simp: held_def get get_m') (auto simp: handler_get_def subs'_def)
  next
    case False
    then show ?thesis using m by (auto simp: held_def get get_m') (auto simp: handler_get_def)
  qed
  have "no_empty h'"
  proof (rule no_emptyI)
    fix a1 m1 assume "map_of h' a1 = Some m1"
    then show "m1 \<noteq> []" using no_emptyD(1) [OF assms(1)] by (auto simp: h'_def split: if_splits)
  next
    fix a1 m1 t1 s1 assume "map_of h' a1 = Some m1" and "map_of m1 t1 = Some s1"
    moreover have "map_of h' a1 = (if a1 = ?a then (if m' = [] then None else Some m') else map_of h a1)" by (simp add: h'_def)
    ultimately consider "map_of m' t1 = Some s1" | "map_of h a1 = Some m1" "map_of m1 t1 = Some s1"
      by (auto split: if_splits)
    then show "subs_ok s1"
    proof cases
      case 1
      have "subs_ok subs" by (rule no_emptyD(2) [OF assms(1) m subs])
      then have "subs' \<noteq> [] \<Longrightarrow> subs_ok subs'" by (simp add: subs_ok_def subs'_def distinct_keys_delete)
      then show ?thesis using 1 no_emptyD(2) [OF assms(1) m] unfolding get_m' by (auto split: if_splits)
    next
      case 2
      then show ?thesis by (rule no_emptyD(2) [OF assms(1)])
    qed
  qed
  moreover have "n' \<longleftrightarrow> n \<or> (handler_get h' ?a t = None \<and> \<not> listened others ?a t)"
    by (auto simp: n'_def get get_m')
  ultimately show ?thesis using that run held by blast
qed

lemma removeTopics_ok:
  assumes "distinct ts" and "no_empty h" and "\<And>t. t \<in> set ts \<Longrightarrow> held h (s_contract sub) t sub \<noteq> None"
  shows "\<exists>h' n'. removeTopics sub others ts (h, n) = Inr (h', n') \<and>
    (\<forall>a' t s. held h' a' t s = (if a' = s_contract sub \<and> s = sub \<and> t \<in> set ts then None else held h a' t s)) \<and> no_empty h' \<and>
    (n' \<longleftrightarrow> n \<or> (\<exists>t \<in> set ts. handler_get h' (s_contract sub) t = None \<and> \<not> listened others (s_contract sub) t))"
  using assms
proof (induction ts arbitrary: h n)
  case (Cons t ts)
  obtain f where f: "held h (s_contract sub) t sub = Some f" using Cons.prems(3) by fastforce
  obtain h1 n1 where r1: "removeTopic sub others t (h, n) = Inr (h1, n1)"
    and held1: "\<And>a' t' s. held h1 a' t' s = (if a' = s_contract sub \<and> t' = t \<and> s = sub then None else held h a' t' s)"
    and ne1: "no_empty h1" and n1: "n1 \<longleftrightarrow> n \<or> (handler_get h1 (s_contract sub) t = None \<and> \<not> listened others (s_contract sub) t)"
    using removeTopic_ok [OF Cons.prems(2) f, of others n] by metis
  have pre: "held h1 (s_contract sub) u sub \<noteq> None" if "u \<in> set ts" for u
    using Cons.prems(1,3) that by (auto simp: held1)
  obtain h' n' where r: "removeTopics sub others ts (h1, n1) = Inr (h', n')"
    and held': "\<And>a' t' s. held h' a' t' s = (if a' = s_contract sub \<and> s = sub \<and> t' \<in> set ts then None else held h1 a' t' s)"
    and ne': "no_empty h'" and n': "n' \<longleftrightarrow> n1 \<or> (\<exists>t \<in> set ts. handler_get h' (s_contract sub) t = None \<and> \<not> listened others (s_contract sub) t)"
    using Cons.IH [of h1 n1] Cons.prems(1) ne1 pre by auto
  have "held h' (s_contract sub) t = held h1 (s_contract sub) t" using Cons.prems(1) by (auto simp: held' fun_eq_iff)
  then have same: "handler_get h' (s_contract sub) t = None \<longleftrightarrow> handler_get h1 (s_contract sub) t = None"
    by (simp add: get_None ne1 ne')
  have "n' \<longleftrightarrow> n \<or> (\<exists>u \<in> set (t # ts). handler_get h' (s_contract sub) u = None \<and> \<not> listened others (s_contract sub) u)"
    using n1 n' same by auto
  moreover have "held h' a' u s = (if a' = s_contract sub \<and> s = sub \<and> u \<in> set (t # ts) then None else held h a' u s)" for a' u s
    by (auto simp: held' held1)
  ultimately show ?case using r r1 ne' by auto
qed simp


section \<open>The specification: a set of subscribers\<close>

definition sub_ok :: "subscriber \<Rightarrow> bool" where
  "sub_ok s \<longleftrightarrow> s_conf s \<noteq> 0 \<and> s_topics s \<noteq> [] \<and> distinct (map fst (s_topics s))"

definition wants :: "subscriber \<Rightarrow> address \<Rightarrow> hash \<Rightarrow> bool" where
  "wants s a t \<longleftrightarrow> s_contract s = a \<and> t \<in> fst ` set (s_topics s)"

definition reg_held :: "registrations \<Rightarrow> u32 \<Rightarrow> address \<Rightarrow> hash \<Rightarrow> subscriber \<Rightarrow> hash list list option" where
  "reg_held r c a t s = (case map_of (handlersByConfs r) c of None \<Rightarrow> None | Some h \<Rightarrow> held h a t s)"

definition checks_rel :: "registrations \<Rightarrow> subscriber set \<Rightarrow> bool" where
  "checks_rel r S \<longleftrightarrow> set (registeredSubs r) = S \<and>
    (\<forall>j a. a \<in> set (get_or [] (map_of (jobIDAddrs r)) j) \<longleftrightarrow> (\<exists>s \<in> S. s_job s = j \<and> s_contract s = a)) \<and>
    inj_on (\<lambda>s. (s_job s, s_contract s)) S"

definition held_rel :: "registrations \<Rightarrow> subscriber set \<Rightarrow> bool" where
  "held_rel r S \<longleftrightarrow> (\<forall>s \<in> S. sub_ok s) \<and> distinct (map fst (handlersByConfs r)) \<and>
    (\<forall>c h. map_of (handlersByConfs r) c = Some h \<longrightarrow> no_empty h \<and> h \<noteq> []) \<and>
    (\<forall>c a t s. reg_held r c a t s = (if s \<in> S \<and> s_conf s = c \<and> s_contract s = a then map_of (s_topics s) t else None))"

definition reg_rel :: "registrations \<Rightarrow> subscriber set \<Rightarrow> bool" where
  "reg_rel r S \<longleftrightarrow> finite S \<and> checks_rel r S \<and> held_rel r S \<and> highestNumConfirmations r = Max (insert 0 (s_conf ` S))"

lemma reg_rel_new: "reg_rel newRegistrations {}"
  by (simp add: reg_rel_def checks_rel_def held_rel_def reg_held_def newRegistrations_def)

lemma map_of_dom: "map_of al k \<noteq> None \<longleftrightarrow> k \<in> fst ` set al"
  by (simp add: map_of_eq_None_iff)

lemma held_relD:
  assumes "held_rel r S"
  shows "map_of (handlersByConfs r) c = Some h \<Longrightarrow> no_empty h \<and> h \<noteq> []"
    and "reg_held r c a t s = (if s \<in> S \<and> s_conf s = c \<and> s_contract s = a then map_of (s_topics s) t else None)"
    and "distinct (map fst (handlersByConfs r))" and "s \<in> S \<Longrightarrow> sub_ok s"
  using assms by (simp_all add: held_rel_def)

lemma rel_get:
  assumes "held_rel r S" and "map_of (handlersByConfs r) c = Some h"
  shows "handler_get h a t \<noteq> None \<longleftrightarrow> (\<exists>s \<in> S. s_conf s = c \<and> wants s a t)"
proof -
  have "no_empty_topics h" using held_relD(1) [OF assms] by simp
  then have "handler_get h a t \<noteq> None \<longleftrightarrow> (\<exists>s f. held h a t s = Some f)" by (rule handler_get_listens)
  also have "\<dots> \<longleftrightarrow> (\<exists>s. reg_held r c a t s \<noteq> None)" by (simp add: reg_held_def assms(2))
  also have "\<dots> \<longleftrightarrow> (\<exists>s \<in> S. s_conf s = c \<and> wants s a t)"
    unfolding held_relD(2) [OF assms(1)] wants_def by (auto simp: map_of_dom [symmetric] simp del: not_None_eq)
  finally show ?thesis .
qed

lemma held_nonempty:
  assumes "no_empty h" and "h \<noteq> []"
  shows "\<exists>a t s f. held h a t s = Some f"
proof -
  obtain a m where m: "map_of h a = Some m" using map_of_nonempty [THEN iffD1, OF assms(2)] by blast
  obtain t subs where t: "map_of m t = Some subs" using map_of_nonempty [THEN iffD1, OF no_emptyD(1) [OF assms(1) m]] by blast
  obtain s f where "map_of subs s = Some f" using map_of_nonempty [THEN iffD1, OF no_emptyD(2) [OF assms(1) m t, unfolded subs_ok_def, THEN conjunct1]] by blast
  then have "held h a t s = Some f" by (simp add: held_def handler_get_def m t)
  then show ?thesis by blast
qed

lemma rel_confs:
  assumes "held_rel r S"
  shows "map_of (handlersByConfs r) c \<noteq> None \<longleftrightarrow> c \<in> s_conf ` S"
proof
  assume "map_of (handlersByConfs r) c \<noteq> None"
  then obtain h where h: "map_of (handlersByConfs r) c = Some h" by blast
  then obtain a t s f where "held h a t s = Some f" using held_nonempty held_relD(1) [OF assms h] by blast
  then have "reg_held r c a t s = Some f" by (simp add: reg_held_def h)
  then show "c \<in> s_conf ` S" unfolding held_relD(2) [OF assms] by (auto split: if_splits)
next
  assume "c \<in> s_conf ` S"
  then obtain s where s: "s \<in> S" "s_conf s = c" by blast
  then obtain t f where "map_of (s_topics s) t = Some f"
    using held_relD(4) [OF assms] map_of_nonempty [THEN iffD1, of "s_topics s"] by (auto simp: sub_ok_def)
  then have "reg_held r c (s_contract s) t s = Some f" using s by (simp add: held_relD(2) [OF assms])
  then show "map_of (handlersByConfs r) c \<noteq> None" by (cases "map_of (handlersByConfs r) c") (simp_all add: reg_held_def)
qed

lemma rel_listened:
  assumes "held_rel r S"
  shows "listened (map snd (filter (\<lambda>(c, _). P c) (handlersByConfs r))) a t \<longleftrightarrow> (\<exists>s \<in> S. P (s_conf s) \<and> wants s a t)"
proof -
  have "listened (map snd (filter (\<lambda>(c, _). P c) (handlersByConfs r))) a t \<longleftrightarrow>
      (\<exists>c h. P c \<and> map_of (handlersByConfs r) c = Some h \<and> handler_get h a t \<noteq> None)"
    using in_set_map_of [OF held_relD(3) [OF assms]] by (auto simp: listened_def)
  also have "\<dots> \<longleftrightarrow> (\<exists>s \<in> S. P (s_conf s) \<and> wants s a t)"
  proof
    assume "\<exists>c h. P c \<and> map_of (handlersByConfs r) c = Some h \<and> handler_get h a t \<noteq> None"
    then show "\<exists>s \<in> S. P (s_conf s) \<and> wants s a t" using rel_get [OF assms] by blast
  next
    assume "\<exists>s \<in> S. P (s_conf s) \<and> wants s a t"
    then obtain s where s: "s \<in> S" "P (s_conf s)" "wants s a t" by blast
    then obtain h where h: "map_of (handlersByConfs r) (s_conf s) = Some h" using rel_confs [OF assms] by blast
    then show "\<exists>c h. P c \<and> map_of (handlersByConfs r) c = Some h \<and> handler_get h a t \<noteq> None"
      using rel_get [OF assms h, of a t] s by blast
  qed
  finally show ?thesis .
qed


lemma Max_insert_conf: "finite S \<Longrightarrow> Max (insert 0 (insert c (s_conf ` S))) = max c (Max (insert (0::u32) (s_conf ` S)))"
  by (simp add: insert_commute [of 0 c] del: Max_insert) (simp add: Max_insert [of "insert 0 (s_conf ` S)" c])

definition unique_job :: "subscriber \<Rightarrow> subscriber set \<Rightarrow> bool" where
  "unique_job sub S \<longleftrightarrow> (\<forall>s \<in> S. (s_job s, s_contract s) \<noteq> (s_job sub, s_contract sub))"

lemma checkAdd_ok:
  assumes "checks_rel r S" and "s_conf sub \<noteq> 0" and "sub \<notin> S" and "unique_job sub S"
  obtains r1 where "checkAddSubscriber sub r = Inr r1" and "checks_rel r1 (insert sub S)"
    and "handlersByConfs r1 = handlersByConfs r" and "highestNumConfirmations r1 = highestNumConfirmations r"
proof -
  let ?addrs = "get_or [] (map_of (jobIDAddrs r)) (s_job sub)"
  have new: "sub \<notin> set (registeredSubs r)" using assms(1,3) by (simp add: checks_rel_def)
  have free: "s_contract sub \<notin> set ?addrs" using assms(1,4) by (auto simp: checks_rel_def unique_job_def)
  let ?r = "r\<lparr>registeredSubs := sub # registeredSubs r, jobIDAddrs := AList.update (s_job sub) (s_contract sub # ?addrs) (jobIDAddrs r)\<rparr>"
  have "checkAddSubscriber sub r = Inr ?r" using assms(2) new free by (simp add: checkAddSubscriber_def Let_def)
  moreover have "checks_rel ?r (insert sub S)"
    using assms(1,4) unfolding checks_rel_def by (auto simp: unique_job_def get_or_def)
  ultimately show ?thesis using that by simp
qed

lemma addSubscriber_ok:
  assumes rel: "reg_rel r S" and ok: "sub_ok sub" and new: "sub \<notin> S" and uniq: "unique_job sub S"
  obtains r' needs where "addSubscriber sub r = Inr (r', needs)" and "reg_rel r' (insert sub S)"
    and "needs \<longleftrightarrow> (\<exists>t \<in> fst ` set (s_topics sub). \<forall>s \<in> S. s_conf sub \<le> s_conf s \<longrightarrow> \<not> wants s (s_contract sub) t)"
proof -
  let ?c = "s_conf sub" and ?a = "s_contract sub"
  have held: "held_rel r S" and fin: "finite S" using rel by (simp_all add: reg_rel_def)
  have conf: "?c \<noteq> 0" and ts: "distinct (map fst (s_topics sub))" "s_topics sub \<noteq> []" using ok by (simp_all add: sub_ok_def)
  obtain r1 where c1: "checkAddSubscriber sub r = Inr r1" and rel1: "checks_rel r1 (insert sub S)"
    and h1: "handlersByConfs r1 = handlersByConfs r" and n1: "highestNumConfirmations r1 = highestNumConfirmations r"
    using checkAdd_ok [OF _ conf new uniq] rel unfolding reg_rel_def by blast
  define h where "h = (case map_of (handlersByConfs r) ?c of None \<Rightarrow> newHandler | Some h \<Rightarrow> h)"
  define g where "g = handlersWithGreaterConfs ?c r1"
  have ne: "no_empty h" using held_relD(1) [OF held] by (auto simp: h_def newHandler_def no_empty_def split: option.splits)
  obtain h' needs where add: "handler_addSubscriber sub g h = Inr (h', needs)"
    and held': "\<And>a t s. held h' a t s = (if a = ?a \<and> s = sub \<and> map_of (s_topics sub) t \<noteq> None then map_of (s_topics sub) t else held h a t s)"
    and ne': "no_empty h'" "h' \<noteq> []"
    and needs: "needs \<longleftrightarrow> (\<exists>t \<in> fst ` set (s_topics sub). handler_get h ?a t = None \<and> \<not> listened g ?a t)"
    using handler_addSubscriber [OF conf ts ne, of g] by metis
  define r' where "r' = r1\<lparr>handlersByConfs := AList.update ?c h' (handlersByConfs r1),
      highestNumConfirmations := (if ?c > highestNumConfirmations r1 then ?c else highestNumConfirmations r1)\<rparr>"
  have run: "addSubscriber sub r = Inr (r', needs)"
    using add by (simp add: addSubscriber_def c1 h1 h_def g_def r'_def)
  have held_h: "held h a t s = reg_held r ?c a t s" for a t s
    by (auto simp: h_def reg_held_def newHandler_def held_def handler_get_def split: option.splits)
  have "reg_held r' c a t s = (if s \<in> insert sub S \<and> s_conf s = c \<and> s_contract s = a then map_of (s_topics s) t else None)" for c a t s
  proof (cases "c = ?c")
    case True
    then have "reg_held r' c a t s = held h' a t s" by (simp add: reg_held_def r'_def)
    then show ?thesis using True new unfolding held' held_h held_relD(2) [OF held] by auto
  next
    case False
    then have "reg_held r' c a t s = reg_held r c a t s" by (simp add: reg_held_def r'_def h1)
    then show ?thesis using False unfolding held_relD(2) [OF held] by auto
  qed
  then have "held_rel r' (insert sub S)"
    unfolding held_rel_def using held ok ne' held_relD(1) [OF held] by (auto simp: held_rel_def r'_def h1)
  moreover have "checks_rel r' (insert sub S)" using rel1 by (simp add: checks_rel_def r'_def)
  moreover have "highestNumConfirmations r' = Max (insert 0 (s_conf ` insert sub S))"
  proof -
    have "highestNumConfirmations r' = max ?c (highestNumConfirmations r)" by (auto simp: r'_def n1 max_def)
    also have "highestNumConfirmations r = Max (insert 0 (s_conf ` S))" using rel by (simp add: reg_rel_def)
    finally show ?thesis unfolding image_insert Max_insert_conf [OF fin] .
  qed
  ultimately have rel': "reg_rel r' (insert sub S)" using fin by (simp add: reg_rel_def)
  have here: "handler_get h ?a t = None \<longleftrightarrow> \<not> (\<exists>s \<in> S. s_conf s = ?c \<and> wants s ?a t)" for t
  proof (cases "map_of (handlersByConfs r) ?c")
    case None
    then have "?c \<notin> s_conf ` S" using rel_confs [OF held, of ?c] by simp
    then show ?thesis by (auto simp: h_def None newHandler_def handler_get_def image_iff)
  next
    case (Some h0)
    then show ?thesis using rel_get [OF held Some, of ?a t] by (auto simp: h_def)
  qed
  have above: "listened g ?a t \<longleftrightarrow> (\<exists>s \<in> S. ?c < s_conf s \<and> wants s ?a t)" for t
    unfolding g_def handlersWithGreaterConfs_def h1 using rel_listened [OF held, of "\<lambda>c. ?c < c"] by simp
  have "needs \<longleftrightarrow> (\<exists>t \<in> fst ` set (s_topics sub). \<forall>s \<in> S. ?c \<le> s_conf s \<longrightarrow> \<not> wants s ?a t)"
    unfolding needs here above order.order_iff_strict by (metis (mono_tags, lifting))
  with run rel' show ?thesis using that by blast
qed


lemma checkRemove_ok:
  assumes "checks_rel r S" and "sub \<in> S"
  obtains r1 where "checkRemoveSubscriber sub r = Inr r1" and "checks_rel r1 (S - {sub})"
    and "handlersByConfs r1 = handlersByConfs r" and "highestNumConfirmations r1 = highestNumConfirmations r"
proof -
  have reg: "set (registeredSubs r) = S" and inj: "inj_on (\<lambda>s. (s_job s, s_contract s)) S"
    and jobs: "\<And>j a. a \<in> set (get_or [] (map_of (jobIDAddrs r)) j) \<longleftrightarrow> (\<exists>s \<in> S. s_job s = j \<and> s_contract s = a)"
    using assms(1) by (simp_all add: checks_rel_def)
  have "s_contract sub \<in> set (get_or [] (map_of (jobIDAddrs r)) (s_job sub))" using jobs assms(2) by blast
  then obtain addrs where addrs: "map_of (jobIDAddrs r) (s_job sub) = Some addrs" "s_contract sub \<in> set addrs"
    by (auto simp: in_get_or)
  let ?addrs = "removeAll (s_contract sub) addrs"
  let ?r = "r\<lparr>registeredSubs := removeAll sub (registeredSubs r),
     jobIDAddrs := (if ?addrs = [] then AList.delete (s_job sub) (jobIDAddrs r) else AList.update (s_job sub) ?addrs (jobIDAddrs r))\<rparr>"
  have run: "checkRemoveSubscriber sub r = Inr ?r"
    using assms(2) addrs by (simp add: checkRemoveSubscriber_def reg Let_def)
  have get: "get_or [] (map_of (jobIDAddrs ?r)) j = (if j = s_job sub then ?addrs else get_or [] (map_of (jobIDAddrs r)) j)" for j
    by (auto simp: get_or_def)
  have in_addrs: "a \<in> set addrs \<longleftrightarrow> (\<exists>s \<in> S. s_job s = s_job sub \<and> s_contract s = a)" for a
    using jobs [of a "s_job sub"] addrs(1) by simp
  have one: "s = sub" if "s \<in> S" "s_job s = s_job sub" "s_contract s = s_contract sub" for s
    using inj_onD [OF inj, of s sub] that assms(2) by simp
  have "checks_rel ?r (S - {sub})"
    unfolding checks_rel_def get
  proof (intro conjI allI)
    fix j a
    show "a \<in> set (if j = s_job sub then ?addrs else get_or [] (map_of (jobIDAddrs r)) j) \<longleftrightarrow>
        (\<exists>s \<in> S - {sub}. s_job s = j \<and> s_contract s = a)"
      using one by (cases "j = s_job sub") (auto simp: in_addrs jobs)
  qed (use reg inj in \<open>auto intro: inj_on_subset\<close>)
  then show ?thesis using that run by simp
qed

lemma fold_max_confs: "fold (\<lambda>(c, _) m. if c > m then c else m) hs (m::u32) = Max (insert m (fst ` set hs))"
proof (induction hs arbitrary: m)
  case (Cons ch hs)
  obtain c h where ch: "ch = (c, h)" by (cases ch)
  have "Max (insert (if c > m then c else m) (fst ` set hs)) = Max (insert m (insert c (fst ` set hs)))"
    by (cases "fst ` set hs = {}") (auto simp: max_def)
  then show ?case by (simp add: ch Cons.IH del: Max_insert)
qed simp

lemma removeSubscriber_ok:
  assumes rel: "reg_rel r S" and mem: "sub \<in> S"
  obtains r' needs where "removeSubscriber sub r = Inr (r', needs)" and "reg_rel r' (S - {sub})"
    and "needs \<longleftrightarrow> (\<exists>t \<in> fst ` set (s_topics sub). \<forall>s \<in> S - {sub}. \<not> wants s (s_contract sub) t)"
proof -
  let ?c = "s_conf sub" and ?a = "s_contract sub"
  have held: "held_rel r S" and fin: "finite S" using rel by (simp_all add: reg_rel_def)
  have ok: "sub_ok sub" using held_relD(4) [OF held mem] .
  obtain r1 where c1: "checkRemoveSubscriber sub r = Inr r1" and rel1: "checks_rel r1 (S - {sub})"
    and h1: "handlersByConfs r1 = handlersByConfs r" and n1: "highestNumConfirmations r1 = highestNumConfirmations r"
    using checkRemove_ok [OF _ mem] rel unfolding reg_rel_def by blast
  obtain h where h: "map_of (handlersByConfs r) ?c = Some h" using rel_confs [OF held, of ?c] mem by blast
  have ne: "no_empty h" using held_relD(1) [OF held h] by simp
  have held_h: "held h a t s = reg_held r ?c a t s" for a t s by (simp add: reg_held_def h)
  define others where "others = map snd (filter (\<lambda>(c, _). c \<noteq> ?c) (handlersByConfs r))"
  have pre: "held h ?a t sub \<noteq> None" if "t \<in> set (map fst (s_topics sub))" for t
    using that mem unfolding held_h held_relD(2) [OF held] by (simp add: map_of_dom del: not_None_eq)
  have ds: "distinct (map fst (s_topics sub))" using ok by (simp add: sub_ok_def)
  obtain h' needs where run_h: "removeTopics sub others (map fst (s_topics sub)) (h, False) = Inr (h', needs)"
    and held': "\<And>a t s. held h' a t s = (if a = ?a \<and> s = sub \<and> t \<in> set (map fst (s_topics sub)) then None else held h a t s)"
    and ne': "no_empty h'"
    and needs: "needs \<longleftrightarrow> (\<exists>t \<in> set (map fst (s_topics sub)). handler_get h' ?a t = None \<and> \<not> listened others ?a t)"
    using removeTopics_ok [OF ds ne pre, of others False] by auto
  define hs' where "hs' = (if h' = [] then AList.delete ?c (handlersByConfs r) else AList.update ?c h' (handlersByConfs r))"
  define r' where "r' = (if h' = [] then resetHighestNumConfirmationsValue (r1\<lparr>handlersByConfs := hs'\<rparr>) else r1\<lparr>handlersByConfs := hs'\<rparr>)"
  have run: "removeSubscriber sub r = Inr (r', needs)"
    using run_h by (simp add: removeSubscriber_def c1 h1 h handler_removeSubscriber_def others_def r'_def hs'_def)
  have hs: "handlersByConfs r' = hs'" by (simp add: r'_def resetHighestNumConfirmationsValue_def)
  have held_r': "reg_held r' c a t s = (if s \<in> S - {sub} \<and> s_conf s = c \<and> s_contract s = a then map_of (s_topics s) t else None)" for c a t s
  proof (cases "c = ?c")
    case True
    then have "reg_held r' c a t s = held h' a t s" by (auto simp: reg_held_def hs hs'_def held_def handler_get_def)
    then show ?thesis using True mem unfolding held' held_h held_relD(2) [OF held] by (auto simp: map_of_eq_None_iff)
  next
    case False
    then have "reg_held r' c a t s = reg_held r c a t s" by (simp add: reg_held_def hs hs'_def)
    then show ?thesis using False unfolding held_relD(2) [OF held] by auto
  qed
  have clean: "no_empty k \<and> k \<noteq> []" if "map_of hs' c = Some k" for c k
    using that held_relD(1) [OF held, of c k] ne' by (auto simp: hs'_def split: if_splits)
  have "distinct (map fst hs')" using held_relD(3) [OF held] by (simp add: hs'_def distinct_keys_delete)
  then have rel_h: "held_rel r' (S - {sub})"
    unfolding held_rel_def hs using held_r' clean held_relD(4) [OF held] by blast
  have confs: "fst ` set hs' = s_conf ` (S - {sub})"
    using rel_confs [OF rel_h] unfolding hs map_of_dom by blast
  have same: "?c \<in> s_conf ` (S - {sub})" if "h' \<noteq> []"
    using that rel_confs [OF rel_h, of ?c] by (simp add: hs hs'_def)
  have "highestNumConfirmations r' = Max (insert 0 (s_conf ` (S - {sub})))"
  proof (cases "h' = []")
    case True
    then show ?thesis by (simp add: r'_def resetHighestNumConfirmationsValue_def fold_max_confs confs del: Max_insert)
  next
    case False
    have "s_conf ` (S - {sub}) = s_conf ` S" using same [OF False] mem by auto
    then show ?thesis using False rel by (simp add: r'_def n1 reg_rel_def)
  qed
  moreover have "checks_rel r' (S - {sub})" using rel1 by (simp add: checks_rel_def r'_def resetHighestNumConfirmationsValue_def)
  ultimately have rel': "reg_rel r' (S - {sub})" using fin rel_h by (simp add: reg_rel_def)
  have here: "handler_get h' ?a t = None \<longleftrightarrow> \<not> (\<exists>s \<in> S - {sub}. s_conf s = ?c \<and> wants s ?a t)" for t
  proof (cases "h' = []")
    case True
    then have "map_of (handlersByConfs r') ?c = None" by (simp add: hs hs'_def)
    then have "?c \<notin> s_conf ` (S - {sub})" using rel_confs [OF rel_h, of ?c] by simp
    then show ?thesis by (simp add: True handler_get_def image_iff) metis
  next
    case False
    then have "map_of (handlersByConfs r') ?c = Some h'" by (simp add: hs hs'_def)
    then show ?thesis using rel_get [OF rel_h, of ?c h' ?a t] by auto
  qed
  have "listened others ?a t \<longleftrightarrow> (\<exists>s \<in> S. s_conf s \<noteq> ?c \<and> wants s ?a t)" for t
    unfolding others_def using rel_listened [OF held, of "\<lambda>c. c \<noteq> ?c"] by simp
  then have "needs \<longleftrightarrow> (\<exists>t \<in> fst ` set (s_topics sub). \<forall>s \<in> S - {sub}. \<not> wants s ?a t)"
    unfolding needs here by auto
  with run rel' show ?thesis using that by blast
qed


section \<open>Sending\<close>

record log_broadcast =
  lb_BlockHash :: hash
  lb_Consumed :: bool
  lb_LogIndex :: u64
  lb_JobID :: int

type_synonym broadcast_key = "hash \<times> u64 \<times> int"

definition AsKey :: "log_broadcast \<Rightarrow> broadcast_key" where
  "AsKey b = (lb_BlockHash b, lb_LogIndex b, lb_JobID b)"

definition NewLogBroadcastAsKey :: "eth_log \<Rightarrow> subscriber \<Rightarrow> broadcast_key" where
  "NewLogBroadcastAsKey l s = (BlockHash l, Index l, s_job s)"

text \<open>The loop stops at the first index without a value found.\<close>

fun filtersContainValues :: "hash list \<Rightarrow> hash list list \<Rightarrow> bool" where
  "filtersContainValues (v # vs) (f # fs) = ((f = [] \<or> v \<in> set f) \<and> filtersContainValues vs fs)"
| "filtersContainValues _ _ = True"

text \<open>\<open>parses\<close> is the subscriber's \<^verbatim>\<open>ParseLog\<close>, \<open>creates\<close> whether \<^verbatim>\<open>CreateBroadcast\<close> succeeds. The result is the list of
  broadcasts created, with their block numbers, and the list of deliveries.\<close>

definition sendLogTo :: "(subscriber \<Rightarrow> eth_log \<Rightarrow> bool) \<Rightarrow> (broadcast_key \<Rightarrow> bool) \<Rightarrow> (broadcast_key \<rightharpoonup> bool) \<Rightarrow> eth_log \<Rightarrow>
    subscriber \<times> hash list list \<Rightarrow> (broadcast_key \<times> u64) list \<times> (subscriber \<times> eth_log) list" where
  "sendLogTo parses creates broadcasts l sf =
    (case sf of (sub, filters) \<Rightarrow>
       let key = NewLogBroadcastAsKey l sub
       in if broadcasts key = Some True then ([], [])
          else if filters \<noteq> [] \<and> length (Topics l) > 1 \<and> \<not> filtersContainValues (tl (Topics l)) filters then ([], [])
          else if \<not> parses sub l then ([], [])
          else if broadcasts key = None
               then (if creates key then ([(key, BlockNumber l)], [(sub, l)]) else ([], []))
          else ([], [(sub, l)]))"

text \<open>A log without topics would be an index out of range; the node only sends logs of the subscribed topics.\<close>

definition sendLog :: "(subscriber \<Rightarrow> eth_log \<Rightarrow> bool) \<Rightarrow> (broadcast_key \<Rightarrow> bool) \<Rightarrow> (broadcast_key \<rightharpoonup> bool) \<Rightarrow> handler \<Rightarrow> eth_log \<Rightarrow>
    ((broadcast_key \<times> u64) list \<times> (subscriber \<times> eth_log) list) option" where
  "sendLog parses creates broadcasts h l =
    (case Topics l of [] \<Rightarrow> None
     | topic # _ \<Rightarrow>
         let rs = map (sendLogTo parses creates broadcasts l) (case handler_get h (Address l) topic of None \<Rightarrow> [] | Some subs \<Rightarrow> subs)
         in Some (concat (map fst rs), concat (map snd rs)))"

definition isOldEnough :: "u32 \<Rightarrow> u64 \<Rightarrow> u64 \<Rightarrow> bool" where
  "isOldEnough numConfirmations blockNumber latest \<longleftrightarrow>
    (numConfirmations = 0 \<or> blockNumber + ucast numConfirmations - 1 \<le> latest)"

definition tooYoung :: "u32 \<Rightarrow> u64 \<Rightarrow> bool" where
  "tooYoung numConfirmations latest \<longleftrightarrow> numConfirmations \<noteq> 0 \<and> latest < ucast numConfirmations"

text \<open>What is sent: pairs of a handler and a log, block by block, handler by handler.\<close>

definition sendPairs :: "(u32 \<times> handler) list \<Rightarrow> u64 \<Rightarrow> logsOnBlock list \<Rightarrow> (handler \<times> eth_log) list" where
  "sendPairs hs latest logsToSend =
    concat (map (\<lambda>b. concat (map (\<lambda>(c, h). if tooYoung c latest \<or> \<not> isOldEnough c (lob_BlockNumber b) latest then []
                                       else map (Pair h) (lob_Logs b)) hs)) logsToSend)"

definition existingBroadcasts :: "log_broadcast list \<Rightarrow> broadcast_key \<rightharpoonup> bool" where
  "existingBroadcasts broadcasts = fold (\<lambda>b m. m(AsKey b \<mapsto> lb_Consumed b)) broadcasts Map.empty"

definition sendLogs :: "(subscriber \<Rightarrow> eth_log \<Rightarrow> bool) \<Rightarrow> (broadcast_key \<Rightarrow> bool) \<Rightarrow> registrations \<Rightarrow> logsOnBlock list \<Rightarrow> int \<Rightarrow>
    log_broadcast list \<Rightarrow> ((broadcast_key \<times> u64) list \<times> (subscriber \<times> eth_log) list) option" where
  "sendLogs parses creates r logsToSend latestHeadNumber broadcasts =
    (let existing = existingBroadcasts broadcasts;
         rs = map (\<lambda>(h, l). sendLog parses creates existing h l) (sendPairs (handlersByConfs r) (to_u64 latestHeadNumber) logsToSend)
     in if None \<in> set rs then None
        else Some (concat (map (fst \<circ> the) rs), concat (map (snd \<circ> the) rs)))"


lemma uint_conf [simp]: "uint (ucast (c :: u32) :: u64) = uint c"
  by (simp add: unsigned_ucast_eq take_bit_int_eq_self_iff) (use uint_lt2p [of c] in simp)

lemma old_enough:
  assumes "c \<noteq> 0" and "bn \<noteq> 0" and "uint bn + uint c < 2 ^ 64"
  shows "\<not> tooYoung c latest \<and> isOldEnough c bn latest \<longleftrightarrow> uint bn + uint c - 1 \<le> uint latest"
proof -
  have b: "1 \<le> uint bn" using assms(2) uint_ge_0 [of bn] uint_0_iff [of bn] by linarith
  have sum: "uint (bn + ucast c) = uint bn + uint c" using assms(3) by (subst uint_add_lem [THEN iffD1]) simp_all
  have "uint (bn + ucast c - 1) = uint bn + uint c - 1"
    using b by (subst uint_sub_lem [THEN iffD1]) (simp_all add: sum add_increasing2)
  then show ?thesis using assms(1) b by (auto simp: tooYoung_def isOldEnough_def word_less_def word_le_def)
qed

definition should_get :: "(subscriber \<Rightarrow> eth_log \<Rightarrow> bool) \<Rightarrow> (broadcast_key \<Rightarrow> bool) \<Rightarrow> (broadcast_key \<rightharpoonup> bool) \<Rightarrow> subscriber \<Rightarrow> eth_log \<Rightarrow> bool" where
  "should_get parses creates broadcasts s l \<longleftrightarrow>
    (case Topics l of [] \<Rightarrow> False
     | topic # vs \<Rightarrow>
        s_contract s = Address l \<and>
        (case map_of (s_topics s) topic of None \<Rightarrow> False
         | Some filters \<Rightarrow> \<forall>i < min (length vs) (length filters). filters ! i = [] \<or> vs ! i \<in> set (filters ! i)) \<and>
        broadcasts (NewLogBroadcastAsKey l s) \<noteq> Some True \<and> parses s l \<and>
        (broadcasts (NewLogBroadcastAsKey l s) = None \<longrightarrow> creates (NewLogBroadcastAsKey l s)))"

lemma filtersContainValues_iff:
  "filtersContainValues vs fs \<longleftrightarrow> (\<forall>i < min (length vs) (length fs). fs ! i = [] \<or> vs ! i \<in> set (fs ! i))"
proof (induction vs fs rule: filtersContainValues.induct)
  case (1 v vs f fs)
  have "(\<forall>i < Suc k. P i) \<longleftrightarrow> P 0 \<and> (\<forall>i < k. P (Suc i))" for k and P :: "nat \<Rightarrow> bool"
    by (auto simp: less_Suc_eq_0_disj)
  then show ?case using 1 by simp
qed simp_all

lemma sendLogTo_delivers:
  "Topics l = topic # vs \<Longrightarrow> (s', l') \<in> set (snd (sendLogTo parses creates bs l (s, filters))) \<longleftrightarrow>
    s' = s \<and> l' = l \<and> filtersContainValues vs filters \<and> bs (NewLogBroadcastAsKey l s) \<noteq> Some True \<and> parses s l \<and>
      (bs (NewLogBroadcastAsKey l s) = None \<longrightarrow> creates (NewLogBroadcastAsKey l s))"
  by (cases vs; cases filters) (auto simp: sendLogTo_def Let_def)

lemma sendLog_delivers:
  assumes "Topics l = topic # vs" and "no_empty_topics h"
  shows "\<exists>cs ds. sendLog parses creates bs h l = Some (cs, ds) \<and>
    (\<forall>s l'. (s, l') \<in> set ds \<longleftrightarrow> l' = l \<and> (\<exists>filters. held h (Address l) topic s = Some filters \<and> filtersContainValues vs filters) \<and>
      bs (NewLogBroadcastAsKey l s) \<noteq> Some True \<and> parses s l \<and> (bs (NewLogBroadcastAsKey l s) = None \<longrightarrow> creates (NewLogBroadcastAsKey l s)))"
proof (cases "handler_get h (Address l) topic")
  case None
  then show ?thesis by (simp add: sendLog_def assms(1) held_def)
next
  case (Some subs)
  then have d: "distinct (map fst subs)" using handler_get_subs_ok [OF assms(2) Some] by (simp add: subs_ok_def)
  let ?ds = "concat (map snd (map (sendLogTo parses creates bs l) subs))"
  have "(s, l') \<in> set ?ds \<longleftrightarrow>
      l' = l \<and> (\<exists>filters. held h (Address l) topic s = Some filters \<and> filtersContainValues vs filters) \<and>
      bs (NewLogBroadcastAsKey l s) \<noteq> Some True \<and> parses s l \<and> (bs (NewLogBroadcastAsKey l s) = None \<longrightarrow> creates (NewLogBroadcastAsKey l s))" for s l'
  proof -
    have "(s, l') \<in> set ?ds \<longleftrightarrow> (\<exists>s1 f. (s1, f) \<in> set subs \<and> (s, l') \<in> set (snd (sendLogTo parses creates bs l (s1, f))))"
      by (auto simp: Bex_def)
    then show ?thesis unfolding sendLogTo_delivers [OF assms(1)] in_set_map_of [OF d] held_def Some by auto
  qed
  then show ?thesis by (simp add: sendLog_def assms(1) Some)
qed


lemma in_concat_map_pairs: "x \<in> set (concat (map f ps)) \<longleftrightarrow> (\<exists>a b. (a, b) \<in> set ps \<and> x \<in> set (f (a, b)))"
  by (induction ps) auto

lemma set_sendPairs:
  "(h, l) \<in> set (sendPairs hs latest logsToSend) \<longleftrightarrow>
    (\<exists>c b. (c, h) \<in> set hs \<and> b \<in> set logsToSend \<and> l \<in> set (lob_Logs b) \<and> \<not> tooYoung c latest \<and> isOldEnough c (lob_BlockNumber b) latest)"
  by (force simp: sendPairs_def split: if_splits)

lemma rel_sendPairs:
  assumes "reg_rel r S" and "\<And>b. b \<in> set logsToSend \<Longrightarrow> lob_BlockNumber b \<noteq> 0 \<and> (\<forall>s \<in> S. uint (lob_BlockNumber b) + uint (s_conf s) < 2 ^ 64)"
  shows "(\<exists>h. (h, l) \<in> set (sendPairs (handlersByConfs r) latest logsToSend) \<and> held h a t s = Some f) \<longleftrightarrow>
    s \<in> S \<and> s_contract s = a \<and> map_of (s_topics s) t = Some f \<and>
    (\<exists>b \<in> set logsToSend. l \<in> set (lob_Logs b) \<and> uint (lob_BlockNumber b) + uint (s_conf s) - 1 \<le> uint latest)"
proof -
  have held: "held_rel r S" using assms(1) by (simp add: reg_rel_def)
  have key: "((c, h) \<in> set (handlersByConfs r) \<and> held h a t s = Some f) \<longleftrightarrow> map_of (handlersByConfs r) c = Some h \<and> reg_held r c a t s = Some f" for c h
    by (auto simp: in_set_map_of [OF held_relD(3) [OF held]] reg_held_def)
  have old: "\<not> tooYoung (s_conf s) latest \<and> isOldEnough (s_conf s) (lob_BlockNumber b) latest \<longleftrightarrow>
      uint (lob_BlockNumber b) + uint (s_conf s) - 1 \<le> uint latest" if "s \<in> S" "b \<in> set logsToSend" for b
    using old_enough [of "s_conf s"] held_relD(4) [OF held that(1)] assms(2) [OF that(2)] that(1) by (simp add: sub_ok_def)
  have "(\<exists>h. (h, l) \<in> set (sendPairs (handlersByConfs r) latest logsToSend) \<and> held h a t s = Some f) \<longleftrightarrow>
      (\<exists>c h b. (map_of (handlersByConfs r) c = Some h \<and> reg_held r c a t s = Some f) \<and> b \<in> set logsToSend \<and> l \<in> set (lob_Logs b) \<and>
         \<not> tooYoung c latest \<and> isOldEnough c (lob_BlockNumber b) latest)"
    unfolding set_sendPairs key [symmetric] by blast
  also have "\<dots> \<longleftrightarrow> (\<exists>c b. reg_held r c a t s = Some f \<and> b \<in> set logsToSend \<and> l \<in> set (lob_Logs b) \<and> \<not> tooYoung c latest \<and> isOldEnough c (lob_BlockNumber b) latest)"
    by (auto simp: reg_held_def split: option.splits)
  also have "\<dots> \<longleftrightarrow> s \<in> S \<and> s_contract s = a \<and> map_of (s_topics s) t = Some f \<and>
      (\<exists>b \<in> set logsToSend. l \<in> set (lob_Logs b) \<and> uint (lob_BlockNumber b) + uint (s_conf s) - 1 \<le> uint latest)"
    unfolding held_relD(2) [OF held] using old by (auto split: if_splits)
  finally show ?thesis .
qed

lemma should_get_iff:
  "Topics l = topic # vs \<Longrightarrow> should_get parses creates bs s l \<longleftrightarrow> s_contract s = Address l \<and>
     (\<exists>filters. map_of (s_topics s) topic = Some filters \<and> filtersContainValues vs filters) \<and>
     bs (NewLogBroadcastAsKey l s) \<noteq> Some True \<and> parses s l \<and> (bs (NewLogBroadcastAsKey l s) = None \<longrightarrow> creates (NewLogBroadcastAsKey l s))"
  by (auto simp: should_get_def filtersContainValues_iff split: option.splits)

lemma sendLogs_spec:
  assumes rel: "reg_rel r S"
    and logs: "\<And>b. b \<in> set logsToSend \<Longrightarrow> lob_BlockNumber b \<noteq> 0 \<and> (\<forall>s \<in> S. uint (lob_BlockNumber b) + uint (s_conf s) < 2 ^ 64)
      \<and> (\<forall>l \<in> set (lob_Logs b). Topics l \<noteq> [])"
  shows "\<exists>created ds. sendLogs parses creates r logsToSend latest broadcasts = Some (created, ds) \<and>
    (\<forall>s l. (s, l) \<in> set ds \<longleftrightarrow> s \<in> S \<and> should_get parses creates (existingBroadcasts broadcasts) s l \<and>
      (\<exists>b \<in> set logsToSend. l \<in> set (lob_Logs b) \<and> uint (lob_BlockNumber b) + uint (s_conf s) - 1 \<le> uint (to_u64 latest)))"
proof -
  let ?bs = "existingBroadcasts broadcasts"
  let ?P = "sendPairs (handlersByConfs r) (to_u64 latest) logsToSend"
  let ?send = "\<lambda>(h, l). sendLog parses creates ?bs h l"
  define ok where "ok s l \<longleftrightarrow> ?bs (NewLogBroadcastAsKey l s) \<noteq> Some True \<and> parses s l \<and>
      (?bs (NewLogBroadcastAsKey l s) = None \<longrightarrow> creates (NewLogBroadcastAsKey l s))" for s :: subscriber and l :: eth_log
  define hit where "hit h l s f \<longleftrightarrow> held h (Address l) (hd (Topics l)) s = Some f \<and> filtersContainValues (tl (Topics l)) f" for h f and s :: subscriber and l :: eth_log
  define due where "due s l \<longleftrightarrow> (\<exists>b \<in> set logsToSend. l \<in> set (lob_Logs b) \<and> uint (lob_BlockNumber b) + uint (s_conf s) - 1 \<le> uint (to_u64 latest))" for s :: subscriber and l :: eth_log
  have held: "held_rel r S" using rel by (simp add: reg_rel_def)
  have topics: "Topics l \<noteq> []" if "due s l" for s l using that logs by (auto simp: due_def)
  have one: "\<exists>cs ds. sendLog parses creates ?bs h l = Some (cs, ds) \<and> (\<forall>s l'. (s, l') \<in> set ds \<longleftrightarrow> l' = l \<and> (\<exists>f. hit h l s f) \<and> ok s l)"
    if mem: "(h, l) \<in> set ?P" for h l
  proof -
    obtain c b where cb: "(c, h) \<in> set (handlersByConfs r)" "b \<in> set logsToSend" "l \<in> set (lob_Logs b)"
      using mem unfolding set_sendPairs by blast
    then have "Topics l \<noteq> []" using logs by blast
    then have t: "Topics l = hd (Topics l) # tl (Topics l)" by simp
    have "no_empty_topics h" using held_relD(1) [OF held, of c h] cb(1) in_set_map_of [OF held_relD(3) [OF held]] by simp
    from sendLog_delivers [OF t this] show ?thesis unfolding ok_def hit_def .
  qed
  have sent: "(s, l') \<in> set (snd (the (sendLog parses creates ?bs h l))) \<longleftrightarrow> l' = l \<and> (\<exists>f. hit h l s f) \<and> ok s l"
    if "(h, l) \<in> set ?P" for h l s l'
    using one [OF that] by (elim exE conjE) simp
  have "sendLog parses creates ?bs h l \<noteq> None" if "(h, l) \<in> set ?P" for h l using one [OF that] by auto
  then have "None \<notin> set (map ?send ?P)" by force
  then have run: "sendLogs parses creates r logsToSend latest broadcasts =
      Some (concat (map (fst \<circ> the) (map ?send ?P)), concat (map (snd \<circ> the) (map ?send ?P)))"
    by (simp add: sendLogs_def Let_def)
  have "(s, l) \<in> set (concat (map (snd \<circ> the) (map ?send ?P))) \<longleftrightarrow> s \<in> S \<and> should_get parses creates ?bs s l \<and> due s l" for s l
  proof -
    have "(s, l) \<in> set (concat (map (snd \<circ> the) (map ?send ?P))) \<longleftrightarrow>
        (\<exists>h l1. (h, l1) \<in> set ?P \<and> (s, l) \<in> set (snd (the (sendLog parses creates ?bs h l1))))"
      unfolding in_concat_map_pairs map_map by simp
    also have "\<dots> \<longleftrightarrow> (\<exists>h l1. (h, l1) \<in> set ?P \<and> l = l1 \<and> (\<exists>f. hit h l1 s f) \<and> ok s l1)"
      by (simp add: sent cong: conj_cong)
    also have "\<dots> \<longleftrightarrow> (\<exists>f. (\<exists>h. (h, l) \<in> set ?P \<and> hit h l s f)) \<and> ok s l" by blast
    also have "\<dots> \<longleftrightarrow> (\<exists>f. (\<exists>h. (h, l) \<in> set ?P \<and> held h (Address l) (hd (Topics l)) s = Some f) \<and> filtersContainValues (tl (Topics l)) f) \<and> ok s l"
      unfolding hit_def by blast
    also have "\<dots> \<longleftrightarrow> (\<exists>f. (s \<in> S \<and> s_contract s = Address l \<and> map_of (s_topics s) (hd (Topics l)) = Some f \<and> due s l) \<and>
        filtersContainValues (tl (Topics l)) f) \<and> ok s l"
    proof -
      have "lob_BlockNumber b \<noteq> 0 \<and> (\<forall>s \<in> S. uint (lob_BlockNumber b) + uint (s_conf s) < 2 ^ 64)" if "b \<in> set logsToSend" for b
        using logs [OF that] by blast
      note rel_sendPairs [OF rel this]
      then show ?thesis unfolding due_def by simp
    qed
    also have "\<dots> \<longleftrightarrow> s \<in> S \<and> should_get parses creates ?bs s l \<and> due s l"
    proof (cases "Topics l")
      case Nil
      then have "\<not> due s l" using topics by blast
      then show ?thesis by simp
    next
      case (Cons topic vs)
      show ?thesis unfolding should_get_iff [OF Cons] ok_def Cons list.sel by blast
    qed
    finally show ?thesis .
  qed
  with run show ?thesis unfolding due_def by blast
qed


section \<open>The subscription at the node\<close>

lemma registered_iff:
  assumes "reg_rel r S"
  shows "isAddressRegistered r a \<longleftrightarrow> a \<in> s_contract ` S"
proof -
  have held: "held_rel r S" using assms by (simp add: reg_rel_def)
  have "isAddressRegistered r a \<longleftrightarrow> (\<exists>c h t. map_of (handlersByConfs r) c = Some h \<and> handler_get h a t \<noteq> None)"
  proof
    assume "isAddressRegistered r a"
    then obtain c h m where h: "map_of (handlersByConfs r) c = Some h" and m: "map_of h a = Some m"
      using in_set_map_of [OF held_relD(3) [OF held]] by (auto simp: isAddressRegistered_def handler_isAddressRegistered_def)
    then have "m \<noteq> []" using held_relD(1) [OF held h] no_emptyD(1) by blast
    then obtain t subs where "map_of m t = Some subs" using map_of_nonempty [THEN iffD1] by blast
    with h m show "\<exists>c h t. map_of (handlersByConfs r) c = Some h \<and> handler_get h a t \<noteq> None"
      by (intro exI [of _ c] exI [of _ h] exI [of _ t]) (simp add: handler_get_def)
  next
    assume "\<exists>c h t. map_of (handlersByConfs r) c = Some h \<and> handler_get h a t \<noteq> None"
    then show "isAddressRegistered r a" using in_set_map_of [OF held_relD(3) [OF held]]
      by (fastforce simp: isAddressRegistered_def handler_isAddressRegistered_def handler_get_def split: option.splits)
  qed
  also have "\<dots> \<longleftrightarrow> (\<exists>s \<in> S. \<exists>t. wants s a t)"
    using rel_get [OF held] rel_confs [OF held] by (metis imageI not_None_eq)
  also have "\<dots> \<longleftrightarrow> a \<in> s_contract ` S"
    using held_relD(4) [OF held] by (fastforce simp: wants_def sub_ok_def neq_Nil_conv)
  finally show ?thesis .
qed

section \<open>Properties\<close>

text \<open>C4: the nested maps of the registrations implement a set of subscribers. Adding a subscriber that waits for
  a confirmation, listens to some topic and shares no job and contract with another one adds exactly it, and asks for a new
  subscription at the node exactly if some topic was not listened to with at least as many confirmations; any
  other subscriber is refused. Removing a registered one removes exactly it without a panic, and asks for a new subscription exactly
  if some topic is left without a listener; the number that decides how long logs are kept is always the highest one of the set.\<close>
theorem registrations_refine_set:
  assumes "reg_rel r S"
  shows "(sub_ok sub \<and> sub \<notin> S \<and> unique_job sub S \<longrightarrow>
      (\<exists>r' needs. addSubscriber sub r = Inr (r', needs) \<and> reg_rel r' (insert sub S) \<and>
        (needs \<longleftrightarrow> (\<exists>t \<in> fst ` set (s_topics sub). \<forall>s \<in> S. s_conf sub \<le> s_conf s \<longrightarrow> \<not> wants s (s_contract sub) t)))) \<and>
    (s_conf sub = 0 \<or> sub \<in> S \<or> \<not> unique_job sub S \<longrightarrow> (\<exists>e. addSubscriber sub r = Inl e)) \<and>
    (sub \<in> S \<longrightarrow>
      (\<exists>r' needs. removeSubscriber sub r = Inr (r', needs) \<and> reg_rel r' (S - {sub}) \<and>
        (needs \<longleftrightarrow> (\<exists>t \<in> fst ` set (s_topics sub). \<forall>s \<in> S - {sub}. \<not> wants s (s_contract sub) t)))) \<and>
    (sub \<notin> S \<longrightarrow> removeSubscriber sub r = Inl NotRegistered)"
proof (intro conjI impI)
  assume "s_conf sub = 0 \<or> sub \<in> S \<or> \<not> unique_job sub S"
  then have "s_conf sub = 0 \<or> sub \<in> set (registeredSubs r) \<or> s_contract sub \<in> set (get_or [] (map_of (jobIDAddrs r)) (s_job sub))"
    using assms by (auto simp: reg_rel_def checks_rel_def unique_job_def)
  then show "\<exists>e. addSubscriber sub r = Inl e" by (auto simp: addSubscriber_def checkAddSubscriber_def Let_def)
next
  assume "sub \<notin> S"
  then show "removeSubscriber sub r = Inl NotRegistered"
    using assms by (auto simp: removeSubscriber_def checkRemoveSubscriber_def reg_rel_def checks_rel_def)
next
  assume new: "sub_ok sub \<and> sub \<notin> S \<and> unique_job sub S"
  show "\<exists>r' needs. addSubscriber sub r = Inr (r', needs) \<and> reg_rel r' (insert sub S) \<and>
        (needs \<longleftrightarrow> (\<exists>t \<in> fst ` set (s_topics sub). \<forall>s \<in> S. s_conf sub \<le> s_conf s \<longrightarrow> \<not> wants s (s_contract sub) t))"
    by (rule addSubscriber_ok [OF assms, of sub]) (use new in blast)+
next
  assume mem: "sub \<in> S"
  show "\<exists>r' needs. removeSubscriber sub r = Inr (r', needs) \<and> reg_rel r' (S - {sub}) \<and>
        (needs \<longleftrightarrow> (\<exists>t \<in> fst ` set (s_topics sub). \<forall>s \<in> S - {sub}. \<not> wants s (s_contract sub) t))"
    by (rule removeSubscriber_ok [OF assms mem]) blast
qed

definition sub1 :: subscriber where
  "sub1 = \<lparr>s_ptr = 1, s_job = 7, s_contract = 5, s_topics = [(11, []), (12, [[3]])], s_conf = 3, s_replay = False\<rparr>"

definition sub2 :: subscriber where
  "sub2 = \<lparr>s_ptr = 2, s_job = 8, s_contract = 5, s_topics = [(11, [])], s_conf = 2, s_replay = False\<rparr>"

theorem registrations_refine_set_witness:
  "\<exists>r1 r2 r3. addSubscriber sub1 newRegistrations = Inr (r1, True) \<and> addSubscriber sub2 r1 = Inr (r2, False) \<and>
     highestNumConfirmations r2 = 3 \<and> removeSubscriber sub1 r2 = Inr (r3, True) \<and> reg_rel r3 {sub2} \<and> highestNumConfirmations r3 = 2"
proof -
  have ok: "sub_ok sub1" "sub_ok sub2" by (simp_all add: sub_ok_def sub1_def sub2_def)
  have ne: "sub2 \<noteq> sub1" "unique_job sub2 {sub1}" by (simp_all add: unique_job_def sub1_def sub2_def)
  have e: "(\<exists>t::hash. t = 11 \<or> t = 12) = True" by blast
  have t: "fst ` set (s_topics sub1) = {11, 12}" by (auto simp: sub1_def)
  obtain r1 where r1: "addSubscriber sub1 newRegistrations = Inr (r1, True)" "reg_rel r1 {sub1}"
    using registrations_refine_set [OF reg_rel_new, of sub1] ok unfolding t by (auto simp: unique_job_def e)
  obtain r2 n2 where r2: "addSubscriber sub2 r1 = Inr (r2, n2)" "reg_rel r2 {sub2, sub1}" "\<not> n2"
    using registrations_refine_set [OF r1(2), of sub2] ok ne by (auto simp: wants_def sub1_def sub2_def)
  have one: "{sub2, sub1} - {sub1} = {sub2}" using ne by auto
  have n: "(\<exists>t \<in> fst ` set (s_topics sub1). \<forall>s \<in> {sub2}. \<not> wants s (s_contract sub1) t) = True"
    unfolding t by (auto simp: wants_def sub1_def sub2_def)
  obtain r3 where r3: "removeSubscriber sub1 r2 = Inr (r3, True)" "reg_rel r3 {sub2}"
    using registrations_refine_set [OF r2(2), of sub1] unfolding one n by auto
  show ?thesis using r1 r2 r3 by (auto simp: reg_rel_def sub1_def sub2_def)
qed

text \<open>C5: sending is equivalent to its specification: for logs of blocks above the first one, whose heights do not
  reach the end of the 64-bit range, the deliveries are exactly the pairs of a registered subscriber and a log of its contract and
  one of its topics that passes its filters, is deep enough for it, is not marked consumed for its job, is parsed, and whose
  broadcast row exists or can be created; the shortcut that skips subscribers by the head number alone changes nothing.\<close>
theorem sendLogs_equiv_spec:
  assumes "reg_rel r S"
    and "\<forall>b \<in> set logsToSend. lob_BlockNumber b \<noteq> 0 \<and> (\<forall>s \<in> S. uint (lob_BlockNumber b) + uint (s_conf s) < 2 ^ 64)
      \<and> (\<forall>l \<in> set (lob_Logs b). Topics l \<noteq> [])"
  shows "\<exists>created ds. sendLogs parses creates r logsToSend latest broadcasts = Some (created, ds) \<and>
    (\<forall>s l. (s, l) \<in> set ds \<longleftrightarrow> s \<in> S \<and> should_get parses creates (existingBroadcasts broadcasts) s l \<and>
      (\<exists>b \<in> set logsToSend. l \<in> set (lob_Logs b) \<and> uint (lob_BlockNumber b) + uint (s_conf s) - 1 \<le> uint (to_u64 latest)))"
  using assms(2) by (intro sendLogs_spec [OF assms(1)]) blast

definition log5 :: eth_log where
  "log5 = \<lparr>Address = 5, Topics = [11], Data = [], BlockNumber = 7, TxHash = 1, TxIndex = 0, BlockHash = 9, Index = 0, Removed = False\<rparr>"

theorem sendLogs_equiv_spec_witness:
  "\<exists>r created ds. addSubscriber sub1 newRegistrations = Inr (r, True) \<and>
    sendLogs (\<lambda>_ _. True) (\<lambda>_. True) r [\<lparr>lob_BlockNumber = 7, lob_Logs = [log5]\<rparr>] 9 [] = Some (created, ds) \<and> (sub1, log5) \<in> set ds \<and>
    (\<exists>created. sendLogs (\<lambda>_ _. True) (\<lambda>_. True) r [\<lparr>lob_BlockNumber = 7, lob_Logs = [log5]\<rparr>] 8 [] = Some (created, []))"
proof -
  let ?b = "[\<lparr>lob_BlockNumber = 7, lob_Logs = [log5]\<rparr>]"
  have ok: "sub_ok sub1" "unique_job sub1 {}" by (simp_all add: sub_ok_def sub1_def unique_job_def)
  obtain r n where r: "addSubscriber sub1 newRegistrations = Inr (r, n)" "reg_rel r {sub1}" "n"
    using addSubscriber_ok [OF reg_rel_new ok(1) _ ok(2)] ok(1) by (auto simp: sub_ok_def)
  have pre: "\<forall>b \<in> set ?b. lob_BlockNumber b \<noteq> 0 \<and> (\<forall>s \<in> {sub1}. uint (lob_BlockNumber b) + uint (s_conf s) < 2 ^ 64) \<and> (\<forall>l \<in> set (lob_Logs b). Topics l \<noteq> [])"
    by (simp add: sub1_def log5_def)
  note send = sendLogs_equiv_spec [OF r(2) pre, of "\<lambda>_ _. True" "\<lambda>_. True" _ "[]"]
  obtain c ds where ds: "sendLogs (\<lambda>_ _. True) (\<lambda>_. True) r ?b 9 [] = Some (c, ds)" "(sub1, log5) \<in> set ds"
    using send [of 9] by (auto simp: should_get_def existingBroadcasts_def sub1_def log5_def to_u64_def)
  obtain c' ds' where ds': "sendLogs (\<lambda>_ _. True) (\<lambda>_. True) r ?b 8 [] = Some (c', ds')" "\<forall>s l. (s, l) \<notin> set ds'"
    using send [of 8] by (auto simp: should_get_def existingBroadcasts_def sub1_def log5_def to_u64_def)
  then have "ds' = []" by (cases ds') auto
  then show ?thesis using r ds ds' by (intro exI [of _ r] exI [of _ c] exI [of _ ds]) auto
qed

end
