(* ===== verification/Log_ORM.thy ===== *)
theory Log_ORM
  imports Log_Registrations
begin

text \<open>
  The tables behind the log broadcaster (\<^verbatim>\<open>core/chains/evm/log/orm.go\<close>): which job has consumed which log,
  and the lowest block that has logs waiting in the pool. Only the rows of one chain are modelled, since every query is
  restricted to it. A query either runs as a whole or fails; which ones fail is a parameter where a function runs several.
\<close>

section \<open>Tables\<close>

record broadcast_row =
  br_BlockHash :: hash
  br_BlockNumber :: "int option"      \<comment> \<open>NULL in rows of older versions\<close>
  br_LogIndex :: u64
  br_JobID :: int
  br_Consumed :: bool

record log_db =
  db_rows :: "broadcast_row list"
  db_pending :: "int option option"   \<comment> \<open>no row, or a row with a possibly NULL number\<close>

definition row_key :: "broadcast_row \<Rightarrow> broadcast_key" where
  "row_key r = (br_BlockHash r, br_LogIndex r, br_JobID r)"

definition WasBroadcastConsumed :: "hash \<Rightarrow> u64 \<Rightarrow> int \<Rightarrow> log_db \<Rightarrow> bool" where
  "WasBroadcastConsumed blockHash logIndex jobID db =
    (case find (\<lambda>r. row_key r = (blockHash, logIndex, jobID)) (db_rows db) of None \<Rightarrow> False | Some r \<Rightarrow> br_Consumed r)"

definition FindBroadcasts :: "int \<Rightarrow> int \<Rightarrow> log_db \<Rightarrow> log_broadcast list" where
  "FindBroadcasts from to db =
    map (\<lambda>r. \<lparr>lb_BlockHash = br_BlockHash r, lb_Consumed = br_Consumed r, lb_LogIndex = br_LogIndex r, lb_JobID = br_JobID r\<rparr>)
      (filter (\<lambda>r. case br_BlockNumber r of None \<Rightarrow> False | Some n \<Rightarrow> from \<le> n \<and> n \<le> to) (db_rows db))"

text \<open>\<open>None\<close>: the insert breaks the unique key.\<close>

definition CreateBroadcast :: "hash \<Rightarrow> int \<Rightarrow> u64 \<Rightarrow> int \<Rightarrow> log_db \<Rightarrow> log_db option" where
  "CreateBroadcast blockHash blockNumber logIndex jobID db =
    (let r = \<lparr>br_BlockHash = blockHash, br_BlockNumber = Some blockNumber, br_LogIndex = logIndex, br_JobID = jobID, br_Consumed = False\<rparr>
     in if row_key r \<in> row_key ` set (db_rows db) then None else Some (db\<lparr>db_rows := db_rows db @ [r]\<rparr>))"

definition MarkBroadcastConsumed :: "hash \<Rightarrow> int \<Rightarrow> u64 \<Rightarrow> int \<Rightarrow> log_db \<Rightarrow> log_db" where
  "MarkBroadcastConsumed blockHash blockNumber logIndex jobID db =
    (let r = \<lparr>br_BlockHash = blockHash, br_BlockNumber = Some blockNumber, br_LogIndex = logIndex, br_JobID = jobID, br_Consumed = True\<rparr>
     in if row_key r \<in> row_key ` set (db_rows db)
        then db\<lparr>db_rows := map (\<lambda>x. if row_key x = row_key r then x\<lparr>br_Consumed := True\<rparr> else x) (db_rows db)\<rparr>
        else db\<lparr>db_rows := db_rows db @ [r]\<rparr>)"

fun AllEqual :: "'a list \<Rightarrow> bool" where
  "AllEqual [] = True"
| "AllEqual (x # xs) = (\<forall>y \<in> set xs. y = x)"

text \<open>One statement inserts all rows: no rows are an error, and so are two of the same key, since a statement with
  \<^verbatim>\<open>ON CONFLICT DO UPDATE\<close> may not change a row twice.\<close>

definition MarkBroadcastsConsumed :: "hash list \<Rightarrow> int list \<Rightarrow> u64 list \<Rightarrow> int list \<Rightarrow> log_db \<Rightarrow> log_db option" where
  "MarkBroadcastsConsumed blockHashes blockNumbers logIndexes jobIDs db =
    (if \<not> AllEqual [length blockHashes, length blockNumbers, length logIndexes, length jobIDs] \<or> blockHashes = [] \<or>
        \<not> distinct (zip blockHashes (zip logIndexes jobIDs)) then None
     else Some (fold (\<lambda>i. MarkBroadcastConsumed (blockHashes ! i) (blockNumbers ! i) (logIndexes ! i) (jobIDs ! i))
                 [0..<length blockHashes] db))"

definition MarkBroadcastsUnconsumed :: "int \<Rightarrow> log_db \<Rightarrow> log_db" where
  "MarkBroadcastsUnconsumed fromBlock db =
    db\<lparr>db_rows := map (\<lambda>r. case br_BlockNumber r of None \<Rightarrow> r | Some n \<Rightarrow> if fromBlock \<le> n then r\<lparr>br_Consumed := False\<rparr> else r) (db_rows db)\<rparr>"

definition SetPendingMinBlock :: "int option \<Rightarrow> log_db \<Rightarrow> log_db" where
  "SetPendingMinBlock blockNumber db = db\<lparr>db_pending := Some blockNumber\<rparr>"

definition GetPendingMinBlock :: "log_db \<Rightarrow> int option" where
  "GetPendingMinBlock db = (case db_pending db of None \<Rightarrow> None | Some n \<Rightarrow> n)"

definition unconsumedBlocks :: "log_db \<Rightarrow> int list" where
  "unconsumedBlocks db = List.map_filter (\<lambda>r. if br_Consumed r then None else br_BlockNumber r) (db_rows db)"

definition getUnconsumedMinBlock :: "log_db \<Rightarrow> int option" where
  "getUnconsumedMinBlock db = (case unconsumedBlocks db of [] \<Rightarrow> None | n # ns \<Rightarrow> Some (fold min ns n))"

definition removeUnconsumed :: "log_db \<Rightarrow> log_db" where
  "removeUnconsumed db = db\<lparr>db_rows := filter (\<lambda>r. br_Consumed r \<or> br_BlockNumber r = None) (db_rows db)\<rparr>"

text \<open>The queries in order; \<open>ok i\<close> tells whether the \<open>i\<close>th one succeeds. The result is \<open>None\<close> for an error.\<close>

definition Reinitialize :: "(nat \<Rightarrow> bool) \<Rightarrow> log_db \<Rightarrow> log_db \<times> int option option" where
  "Reinitialize ok db =
    (if \<not> ok 0 then (db, None)
     else let minUnconsumed = getUnconsumedMinBlock db
          in if \<not> ok 1 then (db, None)
             else let minPending = GetPendingMinBlock db
                  in case minUnconsumed of None \<Rightarrow> (db, Some minPending)
                     | Some u \<Rightarrow>
                         let lower = (case minPending of None \<Rightarrow> True | Some p \<Rightarrow> u < p)
                         in if lower \<and> \<not> ok 2 then (db, None)
                            else let minPending' = (if lower then Some u else minPending);
                                     db' = (if lower then SetPendingMinBlock minPending' db else db)
                                 in if \<not> ok 3 then (db', None) else (removeUnconsumed db', Some minPending'))"

section \<open>Lemmas\<close>

lemma find_consumed:
  assumes "distinct (map row_key rs)"
  shows "(case find (\<lambda>r. row_key r = k) rs of None \<Rightarrow> False | Some r \<Rightarrow> br_Consumed r) \<longleftrightarrow> (\<exists>r \<in> set rs. row_key r = k \<and> br_Consumed r)"
  using assms
proof (induction rs)
  case (Cons r rs)
  have "\<not> (\<exists>x \<in> set rs. row_key x = k)" if "row_key r = k" using Cons.prems that by (auto simp: image_iff)
  then show ?case using Cons by auto
qed simp

lemma row_key_consumed [simp]: "row_key (r\<lparr>br_Consumed := c\<rparr>) = row_key r"
  by (simp add: row_key_def)

lemma keys_map_consumed: "map row_key (map (\<lambda>x. if P x then x\<lparr>br_Consumed := c\<rparr> else x) rs) = map row_key rs"
  by simp

lemma unconsumed_iff: "n \<in> set (unconsumedBlocks db) \<longleftrightarrow> (\<exists>r \<in> set (db_rows db). \<not> br_Consumed r \<and> br_BlockNumber r = Some n)"
proof -
  have "n \<in> set (List.map_filter (\<lambda>r. if br_Consumed r then None else br_BlockNumber r) rs) \<longleftrightarrow>
      (\<exists>r \<in> set rs. \<not> br_Consumed r \<and> br_BlockNumber r = Some n)" for rs
    by (induction rs) (auto simp: List.map_filter_simps split: option.splits if_splits)
  then show ?thesis by (simp add: unconsumedBlocks_def)
qed

lemma fold_min_in: "fold min ns n \<in> insert (n::int) (set ns)"
  by (induction ns arbitrary: n) (auto simp: min_def split: if_splits)

lemma fold_min_le: "x \<in> insert n (set ns) \<Longrightarrow> fold min ns (n::int) \<le> x"
proof (induction ns arbitrary: n x)
  case (Cons m ns)
  have le: "fold min ns (min m n) \<le> y" if "y \<in> insert (min m n) (set ns)" for y using that by (rule Cons.IH)
  show ?case using le [of "min m n"] le [of x] Cons.prems by auto
qed simp

lemma min_unconsumed:
  "getUnconsumedMinBlock db = None \<Longrightarrow> unconsumedBlocks db = []"
  "getUnconsumedMinBlock db = Some u \<Longrightarrow> u \<in> set (unconsumedBlocks db) \<and> (\<forall>n \<in> set (unconsumedBlocks db). u \<le> n)"
  using fold_min_in fold_min_le by (auto simp: getUnconsumedMinBlock_def split: list.splits)

text \<open>C6: restarting never forgets a log that a job has not consumed, even if the process or the database fails after any
  of the queries: the lowest block to start from, as the next restart would find it, stays at or below every unconsumed
  log and the pending block of before. When it succeeds the returned block is that bound and the one
  stored, the unconsumed rows with a block number are gone, and no other row is changed.\<close>
theorem Reinitialize_keeps_backfill_bound:
  assumes "Reinitialize ok db = (db', res)"
  shows "(\<forall>n. n \<in> set (unconsumedBlocks db) \<or> GetPendingMinBlock db = Some n \<longrightarrow>
      (\<exists>m \<le> n. m \<in> set (unconsumedBlocks db') \<or> GetPendingMinBlock db' = Some m)) \<and>
    (\<forall>m. res = Some m \<longrightarrow> GetPendingMinBlock db' = m \<and> unconsumedBlocks db' = [] \<and>
      filter (\<lambda>r. br_Consumed r \<or> br_BlockNumber r = None) (db_rows db') = filter (\<lambda>r. br_Consumed r \<or> br_BlockNumber r = None) (db_rows db) \<and>
      (m = None \<longleftrightarrow> unconsumedBlocks db = [] \<and> GetPendingMinBlock db = None))"
proof -
  define p where "p = GetPendingMinBlock db"
  have gone: "unconsumedBlocks (removeUnconsumed d) = []" for d
  proof -
    have "n \<notin> set (unconsumedBlocks (removeUnconsumed d))" for n unfolding unconsumed_iff by (auto simp: removeUnconsumed_def)
    then show ?thesis by (meson all_not_in_conv set_empty)
  qed
  have pend: "GetPendingMinBlock (removeUnconsumed d) = GetPendingMinBlock d" for d by (simp add: removeUnconsumed_def GetPendingMinBlock_def)
  have set_pend: "GetPendingMinBlock (SetPendingMinBlock m d) = m" "unconsumedBlocks (SetPendingMinBlock m d) = unconsumedBlocks d"
    "db_rows (SetPendingMinBlock m d) = db_rows d" for m d
    by (simp_all add: SetPendingMinBlock_def GetPendingMinBlock_def unconsumedBlocks_def)
  have rows: "db_rows (removeUnconsumed d) = filter (\<lambda>r. br_Consumed r \<or> br_BlockNumber r = None) (db_rows d)" for d
    by (simp add: removeUnconsumed_def)
  show ?thesis
  proof (cases "getUnconsumedMinBlock db")
    case None
    show ?thesis using assms None by (auto simp: Reinitialize_def Let_def split: if_splits dest: min_unconsumed(1))
  next
    case (Some u)
    note u = min_unconsumed(2) [OF Some]
    let ?lower = "case p of None \<Rightarrow> True | Some q \<Rightarrow> u < q"
    consider "db' = db" "res = None" | "?lower" "db' = SetPendingMinBlock (Some u) db" "res = None"
      | "?lower" "db' = removeUnconsumed (SetPendingMinBlock (Some u) db)" "res = Some (Some u)"
      | q where "p = Some q" "q \<le> u" "db' = removeUnconsumed db" "res = Some (Some q)"
      using assms Some by (cases p) (auto simp: Reinitialize_def Let_def p_def [symmetric] split: if_splits)
    then show ?thesis
    proof cases
      case 2
      then have le: "p = Some n \<Longrightarrow> u \<le> n" for n by auto
      show ?thesis using 2 u le by (auto simp: set_pend p_def)
    next
      case 3
      then have le: "p = Some n \<Longrightarrow> u \<le> n" for n by auto
      show ?thesis using 3 u le by (auto simp: gone pend set_pend rows p_def)
    next
      case 4
      then have "\<forall>n \<in> set (unconsumedBlocks db). q \<le> n" using u by force
      then show ?thesis using 4 u by (auto simp: gone pend rows p_def)
    qed auto
  qed
qed

theorem Reinitialize_keeps_backfill_bound_witness:
  "(let db = \<lparr>db_rows = [\<lparr>br_BlockHash = 1, br_BlockNumber = Some 7, br_LogIndex = 0, br_JobID = 1, br_Consumed = False\<rparr>], db_pending = Some (Some 9)\<rparr>
    in GetPendingMinBlock (fst (Reinitialize (\<lambda>i. i < 3) db)) = Some 7 \<and> snd (Reinitialize (\<lambda>_. True) db) = Some (Some 7)
      \<and> (\<exists>m \<le> 7. m \<in> set (unconsumedBlocks (fst (Reinitialize (\<lambda>i. i < 3) db))) \<or> GetPendingMinBlock (fst (Reinitialize (\<lambda>i. i < 3) db)) = Some m))"
proof -
  let ?db = "\<lparr>db_rows = [\<lparr>br_BlockHash = 1, br_BlockNumber = Some 7, br_LogIndex = 0, br_JobID = 1, br_Consumed = False\<rparr>], db_pending = Some (Some 9)\<rparr>"
  obtain db' res where r: "Reinitialize (\<lambda>i. i < 3) ?db = (db', res)" by (metis surj_pair)
  have in7: "7 \<in> set (unconsumedBlocks ?db)" by (simp add: unconsumedBlocks_def List.map_filter_def)
  have "\<exists>m \<le> 7. m \<in> set (unconsumedBlocks db') \<or> GetPendingMinBlock db' = Some m"
    using Reinitialize_keeps_backfill_bound [OF r] in7 by blast
  then show ?thesis unfolding Let_def r
    using r by (simp add: Reinitialize_def getUnconsumedMinBlock_def unconsumedBlocks_def List.map_filter_def GetPendingMinBlock_def SetPendingMinBlock_def removeUnconsumed_def Let_def) auto
qed


section \<open>Consumed rows\<close>

definition consumed :: "log_db \<Rightarrow> broadcast_key \<Rightarrow> bool" where
  "consumed db k \<longleftrightarrow> (case k of (h, i, j) \<Rightarrow> WasBroadcastConsumed h i j db)"

definition keys_ok :: "log_db \<Rightarrow> bool" where
  "keys_ok db \<longleftrightarrow> distinct (map row_key (db_rows db))"

lemma consumed_iff: "keys_ok db \<Longrightarrow> consumed db k \<longleftrightarrow> (\<exists>r \<in> set (db_rows db). row_key r = k \<and> br_Consumed r)"
  by (cases k) (simp add: consumed_def WasBroadcastConsumed_def keys_ok_def find_consumed)

lemma Mark_keys_ok: "keys_ok db \<Longrightarrow> keys_ok (MarkBroadcastConsumed h n i j db)"
  by (auto simp: keys_ok_def MarkBroadcastConsumed_def Let_def comp_def if_distrib [of row_key] cong: if_cong)

lemma Mark_consumed:
  assumes "keys_ok db"
  shows "consumed (MarkBroadcastConsumed h n i j db) k \<longleftrightarrow> k = (h, i, j) \<or> consumed db k"
proof -
  let ?r = "\<lparr>br_BlockHash = h, br_BlockNumber = Some n, br_LogIndex = i, br_JobID = j, br_Consumed = True\<rparr>"
  have k: "row_key ?r = (h, i, j)" by (simp add: row_key_def)
  let ?f = "\<lambda>x. if row_key x = (h, i, j) then x\<lparr>br_Consumed := True\<rparr> else x"
  have f: "row_key (?f x) = row_key x" "br_Consumed (?f x) \<longleftrightarrow> row_key x = (h, i, j) \<or> br_Consumed x" for x by auto
  show ?thesis
  proof (cases "(h, i, j) \<in> row_key ` set (db_rows db)")
    case True
    then have rows: "set (db_rows (MarkBroadcastConsumed h n i j db)) = ?f ` set (db_rows db)"
      unfolding MarkBroadcastConsumed_def Let_def k by simp
    have "(\<exists>r \<in> ?f ` set (db_rows db). row_key r = k \<and> br_Consumed r) \<longleftrightarrow>
        (\<exists>x \<in> set (db_rows db). row_key x = k \<and> (row_key x = (h, i, j) \<or> br_Consumed x))"
      unfolding bex_simps f ..
    also have "\<dots> \<longleftrightarrow> k = (h, i, j) \<or> (\<exists>x \<in> set (db_rows db). row_key x = k \<and> br_Consumed x)"
    proof -
      obtain x where "x \<in> set (db_rows db)" "row_key x = (h, i, j)" using True by (metis imageE)
      then show ?thesis by blast
    qed
    finally show ?thesis unfolding consumed_iff [OF assms] consumed_iff [OF Mark_keys_ok [OF assms]] rows .
  next
    case False
    then have "set (db_rows (MarkBroadcastConsumed h n i j db)) = insert ?r (set (db_rows db))"
      unfolding MarkBroadcastConsumed_def Let_def k by simp
    then show ?thesis unfolding consumed_iff [OF assms] consumed_iff [OF Mark_keys_ok [OF assms]] by (auto simp: k)
  qed
qed

lemma Mark_many:
  "keys_ok db \<Longrightarrow> keys_ok (fold (\<lambda>i. MarkBroadcastConsumed (hs ! i) (ns ! i) (is' ! i) (js ! i)) xs db) \<and>
    (consumed (fold (\<lambda>i. MarkBroadcastConsumed (hs ! i) (ns ! i) (is' ! i) (js ! i)) xs db) k \<longleftrightarrow>
       (\<exists>x \<in> set xs. k = (hs ! x, is' ! x, js ! x)) \<or> consumed db k)"
  by (induction xs arbitrary: db) (auto simp: Mark_keys_ok Mark_consumed)

text \<open>what is marked consumed is looked up as consumed: marking a list of broadcasts makes exactly their keys consumed in
  addition, lists of different lengths are refused, a new row is not consumed and an existing key is not inserted a second time,
  and a replay from a block makes exactly the rows from that block on unconsumed; keys stay unique.\<close>
theorem mark_lookup_roundtrip:
  assumes "keys_ok db"
  shows "(\<forall>hs ns is' js db'. MarkBroadcastsConsumed hs ns is' js db = Some db' \<longrightarrow> keys_ok db' \<and> length hs = length is' \<and> length hs = length js \<and>
      (\<forall>h i j. WasBroadcastConsumed h i j db' \<longleftrightarrow> (h, i, j) \<in> set (zip hs (zip is' js)) \<or> WasBroadcastConsumed h i j db)) \<and>
    (\<forall>h n i j. case CreateBroadcast h n i j db of
        None \<Rightarrow> (h, i, j) \<in> row_key ` set (db_rows db)
      | Some db' \<Rightarrow> keys_ok db' \<and> (h, i, j) \<notin> row_key ` set (db_rows db) \<and> consumed db' = consumed db) \<and>
    (\<forall>b k. consumed (MarkBroadcastsUnconsumed b db) k \<longleftrightarrow>
       (\<exists>r \<in> set (db_rows db). row_key r = k \<and> br_Consumed r \<and> (\<forall>n. br_BlockNumber r = Some n \<longrightarrow> n < b)))"
proof (intro conjI allI impI)
  fix hs ns is' js db' assume m: "MarkBroadcastsConsumed hs ns is' js db = Some db'"
  then have len: "length hs = length is'" "length hs = length js"
    and db': "db' = fold (\<lambda>i. MarkBroadcastConsumed (hs ! i) (ns ! i) (is' ! i) (js ! i)) [0..<length hs] db"
    by (auto simp: MarkBroadcastsConsumed_def split: if_splits)
  show "length hs = length is'" and "length hs = length js" by (fact len)+
  show "keys_ok db'" using Mark_many [OF assms] db' by simp
  have z: "(\<exists>x \<in> set [0..<length hs]. k = (hs ! x, is' ! x, js ! x)) \<longleftrightarrow> k \<in> set (zip hs (zip is' js))" for k
    using len by (auto simp: set_zip)
  fix h i j show "WasBroadcastConsumed h i j db' \<longleftrightarrow> (h, i, j) \<in> set (zip hs (zip is' js)) \<or> WasBroadcastConsumed h i j db"
    using Mark_many [OF assms, of hs ns is' js "[0..<length hs]" "(h, i, j)"] unfolding db' [symmetric] z by (simp add: consumed_def)
next
  fix h n i j
  show "case CreateBroadcast h n i j db of None \<Rightarrow> (h, i, j) \<in> row_key ` set (db_rows db)
      | Some db' \<Rightarrow> keys_ok db' \<and> (h, i, j) \<notin> row_key ` set (db_rows db) \<and> consumed db' = consumed db"
  proof (cases "CreateBroadcast h n i j db")
    case None
    then show ?thesis by (auto simp: CreateBroadcast_def Let_def row_key_def split: if_splits)
  next
    case (Some db')
    then have new: "(h, i, j) \<notin> row_key ` set (db_rows db)" and ok: "keys_ok db'"
      using assms by (auto simp: CreateBroadcast_def Let_def row_key_def keys_ok_def split: if_splits)
    have "consumed db' k \<longleftrightarrow> consumed db k" for k
      unfolding consumed_iff [OF assms] consumed_iff [OF ok] using Some by (auto simp: CreateBroadcast_def Let_def split: if_splits)
    with new ok Some show ?thesis by auto
  qed
next
  fix b k
  let ?f = "\<lambda>r. case br_BlockNumber r of None \<Rightarrow> r | Some n \<Rightarrow> if b \<le> n then r\<lparr>br_Consumed := False\<rparr> else r"
  have f: "row_key (?f r) = row_key r" "br_Consumed (?f r) \<longleftrightarrow> br_Consumed r \<and> (\<forall>n. br_BlockNumber r = Some n \<longrightarrow> n < b)" for r
    by (auto split: option.split)
  have ok: "keys_ok (MarkBroadcastsUnconsumed b db)"
    using assms by (simp add: keys_ok_def MarkBroadcastsUnconsumed_def comp_def f)
  have rows: "set (db_rows (MarkBroadcastsUnconsumed b db)) = ?f ` set (db_rows db)" by (simp add: MarkBroadcastsUnconsumed_def)
  show "consumed (MarkBroadcastsUnconsumed b db) k \<longleftrightarrow>
      (\<exists>r \<in> set (db_rows db). row_key r = k \<and> br_Consumed r \<and> (\<forall>n. br_BlockNumber r = Some n \<longrightarrow> n < b))"
    unfolding consumed_iff [OF ok] rows using f by auto
qed

theorem mark_lookup_roundtrip_witness:
  "\<exists>db'. MarkBroadcastsConsumed [3, 4] [7, 8] [0, 1] [5, 5] \<lparr>db_rows = [], db_pending = None\<rparr> = Some db' \<and>
     WasBroadcastConsumed 4 1 5 db' \<and> \<not> WasBroadcastConsumed 3 1 5 db'"
proof -
  let ?db = "\<lparr>db_rows = [], db_pending = None\<rparr>"
  have ok: "keys_ok ?db" by (simp add: keys_ok_def)
  obtain db' where db': "MarkBroadcastsConsumed [3, 4] [7, 8] [0, 1] [5, 5] ?db = Some db'" by (simp add: MarkBroadcastsConsumed_def)
  have "\<not> WasBroadcastConsumed h i j ?db" for h i j by (simp add: WasBroadcastConsumed_def)
  with mark_lookup_roundtrip [OF ok] db' show ?thesis by (intro exI [of _ db']) simp
qed

end
