(* ===== verification/Log_Broadcaster.thy ===== *)
theory Log_Broadcaster
  imports Log_ORM Mailbox Head_Chain
begin

text \<open>
  The log broadcaster (\<^verbatim>\<open>core/chains/evm/log/broadcaster.go\<close>) and the backfill of its subscription
  (\<^verbatim>\<open>eth_subscriber.go\<close>). It composes the log pool, the registrations, the broadcast table and two mailboxes: the
  event loop takes logs into the pool, and on a new head hands out the logs that are deep enough and drops those that
  nobody waits for any more. One event is handled at a time by one goroutine, so an event is a function on the state.
  The answers of the node and of the database are parameters.
\<close>

section \<open>Backfilling\<close>

record log_config =
  BlockBackfillDepth :: u64
  BlockBackfillSkip :: bool
  EvmFinalityDepth :: u32
  EvmLogBackfillBatchSize :: u32

definition backfillFrom :: "log_config \<Rightarrow> int option \<Rightarrow> int \<Rightarrow> u64" where
  "backfillFrom cfg override latestHeight =
    (let from = to_u64 latestHeight - BlockBackfillDepth cfg;
         from' = (if from > to_u64 latestHeight then 0 else from)
     in case override of None \<Rightarrow> from' | Some n \<Rightarrow> to_u64 n)"

text \<open>The loop over batches: the ranges asked for, and the logs, or \<open>None\<close> when a batch could not be fetched. It runs
  forever for a batch size of zero.\<close>

partial_function (option) fetchBatches ::
  "(int \<Rightarrow> int \<Rightarrow> eth_log list option) \<Rightarrow> int \<Rightarrow> int \<Rightarrow> int \<Rightarrow> (int \<times> int) list \<Rightarrow> eth_log list \<Rightarrow> ((int \<times> int) list \<times> eth_log list option) option" where
  "fetchBatches fetch batchSize latestHeight from ranges logs =
    (if from \<le> latestHeight then
       (let to' = wrap64 (from + batchSize - 1); to = (if to' > latestHeight then latestHeight else to')
        in case fetch from to of
             None \<Rightarrow> Some (ranges @ [(from, to)], None)
           | Some batchLogs \<Rightarrow> fetchBatches fetch batchSize latestHeight (wrap64 (from + batchSize)) (ranges @ [(from, to)]) (logs @ batchLogs))
     else Some (ranges, Some logs))"

text \<open>What the node answers during one attempt: the height of the latest block (\<open>None\<close> for an error or no block) and the batches.\<close>

record backfill_try =
  bt_head :: "int option"
  bt_fetch :: "int \<Rightarrow> int \<Rightarrow> eth_log list option"

text \<open>The attempts: the height is fetched until it is known and then kept. \<open>Some None\<close> is the nil channel that is left when
  the fifth attempt gives up (or the context ends while waiting for the next attempt, the end of the list).\<close>

fun backfillRetry :: "log_config \<Rightarrow> int option \<Rightarrow> backfill_try list \<Rightarrow> int \<Rightarrow> nat \<Rightarrow> eth_log list option option" where
  "backfillRetry cfg override [] latestHeight retryCount = Some None"
| "backfillRetry cfg override (a # as) latestHeight retryCount =
    (if retryCount > 3 then Some None
     else case (if latestHeight < 0 then bt_head a else Some latestHeight) of
            None \<Rightarrow> backfillRetry cfg override as latestHeight (retryCount + 1)
          | Some height \<Rightarrow>
              (case fetchBatches (bt_fetch a) (uint (EvmLogBackfillBatchSize cfg)) height (to_i64 (backfillFrom cfg override height)) [] [] of
                 None \<Rightarrow> None
               | Some (_, None) \<Rightarrow> backfillRetry cfg override as height (retryCount + 1)
               | Some (_, Some logs) \<Rightarrow> Some (Some logs)))"

definition backfillLogs :: "log_config \<Rightarrow> int option \<Rightarrow> address list \<Rightarrow> backfill_try list \<Rightarrow> eth_log list option option" where
  "backfillLogs cfg override addresses tries =
    (if addresses = [] then Some (Some []) else backfillRetry cfg override tries (-1) 0)"

section \<open>The state of the broadcaster\<close>

datatype subscriberStatus = Subscribe | Unsubscribe

record 'h log_broadcaster =
  backfillBlockNumber :: "int option"
  b_registrations :: registrations
  b_logPool :: "'h log_pool"
  changeSubscriberStatus :: "(subscriberStatus \<times> subscriber) mailbox"
  newHeads :: "head mailbox"
  highestSavedHead :: "int option"
  lastSeenHeadNumber :: int
  b_db :: log_db

definition NewBroadcaster :: "'h heap_ops \<Rightarrow> int option \<Rightarrow> log_db \<Rightarrow> 'h log_broadcaster" where
  "NewBroadcaster H highestSaved db =
    \<lparr>backfillBlockNumber = None, b_registrations = newRegistrations, b_logPool = newLogPool H,
     changeSubscriberStatus = NewMailbox 100000, newHeads = NewMailbox 1, highestSavedHead = highestSaved,
     lastSeenHeadNumber = 0, b_db = db\<rparr>"

text \<open>\<^verbatim>\<open>Register\<close> and the function it returns; \<open>None\<close> is a panic (no topics, or a full channel).\<close>

definition Register :: "subscriber \<Rightarrow> 'h log_broadcaster \<Rightarrow> ('h log_broadcaster \<times> subscriber) option" where
  "Register opts b =
    (if s_topics opts = [] then None
     else let sub = (if s_conf opts \<le> 0 then opts\<lparr>s_conf := 1\<rparr> else opts)
          in case Deliver (Subscribe, sub) (changeSubscriberStatus b) of
               (m, over) \<Rightarrow> if over then None else Some (b\<lparr>changeSubscriberStatus := m\<rparr>, sub))"

definition Unregister :: "subscriber \<Rightarrow> 'h log_broadcaster \<Rightarrow> 'h log_broadcaster option" where
  "Unregister sub b = (case Deliver (Unsubscribe, sub) (changeSubscriberStatus b) of
     (m, over) \<Rightarrow> if over then None else Some (b\<lparr>changeSubscriberStatus := m\<rparr>))"

definition lb_OnNewLongestChain :: "head \<Rightarrow> 'h log_broadcaster \<Rightarrow> 'h log_broadcaster" where
  "lb_OnNewLongestChain h b = b\<lparr>newHeads := fst (Deliver h (newHeads b))\<rparr>"

section \<open>Events\<close>

fun applyChanges :: "(subscriberStatus \<times> subscriber) list \<Rightarrow> registrations \<Rightarrow> bool \<Rightarrow> reg_panic + registrations \<times> bool" where
  "applyChanges [] r needs = Inr (r, needs)"
| "applyChanges ((st, sub) # cs) r needs =
    (case (if st = Subscribe then addSubscriber sub r else removeSubscriber sub r) of
       Inl e \<Rightarrow> Inl e
     | Inr (r', n) \<Rightarrow> applyChanges cs r' (needs \<or> n))"

definition onChangeSubscriberStatus :: "'h log_broadcaster \<Rightarrow> reg_panic + 'h log_broadcaster \<times> bool" where
  "onChangeSubscriberStatus b =
    (case drain (changeSubscriberStatus b) of
       (m, changes) \<Rightarrow>
         (case applyChanges changes (b_registrations b) False of
            Inl e \<Rightarrow> Inl e
          | Inr (r, needs) \<Rightarrow> Inr (b\<lparr>changeSubscriberStatus := m, b_registrations := r\<rparr>, needs)))"

definition invalidatePool :: "'h heap_ops \<Rightarrow> 'h log_broadcaster \<Rightarrow> 'h log_broadcaster \<times> int" where
  "invalidatePool H b = (case hp_find_min H (pool_heap (b_logPool b)) of
     None \<Rightarrow> (b, -1)
   | Some mn \<Rightarrow> (b\<lparr>b_logPool := newLogPool H, backfillBlockNumber := Some (to_i64 mn)\<rparr>, to_i64 mn))"

text \<open>The subscribers whose replay callback is run, and the new state; \<open>dbOk\<close>: the update of the table succeeds.\<close>

definition onReplayRequest :: "'h heap_ops \<Rightarrow> int \<Rightarrow> bool \<Rightarrow> bool \<Rightarrow> 'h log_broadcaster \<Rightarrow> 'h log_broadcaster \<times> subscriber list" where
  "onReplayRequest H fromBlock forceBroadcast dbOk b =
    (let b1 = (fst (invalidatePool H b))\<lparr>backfillBlockNumber := Some fromBlock\<rparr>
     in (if forceBroadcast \<and> dbOk then b1\<lparr>b_db := MarkBroadcastsUnconsumed fromBlock (b_db b1)\<rparr> else b1,
         filter s_replay (registeredSubs (b_registrations b))))"

definition onNewLog :: "'h heap_ops \<Rightarrow> bool \<Rightarrow> eth_log \<Rightarrow> 'h log_broadcaster \<Rightarrow> 'h log_broadcaster" where
  "onNewLog H dbOk l b =
    (if Removed l then b\<lparr>b_logPool := removeBlock (BlockHash l) (BlockNumber l) (b_logPool b)\<rparr>
     else if \<not> isAddressRegistered (b_registrations b) (Address l) then b
     else (case addLog H l (b_logPool b) of
             (p, lowest) \<Rightarrow> b\<lparr>b_logPool := p,
               b_db := (if lowest \<and> dbOk then SetPendingMinBlock (Some (to_i64 (BlockNumber l))) (b_db b) else b_db b)\<rparr>))"

text \<open>The loop that takes the newest head.\<close>

function takeLatest :: "'a mailbox \<Rightarrow> 'a option \<Rightarrow> 'a mailbox \<times> 'a option" where
  "takeLatest m latest = (case RetrieveLatestAndClear m of
     (m', None) \<Rightarrow> (m', latest)
   | (m', Some h) \<Rightarrow> takeLatest m' (Some h))"
  by pat_completeness auto
termination
  by (relation "measure (\<lambda>(m, _). length (mb_queue m))") (auto simp: RetrieveLatestAndClear_def split: list.splits)

declare takeLatest.simps [simp del]

lemma takeLatest_eq: "takeLatest m latest = (m\<lparr>mb_queue := []\<rparr>, case mb_queue m of [] \<Rightarrow> latest | x # _ \<Rightarrow> Some x)"
proof -
  have empty: "takeLatest m latest = (m, latest)" if "mb_queue m = []" for m :: "'b mailbox" and latest
    using takeLatest.simps [of m latest] that by (simp add: RetrieveLatestAndClear_def)
  show ?thesis
  proof (cases "mb_queue m")
    case Nil
    then show ?thesis using empty [OF Nil, of latest] by (cases m) simp
  next
    case (Cons x xs)
    then show ?thesis using takeLatest.simps [of m latest] empty [of "m\<lparr>mb_queue := []\<rparr>"] by (simp add: RetrieveLatestAndClear_def)
  qed
qed

definition keptLogsDepth :: "log_config \<Rightarrow> registrations \<Rightarrow> u32" where
  "keptLogsDepth cfg r = (if highestNumConfirmations r > EvmFinalityDepth cfg then highestNumConfirmations r else EvmFinalityDepth cfg)"

definition keptDepth :: "log_config \<Rightarrow> registrations \<Rightarrow> int \<Rightarrow> int" where
  "keptDepth cfg r latestBlockNum =
    (let d = wrap64 (latestBlockNum - uint (keptLogsDepth cfg r)) in if d < 0 then 0 else d)"

definition insertCreated :: "(broadcast_key \<times> u64) list \<Rightarrow> log_db \<Rightarrow> log_db" where
  "insertCreated created db =
    fold (\<lambda>((h, i, j), n) d. case CreateBroadcast h (to_i64 n) i j d of None \<Rightarrow> d | Some d' \<Rightarrow> d') created db"

text \<open>What sending needs from outside: whether a subscriber can parse a log, whether an insert, the query for broadcasts
  and the update of the pending block succeed.\<close>

record send_env =
  parses :: "subscriber \<Rightarrow> eth_log \<Rightarrow> bool"
  insertOk :: "broadcast_key \<Rightarrow> bool"
  findOk :: bool
  pendingOk :: bool

definition creates :: "send_env \<Rightarrow> log_db \<Rightarrow> broadcast_key \<Rightarrow> bool" where
  "creates env db k \<longleftrightarrow> insertOk env k \<and> k \<notin> row_key ` set (db_rows db)"

definition sendFound :: "send_env \<Rightarrow> logsOnBlock list \<Rightarrow> int \<Rightarrow> int \<Rightarrow> int \<Rightarrow> 'h log_broadcaster \<Rightarrow> ('h log_broadcaster \<times> (subscriber \<times> eth_log) list) option" where
  "sendFound env logs from to latest b =
    (case sendLogs (parses env) (creates env (b_db b)) (b_registrations b) logs latest (FindBroadcasts from to (b_db b)) of
       None \<Rightarrow> None
     | Some (created, ds) \<Rightarrow> Some (b\<lparr>b_db := insertCreated created (b_db b)\<rparr>, ds))"

definition setPending :: "send_env \<Rightarrow> int option \<Rightarrow> 'h log_broadcaster \<Rightarrow> 'h log_broadcaster" where
  "setPending env n b = (if pendingOk env then b\<lparr>b_db := SetPendingMinBlock n (b_db b)\<rparr> else b)"

text \<open>A new head: all logs at once when nobody waits for confirmations, otherwise the logs up to the head, and then the
  logs below the kept depth are dropped. \<open>None\<close>: a panic, or a loop that does not end.\<close>

definition sendAll :: "'h heap_ops \<Rightarrow> send_env \<Rightarrow> int \<Rightarrow> 'h log_broadcaster \<Rightarrow> ('h log_broadcaster \<times> (subscriber \<times> eth_log) list) option" where
  "sendAll H env latest b =
    (case getAndDeleteAll H (b_logPool b) of None \<Rightarrow> None
     | Some (p, logs, lowest, highest) \<Rightarrow>
         let b1 = b\<lparr>b_logPool := p\<rparr>
         in if logs = [] \<or> \<not> findOk env then Some (b1, [])
            else map_option (\<lambda>(b2, ds). (setPending env None b2, ds)) (sendFound env logs lowest highest latest b1))"

definition sendConfirmed :: "log_config \<Rightarrow> 'h heap_ops \<Rightarrow> send_env \<Rightarrow> int \<Rightarrow> 'h log_broadcaster \<Rightarrow> ('h log_broadcaster \<times> (subscriber \<times> eth_log) list) option" where
  "sendConfirmed cfg H env latest b =
    (case getLogsToSend H latest (b_logPool b) of None \<Rightarrow> None
     | Some (logs, minBlockNum) \<Rightarrow>
         if logs \<noteq> [] \<and> \<not> findOk env then Some (b, [])
         else case (if logs = [] then Some (b, []) else sendFound env logs minBlockNum latest latest b) of None \<Rightarrow> None
              | Some (b1, ds) \<Rightarrow>
                  (case deleteOlderLogs H (keptDepth cfg (b_registrations b1) latest) (b_logPool b1) of None \<Rightarrow> None
                   | Some (p, newMin) \<Rightarrow> Some (setPending env newMin (b1\<lparr>b_logPool := p\<rparr>), ds)))"

definition onNewHeads :: "log_config \<Rightarrow> 'h heap_ops \<Rightarrow> send_env \<Rightarrow> 'h log_broadcaster \<Rightarrow> ('h log_broadcaster \<times> (subscriber \<times> eth_log) list) option" where
  "onNewHeads cfg H env b =
    (case takeLatest (newHeads b) None of
       (m, None) \<Rightarrow> Some (b\<lparr>newHeads := m\<rparr>, [])
     | (m, Some h) \<Rightarrow>
         let b1 = b\<lparr>newHeads := m, lastSeenHeadNumber := Number h\<rparr>
         in if highestNumConfirmations (b_registrations b1) = 0 then sendAll H env (Number h) b1
            else sendConfirmed cfg H env (Number h) b1)"


section \<open>The event loop and resubscription\<close>

datatype lb_event = RawLog eth_log | HeadsNotified | SubscriptionError | ChangeNotified
  | ReplayRequested int bool | DebounceTick | StopRequested

text \<open>The loop goes on with the flag that a resubscription is due, or returns: whether to resubscribe, and whether with an error.\<close>

datatype loop_outcome = Continue bool | Return bool bool

text \<open>One round of the loop; \<open>None\<close>: a panic.\<close>

definition eventStep :: "log_config \<Rightarrow> 'h heap_ops \<Rightarrow> send_env \<Rightarrow> lb_event \<Rightarrow> bool \<Rightarrow> 'h log_broadcaster \<Rightarrow>
    ('h log_broadcaster \<times> loop_outcome \<times> (subscriber \<times> eth_log) list) option" where
  "eventStep cfg H env ev needsResubscribe b =
    (case ev of
       RawLog l \<Rightarrow> Some (onNewLog H (pendingOk env) l b, Continue needsResubscribe, [])
     | HeadsNotified \<Rightarrow> map_option (\<lambda>(b', ds). (b', Continue needsResubscribe, ds)) (onNewHeads cfg H env b)
     | SubscriptionError \<Rightarrow> Some (fst (invalidatePool H b), Return True True, [])
     | ChangeNotified \<Rightarrow>
         (case onChangeSubscriberStatus b of Inl _ \<Rightarrow> None
          | Inr (b', needs) \<Rightarrow> Some (b', Continue (needs \<or> needsResubscribe), []))
     | ReplayRequested fromBlock force \<Rightarrow> Some (fst (onReplayRequest H fromBlock force (pendingOk env) b), Return True False, [])
     | DebounceTick \<Rightarrow> Some (b, if needsResubscribe then Return True False else Continue needsResubscribe, [])
     | StopRequested \<Rightarrow> Some (b, Return False False, []))"

text \<open>Where the first backfill starts: from the saved head, and lower when the table asks for it (the result of \<^verbatim>\<open>Reinitialize\<close>,
  retried until it succeeds).\<close>

definition initialBackfill :: "log_config \<Rightarrow> int option \<Rightarrow> 'h log_broadcaster \<Rightarrow> 'h log_broadcaster" where
  "initialBackfill cfg backfillStart b =
    (let b1 = (case highestSavedHead b of None \<Rightarrow> b
         | Some n \<Rightarrow> if BlockBackfillSkip cfg then b
             else let from = wrap64 (wrap64 (n - uint (highestNumConfirmations (b_registrations b))) - to_i64 (BlockBackfillDepth cfg))
                  in b\<lparr>backfillBlockNumber := Some (if from < 0 then 0 else from)\<rparr>)
     in case backfillStart of None \<Rightarrow> b1
        | Some start \<Rightarrow>
            if (case backfillBlockNumber b1 of None \<Rightarrow> True | Some n \<Rightarrow> start < n)
            then b1\<lparr>backfillBlockNumber := Some start\<rparr> else b1)"

text \<open>One round of the resubscribe loop up to the event loop: the logs to process are those left of the last subscription
  and the backfilled ones, before those of the new subscription.\<close>

definition resubscribe :: "log_config \<Rightarrow> backfill_try list \<Rightarrow> eth_log list \<Rightarrow> 'h log_broadcaster \<Rightarrow> ('h log_broadcaster \<times> eth_log list) option" where
  "resubscribe cfg tries remaining b =
    (case backfillLogs cfg (backfillBlockNumber b) (fst (addressesAndTopics (b_registrations b))) tries of
       None \<Rightarrow> None
     | Some backfilled \<Rightarrow>
         Some (b\<lparr>backfillBlockNumber := None\<rparr>, remaining @ (case backfilled of None \<Rightarrow> [] | Some logs \<Rightarrow> logs)))"

section \<open>Backfill: what is asked for\<close>

fun tiles :: "int \<Rightarrow> int \<Rightarrow> int \<Rightarrow> (int \<times> int) list \<Rightarrow> bool" where
  "tiles batchSize from latest [] = (latest < from)"
| "tiles batchSize from latest ((a, b) # rs) = (a = from \<and> from \<le> b \<and> b \<le> latest \<and> b - a < batchSize \<and> tiles batchSize (b + 1) latest rs)"

lemma tiles_done: "tiles bs from latest rs \<Longrightarrow> latest < from \<Longrightarrow> rs = []"
  by (cases rs) auto

lemma fetchBatches_tiles:
  assumes "0 < bs" and "latest + bs \<le> max_i64" and "min_i64 \<le> start"
  shows "\<exists>ranges res. fetchBatches fetch bs latest start rs ls = Some (rs @ ranges, res) \<and>
    (\<forall>logs. res = Some logs \<longrightarrow> tiles bs start latest ranges \<and> logs = ls @ concat (map (\<lambda>(a, b). the (fetch a b)) ranges)) \<and>
    (res = None \<longleftrightarrow> (\<exists>a b. (a, b) \<in> set ranges \<and> fetch a b = None))"
  using assms(3)
proof (induction "nat (latest + 1 - start)" arbitrary: start rs ls rule: less_induct)
  case less
  show ?case
  proof (cases "start \<le> latest")
    case False
    then show ?thesis by (intro exI [of _ "[]"]) (simp add: fetchBatches.simps [of fetch bs latest start])
  next
    case True
    define to where "to = (if start + bs - 1 > latest then latest else start + bs - 1)"
    have w: "wrap64 (start + bs - 1) = start + bs - 1" "wrap64 (start + bs) = start + bs"
      using True assms less.prems by (simp_all add: is_i64_def min_i64_def)
    note step = fetchBatches.simps [of fetch bs latest start rs ls, unfolded w Let_def, folded to_def]
    show ?thesis
    proof (cases "fetch start to")
      case None
      then show ?thesis using True by (intro exI [of _ "[(start, to)]"] exI [of _ None]) (auto simp: step)
    next
      case (Some batch)
      obtain ranges res where IH: "fetchBatches fetch bs latest (start + bs) (rs @ [(start, to)]) (ls @ batch) = Some ((rs @ [(start, to)]) @ ranges, res)"
        and ok: "\<And>logs. res = Some logs \<Longrightarrow> tiles bs (start + bs) latest ranges \<and> logs = (ls @ batch) @ concat (map (\<lambda>(a, b). the (fetch a b)) ranges)"
        and fails: "res = None \<longleftrightarrow> (\<exists>a b. (a, b) \<in> set ranges \<and> fetch a b = None)"
        using less.hyps [of "start + bs" "rs @ [(start, to)]" "ls @ batch"] True assms less.prems by auto
      have tile: "tiles bs start latest ((start, to) # ranges)" if "tiles bs (start + bs) latest ranges"
        using that True assms(1) tiles_done [OF that] by (auto simp: to_def)
      have "fetchBatches fetch bs latest start rs ls = Some (rs @ ((start, to) # ranges), res)" using IH True Some by (simp add: step)
      moreover have "res = None \<longleftrightarrow> (\<exists>a b. (a, b) \<in> set ((start, to) # ranges) \<and> fetch a b = None)" using fails Some by auto
      ultimately show ?thesis using ok tile Some by (intro exI [of _ "(start, to) # ranges"] exI [of _ res]) simp
    qed
  qed
qed

text \<open>C32: the backfill loop ends for every positive batch size (with heights below the end of the int64 range by one batch),
  and unless a batch cannot be fetched it asks for ranges that tile the blocks from the start to the latest height, in order and
  without gap or overlap, none longer than the batch size, and returns the logs of all of them in that order.\<close>
theorem backfill_tiles_range:
  assumes "0 < bs" and "latest + bs \<le> max_i64" and "min_i64 \<le> start"
  shows "\<exists>ranges res. fetchBatches fetch bs latest start [] [] = Some (ranges, res) \<and>
    (\<forall>logs. res = Some logs \<longrightarrow> tiles bs start latest ranges \<and> logs = concat (map (\<lambda>(a, b). the (fetch a b)) ranges)) \<and>
    (res = None \<longleftrightarrow> (\<exists>a b. (a, b) \<in> set ranges \<and> fetch a b = None))"
  using fetchBatches_tiles [OF assms, of fetch "[]" "[]"] by simp

theorem backfill_tiles_range_witness:
  "(let fetch = (\<lambda>a b. Some (if b = 9 then [log5] else [])) in
     fetchBatches fetch 4 9 1 [] [] = Some ([(1, 4), (5, 8), (9, 9)], Some [log5]) \<and> tiles 4 1 9 [(1, 4), (5, 8), (9, 9)])"
proof -
  let ?fetch = "\<lambda>a b. Some (if b = (9::int) then [log5] else [])"
  have run: "fetchBatches ?fetch 4 9 1 [] [] = Some ([(1, 4), (5, 8), (9, 9)], Some [log5])"
    by (simp add: fetchBatches.simps is_i64_def min_i64_def max_i64_def Let_def)
  have "tiles 4 1 9 [(1, 4), (5, 8), (9, 9)]"
    using backfill_tiles_range [of 4 9 1 ?fetch] unfolding run by (auto simp: max_i64_def min_i64_def)
  then show ?thesis unfolding Let_def using run by simp
qed

text \<open>a backfill that cannot reach the node is taken for done: when the first four attempts fail, the loop gives up without
  logs however good later answers would be, and the broadcaster forgets the block the backfill was to start from, so that no
  later round asks for the missed blocks.\<close>
theorem failed_backfill_forgotten:
  assumes "\<forall>a \<in> set fails. bt_head a = None" and "length fails = 4" and "fst (addressesAndTopics (b_registrations b)) \<noteq> []"
  shows "resubscribe cfg (fails @ later) remaining b = Some (b\<lparr>backfillBlockNumber := None\<rparr>, remaining)"
proof -
  obtain a1 a2 a3 a4 where f: "fails = [a1, a2, a3, a4]" using assms(2) by (auto simp: numeral_eq_Suc length_Suc_conv)
  have "backfillRetry cfg ov (fails @ later) (-1) 0 = Some None" for ov
    using assms(1) by (cases later) (auto simp: f)
  then show ?thesis using assms(3) by (simp add: resubscribe_def backfillLogs_def)
qed


definition sub1_registrations :: registrations where
  "sub1_registrations = \<lparr>registeredSubs = [sub1], jobIDAddrs = [(7, [5])],
     handlersByConfs = [(3, [(5, [(11, [(sub1, [])]), (12, [(sub1, [[3]])])])])], highestNumConfirmations = 3\<rparr>"

lemma sub1_added: "addSubscriber sub1 newRegistrations = Inr (sub1_registrations, True)"
  by (simp add: addSubscriber_def checkAddSubscriber_def newRegistrations_def handlersWithGreaterConfs_def newHandler_def
      handler_addSubscriber_def addTopic_def listened_def sub1_registrations_def sub1_def Let_def get_or_def word_le_nat_alt)

definition sub1_broadcaster :: "u64 list log_broadcaster" where
  "sub1_broadcaster = (NewBroadcaster list_heap (Some 9) \<lparr>db_rows = [], db_pending = None\<rparr>)
     \<lparr>b_registrations := sub1_registrations, backfillBlockNumber := Some 5\<rparr>"

definition down :: backfill_try where
  "down = \<lparr>bt_head = None, bt_fetch = (\<lambda>_ _. None)\<rparr>"

definition log_cfg0 :: log_config where
  "log_cfg0 = \<lparr>BlockBackfillDepth = 10, BlockBackfillSkip = False, EvmFinalityDepth = 2, EvmLogBackfillBatchSize = 100\<rparr>"

theorem failed_backfill_forgotten_witness:
  "backfillBlockNumber sub1_broadcaster = Some 5 \<and>
   resubscribe log_cfg0 ([down, down, down, down] @ [\<lparr>bt_head = Some 9, bt_fetch = (\<lambda>_ _. Some [log5])\<rparr>]) [] sub1_broadcaster =
     Some (sub1_broadcaster\<lparr>backfillBlockNumber := None\<rparr>, [])"
proof -
  have "fst (addressesAndTopics (b_registrations sub1_broadcaster)) \<noteq> []"
    by (simp add: sub1_broadcaster_def sub1_registrations_def addressesAndTopics_def handler_addressesAndTopics_def)
  then have "resubscribe log_cfg0 ([down, down, down, down] @ [\<lparr>bt_head = Some 9, bt_fetch = (\<lambda>_ _. Some [log5])\<rparr>]) [] sub1_broadcaster =
     Some (sub1_broadcaster\<lparr>backfillBlockNumber := None\<rparr>, [])"
    by (intro failed_backfill_forgotten) (simp_all add: down_def)
  then show ?thesis by (simp add: sub1_broadcaster_def)
qed

section \<open>A new head\<close>

lemma sendLoop_blocks:
  assumes inv: "pool_inv elems p" and "is_i64 n" and "n < max_i64" and "min_i64 \<le> num" and loop: "sendLoop p num n [] = Some bs"
    and b: "b \<in> set bs"
  shows "(\<forall>l \<in> set (lob_Logs b). BlockNumber l = lob_BlockNumber b) \<and> (\<exists>l \<in> ran (pool_abs p). BlockNumber l = lob_BlockNumber b)"
proof -
  obtain i h where bh: "b = newLogsOnBlock (to_u64 i) (get_or [] (logsByBlockHash p) h)"
    and h: "h \<in> set (get_or [] (hashesByBlockNumbers p) (to_u64 i))"
    using b loop unfolding sendLoop_eq [OF assms(2-4), of p "[]"] by auto
  obtain hs where hs: "hashesByBlockNumbers p (to_u64 i) = Some hs" "h \<in> set hs" using h by (auto simp: in_get_or)
  have num: "lob_BlockNumber b = to_u64 i" by (simp add: bh newLogsOnBlock_def)
  have "BlockNumber l = to_u64 i" if "l \<in> set (lob_Logs b)" for l
  proof -
    from that have "l \<in> ran (pool_abs p)" and "BlockHash l = h" unfolding bh block_logs [OF inv] by auto
    then show ?thesis using hash_one_number [OF inv hs] by (auto simp: ran_def)
  qed
  moreover have "\<exists>l \<in> ran (pool_abs p). BlockNumber l = to_u64 i" using pool_invD(3) [OF inv hs] by blast
  ultimately show ?thesis by (simp add: num)
qed

lemma getLogsToSend_blocks:
  assumes heap: "min_heap H elems" and inv: "pool_inv elems p" and n: "is_i64 n" "n < max_i64"
  obtains bs mn where "getLogsToSend H n p = Some (bs, mn)" and "sent_logs bs = {l \<in> ran (pool_abs p). to_i64 (BlockNumber l) \<le> n}"
    and "\<And>b l. b \<in> set bs \<Longrightarrow> l \<in> set (lob_Logs b) \<Longrightarrow> BlockNumber l = lob_BlockNumber b"
    and "\<And>b. b \<in> set bs \<Longrightarrow> \<exists>l \<in> ran (pool_abs p). BlockNumber l = lob_BlockNumber b"
    and "\<And>l. l \<in> ran (pool_abs p) \<Longrightarrow> mn \<le> to_i64 (BlockNumber l)"
proof -
  obtain bs mn where r: "getLogsToSend H n p = Some (bs, mn)" and s: "sent_logs bs = {l \<in> ran (pool_abs p). to_i64 (BlockNumber l) \<le> n}"
    using min_heap.getLogsToSend_spec [OF heap inv n] by blast
  have in_heap: "BlockNumber l \<in># elems (pool_heap p)" if "l \<in> ran (pool_abs p)" for l
    using that pool_invD(2,5) [OF inv] by (fastforce simp: ran_def)
  show ?thesis
  proof (cases "hp_find_min H (pool_heap p)")
    case None
    then have "bs = []" using r by (simp add: getLogsToSend_def)
    moreover have "l \<notin> ran (pool_abs p)" for l using min_heap.find_min_le [OF heap] in_heap None by force
    ultimately show ?thesis using that [OF r s] by auto
  next
    case (Some m)
    then have loop: "sendLoop p (to_i64 m) n [] = Some bs" and mn: "mn = to_i64 m" using r by (auto simp: getLogsToSend_def)
    note blocks = sendLoop_blocks [OF inv n _ loop]
    have lo: "min_i64 \<le> to_i64 m" using to_i64_range [of m] by (simp add: is_i64_def)
    have "mn \<le> to_i64 (BlockNumber l)" if mem: "l \<in> ran (pool_abs p)" for l
    proof -
      obtain m' where "hp_find_min H (pool_heap p) = Some m'" "m' \<in># elems (pool_heap p)" "m' \<le> BlockNumber l"
        using min_heap.find_min_le [OF heap in_heap [OF mem]] by blast
      then show ?thesis using Some mn pool_invD(8) [OF inv] in_heap [OF mem] by (simp add: to_i64_le_iff)
    qed
    with blocks [OF lo] show ?thesis using that [OF r s] by blast
  qed
qed

lemma keptDepth_bound:
  assumes "0 \<le> n" and "n \<le> max_i64" and "s \<in> S" and "reg_rel r S" and "k < keptDepth cfg r n" and "0 \<le> k"
  shows "k + uint (s_conf s) < n"
proof -
  have fin: "finite S" and hi: "highestNumConfirmations r = Max (insert 0 (s_conf ` S))" using assms(4) by (simp_all add: reg_rel_def)
  have "s_conf s \<le> highestNumConfirmations r" unfolding hi using fin assms(3) by (intro Max_ge) auto
  also have "\<dots> \<le> keptLogsDepth cfg r" by (auto simp: keptLogsDepth_def)
  finally have le: "uint (s_conf s) \<le> uint (keptLogsDepth cfg r)" by (simp add: word_le_def)
  have ge: "0 \<le> uint (keptLogsDepth cfg r)" and lt: "uint (keptLogsDepth cfg r) < 4294967296"
    using uint_lt2p [of "keptLogsDepth cfg r"] by simp_all
  have "is_i64 (n - uint (keptLogsDepth cfg r))"
    using assms(1,2) ge lt unfolding is_i64_def min_i64_def max_i64_def by linarith
  then have "wrap64 (n - uint (keptLogsDepth cfg r)) = n - uint (keptLogsDepth cfg r)" by (rule wrap64_id)
  then show ?thesis using assms(1,5,6) le by (auto simp: keptDepth_def Let_def split: if_splits)
qed


text \<open>The rows of a log in the pool carry the log's block number.\<close>

definition rows_fit :: "log_db \<Rightarrow> eth_log set \<Rightarrow> subscriber set \<Rightarrow> bool" where
  "rows_fit db L S \<longleftrightarrow> keys_ok db \<and> (\<forall>l \<in> L. \<forall>s \<in> S. \<forall>r \<in> set (db_rows db).
     row_key r = NewLogBroadcastAsKey l s \<longrightarrow> br_BlockNumber r = Some (to_i64 (BlockNumber l)))"

lemma existing_FindBroadcasts:
  assumes "keys_ok db" and "\<And>r. r \<in> set (db_rows db) \<Longrightarrow> row_key r = k \<Longrightarrow> \<exists>n. br_BlockNumber r = Some n \<and> lo \<le> n \<and> n \<le> hi"
  shows "existingBroadcasts (FindBroadcasts lo hi db) k = (if k \<in> row_key ` set (db_rows db) then Some (consumed db k) else None)"
proof -
  let ?P = "\<lambda>r. case br_BlockNumber r of None \<Rightarrow> False | Some n \<Rightarrow> lo \<le> n \<and> n \<le> hi"
  let ?row = "\<lambda>r. \<lparr>lb_BlockHash = br_BlockHash r, lb_Consumed = br_Consumed r, lb_LogIndex = br_LogIndex r, lb_JobID = br_JobID r\<rparr>"
  have key: "AsKey (?row r) = row_key r" for r by (simp add: AsKey_def row_key_def)
  have upd: "fold (\<lambda>b m. m(AsKey b \<mapsto> lb_Consumed b)) (map ?row rs) m k =
      (if k \<in> row_key ` set rs then Some (\<exists>r \<in> set rs. row_key r = k \<and> br_Consumed r) else m k)" if "distinct (map row_key rs)" for rs m
    using that
  proof (induction rs arbitrary: m)
    case (Cons r rs)
    have "\<not> (\<exists>x \<in> set rs. row_key x = k)" if "row_key r = k" using Cons.prems that by (auto simp: image_iff)
    then show ?case using Cons by (auto simp: key)
  qed simp
  have "distinct (map row_key (filter ?P (db_rows db)))" using assms(1) by (simp add: keys_ok_def distinct_map_filter)
  note upd [OF this]
  moreover have "k \<in> row_key ` set (filter ?P (db_rows db)) \<longleftrightarrow> k \<in> row_key ` set (db_rows db)" using assms(2) by force
  moreover have "(\<exists>r \<in> set (filter ?P (db_rows db)). row_key r = k \<and> br_Consumed r) \<longleftrightarrow> consumed db k"
    unfolding consumed_iff [OF assms(1)] using assms(2) by force
  ultimately show ?thesis unfolding existingBroadcasts_def FindBroadcasts_def by simp
qed

definition receives :: "send_env \<Rightarrow> log_db \<Rightarrow> subscriber \<Rightarrow> eth_log \<Rightarrow> bool" where
  "receives env db s l \<longleftrightarrow> (case Topics l of [] \<Rightarrow> False
     | topic # vs \<Rightarrow> s_contract s = Address l \<and>
        (case map_of (s_topics s) topic of None \<Rightarrow> False
         | Some filters \<Rightarrow> \<forall>i < min (length vs) (length filters). filters ! i = [] \<or> vs ! i \<in> set (filters ! i)) \<and>
        parses env s l \<and> \<not> consumed db (NewLogBroadcastAsKey l s) \<and>
        (NewLogBroadcastAsKey l s \<in> row_key ` set (db_rows db) \<or> insertOk env (NewLogBroadcastAsKey l s)))"

lemma should_get_receives:
  assumes "existingBroadcasts bs (NewLogBroadcastAsKey l s) =
      (if NewLogBroadcastAsKey l s \<in> row_key ` set (db_rows db) then Some (consumed db (NewLogBroadcastAsKey l s)) else None)"
    and "keys_ok db"
  shows "should_get (parses env) (creates env db) (existingBroadcasts bs) s l \<longleftrightarrow> receives env db s l"
proof -
  have "consumed db (NewLogBroadcastAsKey l s) \<longrightarrow> NewLogBroadcastAsKey l s \<in> row_key ` set (db_rows db)"
    unfolding consumed_iff [OF assms(2)] by (auto intro: rev_image_eqI)
  then show ?thesis unfolding should_get_def receives_def assms(1) by (auto simp: creates_def split: list.splits)
qed


lemma pool_small:
  assumes inv: "pool_inv elems p" and mem: "l \<in> ran (pool_abs p)"
  shows "small64 (BlockNumber l)"
proof -
  obtain k where k: "pool_abs p k = Some l" using mem by (auto simp: ran_def)
  obtain hs where "hashesByBlockNumbers p (BlockNumber l) = Some hs" using pool_invD(5) [OF inv k] by blast
  then show ?thesis using pool_invD(2,8) [OF inv] by blast
qed

lemma reg_rel_conf:
  assumes "reg_rel r S" and "s \<in> S"
  shows "1 \<le> uint (s_conf s)"
proof -
  have "s_conf s \<noteq> 0" using assms by (auto simp: reg_rel_def held_rel_def sub_ok_def)
  then show ?thesis using uint_ge_0 [of "s_conf s"] uint_0_iff [of "s_conf s"] by linarith
qed

lemma reg_rel_some_conf:
  assumes "reg_rel r S" and "S \<noteq> {}"
  shows "highestNumConfirmations r \<noteq> 0"
proof -
  obtain s where s: "s \<in> S" using assms(2) by blast
  have fin: "finite S" and hi: "highestNumConfirmations r = Max (insert 0 (s_conf ` S))" using assms(1) by (simp_all add: reg_rel_def)
  have "s_conf s \<le> highestNumConfirmations r" unfolding hi using fin s by (intro Max_ge) auto
  then show ?thesis using reg_rel_conf [OF assms(1) s] by (auto simp: word_le_def)
qed

lemma sendFound_spec:
  assumes rel: "reg_rel (b_registrations b) S" and heap: "min_heap H elems" and inv: "pool_inv elems (b_logPool b)"
    and n: "0 \<le> n" "n < max_i64" and rows: "rows_fit (b_db b) (ran (pool_abs (b_logPool b))) S"
    and logs: "\<forall>l \<in> ran (pool_abs (b_logPool b)). BlockNumber l \<noteq> 0 \<and> Topics l \<noteq> []"
    and send: "getLogsToSend H n (b_logPool b) = Some (bs, mn)"
  obtains b' ds where "sendFound env bs mn n n b = Some (b', ds)" and "b_logPool b' = b_logPool b"
    and "b_registrations b' = b_registrations b"
    and "\<And>s l. (s, l) \<in> set ds \<longleftrightarrow> s \<in> S \<and> l \<in> ran (pool_abs (b_logPool b)) \<and>
      to_i64 (BlockNumber l) + uint (s_conf s) - 1 \<le> n \<and> receives env (b_db b) s l"
proof -
  let ?L = "ran (pool_abs (b_logPool b))"
  have n64: "is_i64 n" using n by (simp add: is_i64_def min_i64_def)
  obtain bs' mn' where g: "getLogsToSend H n (b_logPool b) = Some (bs', mn')"
    and sent': "sent_logs bs' = {l \<in> ?L. to_i64 (BlockNumber l) \<le> n}"
    and num': "\<And>b l. b \<in> set bs' \<Longrightarrow> l \<in> set (lob_Logs b) \<Longrightarrow> BlockNumber l = lob_BlockNumber b"
    and some': "\<And>c. c \<in> set bs' \<Longrightarrow> \<exists>l \<in> ?L. BlockNumber l = lob_BlockNumber c"
    and low': "\<And>l. l \<in> ?L \<Longrightarrow> mn' \<le> to_i64 (BlockNumber l)"
    by (rule getLogsToSend_blocks [OF heap inv n64 n(2)]) (rule that)
  have same: "bs' = bs" "mn' = mn" using send g by simp_all
  note sent = sent' [unfolded same] and num = num' [unfolded same] and some = some' [unfolded same] and low = low' [unfolded same]
  note small = pool_small [OF inv]
  have blocks: "lob_BlockNumber c \<noteq> 0 \<and> (\<forall>s \<in> S. uint (lob_BlockNumber c) + uint (s_conf s) < 2 ^ 64) \<and> (\<forall>l \<in> set (lob_Logs c). Topics l \<noteq> [])"
    if c: "c \<in> set bs" for c
  proof -
    obtain l where l: "l \<in> ?L" "BlockNumber l = lob_BlockNumber c" using some [OF c] by blast
    have "uint (lob_BlockNumber c) \<le> max_i64" using small [OF l(1)] l(2) by (simp add: small64_def)
    then have low: "uint (lob_BlockNumber c) \<le> 9223372036854775807" by (simp add: max_i64_def)
    have "uint (s_conf s) < 4294967296" for s :: subscriber using uint_lt2p [of "s_conf s"] by simp
    then have "uint (lob_BlockNumber c) + uint (s_conf s) < 18446744073709551616" for s :: subscriber
      using low add_le_less_mono [OF low, of "uint (s_conf s)" 4294967296] by simp
    then have "\<forall>s \<in> S. uint (lob_BlockNumber c) + uint (s_conf s) < 2 ^ 64" by simp
    moreover have "Topics x \<noteq> []" if "x \<in> set (lob_Logs c)" for x
    proof -
      have "x \<in> ?L" using that c sent by (auto simp: sent_logs_def)
      then show ?thesis using logs by blast
    qed
    ultimately show ?thesis using logs l by auto
  qed
  obtain created ds where run: "sendLogs (parses env) (creates env (b_db b)) (b_registrations b) bs n (FindBroadcasts mn n (b_db b)) = Some (created, ds)"
    and ds: "\<And>s l. (s, l) \<in> set ds \<longleftrightarrow> s \<in> S \<and> should_get (parses env) (creates env (b_db b)) (existingBroadcasts (FindBroadcasts mn n (b_db b))) s l \<and>
      (\<exists>c \<in> set bs. l \<in> set (lob_Logs c) \<and> uint (lob_BlockNumber c) + uint (s_conf s) - 1 \<le> uint (to_u64 n))"
    using sendLogs_spec [OF rel blocks, of bs "parses env" "creates env (b_db b)" n "FindBroadcasts mn n (b_db b)"] by auto
  show ?thesis
  proof (rule that)
    show "sendFound env bs mn n n b = Some (b\<lparr>b_db := insertCreated created (b_db b)\<rparr>, ds)" by (simp add: sendFound_def run)
    fix s :: subscriber and l :: eth_log
    have un: "uint (to_u64 n) = n" using n by (simp add: to_u64_def uint_word_of_int max_i64_def)
    have due: "(\<exists>c \<in> set bs. l \<in> set (lob_Logs c) \<and> uint (lob_BlockNumber c) + uint (s_conf s) - 1 \<le> uint (to_u64 n)) \<longleftrightarrow>
        l \<in> ?L \<and> to_i64 (BlockNumber l) \<le> n \<and> to_i64 (BlockNumber l) + uint (s_conf s) - 1 \<le> n"
    proof -
      have "(\<exists>c \<in> set bs. l \<in> set (lob_Logs c) \<and> uint (lob_BlockNumber c) + uint (s_conf s) - 1 \<le> uint (to_u64 n)) \<longleftrightarrow>
          l \<in> sent_logs bs \<and> uint (BlockNumber l) + uint (s_conf s) - 1 \<le> n"
        unfolding un sent_logs_def using num by fastforce
      then show ?thesis unfolding sent using to_i64_small [OF small, of l] by auto
    qed
    note conf = reg_rel_conf [OF rel]
    have get: "should_get (parses env) (creates env (b_db b)) (existingBroadcasts (FindBroadcasts mn n (b_db b))) s l \<longleftrightarrow> receives env (b_db b) s l"
      if sl: "s \<in> S" "l \<in> ?L" "to_i64 (BlockNumber l) \<le> n"
    proof (rule should_get_receives)
      show ok: "keys_ok (b_db b)" using rows by (simp add: rows_fit_def)
      show "existingBroadcasts (FindBroadcasts mn n (b_db b)) (NewLogBroadcastAsKey l s) =
          (if NewLogBroadcastAsKey l s \<in> row_key ` set (db_rows (b_db b)) then Some (consumed (b_db b) (NewLogBroadcastAsKey l s)) else None)"
        using rows sl low by (intro existing_FindBroadcasts [OF ok]) (auto simp: rows_fit_def)
    qed
    show "(s, l) \<in> set ds \<longleftrightarrow> s \<in> S \<and> l \<in> ?L \<and> to_i64 (BlockNumber l) + uint (s_conf s) - 1 \<le> n \<and> receives env (b_db b) s l"
      unfolding ds due using get conf by (smt (verit))
  qed simp_all
qed

text \<open>C2: a new head hands out exactly the logs that are due, and drops no log before every subscriber had it: while logs can be
  queried, a head of height \<open>n\<close> delivers a log of the pool to a subscriber just when the log is as deep as the subscriber asked
  for and the subscriber is to receive it, and each log that has left the pool was deep enough for all subscribers.\<close>
theorem new_head_loses_no_log:
  assumes rel: "reg_rel (b_registrations b) S" and ne: "S \<noteq> {}" and heap: "min_heap H elems" and inv: "pool_inv elems (b_logPool b)"
    and head: "takeLatest (newHeads b) None = (m, Some h)" and n: "0 \<le> Number h" "Number h < max_i64" and ok: "findOk env"
    and rows: "rows_fit (b_db b) (ran (pool_abs (b_logPool b))) S"
    and logs: "\<forall>l \<in> ran (pool_abs (b_logPool b)). BlockNumber l \<noteq> 0 \<and> Topics l \<noteq> []"
  shows "\<exists>b' ds. onNewHeads cfg H env b = Some (b', ds) \<and>
    (\<forall>s l. (s, l) \<in> set ds \<longleftrightarrow> s \<in> S \<and> l \<in> ran (pool_abs (b_logPool b)) \<and>
       to_i64 (BlockNumber l) + uint (s_conf s) - 1 \<le> Number h \<and> receives env (b_db b) s l) \<and>
    (\<forall>l \<in> ran (pool_abs (b_logPool b)) - ran (pool_abs (b_logPool b')). \<forall>s \<in> S. to_i64 (BlockNumber l) + uint (s_conf s) < Number h)"
proof -
  let ?n = "Number h" and ?L = "ran (pool_abs (b_logPool b))"
  define b1 where "b1 = b\<lparr>newHeads := m, lastSeenHeadNumber := ?n\<rparr>"
  have b1: "b_logPool b1 = b_logPool b" "b_registrations b1 = b_registrations b" "b_db b1 = b_db b" by (simp_all add: b1_def)
  have run: "onNewHeads cfg H env b = sendConfirmed cfg H env ?n b1"
    using head reg_rel_some_conf [OF rel ne] by (simp add: onNewHeads_def b1_def)
  have n64: "is_i64 ?n" using n by (simp add: is_i64_def min_i64_def)
  obtain bs mn where g: "getLogsToSend H ?n (b_logPool b) = Some (bs, mn)" and sent: "sent_logs bs = {l \<in> ?L. to_i64 (BlockNumber l) \<le> ?n}"
    by (rule getLogsToSend_blocks [OF heap inv n64 n(2)]) (rule that)
  obtain b2 ds where found: "(if bs = [] then Some (b1, []) else sendFound env bs mn ?n ?n b1) = Some (b2, ds)"
    and same: "b_logPool b2 = b_logPool b" "b_registrations b2 = b_registrations b"
    and ds: "\<And>s l. (s, l) \<in> set ds \<longleftrightarrow> s \<in> S \<and> l \<in> ?L \<and> to_i64 (BlockNumber l) + uint (s_conf s) - 1 \<le> ?n \<and> receives env (b_db b) s l"
  proof (cases "bs = []")
    case True
    have "\<not> to_i64 (BlockNumber l) + uint (s_conf s) - 1 \<le> ?n" if s: "s \<in> S" and l: "l \<in> ?L" for s l
      using reg_rel_conf [OF rel s] sent l True by (auto simp: sent_logs_def)
    then show ?thesis using True b1 by (intro that [of b1 "[]"]) auto
  next
    case False
    obtain b2 ds where "sendFound env bs mn ?n ?n b1 = Some (b2, ds)" "b_logPool b2 = b_logPool b" "b_registrations b2 = b_registrations b"
      "\<And>s l. (s, l) \<in> set ds \<longleftrightarrow> s \<in> S \<and> l \<in> ?L \<and> to_i64 (BlockNumber l) + uint (s_conf s) - 1 \<le> ?n \<and> receives env (b_db b) s l"
      by (rule sendFound_spec [of b1 S H elems ?n bs mn env, unfolded b1, OF rel heap inv n rows logs g]) (rule that)
    then show ?thesis using False by (intro that [of b2 ds]) simp_all
  qed
  obtain p mn' where del: "deleteOlderLogs H (keptDepth cfg (b_registrations b) ?n) (b_logPool b) = Some (p, mn')"
    and p: "pool_abs p = (\<lambda>x. case pool_abs (b_logPool b) x of None \<Rightarrow> None
        | Some l \<Rightarrow> if keptDepth cfg (b_registrations b) ?n \<le> to_i64 (BlockNumber l) then Some l else None)"
    using min_heap.deleteOlderLogs_spec [OF heap inv] by blast
  have "sendConfirmed cfg H env ?n b1 = Some (setPending env mn' (b2\<lparr>b_logPool := p\<rparr>), ds)"
    using g found del ok by (simp add: sendConfirmed_def b1 same)
  moreover have "to_i64 (BlockNumber l) + uint (s_conf s) < ?n" if l: "l \<in> ?L" "l \<notin> ran (pool_abs p)" and s: "s \<in> S" for l s
  proof (rule keptDepth_bound [OF n(1) _ s rel])
    show "to_i64 (BlockNumber l) < keptDepth cfg (b_registrations b) ?n" using l unfolding ran_filter [OF p] by auto
    show "0 \<le> to_i64 (BlockNumber l)" using pool_small [OF inv l(1)] by (simp add: to_i64_small)
  qed (use n in simp)
  ultimately show ?thesis unfolding run
    by (intro exI [of _ "setPending env mn' (b2\<lparr>b_logPool := p\<rparr>)"] exI [of _ ds]) (simp add: ds setPending_def)
qed

definition head9 :: head where
  "head9 = \<lparr>ID = 1, Hash = 90, Number = 9, L1BlockNumber = None, ParentHash = 80, Parent = None, EVMChainID = 1, Timestamp = 0,
     CreatedAt = 0, BaseFeePerGas = None, ReceiptsRoot = 0, TransactionsRoot = 0, StateRoot = 0\<rparr>"

definition log5_broadcaster :: "u64 list log_broadcaster" where
  "log5_broadcaster = onNewLog list_heap True log5 (lb_OnNewLongestChain head9 sub1_broadcaster)"

definition env0 :: send_env where
  "env0 = \<lparr>parses = (\<lambda>_ _. True), insertOk = (\<lambda>_. True), findOk = True, pendingOk = True\<rparr>"

theorem new_head_loses_no_log_witness:
  "\<exists>b' ds. onNewHeads log_cfg0 list_heap env0 log5_broadcaster = Some (b', ds) \<and> (sub1, log5) \<in> set ds \<and> log5 \<in> ran (pool_abs (b_logPool b'))"
proof -
  let ?b = "log5_broadcaster" and ?p = "fst (addLog list_heap log5 (newLogPool list_heap))"
  have small: "small64 (BlockNumber log5)" "to_i64 (BlockNumber log5) = 7" by (simp_all add: log5_def small64_def max_i64_def to_i64_def)
  have ok: "sub_ok sub1" "unique_job sub1 {}" by (simp_all add: sub_ok_def sub1_def unique_job_def)
  have rel: "reg_rel sub1_registrations {sub1}"
    using addSubscriber_ok [OF reg_rel_new ok(1) _ ok(2)] sub1_added by auto
  have "isAddressRegistered sub1_registrations (Address log5)"
    by (simp add: isAddressRegistered_def handler_isAddressRegistered_def sub1_registrations_def log5_def)
  then have b: "b_logPool ?b = ?p" "b_registrations ?b = sub1_registrations" "db_rows (b_db ?b) = []" "newHeads ?b = fst (Deliver head9 (NewMailbox 1))"
    by (simp_all add: log5_broadcaster_def onNewLog_def lb_OnNewLongestChain_def sub1_broadcaster_def NewBroadcaster_def log5_def
        SetPendingMinBlock_def split: prod.split)
  have inv: "pool_inv mset ?p" by (rule list_queue.pool_inv_addLog) (simp_all add: list_queue.pool_inv_new list_queue.pool_abs_new log_fits_def small)
  have abs: "ran (pool_abs ?p) = {log5}" by (simp add: pool_abs_addLog list_queue.pool_abs_new)
  have head: "takeLatest (newHeads ?b) None = ((NewMailbox 1)\<lparr>chNotify := True\<rparr>, Some head9)"
    unfolding b by (simp add: takeLatest_eq Deliver_def NewMailbox_def)
  have num: "Number head9 = 9" by (simp add: head9_def)
  have rows: "rows_fit (b_db ?b) (ran (pool_abs (b_logPool ?b))) {sub1}" by (simp add: rows_fit_def keys_ok_def b)
  have rec: "receives env0 (b_db ?b) sub1 log5"
    by (simp add: receives_def env0_def consumed_def WasBroadcastConsumed_def b sub1_def log5_def split: prod.split)
  have "\<exists>b' ds. onNewHeads log_cfg0 list_heap env0 ?b = Some (b', ds) \<and>
    (\<forall>s l. (s, l) \<in> set ds \<longleftrightarrow> s \<in> {sub1} \<and> l \<in> ran (pool_abs (b_logPool ?b)) \<and>
       to_i64 (BlockNumber l) + uint (s_conf s) - 1 \<le> Number head9 \<and> receives env0 (b_db ?b) s l) \<and>
    (\<forall>l \<in> ran (pool_abs (b_logPool ?b)) - ran (pool_abs (b_logPool b')). \<forall>s \<in> {sub1}. to_i64 (BlockNumber l) + uint (s_conf s) < Number head9)"
    by (rule new_head_loses_no_log [OF _ _ list_queue.min_heap_axioms])
      (simp_all add: b(1,2) rel inv head num rows [unfolded b(1) abs] abs max_i64_def env0_def, simp add: log5_def)
  then show ?thesis using rec small unfolding b(1) abs num by (auto simp: sub1_def)
qed

end
