(* ===== verification/Pipeline_Vars.thy ===== *)
theory Pipeline_Vars
  imports Go_Prelude
begin

text \<open>
  The variables of a job pipeline (\<^verbatim>\<open>core/services/pipeline/variables.go\<close>, \<^verbatim>\<open>keypath.go\<close>): a map from task
  names to values, read with keypaths such as \<^verbatim>\<open>foo.6.a\<close>. Values are what JSON decodes to: maps, slices and others
  (\<open>'a\<close>). Names and keypaths are ASCII strings.
\<close>

section \<open>Strings\<close>

definition is_space :: "char \<Rightarrow> bool" where
  "is_space c \<longleftrightarrow> c \<in> {CHR '' '', CHR 0x09, CHR 0x0A, CHR 0x0B, CHR 0x0C, CHR 0x0D}"

definition TrimSpace :: "string \<Rightarrow> string" where
  "TrimSpace s = rev (dropWhile is_space (rev (dropWhile is_space s)))"

text \<open>\<^verbatim>\<open>strings.Split(s, ".")\<close>; it never returns an empty slice.\<close>

fun splitDots :: "string \<Rightarrow> string list" where
  "splitDots [] = [[]]"
| "splitDots (c # cs) = (if c = CHR ''.'' then [] # splitDots cs
     else case splitDots cs of [] \<Rightarrow> [[c]] | p # ps \<Rightarrow> (c # p) # ps)"

definition digit_of :: "char \<Rightarrow> int option" where
  "digit_of c = (let n = of_char c :: int in if 48 \<le> n \<and> n \<le> 57 then Some (n - 48) else None)"

fun parseDigits :: "int \<Rightarrow> string \<Rightarrow> int option" where
  "parseDigits n [] = Some n"
| "parseDigits n (c # cs) = (case digit_of c of None \<Rightarrow> None | Some d \<Rightarrow> parseDigits (10 * n + d) cs)"

text \<open>\<^verbatim>\<open>strconv.ParseInt(s, 10, 64)\<close>.\<close>

definition ParseInt :: "string \<Rightarrow> int option" where
  "ParseInt s =
    (let neg = (s \<noteq> [] \<and> hd s = CHR ''-''); ds = (if s \<noteq> [] \<and> hd s \<in> {CHR ''-'', CHR ''+''} then tl s else s)
     in if ds = [] then None
        else case parseDigits 0 ds of None \<Rightarrow> None
             | Some n \<Rightarrow> let v = (if neg then - n else n) in if is_i64 v then Some v else None)"

section \<open>Keypaths\<close>

datatype vars_error = ErrWrongKeypath | ErrVarsRoot | ErrVarsSetNested | ErrKeypathNotFound | ErrIndexOutOfRange

definition NewKeypathFromString :: "string \<Rightarrow> vars_error + string list" where
  "NewKeypathFromString keypathStr =
    (if keypathStr = [] then Inr []
     else let parts = splitDots keypathStr
          in if parts = [] then Inl ErrWrongKeypath
             else if [] \<in> set parts then Inl ErrWrongKeypath
             else Inr parts)"

section \<open>Variables\<close>

datatype 'a gvalue = VMap "(string \<times> 'a gvalue) list" | VList "'a gvalue list" | VAtom 'a

type_synonym 'a vars = "(string \<times> 'a gvalue) list"

definition NewVarsFrom :: "'a vars option \<Rightarrow> 'a vars" where
  "NewVarsFrom m = (case m of None \<Rightarrow> [] | Some vs \<Rightarrow> vs)"

definition getPart :: "'a gvalue \<Rightarrow> string \<Rightarrow> vars_error + 'a gvalue" where
  "getPart v part =
    (case v of
       VMap m \<Rightarrow> (case map_of m part of None \<Rightarrow> Inl ErrKeypathNotFound | Some w \<Rightarrow> Inr w)
     | VList vs \<Rightarrow>
         (case ParseInt part of None \<Rightarrow> Inl ErrKeypathNotFound
          | Some idx \<Rightarrow> if idx < 0 \<or> idx > int (length vs) - 1 then Inl ErrIndexOutOfRange else Inr (vs ! nat idx))
     | VAtom _ \<Rightarrow> Inl ErrKeypathNotFound)"

fun getParts :: "'a gvalue \<Rightarrow> string list \<Rightarrow> vars_error + 'a gvalue" where
  "getParts v [] = Inr v"
| "getParts v (p # ps) = (case getPart v p of Inl e \<Rightarrow> Inl e | Inr w \<Rightarrow> getParts w ps)"

definition Vars_Get :: "'a vars \<Rightarrow> string \<Rightarrow> vars_error + 'a gvalue" where
  "Vars_Get vars keypathStr =
    (case NewKeypathFromString (TrimSpace keypathStr) of
       Inl e \<Rightarrow> Inl e
     | Inr parts \<Rightarrow> if parts = [] then Inl ErrVarsRoot else getParts (VMap vars) parts)"

definition Vars_Set :: "'a vars \<Rightarrow> string \<Rightarrow> 'a gvalue \<Rightarrow> vars_error + 'a vars" where
  "Vars_Set vars dotID0 value =
    (let dotID = TrimSpace dotID0
     in if dotID = [] then Inl ErrVarsRoot
        else if CHR ''.'' \<in> set dotID then Inl ErrVarsSetNested
        else Inr (AList.update dotID value vars))"

text \<open>A copy shares nothing that is ever changed, so it is the same value.\<close>

definition Vars_Copy :: "'a vars \<Rightarrow> 'a vars" where
  "Vars_Copy vars = NewVarsFrom (Some (fold (\<lambda>(k, v) m. AList.update k v m) vars []))"

section \<open>Lemmas\<close>

lemma splitDots_nonempty [simp]: "splitDots s \<noteq> []"
  by (induction s) (auto split: list.splits)

lemma splitDots_atom: "CHR ''.'' \<notin> set s \<Longrightarrow> splitDots s = [s]"
  by (induction s) auto

lemma splitDots_hd: "s = p @ CHR ''.'' # q \<Longrightarrow> CHR ''.'' \<notin> set p \<Longrightarrow> splitDots s = p # splitDots q"
  by (induction p arbitrary: s) auto

lemma splitDots_no_dot: "p \<in> set (splitDots s) \<Longrightarrow> CHR ''.'' \<notin> set p"
proof (induction s arbitrary: p)
  case (Cons c s)
  then show ?case by (cases "splitDots s") (auto split: if_splits)
qed simp

text \<open>Parts without dots are what splitting their concatenation gives back.\<close>

fun joinDots :: "string list \<Rightarrow> string" where
  "joinDots [] = []"
| "joinDots [p] = p"
| "joinDots (p # ps) = p @ CHR ''.'' # joinDots ps"

lemma split_join: "ps \<noteq> [] \<Longrightarrow> \<forall>p \<in> set ps. CHR ''.'' \<notin> set p \<Longrightarrow> splitDots (joinDots ps) = ps"
proof (induction ps rule: joinDots.induct)
  case (2 p)
  then show ?case by (simp add: splitDots_atom)
next
  case (3 p q qs)
  then show ?case using splitDots_hd [OF refl, of p "joinDots (q # qs)"] by simp
qed simp

lemma joinDots_nonempty: "ps \<noteq> [] \<Longrightarrow> \<forall>p \<in> set ps. p \<noteq> [] \<Longrightarrow> joinDots ps \<noteq> []"
  by (cases ps rule: joinDots.cases) auto

lemma last_join: "ps \<noteq> [] \<Longrightarrow> \<forall>p \<in> set ps. p \<noteq> [] \<Longrightarrow> last (joinDots ps) = last (last ps)"
  by (induction ps rule: joinDots.induct) (auto simp: joinDots_nonempty)

lemma dropWhile_rev_hd: "xs \<noteq> [] \<Longrightarrow> \<not> P (last xs) \<Longrightarrow> dropWhile P (rev xs) = rev xs"
  by (cases xs rule: rev_cases) auto

lemma TrimSpace_id: "s = [] \<or> \<not> is_space (hd s) \<and> \<not> is_space (last s) \<Longrightarrow> TrimSpace s = s"
  using dropWhile_rev_hd [of s is_space] by (cases s) (auto simp: TrimSpace_def)

lemma TrimSpace_ends:
  assumes "TrimSpace s \<noteq> []"
  shows "\<not> is_space (hd (TrimSpace s))" and "\<not> is_space (last (TrimSpace s))"
proof -
  let ?a = "dropWhile is_space s" and ?b = "dropWhile is_space (rev (dropWhile is_space s))"
  have b: "?b \<noteq> []" using assms by (auto simp: TrimSpace_def)
  then have a: "?a \<noteq> []" by (metis dropWhile.simps(1) rev.simps(1))
  show "\<not> is_space (last (TrimSpace s))" using hd_dropWhile [of is_space "rev ?a"] b by (simp add: TrimSpace_def last_rev)
  have "rev ?a = takeWhile is_space (rev ?a) @ ?b" by simp
  then have "last (rev ?a) = last ?b" using b by (metis last_appendR)
  then have "hd (TrimSpace s) = hd ?a" using a b by (simp add: TrimSpace_def hd_rev last_rev)
  then show "\<not> is_space (hd (TrimSpace s))" using hd_dropWhile a by metis
qed

lemma TrimSpace_idem [simp]: "TrimSpace (TrimSpace s) = TrimSpace s"
  using TrimSpace_ends by (intro TrimSpace_id) blast

lemma map_of_rev: "distinct (map fst al) \<Longrightarrow> map_of (rev al) = map_of al"
  by (rule map_of_eqI) (auto simp: rev_map [symmetric])

lemma Copy_lookup: "distinct (map fst vars) \<Longrightarrow> map_of (Vars_Copy vars) = map_of vars"
proof -
  have "map_of (fold (\<lambda>(k, v) m. AList.update k v m) vars m) k = (case map_of (rev vars) k of None \<Rightarrow> map_of m k | Some v \<Rightarrow> Some v)" for m k
    by (induction vars arbitrary: m) (auto simp: map_add_def split: option.splits)
  then show "distinct (map fst vars) \<Longrightarrow> map_of (Vars_Copy vars) = map_of vars"
    by (auto simp: Vars_Copy_def NewVarsFrom_def map_of_rev fun_eq_iff split: option.splits)
qed

lemma Get_nonempty:
  assumes "ps \<noteq> []" and "\<forall>p \<in> set ps. CHR ''.'' \<notin> set p \<and> p \<noteq> []" and "TrimSpace (joinDots ps) = joinDots ps"
  shows "Vars_Get vars (joinDots ps) = getParts (VMap vars) ps"
proof -
  have "joinDots ps \<noteq> []" using assms(1,2) by (cases ps rule: joinDots.cases) auto
  moreover have "splitDots (joinDots ps) = ps" using assms(1,2) by (intro split_join) auto
  ultimately show ?thesis using assms by (auto simp: Vars_Get_def NewKeypathFromString_def Let_def)
qed

section \<open>Properties\<close>

definition top_key :: "string \<Rightarrow> string" where
  "top_key path = hd (splitDots (TrimSpace path))"

text \<open>C33: what is set under a name is what keypaths below the name read from then on, and nothing else changes: setting a
  name succeeds exactly when it is not blank and has no dot; then reading the name, alone or followed by parts, reads
  the value (or that part of it), and every keypath that starts with another name reads what it read before.\<close>
theorem vars_set_get:
  "((\<exists>vars'. Vars_Set vars dotID v = Inr vars') \<longleftrightarrow> TrimSpace dotID \<noteq> [] \<and> CHR ''.'' \<notin> set (TrimSpace dotID)) \<and>
   (\<forall>vars'. Vars_Set vars dotID v = Inr vars' \<longrightarrow>
      Vars_Get vars' dotID = Inr v \<and>
      (\<forall>ps. ps \<noteq> [] \<and> (\<forall>p \<in> set ps. p \<noteq> [] \<and> CHR ''.'' \<notin> set p) \<and> \<not> is_space (last (last ps)) \<longrightarrow>
         Vars_Get vars' (TrimSpace dotID @ CHR ''.'' # joinDots ps) = getParts v ps) \<and>
      (\<forall>path. top_key path \<noteq> TrimSpace dotID \<longrightarrow> Vars_Get vars' path = Vars_Get vars path))"
proof (intro conjI allI impI)
  show "(\<exists>vars'. Vars_Set vars dotID v = Inr vars') \<longleftrightarrow> TrimSpace dotID \<noteq> [] \<and> CHR ''.'' \<notin> set (TrimSpace dotID)"
    by (auto simp: Vars_Set_def Let_def)
next
  fix vars' assume set: "Vars_Set vars dotID v = Inr vars'"
  let ?k = "TrimSpace dotID"
  have k: "?k \<noteq> []" "CHR ''.'' \<notin> set ?k" and vars': "vars' = AList.update ?k v vars"
    using set by (auto simp: Vars_Set_def Let_def split: if_splits)
  have at: "getPart (VMap vars') ?k = Inr v" by (simp add: vars' getPart_def)
  show "Vars_Get vars' dotID = Inr v"
    using k at by (simp add: Vars_Get_def NewKeypathFromString_def splitDots_atom)
  show "Vars_Get vars' (?k @ CHR ''.'' # joinDots ps) = getParts v ps"
    if ps: "ps \<noteq> [] \<and> (\<forall>p \<in> set ps. p \<noteq> [] \<and> CHR ''.'' \<notin> set p) \<and> \<not> is_space (last (last ps))" for ps
  proof -
    have join: "joinDots (?k # ps) = ?k @ CHR ''.'' # joinDots ps" using ps by (cases ps) auto
    have "TrimSpace (joinDots (?k # ps)) = joinDots (?k # ps)"
      using k TrimSpace_ends [of dotID] ps last_join [of ps] by (intro TrimSpace_id) (auto simp: join joinDots_nonempty)
    then have "Vars_Get vars' (joinDots (?k # ps)) = getParts (VMap vars') (?k # ps)"
      using k ps by (intro Get_nonempty) auto
    then show ?thesis using at by (simp add: join)
  qed
  show "Vars_Get vars' path = Vars_Get vars path" if other: "top_key path \<noteq> ?k" for path
  proof (cases "splitDots (TrimSpace path)")
    case Nil
    then show ?thesis by simp
  next
    case (Cons p ps)
    then have "getPart (VMap vars') p = getPart (VMap vars) p" using other by (simp add: vars' getPart_def top_key_def)
    then show ?thesis by (auto simp: Vars_Get_def NewKeypathFromString_def Cons)
  qed
qed

theorem vars_set_get_witness:
  "\<exists>vars'. Vars_Set [] '' foo '' (VMap [(''a'', VList [VAtom (7::int)])]) = Inr vars' \<and> Vars_Get vars' ''foo.a.0'' = Inr (VAtom 7)"
proof -
  have foo: "TrimSpace '' foo '' = ''foo''" by (simp add: TrimSpace_def is_space_def)
  obtain vars' where set: "Vars_Set [] '' foo '' (VMap [(''a'', VList [VAtom (7::int)])]) = Inr vars'"
    using vars_set_get [of "[]" "'' foo ''" "VMap [(''a'', VList [VAtom (7::int)])]"] unfolding foo by auto
  have "Vars_Get vars' (TrimSpace '' foo '' @ CHR ''.'' # joinDots [''a'', ''0'']) = getParts (VMap [(''a'', VList [VAtom 7])]) [''a'', ''0'']"
    by (rule vars_set_get [THEN conjunct2, rule_format, OF set, THEN conjunct2, THEN conjunct1, rule_format]) (simp add: is_space_def)
  then show ?thesis using set by (simp add: foo getPart_def ParseInt_def digit_of_def Let_def is_i64_def min_i64_def max_i64_def)
qed

end
