(* ===== verification/Pipeline_Graph.thy ===== *)
theory Pipeline_Graph
  imports Pipeline_Vars "HOL-Library.Char_ord" "HOL-Library.List_Lexorder"
begin

text \<open>
  Reading a job pipeline (\<^verbatim>\<open>core/services/pipeline/graph.go\<close>, \<^verbatim>\<open>task.base.go\<close>, and \<^verbatim>\<open>UnmarshalTaskFromMap\<close> of
  \<^verbatim>\<open>common.go\<close>): a graph of named nodes gets an edge for every variable a node mentions, is sorted topologically, and
  becomes the list of tasks, each linked to its inputs and outputs. Reading DOT, sorting (both gonum) and decoding the
  attributes of a task (mapstructure) are parameters.
\<close>

section \<open>Tasks\<close>

type_synonym duration = int     \<comment> \<open>int64 nanoseconds\<close>

record task =
  t_id :: nat
  t_dotID :: string
  t_type :: string
  t_inputs :: "(bool \<times> nat) list"   \<comment> \<open>PropagateResult and the id of InputTask\<close>
  t_outputs :: "nat list"
  t_Index :: int
  t_Timeout :: "duration option"
  t_FailEarly :: bool
  t_Retries :: u32
  t_MinBackoff :: duration
  t_MaxBackoff :: duration
  t_uuid :: nat                     \<comment> \<open>0 is the nil UUID\<close>
  t_Async :: string                 \<comment> \<open>of a bridge task\<close>

definition TaskTimeout :: "task \<Rightarrow> duration \<times> bool" where
  "TaskTimeout t = (case t_Timeout t of None \<Rightarrow> (0, False) | Some d \<Rightarrow> (d, True))"

definition TaskMinBackoff :: "task \<Rightarrow> duration" where
  "TaskMinBackoff t = (if t_MinBackoff t > 0 then t_MinBackoff t else 5 * 1000000000)"

definition TaskMaxBackoff :: "task \<Rightarrow> duration" where
  "TaskMaxBackoff t = (if t_MinBackoff t > 0 then t_MaxBackoff t else 60 * 1000000000)"

definition taskTypes :: "string list" where
  "taskTypes = [''panic'', ''http'', ''bridge'', ''mean'', ''median'', ''mode'', ''sum'', ''any'', ''jsonparse'', ''memo'',
     ''multiply'', ''divide'', ''vrf'', ''vrfv2'', ''estimategaslimit'', ''ethcall'', ''ethtx'', ''ethabiencode'',
     ''ethabiencode2'', ''ethabidecode'', ''ethabidecodelog'', ''cborparse'', ''fail'', ''merge'', ''length'', ''lessthan'',
     ''lowercase'', ''uppercase'', ''conditional'', ''hexdecode'', ''hexencode'', ''base64decode'', ''base64encode'']"

definition ToLower :: "string \<Rightarrow> string" where
  "ToLower = map (\<lambda>c. let n = of_char c :: nat in if 65 \<le> n \<and> n \<le> 90 then char_of (n + 32) else c)"

datatype pipeline_error = UnknownTaskType | DecodeFailed | UnmarshalFailed | CycleDetected | ReservedName

text \<open>What decoding the attributes fills in: index, timeout, failEarly, retries, the backoffs and async.\<close>

type_synonym decoder = "string \<Rightarrow> (string \<times> string) list \<Rightarrow> (int \<times> duration option \<times> bool \<times> u32 \<times> duration \<times> duration \<times> string) option"

definition UnmarshalTaskFromMap :: "decoder \<Rightarrow> string \<Rightarrow> (string \<times> string) list \<Rightarrow> nat \<Rightarrow> string \<Rightarrow> pipeline_error + task" where
  "UnmarshalTaskFromMap decode taskType0 taskMap tid dotID =
    (let taskType = ToLower taskType0
     in if taskType \<notin> set taskTypes then Inl UnknownTaskType
        else case decode taskType taskMap of None \<Rightarrow> Inl DecodeFailed
             | Some (index, timeout, failEarly, retries, minBackoff, maxBackoff, async) \<Rightarrow>
                 Inr \<lparr>t_id = tid, t_dotID = dotID, t_type = taskType, t_inputs = [], t_outputs = [], t_Index = index, t_Timeout = timeout,
                   t_FailEarly = failEarly, t_Retries = retries, t_MinBackoff = minBackoff, t_MaxBackoff = maxBackoff, t_uuid = 0, t_Async = async\<rparr>)"

section \<open>Pipelines\<close>

definition MinTimeout :: "task list \<Rightarrow> duration \<times> bool" where
  "MinTimeout tasks = fold (\<lambda>t (minTimeout, aTimeoutSet).
      (case TaskTimeout t of (timeout, isSet) \<Rightarrow> if isSet \<and> timeout < minTimeout then (timeout, True) else (minTimeout, aTimeoutSet)))
    tasks (2 ^ 63 - 1, False)"

definition RequiresPreInsert :: "task list \<Rightarrow> bool" where
  "RequiresPreInsert tasks \<longleftrightarrow> (\<exists>t \<in> set tasks. (t_type t = ''bridge'' \<and> t_Async t = ''true'') \<or> t_type t = ''ethtx'')"

definition ByDotID :: "task list \<Rightarrow> string \<Rightarrow> task option" where
  "ByDotID tasks dotID = find (\<lambda>t. t_dotID t = dotID) tasks"

section \<open>Variables in attributes\<close>

text \<open>The expression \<^verbatim>\<open>\$\(\s*([a-zA-Z0-9_\.]+)\s*\)\<close>, and its leftmost matches that do not overlap. A match is the text
  between the parentheses.\<close>

definition re_space :: "char \<Rightarrow> bool" where
  "re_space c \<longleftrightarrow> c \<in> {CHR '' '', CHR 0x09, CHR 0x0A, CHR 0x0C, CHR 0x0D}"

definition re_word :: "char \<Rightarrow> bool" where
  "re_word c \<longleftrightarrow> (let n = of_char c :: nat in (97 \<le> n \<and> n \<le> 122) \<or> (65 \<le> n \<and> n \<le> 90) \<or> (48 \<le> n \<and> n \<le> 57)) \<or> c = CHR ''_'' \<or> c = CHR ''.''"

definition matchVariable :: "string \<Rightarrow> (string \<times> string) option" where
  "matchVariable s =
    (case s of c1 # c2 # r \<Rightarrow>
       if c1 = CHR ''$'' \<and> c2 = CHR ''('' then
         let r1 = dropWhile re_space r; word = takeWhile re_word r1; r2 = dropWhile re_word r1; r3 = dropWhile re_space r2
         in if word = [] then None
            else case r3 of [] \<Rightarrow> None
                 | c # rest \<Rightarrow> if c = CHR '')'' then Some (takeWhile re_space r @ word @ takeWhile re_space r2, rest) else None
       else None
     | _ \<Rightarrow> None)"

lemma matchVariable_shorter: "matchVariable s = Some (m, rest) \<Longrightarrow> length rest < length s"
proof -
  assume match: "matchVariable s = Some (m, rest)"
  then obtain c1 c2 r where s: "s = c1 # c2 # r" by (auto simp: matchVariable_def split: list.splits)
  have "length (dropWhile re_space (dropWhile re_word (dropWhile re_space r))) \<le> length r"
    using length_dropWhile_le order_trans by meson
  with match show ?thesis by (auto simp: matchVariable_def s Let_def split: if_splits list.splits)
qed

function findVariables :: "string \<Rightarrow> string list" where
  "findVariables s =
    (case matchVariable s of
       Some (item, rest) \<Rightarrow> item # findVariables rest
     | None \<Rightarrow> (case s of [] \<Rightarrow> [] | _ # cs \<Rightarrow> findVariables cs))"
  by pat_completeness auto
termination
  by (relation "measure length") (auto dest: matchVariable_shorter)

declare findVariables.simps [simp del]

section \<open>Graphs\<close>

record graph_node =
  gn_ID :: int
  gn_dotID :: string
  gn_attrs :: "(string \<times> string) list"

text \<open>The nodes in the order the iterator gives them, and the edges with their mark as implicit.\<close>

record graph =
  g_Nodes :: "graph_node list"
  g_Edges :: "((int \<times> int) \<times> bool) list"

definition not_angle :: "char \<Rightarrow> bool" where
  "not_angle c \<longleftrightarrow> c \<noteq> CHR ''<'' \<and> c \<noteq> CHR ''>''"

text \<open>The expression \<^verbatim>\<open>\A\s*<([^<>]+)>\s*\z\<close>.\<close>

definition unbracket :: "string \<Rightarrow> string option" where
  "unbracket v =
    (let t = rev (dropWhile re_space (rev (dropWhile re_space v)))
     in if length t \<ge> 3 \<and> hd t = CHR ''<'' \<and> last t = CHR ''>'' \<and> list_all not_angle (butlast (tl t)) then Some (butlast (tl t)) else None)"

definition SetAttribute :: "string \<Rightarrow> string \<Rightarrow> graph_node \<Rightarrow> graph_node" where
  "SetAttribute key v n = n\<lparr>gn_attrs := AList.update key (case unbracket v of None \<Rightarrow> v | Some u \<Rightarrow> u) (gn_attrs n)\<rparr>"

definition Attributes :: "graph_node \<Rightarrow> (string \<times> string) list" where
  "Attributes n = sort_key fst (gn_attrs n)"

definition HasEdgeFromTo :: "graph \<Rightarrow> int \<Rightarrow> int \<Rightarrow> bool" where
  "HasEdgeFromTo g u v \<longleftrightarrow> map_of (g_Edges g) (u, v) \<noteq> None"

definition IsImplicitEdge :: "graph \<Rightarrow> int \<Rightarrow> int \<Rightarrow> bool" where
  "IsImplicitEdge g u v \<longleftrightarrow> map_of (g_Edges g) (u, v) = Some True"

definition paramsOf :: "graph_node \<Rightarrow> string list" where
  "paramsOf n = concat (map (\<lambda>(_, value). map (\<lambda>item. hd (splitDots (TrimSpace item))) (findVariables value)) (Attributes n))"

definition addImplicitEdge :: "graph_node \<Rightarrow> graph_node \<Rightarrow> graph \<Rightarrow> graph" where
  "addImplicitEdge graphNode gn g =
    (if gn_dotID gn \<in> set (paramsOf graphNode) \<and> gn_ID gn \<noteq> gn_ID graphNode \<and> \<not> HasEdgeFromTo g (gn_ID gn) (gn_ID graphNode)
     then g\<lparr>g_Edges := AList.update (gn_ID gn, gn_ID graphNode) True (g_Edges g)\<rparr> else g)"

definition AddImplicitDependenciesAsEdges :: "graph \<Rightarrow> graph" where
  "AddImplicitDependenciesAsEdges g =
    fold (\<lambda>graphNode g'. fold (addImplicitEdge graphNode) (g_Nodes g) g') (g_Nodes g) g"

text \<open>\<open>unmarshalDOT\<close> reads the text between \<^verbatim>\<open>digraph {\<close> and \<^verbatim>\<open>}\<close>; \<open>None\<close> for an error or a panic.\<close>

definition UnmarshalText :: "(string \<Rightarrow> graph option) \<Rightarrow> string \<Rightarrow> pipeline_error + graph" where
  "UnmarshalText unmarshalDOT bs =
    (case unmarshalDOT (''digraph {'' @ [CHR 0x0A] @ bs @ [CHR 0x0A] @ ''}'') of
       None \<Rightarrow> Inl UnmarshalFailed
     | Some g \<Rightarrow> Inr (AddImplicitDependenciesAsEdges g))"

section \<open>From the graph to tasks\<close>

text \<open>The nodes with an edge to \<open>v\<close>, in the order of the iterator.\<close>

definition To :: "graph \<Rightarrow> int \<Rightarrow> int list" where
  "To g v = map fst (filter (\<lambda>(u, w). w = v) (map fst (g_Edges g)))"

text \<open>\<^verbatim>\<open>ids[u]\<close> is 0 for a key that is missing; an index beyond the tasks is a panic (\<open>None\<close>).\<close>

fun linkInputs :: "graph \<Rightarrow> int \<Rightarrow> (int \<Rightarrow> nat option) \<Rightarrow> int list \<Rightarrow> task list \<Rightarrow> task \<Rightarrow> (task list \<times> task) option" where
  "linkInputs g v ids [] tasks task = Some (tasks, task)"
| "linkInputs g v ids (u # us) tasks task =
    (let from = (case ids u of None \<Rightarrow> 0 | Some i \<Rightarrow> i)
     in if from \<ge> length tasks then None
        else linkInputs g v ids us
               (tasks[from := (tasks ! from)\<lparr>t_outputs := t_outputs (tasks ! from) @ [t_id task]\<rparr>])
               (task\<lparr>t_inputs := t_inputs task @ [(\<not> IsImplicitEdge g u v, from)]\<rparr>))"

fun linkTasks :: "decoder \<Rightarrow> graph \<Rightarrow> graph_node list \<Rightarrow> (int \<Rightarrow> nat option) \<Rightarrow> task list \<Rightarrow> (pipeline_error + task list) option" where
  "linkTasks decode g [] ids tasks = Some (Inr tasks)"
| "linkTasks decode g (node # nodes) ids tasks =
    (if gn_dotID node = ''input'' then Some (Inl ReservedName)
     else case UnmarshalTaskFromMap decode (case map_of (gn_attrs node) ''type'' of None \<Rightarrow> [] | Some t \<Rightarrow> t) (gn_attrs node) (length tasks) (gn_dotID node) of
            Inl e \<Rightarrow> Some (Inl e)
          | Inr task \<Rightarrow>
              (case linkInputs g (gn_ID node) ids (To g (gn_ID node)) tasks task of
                 None \<Rightarrow> None
               | Some (tasks', task') \<Rightarrow>
                   linkTasks decode g nodes (ids(gn_ID node \<mapsto> length tasks))
                     (tasks' @ [task'\<lparr>t_inputs := sort_key snd (t_inputs task')\<rparr>])))"

definition Parse :: "(string \<Rightarrow> graph option) \<Rightarrow> (graph \<Rightarrow> graph_node list option) \<Rightarrow> decoder \<Rightarrow> string \<Rightarrow> (pipeline_error + task list) option" where
  "Parse unmarshalDOT sortStabilized decode text =
    (case UnmarshalText unmarshalDOT text of
       Inl e \<Rightarrow> Some (Inl e)
     | Inr g \<Rightarrow>
         (case sortStabilized g of
            None \<Rightarrow> Some (Inl CycleDetected)
          | Some nodes \<Rightarrow> linkTasks decode g nodes Map.empty []))"

section \<open>Implicit edges\<close>

definition mentions :: "graph_node \<Rightarrow> graph_node \<Rightarrow> bool" where
  "mentions n gn \<longleftrightarrow> gn_dotID gn \<in> set (paramsOf n) \<and> gn_ID gn \<noteq> gn_ID n"

lemma addImplicitEdge_nodes [simp]: "g_Nodes (addImplicitEdge n gn g) = g_Nodes g"
  by (simp add: addImplicitEdge_def)

lemma addImplicitEdge_lookup:
  "map_of (g_Edges (addImplicitEdge n gn g)) e =
     (if map_of (g_Edges g) e = None \<and> e = (gn_ID gn, gn_ID n) \<and> mentions n gn then Some True else map_of (g_Edges g) e)"
  by (auto simp: addImplicitEdge_def HasEdgeFromTo_def mentions_def)

lemma addImplicitEdges_lookup:
  "map_of (g_Edges (fold (addImplicitEdge n) gns g)) e =
     (if map_of (g_Edges g) e = None \<and> (\<exists>gn \<in> set gns. e = (gn_ID gn, gn_ID n) \<and> mentions n gn) then Some True else map_of (g_Edges g) e)"
  by (induction gns arbitrary: g) (auto simp: addImplicitEdge_lookup)

lemma AddImplicit_lookup:
  "map_of (g_Edges (AddImplicitDependenciesAsEdges g)) e =
     (if map_of (g_Edges g) e = None \<and> (\<exists>n \<in> set (g_Nodes g). \<exists>gn \<in> set (g_Nodes g). e = (gn_ID gn, gn_ID n) \<and> mentions n gn)
      then Some True else map_of (g_Edges g) e)"
proof -
  have "map_of (g_Edges (fold (\<lambda>n g'. fold (addImplicitEdge n) (g_Nodes g) g') ns g0)) e =
     (if map_of (g_Edges g0) e = None \<and> (\<exists>n \<in> set ns. \<exists>gn \<in> set (g_Nodes g). e = (gn_ID gn, gn_ID n) \<and> mentions n gn)
      then Some True else map_of (g_Edges g0) e)" for ns g0
    by (induction ns arbitrary: g0) (auto simp: addImplicitEdges_lookup)
  then show ?thesis unfolding AddImplicitDependenciesAsEdges_def .
qed

lemma addImplicitEdge_distinct: "distinct (map fst (g_Edges g)) \<Longrightarrow> distinct (map fst (g_Edges (addImplicitEdge n gn g)))"
  by (simp add: addImplicitEdge_def distinct_keys_update)

lemma AddImplicit_distinct:
  assumes "distinct (map fst (g_Edges g))"
  shows "distinct (map fst (g_Edges (AddImplicitDependenciesAsEdges g)))"
proof -
  have inner: "distinct (map fst (g_Edges (fold (addImplicitEdge n) gns h)))" if "distinct (map fst (g_Edges h))" for n gns h
    using that by (induction gns arbitrary: h) (simp_all add: addImplicitEdge_distinct)
  have "distinct (map fst (g_Edges (fold (\<lambda>n g'. fold (addImplicitEdge n) gns g') ns h)))" if "distinct (map fst (g_Edges h))" for gns ns h
    using that by (induction ns arbitrary: h) (simp_all add: inner)
  then show ?thesis using assms unfolding AddImplicitDependenciesAsEdges_def by blast
qed

lemma AddImplicit_nodes: "g_Nodes (AddImplicitDependenciesAsEdges g) = g_Nodes g"
proof -
  have inner: "g_Nodes (fold (addImplicitEdge n) gns h) = g_Nodes h" for n gns h by (induction gns arbitrary: h) simp_all
  have "g_Nodes (fold (\<lambda>n g'. fold (addImplicitEdge n) gns g') ns h) = g_Nodes h" for gns ns h
    by (induction ns arbitrary: h) (simp_all add: inner)
  then show ?thesis unfolding AddImplicitDependenciesAsEdges_def .
qed

section \<open>Well-formed pipelines\<close>

definition input_ids :: "task \<Rightarrow> nat list" where
  "input_ids t = map snd (t_inputs t)"

definition wf_pipeline :: "task list \<Rightarrow> bool" where
  "wf_pipeline tasks \<longleftrightarrow> (\<forall>i < length tasks.
     t_id (tasks ! i) = i \<and> sorted (input_ids (tasks ! i)) \<and> distinct (input_ids (tasks ! i)) \<and> (\<forall>j \<in> set (input_ids (tasks ! i)). j < i) \<and>
     distinct (t_outputs (tasks ! i)) \<and> set (t_outputs (tasks ! i)) = {j. j < length tasks \<and> i \<in> set (input_ids (tasks ! j))})"

lemma linkInputs_ok:
  assumes "\<And>u. u \<in> set us \<Longrightarrow> ids u = Some (f u) \<and> f u < length tasks" and "distinct (map f us)"
  shows "\<exists>tasks'. linkInputs g v ids us tasks task = Some (tasks', task\<lparr>t_inputs := t_inputs task @ map (\<lambda>u. (\<not> IsImplicitEdge g u v, f u)) us\<rparr>) \<and>
    length tasks' = length tasks \<and>
    (\<forall>j < length tasks. tasks' ! j = (tasks ! j)\<lparr>t_outputs := t_outputs (tasks ! j) @ (if j \<in> f ` set us then [t_id task] else [])\<rparr>)"
  using assms
proof (induction us arbitrary: tasks task)
  case (Cons u us)
  let ?tasks = "tasks[f u := (tasks ! f u)\<lparr>t_outputs := t_outputs (tasks ! f u) @ [t_id task]\<rparr>]"
  let ?task = "task\<lparr>t_inputs := t_inputs task @ [(\<not> IsImplicitEdge g u v, f u)]\<rparr>"
  have u: "ids u = Some (f u)" "f u < length tasks" using Cons.prems(1) by simp_all
  obtain tasks' where IH: "linkInputs g v ids us ?tasks ?task = Some (tasks', ?task\<lparr>t_inputs := t_inputs ?task @ map (\<lambda>u. (\<not> IsImplicitEdge g u v, f u)) us\<rparr>)"
    "length tasks' = length ?tasks"
    and out: "\<And>j. j < length tasks \<Longrightarrow> tasks' ! j = (?tasks ! j)\<lparr>t_outputs := t_outputs (?tasks ! j) @ (if j \<in> f ` set us then [t_id ?task] else [])\<rparr>"
    using Cons.IH [of ?tasks ?task] Cons.prems by auto
  have "tasks' ! j = (tasks ! j)\<lparr>t_outputs := t_outputs (tasks ! j) @ (if j \<in> f ` set (u # us) then [t_id task] else [])\<rparr>"
    if j: "j < length tasks" for j
    using out [OF j] Cons.prems(2) u(2) by (cases "j = f u") auto
  then show ?case using IH u by simp
qed simp

lemma To_iff: "u \<in> set (To g v) \<longleftrightarrow> map_of (g_Edges g) (u, v) \<noteq> None"
  unfolding To_def map_of_eq_None_iff by (force simp: image_iff)

lemma To_distinct: "distinct (map fst (g_Edges g)) \<Longrightarrow> distinct (To g v)"
  by (auto simp: To_def distinct_map inj_on_def)

text \<open>The sorted nodes: every node once, and all nodes with an edge to a node before it.\<close>

definition topological :: "graph \<Rightarrow> graph_node list \<Rightarrow> bool" where
  "topological g ns \<longleftrightarrow> distinct (map gn_ID ns) \<and> set ns = set (g_Nodes g) \<and>
     (\<forall>k < length ns. \<forall>u \<in> set (To g (gn_ID (ns ! k))). \<exists>j < k. gn_ID (ns ! j) = u)"

text \<open>The tasks made of the first nodes.\<close>

definition linked :: "graph \<Rightarrow> graph_node list \<Rightarrow> task list \<Rightarrow> bool" where
  "linked g ns tasks \<longleftrightarrow> (\<forall>i < length tasks.
     t_id (tasks ! i) = i \<and> t_dotID (tasks ! i) = gn_dotID (ns ! i) \<and> sorted (input_ids (tasks ! i)) \<and> distinct (input_ids (tasks ! i)) \<and>
     (\<forall>b j. (b, j) \<in> set (t_inputs (tasks ! i)) \<longleftrightarrow> j < length ns \<and> map_of (g_Edges g) (gn_ID (ns ! j), gn_ID (ns ! i)) = Some (\<not> b)) \<and>
     distinct (t_outputs (tasks ! i)) \<and>
     set (t_outputs (tasks ! i)) = {j. j < length tasks \<and> map_of (g_Edges g) (gn_ID (ns ! i), gn_ID (ns ! j)) \<noteq> None})"

lemma linkedD:
  assumes "linked g ns tasks" and "i < length tasks"
  shows "t_id (tasks ! i) = i" "t_dotID (tasks ! i) = gn_dotID (ns ! i)" "sorted (input_ids (tasks ! i))" "distinct (input_ids (tasks ! i))"
    "(b, j) \<in> set (t_inputs (tasks ! i)) \<longleftrightarrow> j < length ns \<and> map_of (g_Edges g) (gn_ID (ns ! j), gn_ID (ns ! i)) = Some (\<not> b)"
    "distinct (t_outputs (tasks ! i))"
    "j \<in> set (t_outputs (tasks ! i)) \<longleftrightarrow> j < length tasks \<and> map_of (g_Edges g) (gn_ID (ns ! i), gn_ID (ns ! j)) \<noteq> None"
  using assms unfolding linked_def by auto

lemma some_not: "(\<exists>b. x = Some (\<not> b)) \<longleftrightarrow> x \<noteq> None"
proof (cases x)
  case (Some b)
  then show ?thesis by (cases b) auto
qed simp

lemma nth_ID_eq:
  "distinct (map gn_ID ns) \<Longrightarrow> i < length ns \<Longrightarrow> j < length ns \<Longrightarrow> gn_ID (ns ! i) = gn_ID (ns ! j) \<longleftrightarrow> i = j"
  using nth_eq_iff_index_eq [of "map gn_ID ns" i j] by simp

lemma topological_edge:
  assumes "topological g ns" and "i < length ns" and "j < length ns" and "map_of (g_Edges g) (gn_ID (ns ! j), gn_ID (ns ! i)) \<noteq> None"
  shows "j < i"
proof -
  obtain j' where "j' < i" "gn_ID (ns ! j') = gn_ID (ns ! j)"
    using assms unfolding topological_def To_iff [symmetric] by blast
  moreover have "distinct (map gn_ID ns)" using assms(1) by (simp add: topological_def)
  ultimately show ?thesis using assms(2,3) nth_ID_eq [of ns j' j] by simp
qed

lemma linked_wf:
  assumes "topological g ns" and "linked g ns tasks" and "length tasks = length ns"
  shows "wf_pipeline tasks"
  unfolding wf_pipeline_def
proof (intro allI impI)
  fix i assume i: "i < length tasks"
  note l = linkedD [OF assms(2)]
  have ins: "j \<in> set (input_ids (tasks ! k)) \<longleftrightarrow> j < length ns \<and> map_of (g_Edges g) (gn_ID (ns ! j), gn_ID (ns ! k)) \<noteq> None"
    if k: "k < length tasks" for j k
  proof -
    have "j \<in> set (input_ids (tasks ! k)) \<longleftrightarrow> (\<exists>b. (b, j) \<in> set (t_inputs (tasks ! k)))" by (force simp: input_ids_def)
    then show ?thesis unfolding l(5) [OF k] some_not [symmetric] by blast
  qed
  have before: "\<forall>j \<in> set (input_ids (tasks ! i)). j < i"
    unfolding ins [OF i] Ball_def using topological_edge [OF assms(1)] i assms(3) by simp
  have "j \<in> set (t_outputs (tasks ! i)) \<longleftrightarrow> j < length tasks \<and> i \<in> set (input_ids (tasks ! j))" for j
    using l(7) [OF i] ins [of j i] i assms(3) by auto
  then show "t_id (tasks ! i) = i \<and> sorted (input_ids (tasks ! i)) \<and> distinct (input_ids (tasks ! i)) \<and> (\<forall>j \<in> set (input_ids (tasks ! i)). j < i) \<and>
     distinct (t_outputs (tasks ! i)) \<and> set (t_outputs (tasks ! i)) = {j. j < length tasks \<and> i \<in> set (input_ids (tasks ! j))}"
    using l(1,3,4,6) [OF i] before by blast
qed

lemma linked_step:
  assumes top: "topological g ns" and edges: "distinct (map fst (g_Edges g))" and link: "linked g ns tasks" and k: "length tasks < length ns"
    and ids: "\<And>u j. ids u = Some j \<longleftrightarrow> j < length tasks \<and> gn_ID (ns ! j) = u"
    and task: "t_id task = length tasks" "t_dotID task = gn_dotID (ns ! length tasks)" "t_inputs task = []" "t_outputs task = []"
  shows "\<exists>tasks' task'. linkInputs g (gn_ID (ns ! length tasks)) ids (To g (gn_ID (ns ! length tasks))) tasks task = Some (tasks', task') \<and>
    length tasks' = length tasks \<and> linked g ns (tasks' @ [task'\<lparr>t_inputs := sort_key snd (t_inputs task')\<rparr>])"
proof -
  let ?k = "length tasks" and ?v = "gn_ID (ns ! length tasks)"
  let ?us = "To g ?v" and ?f = "\<lambda>u. the (ids u)"
  let ?in = "map (\<lambda>u. (\<not> IsImplicitEdge g u ?v, ?f u)) ?us"
  have dist: "distinct (map gn_ID ns)" using top by (simp add: topological_def)
  have us: "ids u = Some (?f u) \<and> ?f u < ?k \<and> gn_ID (ns ! ?f u) = u" if u: "u \<in> set ?us" for u
  proof -
    obtain j where "j < ?k" "gn_ID (ns ! j) = u" using top k u unfolding topological_def by blast
    then have "ids u = Some j" using ids by blast
    then show ?thesis using ids [of u j] by simp
  qed
  have f_at: "j = ?f u \<longleftrightarrow> gn_ID (ns ! j) = u" if "u \<in> set ?us" "j < length ns" for u j
    using us [OF that(1)] nth_ID_eq [OF dist that(2), of "?f u"] k by auto
  have inj: "distinct (map ?f ?us)"
    unfolding distinct_map using To_distinct [OF edges] us by (auto intro!: inj_onI) (metis us)
  obtain tasks' where run: "linkInputs g ?v ids ?us tasks task = Some (tasks', task\<lparr>t_inputs := t_inputs task @ ?in\<rparr>)"
    and len: "length tasks' = ?k"
    and out: "\<And>j. j < ?k \<Longrightarrow> tasks' ! j = (tasks ! j)\<lparr>t_outputs := t_outputs (tasks ! j) @ (if j \<in> ?f ` set ?us then [t_id task] else [])\<rparr>"
    using linkInputs_ok [of ?us ids ?f tasks g ?v task] us inj by auto
  let ?new = "task\<lparr>t_inputs := sort_key snd ?in\<rparr>"
  let ?all = "tasks' @ [?new]"
  have in_us: "j \<in> ?f ` set ?us \<longleftrightarrow> map_of (g_Edges g) (gn_ID (ns ! j), ?v) \<noteq> None" if "j < length ns" for j
  proof -
    have "j \<in> ?f ` set ?us \<longleftrightarrow> (\<exists>u \<in> set ?us. gn_ID (ns ! j) = u)" unfolding image_iff by (rule bex_cong [OF refl f_at]) (use that in simp_all)
    then show ?thesis by (simp add: To_iff)
  qed
  have new_in: "(b, j) \<in> set ?in \<longleftrightarrow> j < length ns \<and> map_of (g_Edges g) (gn_ID (ns ! j), ?v) = Some (\<not> b)" for b j
  proof -
    have "(b, j) \<in> set ?in \<longleftrightarrow> (\<exists>u \<in> set ?us. b = (\<not> IsImplicitEdge g u ?v) \<and> j = ?f u)"
      by (simp only: set_map image_iff prod.inject)
    also have "\<dots> \<longleftrightarrow> (\<exists>u \<in> set ?us. b = (\<not> IsImplicitEdge g u ?v) \<and> j < length ns \<and> gn_ID (ns ! j) = u)"
    proof (rule bex_cong [OF refl])
      fix u assume u: "u \<in> set ?us"
      have "j = ?f u \<longleftrightarrow> j < length ns \<and> gn_ID (ns ! j) = u" using us [OF u] f_at [OF u, of j] k by auto
      then show "b = (\<not> IsImplicitEdge g u ?v) \<and> j = ?f u \<longleftrightarrow> b = (\<not> IsImplicitEdge g u ?v) \<and> j < length ns \<and> gn_ID (ns ! j) = u" by simp
    qed
    also have "\<dots> \<longleftrightarrow> j < length ns \<and> map_of (g_Edges g) (gn_ID (ns ! j), ?v) = Some (\<not> b)"
      by (cases "map_of (g_Edges g) (gn_ID (ns ! j), ?v)") (auto simp: To_iff IsImplicitEdge_def)
    finally show ?thesis .
  qed
  have sorted_in: "sorted (map snd (sort_key snd ?in))" "distinct (map snd (sort_key snd ?in))"
  proof -
    have "mset (map snd (sort_key snd ?in)) = mset (map ?f ?us)" by (simp add: image_mset.compositionality comp_def)
    then show "distinct (map snd (sort_key snd ?in))" using inj by (metis mset_eq_imp_distinct_iff)
  qed simp
  have no_later: "map_of (g_Edges g) (?v, gn_ID (ns ! j)) = None" if "j \<le> ?k" for j
    using topological_edge [OF top _ k, of j] that k by fastforce
  have "linked g ns ?all"
    unfolding linked_def
  proof (intro allI impI)
    fix i assume "i < length ?all"
    then consider "i < ?k" | "i = ?k" using len by fastforce
    then show "t_id (?all ! i) = i \<and> t_dotID (?all ! i) = gn_dotID (ns ! i) \<and> sorted (input_ids (?all ! i)) \<and> distinct (input_ids (?all ! i)) \<and>
     (\<forall>b j. (b, j) \<in> set (t_inputs (?all ! i)) \<longleftrightarrow> j < length ns \<and> map_of (g_Edges g) (gn_ID (ns ! j), gn_ID (ns ! i)) = Some (\<not> b)) \<and>
     distinct (t_outputs (?all ! i)) \<and>
     set (t_outputs (?all ! i)) = {j. j < length ?all \<and> map_of (g_Edges g) (gn_ID (ns ! i), gn_ID (ns ! j)) \<noteq> None}"
    proof cases
      case 1
      note l = linkedD [OF link 1]
      have at: "?all ! i = tasks' ! i" using 1 len by (simp add: nth_append)
      have "set (t_outputs (tasks' ! i)) = {j. j < Suc ?k \<and> map_of (g_Edges g) (gn_ID (ns ! i), gn_ID (ns ! j)) \<noteq> None}"
        using l(7) in_us [of i] 1 k task(1) by (auto simp: out less_Suc_eq)
      moreover have "distinct (t_outputs (tasks' ! i))" using l(6) l(7) [of ?k] 1 task(1) by (auto simp: out)
      ultimately show ?thesis using l(1-5) unfolding at by (simp add: out [OF 1] len input_ids_def)
    next
      case 2
      then have at: "?all ! i = ?new" using len by (simp add: nth_append)
      show ?thesis unfolding at using 2 task new_in sorted_in no_later len by (simp add: input_ids_def)
    qed
  qed
  then show ?thesis using run len task(3) by (intro exI [of _ tasks'] exI [of _ "task\<lparr>t_inputs := t_inputs task @ ?in\<rparr>"]) simp
qed

lemma UnmarshalTask_fields:
  "UnmarshalTaskFromMap decode ty m k dotID = Inr t \<Longrightarrow> t_id t = k \<and> t_dotID t = dotID \<and> t_inputs t = [] \<and> t_outputs t = []"
  by (auto simp: UnmarshalTaskFromMap_def Let_def split: if_splits option.splits)

lemma linkTasks_ok:
  assumes top: "topological g ns" and edges: "distinct (map fst (g_Edges g))"
    and "ns = done @ nodes" and "length tasks = length done" and "linked g ns tasks"
    and ids: "\<And>u j. ids u = Some j \<longleftrightarrow> j < length tasks \<and> gn_ID (ns ! j) = u"
  shows "\<exists>res. linkTasks decode g nodes ids tasks = Some res \<and> (\<forall>tasks'. res = Inr tasks' \<longrightarrow> linked g ns tasks' \<and> length tasks' = length ns)"
  using assms(3-6)
proof (induction nodes arbitrary: "done" ids tasks)
  case Nil
  then show ?case by simp
next
  case (Cons node nodes)
  have at: "ns ! length tasks = node" and k: "length tasks < length ns" using Cons.prems(1,2) by (simp_all add: nth_append)
  show ?case
  proof (cases "gn_dotID node = ''input''")
    case True
    then show ?thesis by simp
  next
    case named: False
    let ?ty = "case map_of (gn_attrs node) ''type'' of None \<Rightarrow> [] | Some t \<Rightarrow> t"
    show ?thesis
    proof (cases "UnmarshalTaskFromMap decode ?ty (gn_attrs node) (length tasks) (gn_dotID node)")
      case (Inl e)
      then show ?thesis using named by simp
    next
      case (Inr task)
      obtain tasks' task' where link: "linkInputs g (gn_ID node) ids (To g (gn_ID node)) tasks task = Some (tasks', task')"
        and len: "length tasks' = length tasks" and lk: "linked g ns (tasks' @ [task'\<lparr>t_inputs := sort_key snd (t_inputs task')\<rparr>])"
        using linked_step [OF top edges Cons.prems(3) k Cons.prems(4), of task] UnmarshalTask_fields [OF Inr] unfolding at by auto
      have ids': "(ids(gn_ID node \<mapsto> length tasks)) u = Some j \<longleftrightarrow> j < Suc (length tasks) \<and> gn_ID (ns ! j) = u" for u j
      proof -
        have "distinct (map gn_ID ns)" using top by (simp add: topological_def)
        then have "gn_ID (ns ! j) = gn_ID node \<longleftrightarrow> j = length tasks" if "j < Suc (length tasks)"
          using nth_ID_eq [of ns j "length tasks"] k that unfolding at by simp
        then show ?thesis using Cons.prems(4) [of u j] at by (auto simp: less_Suc_eq)
      qed
      have step: "linkTasks decode g (node # nodes) ids tasks =
          linkTasks decode g nodes (ids(gn_ID node \<mapsto> length tasks)) (tasks' @ [task'\<lparr>t_inputs := sort_key snd (t_inputs task')\<rparr>])"
        by (simp add: named Inr link)
      show ?thesis unfolding step
      proof (rule Cons.IH [of "done @ [node]"])
        show "ns = (done @ [node]) @ nodes" using Cons.prems(1) by simp
        show "length (tasks' @ [task'\<lparr>t_inputs := sort_key snd (t_inputs task')\<rparr>]) = length (done @ [node])" using len Cons.prems(2) by simp
        show "(ids(gn_ID node \<mapsto> length tasks)) u = Some j \<longleftrightarrow>
            j < length (tasks' @ [task'\<lparr>t_inputs := sort_key snd (t_inputs task')\<rparr>]) \<and> gn_ID (ns ! j) = u" for u j
          using ids' [of u j] len by simp
      qed (rule lk)
    qed
  qed
qed

section \<open>Properties\<close>

text \<open>What reading DOT and sorting are relied on for: the edges read are explicit and between different pairs of nodes, and a sorted
  list of nodes is topological.\<close>

definition dot_ok :: "graph \<Rightarrow> bool" where
  "dot_ok g \<longleftrightarrow> distinct (map fst (g_Edges g)) \<and> (\<forall>e \<in> set (g_Edges g). \<not> snd e)"

text \<open>C12: a pipeline that is read is well formed, whatever the text: reading never panics, and it gives one task for each node in
  a topological order; tasks are numbered by their position, inputs come before the task, in ascending order and
  without repetition, and outputs are the converse of inputs. A task has an input for each edge of the text, which passes its
  result on, and for each other task that an attribute mentions in a variable, which does not.\<close>
theorem Parse_wellformed:
  assumes dot: "unmarshalDOT (''digraph {'' @ [CHR 0x0A] @ text @ [CHR 0x0A] @ ''}'') = Some g" and "dot_ok g"
    and sort: "\<forall>g' ns. sortStabilized g' = Some ns \<longrightarrow> topological g' ns"
  shows "\<exists>res. Parse unmarshalDOT sortStabilized decode text = Some res \<and>
    (\<forall>tasks. res = Inr tasks \<longrightarrow> wf_pipeline tasks \<and>
      (\<exists>ns. distinct (map gn_ID ns) \<and> set ns = set (g_Nodes g) \<and> map t_dotID tasks = map gn_dotID ns \<and>
        (\<forall>i < length tasks. \<forall>j b. (b, j) \<in> set (t_inputs (tasks ! i)) \<longleftrightarrow> j < length tasks \<and>
           (if b then (gn_ID (ns ! j), gn_ID (ns ! i)) \<in> fst ` set (g_Edges g)
            else (gn_ID (ns ! j), gn_ID (ns ! i)) \<notin> fst ` set (g_Edges g) \<and> mentions (ns ! i) (ns ! j)))))"
proof -
  let ?g = "AddImplicitDependenciesAsEdges g"
  have edges: "distinct (map fst (g_Edges ?g))" using assms(2) by (intro AddImplicit_distinct) (simp add: dot_ok_def)
  have explicit: "\<not> b" if "map_of (g_Edges g) e = Some b" for e b
    using assms(2) map_of_SomeD [OF that] by (fastforce simp: dot_ok_def)
  show ?thesis
  proof (cases "sortStabilized ?g")
    case None
    then show ?thesis using dot by (simp add: Parse_def UnmarshalText_def)
  next
    case (Some ns)
    have top: "topological ?g ns" by (rule sort [rule_format, OF Some])
    then have ns: "distinct (map gn_ID ns)" "set ns = set (g_Nodes ?g)" by (simp_all add: topological_def)
    obtain res where run: "linkTasks decode ?g ns Map.empty [] = Some res"
      and ok: "\<And>tasks. res = Inr tasks \<Longrightarrow> linked ?g ns tasks \<and> length tasks = length ns"
      using linkTasks_ok [OF top edges, of "[]" ns "[]" Map.empty decode] by (auto simp: linked_def)
    have nodes: "g_Nodes ?g = g_Nodes g" by (rule AddImplicit_nodes)
    have main: "wf_pipeline tasks \<and> map t_dotID tasks = map gn_dotID ns \<and>
        (\<forall>i < length tasks. \<forall>j b. (b, j) \<in> set (t_inputs (tasks ! i)) \<longleftrightarrow> j < length tasks \<and>
           (if b then (gn_ID (ns ! j), gn_ID (ns ! i)) \<in> fst ` set (g_Edges g)
            else (gn_ID (ns ! j), gn_ID (ns ! i)) \<notin> fst ` set (g_Edges g) \<and> mentions (ns ! i) (ns ! j)))" if res: "res = Inr tasks" for tasks
    proof (intro conjI allI impI)
      note lk = ok [OF res]
      have len: "length tasks = length ns" using lk by blast
      show "wf_pipeline tasks" using linked_wf [OF top] lk by blast
      show "map t_dotID tasks = map gn_dotID ns" using lk linkedD(2) by (intro nth_equalityI) auto
      fix i j b assume i: "i < length tasks"
      have "map_of (g_Edges ?g) (gn_ID (ns ! j), gn_ID (ns ! i)) = Some (\<not> b) \<longleftrightarrow>
          (if b then (gn_ID (ns ! j), gn_ID (ns ! i)) \<in> fst ` set (g_Edges g)
           else (gn_ID (ns ! j), gn_ID (ns ! i)) \<notin> fst ` set (g_Edges g) \<and> mentions (ns ! i) (ns ! j))" if j: "j < length ns"
      proof -
        have "(\<exists>n \<in> set (g_Nodes g). \<exists>gn \<in> set (g_Nodes g). (gn_ID (ns ! j), gn_ID (ns ! i)) = (gn_ID gn, gn_ID n) \<and> mentions n gn) \<longleftrightarrow> mentions (ns ! i) (ns ! j)"
        proof -
          have same: "n = m" if "n \<in> set (g_Nodes g)" "m \<in> set (g_Nodes g)" "gn_ID n = gn_ID m" for n m
            using ns(1) that unfolding nodes [symmetric] ns(2) [symmetric] by (auto simp: distinct_map dest: inj_onD)
          have at: "ns ! i \<in> set (g_Nodes g)" "ns ! j \<in> set (g_Nodes g)" using ns(2) nodes i j len nth_mem by metis+
          show ?thesis
          proof
            assume "\<exists>n \<in> set (g_Nodes g). \<exists>gn \<in> set (g_Nodes g). (gn_ID (ns ! j), gn_ID (ns ! i)) = (gn_ID gn, gn_ID n) \<and> mentions n gn"
            then obtain n gn where "n \<in> set (g_Nodes g)" "gn \<in> set (g_Nodes g)" "gn_ID (ns ! j) = gn_ID gn" "gn_ID (ns ! i) = gn_ID n" "mentions n gn" by blast
            then show "mentions (ns ! i) (ns ! j)" using same at by metis
          qed (use at in blast)
        qed
        note found = this
        show ?thesis unfolding AddImplicit_lookup found fst_set_map_of
          using explicit by (cases "map_of (g_Edges g) (gn_ID (ns ! j), gn_ID (ns ! i))"; cases b) auto
      qed
      then show "(b, j) \<in> set (t_inputs (tasks ! i)) \<longleftrightarrow> j < length tasks \<and>
           (if b then (gn_ID (ns ! j), gn_ID (ns ! i)) \<in> fst ` set (g_Edges g)
            else (gn_ID (ns ! j), gn_ID (ns ! i)) \<notin> fst ` set (g_Edges g) \<and> mentions (ns ! i) (ns ! j))"
        unfolding linkedD(5) [OF lk [THEN conjunct1] i] len by (rule conj_cong [OF refl])
    qed
    have parsed: "Parse unmarshalDOT sortStabilized decode text = Some res" using run dot Some by (simp add: Parse_def UnmarshalText_def)
    show ?thesis
      by (rule exI [of _ res], rule conjI [OF parsed], intro allI impI, drule main, elim conjE, rule conjI, assumption,
          rule exI [of _ ns], intro conjI, rule ns(1), rule ns(2) [unfolded nodes], assumption+)
  qed
qed

definition graph0 :: graph where
  "graph0 = \<lparr>g_Nodes = [\<lparr>gn_ID = 1, gn_dotID = ''a'', gn_attrs = [(''type'', ''Memo'')]\<rparr>,
     \<lparr>gn_ID = 2, gn_dotID = ''b'', gn_attrs = [(''type'', ''fail'')]\<rparr>,
     \<lparr>gn_ID = 3, gn_dotID = ''c'', gn_attrs = [(''type'', ''sum''), (''values'', ''[ $( a.x ) ]'')]\<rparr>],
     g_Edges = [((1, 2), False)]\<rparr>"

definition sort0 :: "graph \<Rightarrow> graph_node list option" where
  "sort0 g = (if topological g (g_Nodes g) then Some (g_Nodes g) else None)"

definition decode0 :: decoder where
  "decode0 ty attrs = Some (0, None, ty = ''fail'', 0, 0, 0, [])"

theorem Parse_wellformed_witness:
  "\<exists>tasks. Parse (\<lambda>_. Some graph0) sort0 decode0 [] = Some (Inr tasks) \<and> wf_pipeline tasks \<and>
     map t_inputs tasks = [[], [(True, 0)], [(False, 0)]] \<and> map t_outputs tasks = [[1, 2], [], []]"
proof -
  have "case Parse (\<lambda>_. Some graph0) sort0 decode0 [] of Some (Inr tasks) \<Rightarrow>
      map t_inputs tasks = [[], [(True, 0)], [(False, 0)]] \<and> map t_outputs tasks = [[1, 2], [], []] | _ \<Rightarrow> False"
    by code_simp
  then obtain tasks where run: "Parse (\<lambda>_. Some graph0) sort0 decode0 [] = Some (Inr tasks)"
    and links: "map t_inputs tasks = [[], [(True, 0)], [(False, 0)]]" "map t_outputs tasks = [[1, 2], [], []]"
    by (auto split: option.splits sum.splits)
  have sort: "\<forall>g ns. sort0 g = Some ns \<longrightarrow> topological g ns" by (auto simp: sort0_def split: if_splits)
  have "dot_ok graph0" by (simp add: dot_ok_def graph0_def)
  from Parse_wellformed [of "\<lambda>_. Some graph0" "[]" graph0 sort0 decode0, OF refl this sort]
  have "wf_pipeline tasks" unfolding run
    by - (elim exE conjE, drule option.inject [THEN iffD1], drule sym, drule spec, drule mp, assumption, erule conjunct1)
  then show ?thesis by (intro exI [of _ tasks] conjI run links)
qed

end
