(* ===== verification/Pipeline_Scheduler.thy ===== *)
theory Pipeline_Scheduler
  imports Pipeline_Graph
begin

text \<open>
  The scheduler of a pipeline run (\<^verbatim>\<open>core/services/pipeline/scheduler.go\<close>): it counts for every task the inputs that are
  not done, sends the tasks that have none to be executed, and handles one result at a time; a failed task is retried
  after a pause or, if it is marked so, ends the run early. What a task answers, and when, is the environment's choice: a step is
  a result that is handled or a retry whose pause is over.
\<close>

section \<open>State\<close>

datatype task_error = ErrCancelled | ErrRunPanicked | TaskFailed string

text \<open>An \<^verbatim>\<open>interface{}\<close> below maps and slices: nil, an error or another value.\<close>

datatype 'a atom = ANil | AErr task_error | AVal 'a

type_synonym 'a pvalue = "'a atom gvalue"

record 'a result =
  Value :: "'a pvalue"
  Error :: "task_error option"

record 'a task_run_result =
  rr_ID :: nat               \<comment> \<open>a UUID, 0 is nil\<close>
  rr_Task :: nat
  rr_Result :: "'a result"
  rr_Attempts :: u64
  rr_FinishedAt :: bool      \<comment> \<open>is set\<close>
  rr_IsPending :: bool       \<comment> \<open>of runInfo\<close>

record 'a memory_run =
  mr_task :: nat
  mr_inputs :: "'a result list"
  mr_vars :: "'a atom vars"
  mr_attempts :: u64

text \<open>A task run of an earlier, suspended execution.\<close>

record 'a task_run =
  tr_ID :: nat
  tr_RunID :: int
  tr_Index :: int
  tr_DotID :: string
  tr_Output :: "'a pvalue option"
  tr_Error :: "task_error option"
  tr_FinishedAt :: bool

text \<open>\<open>inFlight\<close> are the runs sent to \<^verbatim>\<open>taskCh\<close> that have not been reported yet, \<open>retrying\<close> the goroutines that wait for the
  next attempt: the task, its attempts so far and the copy of the variables.\<close>

record 'a scheduler =
  dependencies :: "nat \<Rightarrow> u64"
  waiting :: u64
  results :: "nat \<Rightarrow> 'a task_run_result option"
  s_vars :: "'a atom vars"
  pending :: bool
  exiting :: bool
  inFlight :: "'a memory_run list"
  retrying :: "(nat \<times> u64 \<times> 'a atom vars) list"

section \<open>Starting\<close>

definition noResult :: "'a result" where
  "noResult = \<lparr>Value = VAtom ANil, Error = None\<rparr>"

definition resultOf :: "(nat \<Rightarrow> 'a task_run_result option) \<Rightarrow> nat \<Rightarrow> 'a result" where
  "resultOf rs i = (case rs i of None \<Rightarrow> noResult | Some r \<Rightarrow> rr_Result r)"

text \<open>The order of inputs with the same index is left open by \<^verbatim>\<open>sort.Slice\<close>; here it is that of the inputs.\<close>

definition newMemoryTaskRun :: "task list \<Rightarrow> (nat \<Rightarrow> 'a task_run_result option) \<Rightarrow> task \<Rightarrow> 'a atom vars \<Rightarrow> 'a memory_run" where
  "newMemoryTaskRun tasks rs task vars =
    \<lparr>mr_task = t_id task,
     mr_inputs = map snd (sort_key fst (map (\<lambda>(_, i). (t_Index (tasks ! i), resultOf rs i)) (filter fst (t_inputs task)))),
     mr_vars = vars, mr_attempts = 0\<rparr>"

definition tr_IsPending :: "'a task_run \<Rightarrow> bool" where
  "tr_IsPending tr \<longleftrightarrow> \<not> tr_FinishedAt tr \<and> tr_Output tr = None \<and> tr_Error tr = None"

definition setVar :: "task \<Rightarrow> 'a result \<Rightarrow> 'a scheduler \<Rightarrow> 'a scheduler option" where
  "setVar task r s =
    (case Vars_Set (s_vars s) (t_dotID task) (case Error r of Some e \<Rightarrow> VAtom (AErr e) | None \<Rightarrow> Value r) of
       Inl _ \<Rightarrow> None
     | Inr vs \<Rightarrow> Some (s\<lparr>s_vars := vs\<rparr>))"

definition completeOutput :: "nat \<Rightarrow> 'a scheduler \<Rightarrow> 'a scheduler" where
  "completeOutput i s = s\<lparr>dependencies := (dependencies s)(i := dependencies s i - 1)\<rparr>"

text \<open>\<open>None\<close> is a panic: an unknown task, or a name that cannot be set as a variable.\<close>

fun reconstructResults :: "task list \<Rightarrow> 'a task_run list \<Rightarrow> 'a scheduler \<Rightarrow> 'a scheduler option" where
  "reconstructResults tasks [] s = Some s"
| "reconstructResults tasks (r # rs) s =
    (case ByDotID tasks (tr_DotID r) of None \<Rightarrow> None
     | Some task \<Rightarrow>
         if tr_IsPending r then reconstructResults tasks rs s
         else let result = \<lparr>Value = (case tr_Output r of None \<Rightarrow> VAtom ANil | Some v \<Rightarrow> v), Error = tr_Error r\<rparr>;
                  s1 = s\<lparr>results := (results s)(t_id task \<mapsto> \<lparr>rr_ID = 0, rr_Task = t_id task, rr_Result = result, rr_Attempts = 0,
                         rr_FinishedAt = tr_FinishedAt r, rr_IsPending = False\<rparr>)\<rparr>
              in case setVar task result s1 of None \<Rightarrow> None
                 | Some s2 \<Rightarrow> reconstructResults tasks rs (fold completeOutput (t_outputs task) s2))"

definition sendTask :: "'a memory_run \<Rightarrow> 'a scheduler \<Rightarrow> 'a scheduler" where
  "sendTask run s = s\<lparr>inFlight := inFlight s @ [run], waiting := waiting s + 1\<rparr>"

definition startTask :: "task list \<Rightarrow> nat \<Rightarrow> 'a scheduler \<Rightarrow> 'a scheduler" where
  "startTask tasks i s =
    (if dependencies s i \<noteq> 0 then s
     else if results s i \<noteq> None then s
     else sendTask (newMemoryTaskRun tasks (results s) (tasks ! i) (Vars_Copy (s_vars s))) s)"

definition newScheduler :: "task list \<Rightarrow> 'a task_run list \<Rightarrow> 'a atom vars \<Rightarrow> 'a scheduler option" where
  "newScheduler tasks runs vars =
    (let s0 = \<lparr>dependencies = (\<lambda>i. if i < length tasks then of_nat (length (t_inputs (tasks ! i))) else 0), waiting = 0,
           results = Map.empty, s_vars = vars, pending = False, exiting = False, inFlight = [], retrying = []\<rparr>
     in map_option (fold (startTask tasks) [0..<length tasks]) (reconstructResults tasks runs s0))"

section \<open>Handling a result\<close>

definition markRemaining :: "task list \<Rightarrow> task_error \<Rightarrow> 'a scheduler \<Rightarrow> 'a scheduler" where
  "markRemaining tasks err s =
    s\<lparr>results := fold (\<lambda>t rs. if rs (t_id t) = None
        then rs(t_id t \<mapsto> \<lparr>rr_ID = 0, rr_Task = t_id t, rr_Result = \<lparr>Value = VAtom ANil, Error = Some err\<rparr>, rr_Attempts = 0, rr_FinishedAt = True, rr_IsPending = False\<rparr>)
        else rs) tasks (results s)\<rparr>"

definition scheduleOutput :: "task list \<Rightarrow> nat \<Rightarrow> 'a scheduler \<Rightarrow> 'a scheduler" where
  "scheduleOutput tasks i s =
    (let s1 = completeOutput i s
     in if dependencies s1 i = 0 then sendTask (newMemoryTaskRun tasks (results s1) (tasks ! i) (Vars_Copy (s_vars s1))) s1 else s1)"

text \<open>The body of the loop of \<^verbatim>\<open>Run\<close> for one result; \<open>None\<close> is a panic.\<close>

definition handleResult :: "task list \<Rightarrow> 'a task_run_result \<Rightarrow> 'a scheduler \<Rightarrow> 'a scheduler option" where
  "handleResult tasks result0 s =
    (let i = rr_Task result0; task = tasks ! i;
         previous = (case results s i of None \<Rightarrow> 0 | Some r \<Rightarrow> rr_Attempts r);
         result = result0\<lparr>rr_Attempts := (if exiting s then previous else previous + 1)\<rparr>;
         s1 = s\<lparr>waiting := waiting s - 1, results := (results s)(i \<mapsto> result)\<rparr>
     in if rr_IsPending result then Some (s1\<lparr>pending := True\<rparr>)
        else case setVar task (rr_Result result) s1 of None \<Rightarrow> None
        | Some s2 \<Rightarrow>
            let failed = Error (rr_Result result) \<noteq> None;
                s3 = (if failed \<and> t_FailEarly task then markRemaining tasks ErrCancelled (s2\<lparr>exiting := True\<rparr>) else s2)
            in if exiting s3 then Some s3
               else if rr_Attempts result < ucast (t_Retries task) \<and> failed
                 then Some (s3\<lparr>waiting := waiting s3 + 1, retrying := retrying s3 @ [(i, rr_Attempts result, Vars_Copy (s_vars s3))]\<rparr>)
               else Some (fold (scheduleOutput tasks) (t_outputs task) s3))"

section \<open>Steps\<close>

definition reportOf :: "nat \<Rightarrow> nat \<Rightarrow> 'a result \<Rightarrow> bool \<Rightarrow> 'a task_run_result" where
  "reportOf uuid i r isPending = \<lparr>rr_ID = uuid, rr_Task = i, rr_Result = r, rr_Attempts = 0, rr_FinishedAt = (\<not> isPending), rr_IsPending = isPending\<rparr>"

definition removeAt :: "nat \<Rightarrow> 'b list \<Rightarrow> 'b list" where
  "removeAt k xs = take k xs @ drop (Suc k) xs"

datatype 'a sched_event = Reported nat "'a result" bool | Panicked nat nat | RetryDue nat | RetryCancelled nat

text \<open>An event can happen: the run in flight at a position reports (a task that is waiting for an answer from outside reports a pending
  result) or panics, which is reported under a new UUID, a pause is over, or the context that is cancelled on an early exit ends it.\<close>

definition enabled :: "'a sched_event \<Rightarrow> 'a scheduler \<Rightarrow> bool" where
  "enabled ev s \<longleftrightarrow> (case ev of
     Reported k _ _ \<Rightarrow> k < length (inFlight s)
   | Panicked k _ \<Rightarrow> k < length (inFlight s)
   | RetryDue k \<Rightarrow> k < length (retrying s)
   | RetryCancelled k \<Rightarrow> k < length (retrying s) \<and> exiting s)"

definition sched_event :: "task list \<Rightarrow> 'a sched_event \<Rightarrow> 'a scheduler \<Rightarrow> 'a scheduler option" where
  "sched_event tasks ev s = (case ev of
     Reported k r isPending \<Rightarrow>
       (let i = mr_task (inFlight s ! k)
        in handleResult tasks (reportOf (t_uuid (tasks ! i)) i r isPending) (s\<lparr>inFlight := removeAt k (inFlight s)\<rparr>))
   | Panicked k uuid \<Rightarrow>
       handleResult tasks (reportOf uuid (mr_task (inFlight s ! k)) \<lparr>Value = VAtom ANil, Error = Some ErrRunPanicked\<rparr> False)
         (s\<lparr>inFlight := removeAt k (inFlight s)\<rparr>)
   | RetryDue k \<Rightarrow>
       (case retrying s ! k of (i, attempts, vars) \<Rightarrow>
          Some (s\<lparr>retrying := removeAt k (retrying s),
                  inFlight := inFlight s @ [(newMemoryTaskRun tasks (results s) (tasks ! i) vars)\<lparr>mr_attempts := attempts\<rparr>]\<rparr>))
   | RetryCancelled k \<Rightarrow>
       handleResult tasks (reportOf 0 (fst (retrying s ! k)) \<lparr>Value = VAtom ANil, Error = Some ErrCancelled\<rparr> False)
         (s\<lparr>retrying := removeAt k (retrying s)\<rparr>))"

inductive sched_step :: "task list \<Rightarrow> 'a scheduler \<Rightarrow> 'a scheduler \<Rightarrow> bool" for tasks where
  event: "enabled ev s \<Longrightarrow> waiting s > 0 \<Longrightarrow> sched_event tasks ev s = Some s' \<Longrightarrow> sched_step tasks s s'"

inductive_cases sched_stepE: "sched_step tasks s s'"

section \<open>The loops in closed form\<close>

lemma fold_completeOutput:
  "distinct is \<Longrightarrow> fold completeOutput is s = s\<lparr>dependencies := \<lambda>i. if i \<in> set is then dependencies s i - 1 else dependencies s i\<rparr>"
proof (induction "is" arbitrary: s)
  case (Cons i "is")
  then show ?case by (simp add: completeOutput_def) (rule arg_cong [where f = "\<lambda>d. s\<lparr>dependencies := d\<rparr>"], auto)
qed simp

lemma fold_startTask:
  "fold (startTask tasks) is s =
    (let ready = filter (\<lambda>i. dependencies s i = 0 \<and> results s i = None) is
     in s\<lparr>inFlight := inFlight s @ map (\<lambda>i. newMemoryTaskRun tasks (results s) (tasks ! i) (Vars_Copy (s_vars s))) ready,
          waiting := waiting s + of_nat (length ready)\<rparr>)"
  by (induction "is" arbitrary: s) (auto simp: startTask_def sendTask_def Let_def)

definition newRun :: "task list \<Rightarrow> 'a scheduler \<Rightarrow> nat \<Rightarrow> 'a memory_run" where
  "newRun tasks s i = newMemoryTaskRun tasks (results s) (tasks ! i) (Vars_Copy (s_vars s))"

lemma scheduleOutput_fields:
  "dependencies (scheduleOutput tasks i s) = (dependencies s)(i := dependencies s i - 1)"
  "results (scheduleOutput tasks i s) = results s" "s_vars (scheduleOutput tasks i s) = s_vars s"
  "pending (scheduleOutput tasks i s) = pending s" "exiting (scheduleOutput tasks i s) = exiting s" "retrying (scheduleOutput tasks i s) = retrying s"
  "inFlight (scheduleOutput tasks i s) = inFlight s @ (if dependencies s i = 1 then [newRun tasks s i] else [])"
  "waiting (scheduleOutput tasks i s) = waiting s + (if dependencies s i = 1 then 1 else 0)"
  by (simp_all add: scheduleOutput_def completeOutput_def sendTask_def newRun_def Let_def)

lemma fold_scheduleOutput:
  assumes "distinct is"
  shows "dependencies (fold (scheduleOutput tasks) is s) i = (if i \<in> set is then dependencies s i - 1 else dependencies s i)"
    and "results (fold (scheduleOutput tasks) is s) = results s" "s_vars (fold (scheduleOutput tasks) is s) = s_vars s"
    and "pending (fold (scheduleOutput tasks) is s) = pending s" "exiting (fold (scheduleOutput tasks) is s) = exiting s"
    and "retrying (fold (scheduleOutput tasks) is s) = retrying s"
    and "inFlight (fold (scheduleOutput tasks) is s) = inFlight s @ map (newRun tasks s) (filter (\<lambda>i. dependencies s i = 1) is)"
    and "waiting (fold (scheduleOutput tasks) is s) = waiting s + of_nat (length (filter (\<lambda>i. dependencies s i = 1) is))"
proof -
  show "dependencies (fold (scheduleOutput tasks) is s) i = (if i \<in> set is then dependencies s i - 1 else dependencies s i)"
    using assms by (induction "is" arbitrary: s) (auto simp: scheduleOutput_fields)
  show "results (fold (scheduleOutput tasks) is s) = results s" "s_vars (fold (scheduleOutput tasks) is s) = s_vars s"
    "pending (fold (scheduleOutput tasks) is s) = pending s" "exiting (fold (scheduleOutput tasks) is s) = exiting s"
    "retrying (fold (scheduleOutput tasks) is s) = retrying s"
    by (induction "is" arbitrary: s) (simp_all add: scheduleOutput_fields)
  have run: "newRun tasks (scheduleOutput tasks i s) = newRun tasks s" for i s by (auto simp: newRun_def scheduleOutput_fields)
  have ready: "filter (\<lambda>j. dependencies (scheduleOutput tasks i s) j = 1) is = filter (\<lambda>j. dependencies s j = 1) is" if "i \<notin> set is" for i "is" s
    using that by (intro filter_cong) (auto simp: scheduleOutput_fields)
  show "inFlight (fold (scheduleOutput tasks) is s) = inFlight s @ map (newRun tasks s) (filter (\<lambda>i. dependencies s i = 1) is)"
    using assms
  proof (induction "is" arbitrary: s)
    case (Cons i "is")
    then show ?case using ready [of i "is" s] by (simp add: run) (simp add: scheduleOutput_fields)
  qed simp
  show "waiting (fold (scheduleOutput tasks) is s) = waiting s + of_nat (length (filter (\<lambda>i. dependencies s i = 1) is))"
    using assms
  proof (induction "is" arbitrary: s)
    case (Cons i "is")
    then show ?case using ready [of i "is" s] by simp (simp add: scheduleOutput_fields)
  qed simp
qed

lemma fold_missing:
  "fold (\<lambda>t rs. if rs (t_id t) = None then rs(t_id t \<mapsto> X (t_id t)) else rs) tasks rs i =
     (if rs i = None \<and> i \<in> t_id ` set tasks then Some (X i) else rs i)"
  by (induction tasks arbitrary: rs) auto

lemma markRemaining_results:
  "results (markRemaining tasks e s) i =
    (if results s i = None \<and> i \<in> t_id ` set tasks
     then Some \<lparr>rr_ID = 0, rr_Task = i, rr_Result = \<lparr>Value = VAtom ANil, Error = Some e\<rparr>, rr_Attempts = 0, rr_FinishedAt = True, rr_IsPending = False\<rparr>
     else results s i)"
  using fold_missing [of "\<lambda>i. \<lparr>rr_ID = 0, rr_Task = i, rr_Result = \<lparr>Value = VAtom ANil, Error = Some e\<rparr>, rr_Attempts = 0, rr_FinishedAt = True, rr_IsPending = False\<rparr>"
      tasks "results s" i]
  by (simp add: markRemaining_def)

lemma markRemaining_other [simp]:
  "dependencies (markRemaining tasks e s) = dependencies s" "waiting (markRemaining tasks e s) = waiting s"
  "pending (markRemaining tasks e s) = pending s" "exiting (markRemaining tasks e s) = exiting s"
  "inFlight (markRemaining tasks e s) = inFlight s" "retrying (markRemaining tasks e s) = retrying s"
  by (simp_all add: markRemaining_def)

lemma newMemoryTaskRun_fields [simp]:
  "mr_task (newMemoryTaskRun tasks rs t vs) = t_id t" "mr_attempts (newMemoryTaskRun tasks rs t vs) = 0"
  by (simp_all add: newMemoryTaskRun_def)

lemma newMemoryTaskRun_cong:
  "(\<And>i. i \<in> set (input_ids t) \<Longrightarrow> resultOf rs i = resultOf rs' i) \<Longrightarrow>
   mr_inputs (newMemoryTaskRun tasks rs t vs) = mr_inputs (newMemoryTaskRun tasks rs' t vs')"
proof -
  assume same: "\<And>i. i \<in> set (input_ids t) \<Longrightarrow> resultOf rs i = resultOf rs' i"
  have "map (\<lambda>(_, i). (t_Index (tasks ! i), resultOf rs i)) (filter fst (t_inputs t)) = map (\<lambda>(_, i). (t_Index (tasks ! i), resultOf rs' i)) (filter fst (t_inputs t))"
    using same by (auto simp: input_ids_def intro!: map_cong) (metis image_eqI snd_conv)
  note same_map = this
  show ?thesis unfolding newMemoryTaskRun_def same_map by simp
qed

lemma mset_removeAt: "k < length xs \<Longrightarrow> mset xs = add_mset (xs ! k) (mset (removeAt k xs))"
  unfolding removeAt_def by (metis id_take_nth_drop mset.simps(2) mset_append union_mset_add_mset_right)

lemma set_removeAt: "set (removeAt k xs) \<subseteq> set xs"
  by (auto simp: removeAt_def dest: in_set_takeD in_set_dropD)

section \<open>The invariant\<close>

definition flight :: "nat list \<Rightarrow> 'a scheduler \<Rightarrow> nat list" where
  "flight ex s = ex @ map mr_task (inFlight s) @ map fst (retrying s)"

definition attempts :: "'a scheduler \<Rightarrow> nat \<Rightarrow> u64" where
  "attempts s i = (case results s i of None \<Rightarrow> 0 | Some r \<Rightarrow> rr_Attempts r)"

definition done_in :: "nat list \<Rightarrow> 'a scheduler \<Rightarrow> nat \<Rightarrow> bool" where
  "done_in ex s i \<longleftrightarrow> i \<notin> set (flight ex s) \<and> (\<exists>r. results s i = Some r \<and> \<not> rr_IsPending r)"

definition unfinished :: "task list \<Rightarrow> nat list \<Rightarrow> 'a scheduler \<Rightarrow> nat \<Rightarrow> nat set" where
  "unfinished tasks ex s i = {j \<in> set (input_ids (tasks ! i)). \<not> done_in ex s j}"

text \<open>\<open>ex\<close> are the tasks that have just reported and are about to be handled.\<close>

definition flight_inv :: "task list \<Rightarrow> nat list \<Rightarrow> 'a scheduler \<Rightarrow> bool" where
  "flight_inv tasks ex s \<longleftrightarrow>
    distinct (flight ex s) \<and> (\<forall>i \<in> set (flight ex s). i < length tasks \<and> unfinished tasks ex s i = {} \<and> unat (attempts s i) \<le> unat (t_Retries (tasks ! i))) \<and>
    waiting s = of_nat (length (flight ex s)) \<and>
    (\<forall>r \<in> set (inFlight s). mr_inputs r = mr_inputs (newMemoryTaskRun tasks (results s) (tasks ! mr_task r) [])) \<and>
    (\<forall>i r. results s i = Some r \<longrightarrow> i < length tasks \<and> (rr_IsPending r \<longrightarrow> pending s))"

definition progress_inv :: "task list \<Rightarrow> nat list \<Rightarrow> 'a scheduler \<Rightarrow> bool" where
  "progress_inv tasks ex s \<longleftrightarrow> (\<forall>i < length tasks.
     (\<not> exiting s \<longrightarrow> dependencies s i = of_nat (card (unfinished tasks ex s i)) \<and>
        (unfinished tasks ex s i = {} \<longleftrightarrow> i \<in> set (flight ex s) \<or> results s i \<noteq> None)) \<and>
     (exiting s \<longrightarrow> results s i \<noteq> None))"

definition sched_inv :: "task list \<Rightarrow> nat list \<Rightarrow> 'a scheduler \<Rightarrow> bool" where
  "sched_inv tasks ex s \<longleftrightarrow> flight_inv tasks ex s \<and> progress_inv tasks ex s"

definition names_ok :: "task list \<Rightarrow> bool" where
  "names_ok tasks \<longleftrightarrow> (\<forall>t \<in> set tasks. TrimSpace (t_dotID t) \<noteq> [] \<and> CHR ''.'' \<notin> set (TrimSpace (t_dotID t)))"

lemma setVar_ok: "TrimSpace (t_dotID t) \<noteq> [] \<Longrightarrow> CHR ''.'' \<notin> set (TrimSpace (t_dotID t)) \<Longrightarrow> \<exists>vs. setVar t r s = Some (s\<lparr>s_vars := vs\<rparr>)"
  by (auto simp: setVar_def Vars_Set_def Let_def)

lemma setVar_Some: "setVar t r s = Some s' \<Longrightarrow> \<exists>vs. s' = s\<lparr>s_vars := vs\<rparr>"
  by (auto simp: setVar_def split: sum.splits)

section \<open>The invariant is kept\<close>

lemma unfinished_cong:
  "(\<And>j. j \<in> set (input_ids (tasks ! i)) \<Longrightarrow> done_in ex s j \<longleftrightarrow> done_in ex' s' j) \<Longrightarrow> unfinished tasks ex s i = unfinished tasks ex' s' i"
  by (auto simp: unfinished_def)

lemma sched_inv_cong:
  assumes inv: "sched_inv tasks ex s" and fl: "mset (flight ex' s') = mset (flight ex s)"
    and same: "results s' = results s" "dependencies s' = dependencies s" "waiting s' = waiting s" "pending s' = pending s" "exiting s' = exiting s"
    and runs: "\<And>r. r \<in> set (inFlight s') \<Longrightarrow> mr_inputs r = mr_inputs (newMemoryTaskRun tasks (results s) (tasks ! mr_task r) [])"
  shows "sched_inv tasks ex' s'"
proof -
  have sets: "set (flight ex' s') = set (flight ex s)" "distinct (flight ex' s') = distinct (flight ex s)" "length (flight ex' s') = length (flight ex s)"
    by (rule mset_eq_setD [OF fl], rule mset_eq_imp_distinct_iff [OF fl], rule mset_eq_length [OF fl])
  have "done_in ex' s' = done_in ex s" by (auto simp: done_in_def sets same fun_eq_iff)
  then have unf: "unfinished tasks ex' s' = unfinished tasks ex s" by (simp add: unfinished_def fun_eq_iff)
  have "attempts s' = attempts s" by (simp add: attempts_def same fun_eq_iff)
  then show ?thesis using inv runs unfolding sched_inv_def flight_inv_def progress_inv_def unf sets same by simp
qed

lemma flight_invD:
  assumes "sched_inv tasks ex s"
  shows "distinct (flight ex s)" "waiting s = of_nat (length (flight ex s))"
    "i \<in> set (flight ex s) \<Longrightarrow> i < length tasks" "i \<in> set (flight ex s) \<Longrightarrow> unfinished tasks ex s i = {}"
    "i \<in> set (flight ex s) \<Longrightarrow> unat (attempts s i) \<le> unat (t_Retries (tasks ! i))"
    "r \<in> set (inFlight s) \<Longrightarrow> mr_inputs r = mr_inputs (newMemoryTaskRun tasks (results s) (tasks ! mr_task r) [])"
    "results s i = Some rr \<Longrightarrow> i < length tasks" "results s i = Some rr \<Longrightarrow> rr_IsPending rr \<Longrightarrow> pending s"
  using assms unfolding sched_inv_def flight_inv_def by auto

lemma progress_invD:
  assumes "sched_inv tasks ex s" and "i < length tasks"
  shows "\<not> exiting s \<Longrightarrow> dependencies s i = of_nat (card (unfinished tasks ex s i))"
    "\<not> exiting s \<Longrightarrow> unfinished tasks ex s i = {} \<longleftrightarrow> i \<in> set (flight ex s) \<or> results s i \<noteq> None"
    "exiting s \<Longrightarrow> results s i \<noteq> None"
  using assms unfolding sched_inv_def progress_inv_def by auto

text \<open>Inputs of tasks that are in flight are done, so a change of other results does not touch them.\<close>

lemma inputs_kept:
  assumes inv: "sched_inv tasks ex s" and r: "r \<in> set (inFlight s)" and kept: "\<And>j. done_in ex s j \<Longrightarrow> results s' j = results s j"
  shows "mr_inputs r = mr_inputs (newMemoryTaskRun tasks (results s') (tasks ! mr_task r) [])"
proof -
  have "mr_task r \<in> set (flight ex s)" using r by (simp add: flight_def)
  then have "unfinished tasks ex s (mr_task r) = {}" by (rule flight_invD(4) [OF inv])
  then have "results s' j = results s j" if "j \<in> set (input_ids (tasks ! mr_task r))" for j using kept that by (auto simp: unfinished_def)
  then show ?thesis unfolding flight_invD(6) [OF inv r] by (intro newMemoryTaskRun_cong) (simp add: resultOf_def)
qed

lemma settled_inv:
  assumes inv: "sched_inv tasks [i] s"
    and same: "inFlight s' = inFlight s" "retrying s' = retrying s" "dependencies s' = dependencies s" "waiting s' = waiting s - 1"
    and res: "results s' i = Some r"
    and others: "\<And>j. j \<noteq> i \<Longrightarrow> results s j \<noteq> None \<or> \<not> exiting s' \<Longrightarrow> results s' j = results s j"
    and new: "\<And>j r'. results s j = None \<Longrightarrow> j \<noteq> i \<Longrightarrow> results s' j = Some r' \<Longrightarrow> j < length tasks \<and> rr_Attempts r' = 0 \<and> \<not> rr_IsPending r'"
    and flags: "pending s \<Longrightarrow> pending s'" "rr_IsPending r \<Longrightarrow> pending s'" "exiting s \<Longrightarrow> exiting s'" "\<not> exiting s' \<Longrightarrow> rr_IsPending r"
    and full: "\<And>j. exiting s' \<Longrightarrow> j < length tasks \<Longrightarrow> results s' j \<noteq> None"
  shows "sched_inv tasks [] s'"
proof -
  have fl: "flight [i] s = i # flight [] s'" by (simp add: flight_def same)
  have dist: "i \<notin> set (flight [] s')" "distinct (flight [] s')" using flight_invD(1) [OF inv] by (simp_all add: fl)
  have att: "attempts s' j = attempts s j" if "j \<noteq> i" for j
    using others [OF that] new [OF _ that] unfolding attempts_def by (cases "results s j"; cases "results s' j") auto
  have i_done: "\<not> done_in [i] s i" by (simp add: done_in_def fl)
  have kept: "results s' j = results s j" if "done_in [i] s j" for j using others [of j] that i_done by (auto simp: done_in_def)
  have done_mono: "done_in [] s' j" if "done_in [i] s j" for j using that kept [OF that] by (auto simp: done_in_def fl)
  then have unf: "unfinished tasks [] s' j \<subseteq> unfinished tasks [i] s j" for j by (auto simp: unfinished_def)
  have "flight_inv tasks [] s'"
    unfolding flight_inv_def
  proof (intro conjI ballI allI impI)
    show "distinct (flight [] s')" by (rule dist(2))
    show "j < length tasks" "unfinished tasks [] s' j = {}" "unat (attempts s' j) \<le> unat (t_Retries (tasks ! j))" if "j \<in> set (flight [] s')" for j
    proof -
      have "j \<noteq> i" using that dist(1) by blast
      then show "j < length tasks" "unfinished tasks [] s' j = {}" "unat (attempts s' j) \<le> unat (t_Retries (tasks ! j))"
        using that flight_invD(3-5) [OF inv, of j] unf [of j] att [of j] by (auto simp: fl)
    qed
    show "waiting s' = of_nat (length (flight [] s'))" using flight_invD(2) [OF inv] by (simp add: fl same)
    show "mr_inputs x = mr_inputs (newMemoryTaskRun tasks (results s') (tasks ! mr_task x) [])" if "x \<in> set (inFlight s')" for x
      using that by (intro inputs_kept [OF inv _ kept]) (simp_all add: same)
    fix j rr assume rr: "results s' j = Some rr"
    show "j < length tasks"
      using rr new [of j] others [of j] flight_invD(3) [OF inv, of i] flight_invD(7) [OF inv] by (cases "j = i"; cases "results s j") (auto simp: fl)
    assume p: "rr_IsPending rr"
    show "pending s'"
      using rr p new [of j] others [of j] flags(1,2) flight_invD(8) [OF inv, of j] res by (cases "j = i"; cases "results s j") auto
  qed
  moreover have "progress_inv tasks [] s'"
    unfolding progress_inv_def
  proof (intro allI impI conjI)
    fix j assume j: "j < length tasks"
    show "results s' j \<noteq> None" if "exiting s'" using full that j by blast
    assume run: "\<not> exiting s'"
    then have p: "rr_IsPending r" "\<not> exiting s" using flags by blast+
    have "done_in [] s' k \<longleftrightarrow> done_in [i] s k" for k
      using others [of k] run res p(1) by (cases "k = i") (auto simp: done_in_def fl)
    then have u: "unfinished tasks [] s' = unfinished tasks [i] s" by (simp add: unfinished_def fun_eq_iff)
    show "dependencies s' j = of_nat (card (unfinished tasks [] s' j))" using progress_invD(1) [OF inv j p(2)] by (simp add: same u)
    show "unfinished tasks [] s' j = {} \<longleftrightarrow> j \<in> set (flight [] s') \<or> results s' j \<noteq> None"
      using progress_invD(2) [OF inv j p(2)] others [of j] run res by (cases "j = i") (auto simp: u fl)
  qed
  ultimately show ?thesis by (simp add: sched_inv_def)
qed

lemma retry_inv:
  assumes inv: "sched_inv tasks [i] s"
    and same: "inFlight s' = inFlight s" "dependencies s' = dependencies s" "waiting s' = waiting s" "pending s' = pending s" "exiting s' = exiting s"
    and rty: "retrying s' = retrying s @ [(i, a, vs)]"
    and res: "results s' = (results s)(i \<mapsto> r)" "rr_Attempts r = a" "\<not> rr_IsPending r" and a: "unat a \<le> unat (t_Retries (tasks ! i))" and run: "\<not> exiting s"
  shows "sched_inv tasks [] s'"
proof -
  have fl: "set (flight [] s') = set (flight [i] s)" "distinct (flight [] s') = distinct (flight [i] s)" "length (flight [] s') = length (flight [i] s)"
    by (auto simp: flight_def same rty)
  have i: "i \<in> set (flight [i] s)" "i < length tasks" using flight_invD(3) [OF inv, of i] by (simp_all add: flight_def)
  have dn: "done_in [] s' = done_in [i] s" using i by (auto simp: done_in_def fl res fun_eq_iff)
  then have unf: "unfinished tasks [] s' = unfinished tasks [i] s" by (simp add: unfinished_def fun_eq_iff)
  have "flight_inv tasks [] s'"
    unfolding flight_inv_def fl unf
  proof (intro conjI ballI allI impI)
    show "unat (attempts s' j) \<le> unat (t_Retries (tasks ! j))" if "j \<in> set (flight [i] s)" for j
      using flight_invD(5) [OF inv that] a res(2) by (simp add: attempts_def res(1))
    show "mr_inputs x = mr_inputs (newMemoryTaskRun tasks (results s') (tasks ! mr_task x) [])" if "x \<in> set (inFlight s')" for x
      using that i by (intro inputs_kept [OF inv]) (auto simp: same res(1) done_in_def)
    show "waiting s' = of_nat (length (flight [i] s))" using flight_invD(2) [OF inv] by (simp add: same)
    fix j rr assume "results s' j = Some rr"
    then show "j < length tasks" "rr_IsPending rr \<Longrightarrow> pending s'"
      using i res(3) flight_invD(7,8) [OF inv] by (auto simp: res(1) same split: if_splits)
  qed (use flight_invD(1,3,4) [OF inv] in auto)
  moreover have "progress_inv tasks [] s'"
    unfolding progress_inv_def unf fl same
    using progress_invD [OF inv] run i by (auto simp: res(1))
  ultimately show ?thesis by (simp add: sched_inv_def)
qed

lemma wf_pipelineD:
  assumes "wf_pipeline tasks" and "i < length tasks"
  shows "t_id (tasks ! i) = i" "distinct (t_outputs (tasks ! i))" "k \<in> set (t_outputs (tasks ! i)) \<longleftrightarrow> k < length tasks \<and> i \<in> set (input_ids (tasks ! k))"
    "distinct (input_ids (tasks ! i))" "k \<in> set (input_ids (tasks ! i)) \<Longrightarrow> k < i"
  using assms unfolding wf_pipeline_def by auto

lemma card_unfinished:
  assumes "wf_pipeline tasks" and "length tasks < 2 ^ 64" and "k < length tasks"
  shows "card (unfinished tasks ex s k) < 2 ^ 64" "finite (unfinished tasks ex s k)"
proof -
  have "unfinished tasks ex s k \<subseteq> {..< k}" using wf_pipelineD(5) [OF assms(1,3)] by (auto simp: unfinished_def)
  then have "card (unfinished tasks ex s k) \<le> k" using card_mono [of "{..< k}"] by simp
  then show "card (unfinished tasks ex s k) < 2 ^ 64" using assms(2,3) by linarith
qed (simp add: unfinished_def)

lemma of_nat_u64_eq: "a < 2 ^ 64 \<Longrightarrow> b < 2 ^ 64 \<Longrightarrow> (of_nat a :: u64) = of_nat b \<longleftrightarrow> a = b"
proof
  assume a: "a < 2 ^ 64" and b: "b < 2 ^ 64" and eq: "(of_nat a :: u64) = of_nat b"
  have "unat (of_nat n :: u64) = n" if "n < 2 ^ 64" for n by (rule of_nat_inverse [OF refl]) (use that in simp)
  then show "a = b" using a b eq by metis
qed simp

lemma unat_ucast_u64: "unat (ucast (x :: u32) :: u64) = unat x"
proof -
  have "unat x < 2 ^ 64" using unsigned_less [of x, where 'a = nat] by simp
  then show ?thesis by (simp add: unsigned_ucast_eq take_bit_nat_eq_self)
qed

lemma outputs_wait:
  assumes wf: "wf_pipeline tasks" and len: "length tasks < 2 ^ 64" and inv: "sched_inv tasks [i] s" and run: "\<not> exiting s"
    and k: "k \<in> set (t_outputs (tasks ! i))"
  shows "i \<in> unfinished tasks [i] s k" "k \<notin> set (flight [i] s)" "results s k = None" "dependencies s k \<noteq> 0"
proof -
  have i: "i < length tasks" using flight_invD(3) [OF inv, of i] by (simp add: flight_def)
  have kn: "k < length tasks" "i \<in> set (input_ids (tasks ! k))" using k by (simp_all add: wf_pipelineD(3) [OF wf i])
  then show u: "i \<in> unfinished tasks [i] s k" by (simp add: unfinished_def done_in_def flight_def)
  then show "k \<notin> set (flight [i] s)" "results s k = None" using progress_invD(2) [OF inv kn(1) run] by auto
  have "card (unfinished tasks [i] s k) \<noteq> 0" unfolding card_0_eq [OF card_unfinished(2) [OF wf len kn(1)]] using u by blast
  then show "dependencies s k \<noteq> 0"
    unfolding progress_invD(1) [OF inv kn(1) run] using of_nat_u64_eq [OF card_unfinished(1) [OF wf len kn(1)], of 0 "[i]" s] by simp
qed

lemma completed_inv:
  assumes wf: "wf_pipeline tasks" and len: "length tasks < 2 ^ 64" and inv: "sched_inv tasks [i] s" and run: "\<not> exiting s"
    and same: "inFlight s1 = inFlight s" "retrying s1 = retrying s" "dependencies s1 = dependencies s" "waiting s1 = waiting s - 1"
      "pending s1 = pending s" "exiting s1 = exiting s"
    and res: "results s1 = (results s)(i \<mapsto> r)" "\<not> rr_IsPending r"
  shows "sched_inv tasks [] (fold (scheduleOutput tasks) (t_outputs (tasks ! i)) s1)"
proof -
  let ?outs = "t_outputs (tasks ! i)"
  let ?ready = "filter (\<lambda>k. dependencies s1 k = 1) ?outs"
  let ?s' = "fold (scheduleOutput tasks) ?outs s1"
  let ?U = "unfinished tasks [i] s"
  have i: "i \<in> set (flight [i] s)" "i < length tasks" using flight_invD(3) [OF inv, of i] by (simp_all add: flight_def)
  note outs = wf_pipelineD(3) [OF wf i(2)] and dist = wf_pipelineD(2) [OF wf i(2)]
  note f = fold_scheduleOutput [OF dist, of tasks s1]
  have i_not: "\<not> done_in [i] s i" using i by (simp add: done_in_def)
  note waits = outputs_wait [OF wf len inv run]
  have ready: "k \<in> set ?ready \<longleftrightarrow> k < length tasks \<and> ?U k = {i}" for k
  proof -
    have "dependencies s k = 1 \<longleftrightarrow> card (?U k) = 1" if "k < length tasks"
      unfolding progress_invD(1) [OF inv that run] using of_nat_u64_eq [OF card_unfinished(1) [OF wf len that], of 1 "[i]" s] by simp
    moreover have "card (?U k) = 1 \<longleftrightarrow> ?U k = {i}" if "i \<in> ?U k" using that by (metis card_1_singletonE is_singletonI is_singleton_altdef singletonD)
    ultimately show ?thesis using outs waits(1) unfolding unfinished_def by (auto simp: same)
  qed
  have fl: "flight [] ?s' = map mr_task (inFlight s) @ ?ready @ map fst (retrying s)"
  proof -
    have "map (mr_task \<circ> newRun tasks s1) ?ready = ?ready"
      by (intro map_idI) (use ready wf_pipelineD(1) [OF wf] in \<open>simp add: newRun_def\<close>)
    then show ?thesis by (simp add: flight_def f same)
  qed
  have fl_i: "flight [i] s = i # map mr_task (inFlight s) @ map fst (retrying s)" by (simp add: flight_def)
  have i_out: "i \<notin> set (flight [] ?s')"
    using flight_invD(1) [OF inv] waits(2) [of i] i(1) unfolding fl fl_i by auto
  have dn: "done_in [] ?s' k \<longleftrightarrow> k = i \<or> done_in [i] s k" for k
  proof (cases "k = i")
    case True
    then show ?thesis using i_out res by (simp add: done_in_def f)
  next
    case False
    then show ?thesis using waits(3) [of k] unfolding done_in_def fl fl_i by (auto simp: f res)
  qed
  have unf: "unfinished tasks [] ?s' k = ?U k - {i}" for k unfolding unfinished_def dn by blast
  have kept: "results ?s' j = results s j" if "done_in [i] s j" for j using that i_not by (auto simp: f res)
  have "flight_inv tasks [] ?s'"
    unfolding flight_inv_def
  proof (intro conjI ballI allI impI)
    show "distinct (flight [] ?s')" using flight_invD(1) [OF inv] waits(2) dist unfolding fl fl_i by auto
    show "k < length tasks" "unfinished tasks [] ?s' k = {}" "unat (attempts ?s' k) \<le> unat (t_Retries (tasks ! k))"
      if k: "k \<in> set (flight [] ?s')" for k
    proof -
      have ne: "k \<noteq> i" using k i_out by blast
      consider "k \<in> set ?ready" | "k \<in> set (flight [i] s)" using k unfolding fl fl_i by auto
      then have "k < length tasks \<and> ?U k - {i} = {} \<and> unat (attempts s k) \<le> unat (t_Retries (tasks ! k))"
      proof cases
        case 1
        then show ?thesis using ready waits(3) [of k] by (simp add: attempts_def)
      next
        case 2
        then show ?thesis using flight_invD(3-5) [OF inv 2] by simp
      qed
      then show "k < length tasks" "unfinished tasks [] ?s' k = {}" "unat (attempts ?s' k) \<le> unat (t_Retries (tasks ! k))"
        using ne by (simp_all add: unf attempts_def f res)
    qed
    show "waiting ?s' = of_nat (length (flight [] ?s'))" using flight_invD(2) [OF inv] by (simp add: f same fl fl_i)
    show "mr_inputs x = mr_inputs (newMemoryTaskRun tasks (results ?s') (tasks ! mr_task x) [])" if x: "x \<in> set (inFlight ?s')" for x
    proof (cases "x \<in> set (inFlight s)")
      case True
      then show ?thesis by (rule inputs_kept [OF inv _ kept])
    next
      case False
      then obtain k where "k \<in> set ?ready" "x = newRun tasks s1 k" using x by (auto simp: f same)
      then show ?thesis using ready wf_pipelineD(1) [OF wf] by (simp add: newRun_def f newMemoryTaskRun_def)
    qed
    fix j rr assume "results ?s' j = Some rr"
    then show "j < length tasks" "rr_IsPending rr \<Longrightarrow> pending ?s'"
      using i res(2) flight_invD(7,8) [OF inv] by (auto simp: f res(1) same split: if_splits)
  qed
  moreover have "progress_inv tasks [] ?s'"
    unfolding progress_inv_def
  proof (intro allI impI conjI)
    fix k assume k: "k < length tasks"
    show "results ?s' k \<noteq> None" if "exiting ?s'" using that run by (simp add: f same)
    show "dependencies ?s' k = of_nat (card (unfinished tasks [] ?s' k))"
    proof (cases "k \<in> set ?outs")
      case True
      have "card (?U k) = Suc (card (?U k - {i}))" using waits(1) [OF True] card_Suc_Diff1 [OF card_unfinished(2) [OF wf len k], of i "[i]" s] by simp
      then show ?thesis using True progress_invD(1) [OF inv k run] by (simp add: f same unf)
    next
      case False
      then have "i \<notin> ?U k" using k by (simp add: outs unfinished_def)
      then show ?thesis using False progress_invD(1) [OF inv k run] by (simp add: f same unf)
    qed
    show "unfinished tasks [] ?s' k = {} \<longleftrightarrow> k \<in> set (flight [] ?s') \<or> results ?s' k \<noteq> None"
    proof (cases "k = i")
      case True
      then show ?thesis using flight_invD(4) [OF inv i(1)] by (simp add: unf f res)
    next
      case False
      have "unfinished tasks [] ?s' k = {} \<longleftrightarrow> ?U k = {} \<or> ?U k = {i}" unfolding unf by auto
      also have "\<dots> \<longleftrightarrow> k \<in> set (flight [i] s) \<or> results s k \<noteq> None \<or> k \<in> set ?ready" using progress_invD(2) [OF inv k run] ready k by blast
      finally show ?thesis using False unfolding fl fl_i by (auto simp: f res)
    qed
  qed
  ultimately show ?thesis by (simp add: sched_inv_def)
qed

section \<open>Every step makes progress\<close>

definition weight :: "task list \<Rightarrow> 'a scheduler \<Rightarrow> nat \<Rightarrow> nat" where
  "weight tasks s i = 2 * (unat (t_Retries (tasks ! i)) - unat (attempts s i))"

definition potential :: "task list \<Rightarrow> 'a scheduler \<Rightarrow> nat" where
  "potential tasks s =
    (\<Sum>i\<leftarrow>map mr_task (inFlight s). weight tasks s i + 1) + (\<Sum>i\<leftarrow>map fst (retrying s). weight tasks s i + 2) +
    (\<Sum>i | i < length tasks \<and> dependencies s i \<noteq> 0. 2 * unat (t_Retries (tasks ! i)) + 2)"

lemma sum_list_cong: "(\<And>x. x \<in> set xs \<Longrightarrow> f x = g x) \<Longrightarrow> (\<Sum>x\<leftarrow>xs. f x) = (\<Sum>x\<leftarrow>xs. g x)"
  by (metis map_cong)

lemma settled_potential:
  assumes inv: "sched_inv tasks [i] s" and same: "inFlight s' = inFlight s" "retrying s' = retrying s" "dependencies s' = dependencies s"
    and att: "\<And>j. j \<noteq> i \<Longrightarrow> attempts s' j = attempts s j"
  shows "potential tasks s' = potential tasks s"
proof -
  have "i \<notin> set (map mr_task (inFlight s))" "i \<notin> set (map fst (retrying s))" using flight_invD(1) [OF inv] by (auto simp: flight_def)
  then have "weight tasks s' j = weight tasks s j" if "j \<in> set (map mr_task (inFlight s)) \<or> j \<in> set (map fst (retrying s))" for j
    using att [of j] that unfolding weight_def by metis
  then show ?thesis unfolding potential_def same by (metis (mono_tags, lifting) sum_list_cong)
qed

lemma completed_potential:
  assumes wf: "wf_pipeline tasks" and len: "length tasks < 2 ^ 64" and inv: "sched_inv tasks [i] s" and run: "\<not> exiting s"
    and same: "inFlight s1 = inFlight s" "retrying s1 = retrying s" "dependencies s1 = dependencies s"
    and res: "results s1 = (results s)(i \<mapsto> r)"
  shows "potential tasks (fold (scheduleOutput tasks) (t_outputs (tasks ! i)) s1) \<le> potential tasks s"
proof -
  let ?outs = "t_outputs (tasks ! i)"
  let ?ready = "filter (\<lambda>k. dependencies s1 k = 1) ?outs"
  let ?s' = "fold (scheduleOutput tasks) ?outs s1"
  let ?full = "\<lambda>k. 2 * unat (t_Retries (tasks ! k)) + 2"
  let ?B = "{k. k < length tasks \<and> dependencies s k \<noteq> 0}"
  have i: "i < length tasks" using flight_invD(3) [OF inv, of i] by (simp add: flight_def)
  note outs = wf_pipelineD(3) [OF wf i] and dist = wf_pipelineD(2) [OF wf i] and waits = outputs_wait [OF wf len inv run]
  note f = fold_scheduleOutput [OF dist, of tasks s1]
  have w: "weight tasks ?s' j = weight tasks s j" if "j \<noteq> i" for j using that by (simp add: weight_def attempts_def f res)
  have not_i: "i \<notin> set (map mr_task (inFlight s))" "i \<notin> set (map fst (retrying s))" using flight_invD(1) [OF inv] by (auto simp: flight_def)
  have tasks_of: "map mr_task (map (newRun tasks s1) ?ready) = ?ready"
    unfolding map_map by (intro map_idI) (use outs wf_pipelineD(1) [OF wf] in \<open>simp add: newRun_def\<close>)
  have left: "{k. k < length tasks \<and> dependencies ?s' k \<noteq> 0} = ?B - set ?ready" using waits(4) by (auto simp: f same)
  have sub: "set ?ready \<subseteq> ?B" using waits(4) outs by (auto simp: same)
  have "(\<Sum>k\<leftarrow>?ready. weight tasks ?s' k + 1) \<le> (\<Sum>k\<leftarrow>?ready. ?full k)" by (intro sum_list_mono) (simp add: weight_def)
  also have "\<dots> = sum ?full (set ?ready)" using dist by (intro sum_list_distinct_conv_sum_set) simp
  finally have "(\<Sum>k\<leftarrow>?ready. weight tasks ?s' k + 1) + sum ?full (?B - set ?ready) \<le> sum ?full ?B"
    using sum.subset_diff [OF sub, of ?full] by simp
  moreover have "(\<Sum>j\<leftarrow>map mr_task (inFlight s). weight tasks ?s' j + 1) = (\<Sum>j\<leftarrow>map mr_task (inFlight s). weight tasks s j + 1)"
    "(\<Sum>j\<leftarrow>map fst (retrying s). weight tasks ?s' j + 2) = (\<Sum>j\<leftarrow>map fst (retrying s). weight tasks s j + 2)"
    by (rule sum_list_cong, use w not_i in metis)+
  ultimately show ?thesis
    unfolding potential_def left f(6,7) map_append sum_list_append tasks_of unfolding same by linarith
qed

lemma retry_potential:
  assumes inv: "sched_inv tasks [i] s" and same: "inFlight s' = inFlight s" "dependencies s' = dependencies s"
    and rty: "retrying s' = retrying s @ [(i, a, vs)]"
    and res: "results s' = (results s)(i \<mapsto> r)" "rr_Attempts r = a" and a: "unat (attempts s i) < unat a" "unat a \<le> unat (t_Retries (tasks ! i))"
  shows "potential tasks s' \<le> potential tasks s + weight tasks s i"
proof -
  let ?s = "s'\<lparr>retrying := retrying s\<rparr>"
  have att: "attempts s' j = attempts s j" if "j \<noteq> i" for j using that by (simp add: attempts_def res)
  have "weight tasks s' i + 2 \<le> weight tasks s i" using a by (simp add: weight_def attempts_def res)
  moreover have "weight tasks ?s = weight tasks s'" by (simp add: weight_def attempts_def fun_eq_iff)
  then have "potential tasks s' = potential tasks ?s + (weight tasks s' i + 2)" by (simp add: potential_def rty)
  moreover have "potential tasks ?s = potential tasks s"
    by (rule settled_potential [OF inv]) (simp_all add: same att [unfolded attempts_def] attempts_def)
  ultimately show ?thesis by simp
qed

text \<open>The cases of handling a result.\<close>

lemma handleResult_eq:
  fixes s :: "'a scheduler" and r0 tasks
  defines "i \<equiv> rr_Task r0"
  defines "a \<equiv> (if exiting s then attempts s i else attempts s i + 1)"
  defines "s1 \<equiv> s\<lparr>waiting := waiting s - 1, results := (results s)(i \<mapsto> r0\<lparr>rr_Attempts := a\<rparr>)\<rparr>"
  shows "handleResult tasks r0 s =
     (if rr_IsPending r0 then Some (s1\<lparr>pending := True\<rparr>)
      else case setVar (tasks ! i) (rr_Result r0) s1 of None \<Rightarrow> None
      | Some s2 \<Rightarrow>
          if Error (rr_Result r0) \<noteq> None \<and> t_FailEarly (tasks ! i) then Some (markRemaining tasks ErrCancelled (s2\<lparr>exiting := True\<rparr>))
          else if exiting s then Some s2
          else if a < ucast (t_Retries (tasks ! i)) \<and> Error (rr_Result r0) \<noteq> None
            then Some (s2\<lparr>waiting := waiting s2 + 1, retrying := retrying s2 @ [(i, a, Vars_Copy (s_vars s2))]\<rparr>)
          else Some (fold (scheduleOutput tasks) (t_outputs (tasks ! i)) s2))"
proof (cases "setVar (tasks ! i) (rr_Result r0) s1")
  case None
  then show ?thesis by (simp add: handleResult_def Let_def attempts_def [symmetric] i_def [symmetric] a_def [symmetric] s1_def [symmetric])
next
  case (Some s2)
  then obtain vs where s2: "s2 = s1\<lparr>s_vars := vs\<rparr>" by (blast dest: setVar_Some)
  have ex: "exiting s2 = exiting s" "exiting (s2\<lparr>exiting := True\<rparr>) = True" by (simp_all add: s2 s1_def)
  have r: "rr_Result (r0\<lparr>rr_Attempts := a\<rparr>) = rr_Result r0" "rr_IsPending (r0\<lparr>rr_Attempts := a\<rparr>) = rr_IsPending r0" "rr_Attempts (r0\<lparr>rr_Attempts := a\<rparr>) = a"
    by simp_all
  show ?thesis
    unfolding handleResult_def Let_def attempts_def [symmetric] i_def [symmetric] a_def [symmetric] s1_def [symmetric] r Some option.case
    by (cases "Error (rr_Result r0) \<noteq> None \<and> t_FailEarly (tasks ! i)") (simp_all only: if_True if_False ex markRemaining_other simp_thms)
qed

lemma handleResult_ok:
  assumes wf: "wf_pipeline tasks" and len: "length tasks < 2 ^ 64" and names: "names_ok tasks" and inv: "sched_inv tasks [i] s"
    and task: "rr_Task r0 = i"
  shows "\<exists>s'. handleResult tasks r0 s = Some s' \<and> sched_inv tasks [] s' \<and> potential tasks s' \<le> potential tasks s + weight tasks s i"
proof -
  define a where "a = (if exiting s then attempts s i else attempts s i + 1)"
  define r where "r = r0\<lparr>rr_Attempts := a\<rparr>"
  define s1 where "s1 = s\<lparr>waiting := waiting s - 1, results := (results s)(i \<mapsto> r)\<rparr>"
  have i: "i < length tasks" using flight_invD(3) [OF inv, of i] by (simp add: flight_def)
  have r_simps: "rr_IsPending r = rr_IsPending r0" "rr_Attempts r = a" by (simp_all add: r_def)
  have ids: "t_id ` set tasks = {..< length tasks}"
    using wf_pipelineD(1) [OF wf] by (auto simp: in_set_conv_nth image_iff) (metis nth_mem)+
  obtain vs where set: "setVar (tasks ! i) (rr_Result r) s1 = Some (s1\<lparr>s_vars := vs\<rparr>)"
    using setVar_ok names i unfolding names_ok_def by (metis nth_mem)
  define s2 where "s2 = s1\<lparr>s_vars := vs\<rparr>"
  let ?failed = "Error (rr_Result r) \<noteq> None"
  define early where "early \<longleftrightarrow> ?failed \<and> t_FailEarly (tasks ! i)"
  have step: "handleResult tasks r0 s =
     (if rr_IsPending r0 then Some (s1\<lparr>pending := True\<rparr>)
      else if early then Some (markRemaining tasks ErrCancelled (s2\<lparr>exiting := True\<rparr>))
      else if exiting s then Some s2
      else if a < ucast (t_Retries (tasks ! i)) \<and> ?failed
        then Some (s2\<lparr>waiting := waiting s2 + 1, retrying := retrying s2 @ [(i, a, Vars_Copy (s_vars s2))]\<rparr>)
      else Some (fold (scheduleOutput tasks) (t_outputs (tasks ! i)) s2))"
    unfolding handleResult_eq [of tasks r0 s] task a_def [symmetric] r_def [symmetric] s1_def [symmetric] early_def
    using set by (simp add: r_def s2_def del: not_None_eq)
  have others: "s2 = s\<lparr>waiting := waiting s - 1, results := (results s)(i \<mapsto> r), s_vars := vs\<rparr>" by (simp add: s2_def s1_def)
  consider "rr_IsPending r0" | "\<not> rr_IsPending r0" "early" | "\<not> rr_IsPending r0" "\<not> early" "exiting s"
    | "\<not> rr_IsPending r0" "\<not> early" "\<not> exiting s" "a < ucast (t_Retries (tasks ! i))" "?failed"
    | "\<not> rr_IsPending r0" "\<not> early" "\<not> exiting s" "\<not> (a < ucast (t_Retries (tasks ! i)) \<and> ?failed)" by blast
  then show ?thesis
  proof cases
    case 1
    let ?s = "s1\<lparr>pending := True\<rparr>"
    have "sched_inv tasks [] ?s"
    proof (rule settled_inv [OF inv, where r = r])
      show "results ?s j \<noteq> None" if "exiting ?s" "j < length tasks" for j using that progress_invD(3) [OF inv, of j] by (simp add: s1_def)
    qed (use 1 in \<open>simp_all add: s1_def r_simps\<close>)
    moreover have "potential tasks ?s = potential tasks s" by (rule settled_potential [OF inv]) (simp_all add: s1_def attempts_def)
    ultimately show ?thesis using 1 by (simp add: step)
  next
    case 2
    let ?s = "markRemaining tasks ErrCancelled (s2\<lparr>exiting := True\<rparr>)"
    have "sched_inv tasks [] ?s"
    proof (rule settled_inv [OF inv, where r = r])
      show "results ?s j = results s j" if "j \<noteq> i" "results s j \<noteq> None \<or> \<not> exiting ?s" for j
        using that by (auto simp: markRemaining_results others)
      show "j < length tasks \<and> rr_Attempts r' = 0 \<and> \<not> rr_IsPending r'" if "results s j = None" "j \<noteq> i" "results ?s j = Some r'" for j r'
        using that by (auto simp: markRemaining_results others ids split: if_splits)
      show "results ?s j \<noteq> None" if "j < length tasks" for j using that by (simp add: markRemaining_results ids)
    qed (use 2 in \<open>simp_all add: markRemaining_results others r_simps\<close>)
    moreover have "potential tasks ?s = potential tasks s"
      by (rule settled_potential [OF inv]) (simp_all add: others attempts_def markRemaining_results split: option.splits)
    ultimately show ?thesis using 2 by (simp add: step)
  next
    case 3
    have "sched_inv tasks [] s2"
    proof (rule settled_inv [OF inv, where r = r])
      show "results s2 j \<noteq> None" if "j < length tasks" for j using that progress_invD(3) [OF inv, of j] 3 by (simp add: others)
    qed (use 3 in \<open>simp_all add: others r_simps\<close>)
    moreover have "potential tasks s2 = potential tasks s" by (rule settled_potential [OF inv]) (simp_all add: others attempts_def)
    ultimately show ?thesis using 3 by (simp add: step)
  next
    case 4
    let ?s = "s2\<lparr>waiting := waiting s2 + 1, retrying := retrying s2 @ [(i, a, Vars_Copy (s_vars s2))]\<rparr>"
    have a_le: "unat a < unat (t_Retries (tasks ! i))" using 4(4) by (simp add: word_less_nat_alt unat_ucast_u64)
    have "unat (attempts s i) \<le> unat (t_Retries (tasks ! i))" by (rule flight_invD(5) [OF inv]) (simp add: flight_def)
    moreover have "unat (t_Retries (tasks ! i)) < 2 ^ 32" using unsigned_less [of "t_Retries (tasks ! i)"] by simp
    ultimately have a_eq: "unat a = Suc (unat (attempts s i))" using 4(3) by (simp add: a_def unat_word_ariths)
    have "sched_inv tasks [] ?s"
    proof (rule retry_inv [OF inv, where r = r])
      show "unat a \<le> unat (t_Retries (tasks ! i))" using a_le by (rule less_imp_le)
    qed (use 4 in \<open>simp_all add: others r_simps\<close>)
    moreover have "potential tasks ?s \<le> potential tasks s + weight tasks s i"
    proof (rule retry_potential [OF inv, where r = r])
      show "unat a \<le> unat (t_Retries (tasks ! i))" using a_le by (rule less_imp_le)
      show "unat (attempts s i) < unat a" unfolding a_eq by (rule lessI)
    qed (simp_all add: others r_simps)
    ultimately show ?thesis using 4 by (simp add: step)
  next
    case 5
    let ?s = "fold (scheduleOutput tasks) (t_outputs (tasks ! i)) s2"
    have "sched_inv tasks [] ?s"
      by (rule completed_inv [OF wf len inv, where r = r]) (use 5 in \<open>simp_all add: others r_simps\<close>)
    moreover have "potential tasks ?s \<le> potential tasks s"
      by (rule completed_potential [OF wf len inv, where r = r]) (use 5 in \<open>simp_all add: others r_simps\<close>)
    moreover have "handleResult tasks r0 s = Some ?s" unfolding step using 5 by (simp only: if_False)
    ultimately show ?thesis by simp
  qed
qed

section \<open>Steps keep the invariant\<close>

lemma sum_list_removeAt: "k < length xs \<Longrightarrow> (\<Sum>x\<leftarrow>xs. f x) = f (xs ! k) + (\<Sum>x\<leftarrow>removeAt k xs. f x)" for f :: "'b \<Rightarrow> nat"
  using arg_cong [OF mset_removeAt, of k xs "\<lambda>m. sum_mset (image_mset f m)"] by (simp add: sum_mset_sum_list [symmetric])

lemma flight_newMemoryTaskRun:
  assumes "wf_pipeline tasks" and "sched_inv tasks ex s" and "i \<in> set (flight ex s)"
  shows "t_id (tasks ! i) = i"
  using wf_pipelineD(1) [OF assms(1) flight_invD(3) [OF assms(2,3)]] .

lemma reported_ok:
  assumes inv: "sched_inv tasks [] s" and k: "k < length (inFlight s)"
  defines "s0 \<equiv> s\<lparr>inFlight := removeAt k (inFlight s)\<rparr>"
  shows "sched_inv tasks [mr_task (inFlight s ! k)] s0" "potential tasks s = potential tasks s0 + weight tasks s0 (mr_task (inFlight s ! k)) + 1"
proof -
  show "sched_inv tasks [mr_task (inFlight s ! k)] s0"
  proof (rule sched_inv_cong [OF inv])
    show "mset (flight [mr_task (inFlight s ! k)] s0) = mset (flight [] s)"
      by (simp add: flight_def s0_def mset_removeAt [OF k])
    show "mr_inputs r = mr_inputs (newMemoryTaskRun tasks (results s) (tasks ! mr_task r) [])" if "r \<in> set (inFlight s0)" for r
      using that set_removeAt [of k "inFlight s"] by (intro flight_invD(6) [OF inv]) (auto simp: s0_def)
  qed (simp_all add: s0_def)
  have w: "weight tasks s0 = weight tasks s" by (simp add: weight_def attempts_def s0_def fun_eq_iff)
  show "potential tasks s = potential tasks s0 + weight tasks s0 (mr_task (inFlight s ! k)) + 1"
    using sum_list_removeAt [OF k, of "\<lambda>r. weight tasks s (mr_task r) + 1"] unfolding potential_def w by (simp add: s0_def o_def)
qed

lemma retry_over_ok:
  assumes inv: "sched_inv tasks [] s" and k: "k < length (retrying s)"
  defines "s0 \<equiv> s\<lparr>retrying := removeAt k (retrying s)\<rparr>"
  shows "sched_inv tasks [fst (retrying s ! k)] s0" "potential tasks s = potential tasks s0 + weight tasks s0 (fst (retrying s ! k)) + 2"
proof -
  show "sched_inv tasks [fst (retrying s ! k)] s0"
  proof (rule sched_inv_cong [OF inv])
    show "mset (flight [fst (retrying s ! k)] s0) = mset (flight [] s)"
      by (simp add: flight_def s0_def mset_removeAt [OF k])
    show "mr_inputs r = mr_inputs (newMemoryTaskRun tasks (results s) (tasks ! mr_task r) [])" if "r \<in> set (inFlight s0)" for r
      using that by (intro flight_invD(6) [OF inv]) (auto simp: s0_def)
  qed (simp_all add: s0_def)
  have w: "weight tasks s0 = weight tasks s" by (simp add: weight_def attempts_def s0_def fun_eq_iff)
  show "potential tasks s = potential tasks s0 + weight tasks s0 (fst (retrying s ! k)) + 2"
    using sum_list_removeAt [OF k, of "\<lambda>r. weight tasks s (fst r) + 2"] unfolding potential_def w by (simp add: s0_def o_def)
qed

lemma report_ok:
  assumes wf: "wf_pipeline tasks" and len: "length tasks < 2 ^ 64" and names: "names_ok tasks" and inv: "sched_inv tasks [] s" and k: "k < length (inFlight s)"
  shows "\<exists>s'. handleResult tasks (reportOf uuid (mr_task (inFlight s ! k)) r p) (s\<lparr>inFlight := removeAt k (inFlight s)\<rparr>) = Some s' \<and>
    sched_inv tasks [] s' \<and> potential tasks s' < potential tasks s"
  using handleResult_ok [OF wf len names reported_ok(1) [OF inv k], of "reportOf uuid (mr_task (inFlight s ! k)) r p"] reported_ok(2) [OF inv k]
  by (auto simp: reportOf_def)

lemma sched_event_ok:
  assumes wf: "wf_pipeline tasks" and len: "length tasks < 2 ^ 64" and names: "names_ok tasks" and inv: "sched_inv tasks [] s" and ev: "enabled ev s"
  shows "\<exists>s'. sched_event tasks ev s = Some s' \<and> sched_inv tasks [] s' \<and> potential tasks s' < potential tasks s"
proof (cases ev)
  case (Reported k r p)
  then show ?thesis using report_ok [OF wf len names inv, of k] ev by (simp add: enabled_def sched_event_def Let_def)
next
  case (Panicked k uuid)
  then show ?thesis using report_ok [OF wf len names inv, of k] ev by (simp add: enabled_def sched_event_def)
next
  case (RetryDue k)
  then have k: "k < length (retrying s)" using ev by (simp add: enabled_def)
  obtain i a v where rt: "retrying s ! k = (i, a, v)" by (cases "retrying s ! k")
  let ?s0 = "s\<lparr>retrying := removeAt k (retrying s)\<rparr>"
  let ?run = "(newMemoryTaskRun tasks (results s) (tasks ! i) v)\<lparr>mr_attempts := a\<rparr>"
  let ?s' = "?s0\<lparr>inFlight := inFlight s @ [?run]\<rparr>"
  note over = retry_over_ok [OF inv k, unfolded rt, simplified]
  have run: "mr_task ?run = i" using flight_newMemoryTaskRun [OF wf over(1), of i] by (simp add: flight_def)
  have inputs: "mr_inputs ?run = mr_inputs (newMemoryTaskRun tasks (results s) (tasks ! i) [])"
    by (simp add: newMemoryTaskRun_def)
  have "sched_inv tasks [] ?s'"
  proof (rule sched_inv_cong [OF over(1)])
    show "mset (flight [] ?s') = mset (flight [i] ?s0)" by (simp add: flight_def run)
    show "mr_inputs r = mr_inputs (newMemoryTaskRun tasks (results ?s0) (tasks ! mr_task r) [])" if "r \<in> set (inFlight ?s')" for r
      using that flight_invD(6) [OF over(1), of r] run inputs by auto
  qed simp_all
  moreover have "potential tasks ?s' = potential tasks ?s0 + weight tasks ?s0 i + 1"
    unfolding potential_def by (simp add: run [simplified] weight_def attempts_def)
  ultimately show ?thesis using over(2) by (simp add: sched_event_def RetryDue rt)
next
  case (RetryCancelled k)
  then have k: "k < length (retrying s)" using ev by (simp add: enabled_def)
  let ?r = "\<lparr>Value = VAtom ANil, Error = Some ErrCancelled\<rparr>"
  obtain s' where "handleResult tasks (reportOf 0 (fst (retrying s ! k)) ?r False) (s\<lparr>retrying := removeAt k (retrying s)\<rparr>) = Some s'"
    and ok: "sched_inv tasks [] s'"
      "potential tasks s' \<le> potential tasks (s\<lparr>retrying := removeAt k (retrying s)\<rparr>) + weight tasks (s\<lparr>retrying := removeAt k (retrying s)\<rparr>) (fst (retrying s ! k))"
    using handleResult_ok [OF wf len names retry_over_ok(1) [OF inv k], of "reportOf 0 (fst (retrying s ! k)) ?r False"] by (auto simp: reportOf_def)
  then show ?thesis using retry_over_ok(2) [OF inv k] by (simp add: sched_event_def RetryCancelled)
qed

section \<open>The first state\<close>

definition finished_run :: "'a task_run list \<Rightarrow> string \<Rightarrow> bool" where
  "finished_run runs name \<longleftrightarrow> (\<exists>r \<in> set runs. tr_DotID r = name \<and> \<not> tr_IsPending r)"

text \<open>The task runs of a suspended execution: one for a task at most, and a task that is finished has finished inputs.\<close>

definition resumable :: "task list \<Rightarrow> 'a task_run list \<Rightarrow> bool" where
  "resumable tasks runs \<longleftrightarrow> distinct (map tr_DotID runs) \<and> set (map tr_DotID runs) \<subseteq> set (map t_dotID tasks) \<and>
    (\<forall>t \<in> set tasks. finished_run runs (t_dotID t) \<longrightarrow> (\<forall>j \<in> set (input_ids t). finished_run runs (t_dotID (tasks ! j))))"

definition start_inv :: "task list \<Rightarrow> 'a scheduler \<Rightarrow> bool" where
  "start_inv tasks s \<longleftrightarrow>
    (\<forall>k < length tasks. dependencies s k = of_nat (card {j \<in> set (input_ids (tasks ! k)). results s j = None})) \<and>
    (\<forall>k r. results s k = Some r \<longrightarrow> k < length tasks \<and> \<not> rr_IsPending r \<and> rr_Attempts r = 0) \<and>
    waiting s = 0 \<and> \<not> pending s \<and> \<not> exiting s \<and> inFlight s = [] \<and> retrying s = []"

lemma ByDotID_Some: "distinct (map t_dotID tasks) \<Longrightarrow> i < length tasks \<Longrightarrow> ByDotID tasks (t_dotID (tasks ! i)) = Some (tasks ! i)"
  unfolding ByDotID_def find_Some_iff by (auto simp: distinct_conv_nth intro!: exI [of _ i])

lemma reconstructed:
  assumes wf: "wf_pipeline tasks" and inv: "start_inv tasks s" and i: "i < length tasks" "results s i = None"
    and r: "\<not> rr_IsPending r" "rr_Attempts r = 0"
  shows "start_inv tasks (fold completeOutput (t_outputs (tasks ! i)) (s\<lparr>results := (results s)(i \<mapsto> r), s_vars := vs\<rparr>))"
proof -
  let ?s1 = "s\<lparr>results := (results s)(i \<mapsto> r), s_vars := vs\<rparr>"
  let ?s' = "?s1\<lparr>dependencies := \<lambda>k. if k \<in> set (t_outputs (tasks ! i)) then dependencies ?s1 k - 1 else dependencies ?s1 k\<rparr>"
  have "start_inv tasks ?s'"
    unfolding start_inv_def
  proof (intro conjI allI impI)
    fix k assume k: "k < length tasks"
    let ?before = "{j \<in> set (input_ids (tasks ! k)). results s j = None}"
    have dep: "dependencies s k = of_nat (card ?before)" using inv k by (simp add: start_inv_def)
    have after: "{j \<in> set (input_ids (tasks ! k)). ((results s)(i \<mapsto> r)) j = None} = ?before - {i}" by auto
    have "card ?before = Suc (card (?before - {i}))" if "i \<in> set (input_ids (tasks ! k))"
      using that i(2) by (intro card_Suc_Diff1 [symmetric]) auto
    then show "dependencies ?s' k = of_nat (card {j \<in> set (input_ids (tasks ! k)). results ?s' j = None})"
      using k after dep by (simp add: wf_pipelineD(3) [OF wf i(1)])
  qed (use inv i r in \<open>auto simp: start_inv_def split: if_splits\<close>)
  then show ?thesis by (simp add: fold_completeOutput [OF wf_pipelineD(2) [OF wf i(1)]])
qed

lemma reconstructResults_ok:
  assumes wf: "wf_pipeline tasks" and names: "names_ok tasks" "distinct (map t_dotID tasks)"
  shows "start_inv tasks s \<Longrightarrow> distinct (map tr_DotID runs) \<Longrightarrow> set (map tr_DotID runs) \<subseteq> set (map t_dotID tasks) \<Longrightarrow>
    \<forall>i < length tasks. t_dotID (tasks ! i) \<in> set (map tr_DotID runs) \<longrightarrow> results s i = None \<Longrightarrow>
    \<exists>s'. reconstructResults tasks runs s = Some s' \<and> start_inv tasks s' \<and>
      (\<forall>i < length tasks. results s' i = None \<longleftrightarrow> results s i = None \<and> \<not> finished_run runs (t_dotID (tasks ! i)))"
proof (induction runs arbitrary: s)
  case Nil
  then show ?case by (simp add: finished_run_def)
next
  case (Cons r rs)
  obtain i where i: "i < length tasks" "t_dotID (tasks ! i) = tr_DotID r"
    using Cons.prems(3) by (auto simp: in_set_conv_nth)
  have by_name: "ByDotID tasks (tr_DotID r) = Some (tasks ! i)" using ByDotID_Some [OF names(2) i(1)] i(2) by simp
  have other: "t_dotID (tasks ! k) \<noteq> tr_DotID r" if "k < length tasks" "k \<noteq> i" for k
    using nth_eq_iff_index_eq [OF names(2), of i k] that i by auto
  have none: "results s i = None" using Cons.prems(4) i by simp
  show ?case
  proof (cases "tr_IsPending r")
    case True
    have "finished_run (r # rs) name = finished_run rs name" for name using True by (auto simp: finished_run_def)
    then show ?thesis using Cons.IH [of s] Cons.prems by (simp add: by_name True)
  next
    case False
    define rr where "rr = \<lparr>rr_ID = 0, rr_Task = i, rr_Result = \<lparr>Value = (case tr_Output r of None \<Rightarrow> VAtom ANil | Some v \<Rightarrow> v), Error = tr_Error r\<rparr>,
      rr_Attempts = 0, rr_FinishedAt = tr_FinishedAt r, rr_IsPending = False\<rparr>"
    let ?s1 = "s\<lparr>results := (results s)(i \<mapsto> rr)\<rparr>"
    obtain vs where set: "setVar (tasks ! i) (rr_Result rr) ?s1 = Some (?s1\<lparr>s_vars := vs\<rparr>)"
      using setVar_ok names(1) i(1) unfolding names_ok_def by (metis nth_mem)
    let ?s2 = "fold completeOutput (t_outputs (tasks ! i)) (s\<lparr>results := (results s)(i \<mapsto> rr), s_vars := vs\<rparr>)"
    have res: "results ?s2 = (results s)(i \<mapsto> rr)" by (simp add: fold_completeOutput [OF wf_pipelineD(2) [OF wf i(1)]])
    have step: "reconstructResults tasks (r # rs) s = reconstructResults tasks rs ?s2"
      using set by (simp add: by_name False wf_pipelineD(1) [OF wf i(1)] rr_def)
    have "start_inv tasks ?s2" by (rule reconstructed [OF wf Cons.prems(1) i(1) none]) (simp_all add: rr_def)
    moreover have "\<forall>k < length tasks. t_dotID (tasks ! k) \<in> set (map tr_DotID rs) \<longrightarrow> results ?s2 k = None"
      using Cons.prems(2,4) i(2) by (auto simp: res)
    ultimately obtain s' where s': "reconstructResults tasks rs ?s2 = Some s'" "start_inv tasks s'"
      "\<forall>k < length tasks. results s' k = None \<longleftrightarrow> results ?s2 k = None \<and> \<not> finished_run rs (t_dotID (tasks ! k))"
      using Cons.IH [of ?s2] Cons.prems(2,3) by auto
    have "finished_run (r # rs) (t_dotID (tasks ! k)) \<longleftrightarrow> k = i \<or> finished_run rs (t_dotID (tasks ! k))" if "k < length tasks" for k
      using other [OF that] i(2) False by (auto simp: finished_run_def)
    then show ?thesis using s' step none unfolding res by (intro exI [of _ s']) auto
  qed
qed

lemma newScheduler_ok:
  assumes wf: "wf_pipeline tasks" and len: "length tasks < 2 ^ 64" and names: "names_ok tasks" "distinct (map t_dotID tasks)"
    and runs: "resumable tasks runs"
  shows "\<exists>s. newScheduler tasks runs vars = Some s \<and> sched_inv tasks [] s \<and> \<not> exiting s \<and> \<not> pending s \<and>
    potential tasks s \<le> (\<Sum>t\<leftarrow>tasks. 2 * unat (t_Retries t) + 2)"
proof -
  let ?s0 = "\<lparr>dependencies = (\<lambda>i. if i < length tasks then of_nat (length (t_inputs (tasks ! i))) else 0), waiting = 0,
    results = Map.empty, s_vars = vars, pending = False, exiting = False, inFlight = [], retrying = []\<rparr> :: 'a scheduler"
  have "length (t_inputs (tasks ! k)) = card (set (input_ids (tasks ! k)))" if "k < length tasks" for k
    using distinct_card [OF wf_pipelineD(4) [OF wf that]] by (simp add: input_ids_def)
  then have "start_inv tasks ?s0" by (simp add: start_inv_def)
  then obtain s where s: "reconstructResults tasks runs ?s0 = Some s" "start_inv tasks s"
    and all: "\<forall>k < length tasks. results s k = None \<longleftrightarrow> \<not> finished_run runs (t_dotID (tasks ! k))"
    using reconstructResults_ok [OF wf names, of ?s0 runs] runs by (auto simp: resumable_def)
  have res: "results s k = None \<longleftrightarrow> \<not> finished_run runs (t_dotID (tasks ! k))" if "k < length tasks" for k using all that by blast
  let ?ready = "filter (\<lambda>i. dependencies s i = 0 \<and> results s i = None) [0..<length tasks]"
  let ?s' = "fold (startTask tasks) [0..<length tasks] s"
  let ?run = "\<lambda>i. newMemoryTaskRun tasks (results s) (tasks ! i) (Vars_Copy (s_vars s))"
  have s': "?s' = s\<lparr>inFlight := map ?run ?ready, waiting := of_nat (length ?ready)\<rparr>"
    using s(2) by (simp add: fold_startTask Let_def start_inv_def)
  have fl: "flight [] ?s' = ?ready"
  proof -
    have "map (mr_task \<circ> ?run) ?ready = ?ready" by (intro map_idI) (use wf_pipelineD(1) [OF wf] in simp)
    then show ?thesis using s(2) by (simp add: s' flight_def start_inv_def)
  qed
  have dn: "done_in [] ?s' j \<longleftrightarrow> results s j \<noteq> None" for j
    using s(2) unfolding done_in_def fl by (auto simp: s' start_inv_def)
  have unf: "unfinished tasks [] ?s' k = {j \<in> set (input_ids (tasks ! k)). results s j = None}" for k by (simp add: unfinished_def dn)
  have dep: "dependencies s k = of_nat (card (unfinished tasks [] ?s' k))" if "k < length tasks" for k
    using s(2) that by (simp add: start_inv_def unf)
  have zero: "dependencies s k = 0 \<longleftrightarrow> unfinished tasks [] ?s' k = {}" if k: "k < length tasks" for k
    unfolding dep [OF k] using of_nat_u64_eq [OF card_unfinished(1) [OF wf len k], of 0 "[]" ?s'] card_unfinished(2) [OF wf len k, of "[]" ?s'] by simp
  have closed: "unfinished tasks [] ?s' k = {}" if k: "k < length tasks" "results s k \<noteq> None" for k
  proof -
    have "finished_run runs (t_dotID (tasks ! k))" using res [OF k(1)] k(2) by blast
    then have fin: "\<forall>j \<in> set (input_ids (tasks ! k)). finished_run runs (t_dotID (tasks ! j))"
      using runs nth_mem [OF k(1)] unfolding resumable_def by blast
    have "results s j \<noteq> None" if "j \<in> set (input_ids (tasks ! k))" for j
    proof -
      have "j < length tasks" using wf_pipelineD(5) [OF wf k(1) that] k(1) by simp
      then show ?thesis using res fin that by blast
    qed
    then show ?thesis by (simp add: unf)
  qed
  have zero_att: "attempts ?s' k = 0" for k using s(2) by (simp add: s' attempts_def start_inv_def split: option.splits)
  have "flight_inv tasks [] ?s'"
    unfolding flight_inv_def fl
  proof (intro conjI ballI allI impI)
    show "unfinished tasks [] ?s' i = {}" if "i \<in> set ?ready" for i using that zero [of i] by simp
    show "mr_inputs r = mr_inputs (newMemoryTaskRun tasks (results ?s') (tasks ! mr_task r) [])" if "r \<in> set (inFlight ?s')" for r
      using that wf_pipelineD(1) [OF wf] by (auto simp: s') (simp add: newMemoryTaskRun_def)
  qed (use s(2) zero_att in \<open>auto simp: s' start_inv_def\<close>)
  moreover have "progress_inv tasks [] ?s'"
    unfolding progress_inv_def fl
  proof (intro allI impI conjI)
    fix k assume k: "k < length tasks"
    show "dependencies ?s' k = of_nat (card (unfinished tasks [] ?s' k))" using dep [OF k] by (simp add: s')
    show "unfinished tasks [] ?s' k = {} \<longleftrightarrow> k \<in> set ?ready \<or> results ?s' k \<noteq> None"
      using closed [OF k] zero [OF k] k by (auto simp: s')
  qed (use s(2) in \<open>simp add: s' start_inv_def\<close>)
  moreover have "potential tasks ?s' \<le> (\<Sum>t\<leftarrow>tasks. 2 * unat (t_Retries t) + 2)"
  proof -
    let ?full = "\<lambda>k. 2 * unat (t_Retries (tasks ! k)) + 2"
    have "potential tasks ?s' = (\<Sum>i\<leftarrow>?ready. weight tasks ?s' i + 1) + (\<Sum>k | k < length tasks \<and> dependencies s k \<noteq> 0. ?full k)"
      using fl s(2) by (simp add: potential_def flight_def s' start_inv_def del: map_map)
    also have "(\<Sum>i\<leftarrow>?ready. weight tasks ?s' i + 1) \<le> (\<Sum>k\<leftarrow>?ready. ?full k)" by (intro sum_list_mono) (simp add: weight_def)
    also have "\<dots> = sum ?full (set ?ready)" by (intro sum_list_distinct_conv_sum_set) simp
    also have "sum ?full (set ?ready) + (\<Sum>k | k < length tasks \<and> dependencies s k \<noteq> 0. ?full k) = sum ?full (set ?ready \<union> {k. k < length tasks \<and> dependencies s k \<noteq> 0})"
      by (intro sum.union_disjoint [symmetric]) auto
    also have "\<dots> \<le> sum ?full {..< length tasks}" by (intro sum_mono2) auto
    also have "\<dots> = (\<Sum>t\<leftarrow>tasks. 2 * unat (t_Retries t) + 2)" by (simp add: sum_list_sum_nth atLeast0LessThan)
    finally show ?thesis by simp
  qed
  ultimately show ?thesis using s by (intro exI [of _ ?s']) (simp add: newScheduler_def Let_def sched_inv_def s' start_inv_def)
qed

section \<open>Whole executions\<close>

lemma steps_ok:
  assumes "wf_pipeline tasks" and "length tasks < 2 ^ 64" and "names_ok tasks" and "sched_inv tasks [] s0" and "(sched_step tasks ^^ n) s0 s"
  shows "sched_inv tasks [] s" "potential tasks s + n \<le> potential tasks s0"
proof -
  have "sched_inv tasks [] s \<and> potential tasks s + n \<le> potential tasks s0" using assms(5)
  proof (induction n arbitrary: s)
    case (Suc n)
    then obtain s1 where s1: "(sched_step tasks ^^ n) s0 s1" "sched_step tasks s1 s" by auto
    note IH = Suc.IH [OF s1(1)]
    from s1(2) obtain ev where ev: "enabled ev s1" "sched_event tasks ev s1 = Some s" by (elim sched_stepE)
    show ?case using sched_event_ok [OF assms(1-3) IH [THEN conjunct1] ev(1)] ev(2) IH by auto
  qed (use assms(4) in simp)
  then show "sched_inv tasks [] s" "potential tasks s + n \<le> potential tasks s0" by simp_all
qed

lemma flight_bounded: "sched_inv tasks [] s \<Longrightarrow> length (flight [] s) \<le> length tasks"
proof -
  assume inv: "sched_inv tasks [] s"
  have "card (set (flight [] s)) \<le> card {..< length tasks}" by (intro card_mono) (use flight_invD(3) [OF inv] in auto)
  then show ?thesis using distinct_card [OF flight_invD(1) [OF inv]] by simp
qed

text \<open>When nothing is in flight, a task has a result just when its inputs are done, unless the run ended early.\<close>

lemma idle_results:
  assumes wf: "wf_pipeline tasks" and inv: "sched_inv tasks [] s" and none: "flight [] s = []" and i: "i < length tasks"
  shows "if exiting s then results s i \<noteq> None
    else results s i \<noteq> None \<longleftrightarrow> (\<forall>j \<in> set (input_ids (tasks ! i)). \<exists>r. results s j = Some r \<and> \<not> rr_IsPending r)"
proof -
  have dn: "done_in [] s j \<longleftrightarrow> (\<exists>r. results s j = Some r \<and> \<not> rr_IsPending r)" for j by (simp add: done_in_def none)
  show ?thesis using progress_invD(2,3) [OF inv i] by (simp add: none unfinished_def dn) blast
qed

lemma idle_complete:
  assumes wf: "wf_pipeline tasks" and inv: "sched_inv tasks [] s" and none: "flight [] s = []" and not_pending: "\<not> pending s"
  shows "i < length tasks \<Longrightarrow> \<exists>r. results s i = Some r \<and> \<not> rr_IsPending r"
proof (induction i rule: less_induct)
  case (less i)
  have "\<exists>r. results s j = Some r \<and> \<not> rr_IsPending r" if "j \<in> set (input_ids (tasks ! i))" for j
    using wf_pipelineD(5) [OF wf less.prems that] less by simp
  then have "results s i \<noteq> None" using idle_results [OF wf inv none less.prems] by (auto split: if_splits)
  then show ?case using flight_invD(8) [OF inv] not_pending by blast
qed

lemma waiting_iff:
  assumes "sched_inv tasks [] s" and "length tasks < 2 ^ 64"
  shows "waiting s = 0 \<longleftrightarrow> flight [] s = []"
  unfolding flight_invD(2) [OF assms(1)] using of_nat_u64_eq [of "length (flight [] s)" 0] flight_bounded [OF assms(1)] assms(2) by simp

text \<open>C7: No task is ever executed twice at the same time, and none before its inputs are done: whatever the tasks answer and in whatever order,
  the tasks that are executing or waiting for a retry are distinct, every input of an executing task has a result that is not pending and is
  not being replaced, and what the task is given are exactly the results of the inputs that propagate, in the order of their
  indices. No more runs than there are tasks are queued, so that sending one never blocks, and \<^verbatim>\<open>waiting\<close> counts them. This also holds
  for an execution that is resumed.\<close>
theorem scheduler_runs_ready:
  assumes "wf_pipeline tasks" and "length tasks < 2 ^ 64" and "names_ok tasks" and "distinct (map t_dotID tasks)" and "resumable tasks runs"
    and "newScheduler tasks runs vars = Some s0" and "(sched_step tasks ^^ n) s0 s"
  shows "distinct (map mr_task (inFlight s) @ map fst (retrying s)) \<and> length (inFlight s) \<le> length tasks \<and>
    waiting s = of_nat (length (inFlight s) + length (retrying s)) \<and>
    (\<forall>r \<in> set (inFlight s). mr_task r < length tasks \<and>
      (\<forall>j \<in> set (input_ids (tasks ! mr_task r)). j \<notin> set (map mr_task (inFlight s) @ map fst (retrying s)) \<and> (\<exists>rr. results s j = Some rr \<and> \<not> rr_IsPending rr)) \<and>
      mr_inputs r = map snd (sort_key fst (map (\<lambda>(_, j). (t_Index (tasks ! j), resultOf (results s) j)) (filter fst (t_inputs (tasks ! mr_task r))))))"
proof -
  have "sched_inv tasks [] s0" using newScheduler_ok [OF assms(1-5), of vars] assms(6) by auto
  note inv = steps_ok(1) [OF assms(1-3) this assms(7)]
  have fl: "flight [] s = map mr_task (inFlight s) @ map fst (retrying s)" by (simp add: flight_def)
  show ?thesis
    unfolding fl [symmetric]
  proof (intro conjI ballI)
    show "distinct (flight [] s)" "waiting s = of_nat (length (inFlight s) + length (retrying s))"
      using flight_invD(1,2) [OF inv] by (simp_all add: fl)
    show "length (inFlight s) \<le> length tasks" using flight_bounded [OF inv] by (simp add: fl)
    fix r assume r: "r \<in> set (inFlight s)"
    then have i: "mr_task r \<in> set (flight [] s)" by (simp add: fl)
    show "mr_task r < length tasks" by (rule flight_invD(3) [OF inv i])
    show "mr_inputs r = map snd (sort_key fst (map (\<lambda>(_, j). (t_Index (tasks ! j), resultOf (results s) j)) (filter fst (t_inputs (tasks ! mr_task r)))))"
      unfolding flight_invD(6) [OF inv r] by (simp add: newMemoryTaskRun_def)
    fix j assume "j \<in> set (input_ids (tasks ! mr_task r))"
    then have "done_in [] s j" using flight_invD(4) [OF inv i] by (auto simp: unfinished_def)
    then show "j \<notin> set (flight [] s)" "\<exists>rr. results s j = Some rr \<and> \<not> rr_IsPending rr" by (auto simp: done_in_def)
  qed
qed

text \<open>C8: A run ends. There are at most twice the number of retries plus two steps for every task; as long as the scheduler waits, something can
  happen, and whatever happens is handled without a panic; and when it stops waiting, nothing is left behind: after an early exit every task has a
  result, otherwise a task has a result just when all its inputs have one that is not pending, and in a run without pending tasks
  every task has finished.\<close>
theorem scheduler_completes:
  assumes "wf_pipeline tasks" and "length tasks < 2 ^ 64" and "names_ok tasks" and "distinct (map t_dotID tasks)" and "resumable tasks runs"
  shows "\<exists>s0. newScheduler tasks runs vars = Some s0 \<and>
    (\<forall>n s. (sched_step tasks ^^ n) s0 s \<longrightarrow> n \<le> (\<Sum>t\<leftarrow>tasks. 2 * unat (t_Retries t) + 2) \<and>
      (waiting s > 0 \<longrightarrow> (\<exists>ev. enabled ev s) \<and> (\<forall>ev. enabled ev s \<longrightarrow> (\<exists>s'. sched_event tasks ev s = Some s'))) \<and>
      (waiting s = 0 \<longrightarrow> inFlight s = [] \<and> retrying s = [] \<and>
        (\<forall>i < length tasks. if exiting s then results s i \<noteq> None
           else results s i \<noteq> None \<longleftrightarrow> (\<forall>j \<in> set (input_ids (tasks ! i)). \<exists>r. results s j = Some r \<and> \<not> rr_IsPending r)) \<and>
        (\<not> pending s \<longrightarrow> (\<forall>i < length tasks. \<exists>r. results s i = Some r \<and> \<not> rr_IsPending r))))"
proof -
  obtain s0 where s0: "newScheduler tasks runs vars = Some s0" "sched_inv tasks [] s0" "potential tasks s0 \<le> (\<Sum>t\<leftarrow>tasks. 2 * unat (t_Retries t) + 2)"
    using newScheduler_ok [OF assms] by blast
  let ?finished = "\<lambda>s. inFlight s = [] \<and> retrying s = [] \<and>
      (\<forall>i < length tasks. if exiting s then results s i \<noteq> None
         else results s i \<noteq> None \<longleftrightarrow> (\<forall>j \<in> set (input_ids (tasks ! i)). \<exists>r. results s j = Some r \<and> \<not> rr_IsPending r)) \<and>
      (\<not> pending s \<longrightarrow> (\<forall>i < length tasks. \<exists>r. results s i = Some r \<and> \<not> rr_IsPending r))"
  have at_end: "?finished s" if inv: "sched_inv tasks [] s" and none: "flight [] s = []" for s
  proof -
    have "inFlight s = []" "retrying s = []" using none by (simp_all add: flight_def)
    then show ?thesis using idle_results [OF assms(1) inv none] idle_complete [OF assms(1) inv none] by blast
  qed
  show ?thesis
  proof (rule exI [of _ s0], rule conjI [OF s0(1)], intro allI impI)
    fix n s assume run: "(sched_step tasks ^^ n) s0 s"
    note ok = steps_ok [OF assms(1-3) s0(2) run]
    note wait = waiting_iff [OF ok(1) assms(2)]
    have "n \<le> (\<Sum>t\<leftarrow>tasks. 2 * unat (t_Retries t) + 2)" using ok(2) s0(3) by linarith
    moreover have "\<exists>ev. enabled ev s" if "waiting s > 0"
    proof -
      have "flight [] s \<noteq> []" using wait that by auto
      then have "enabled (Reported 0 noResult False) s \<or> enabled (RetryDue 0) s" by (auto simp: flight_def enabled_def)
      then show ?thesis by blast
    qed
    moreover have "\<exists>s'. sched_event tasks ev s = Some s'" if "enabled ev s" for ev using sched_event_ok [OF assms(1-3) ok(1) that] by blast
    moreover have "?finished s" if "waiting s = 0" using at_end [OF ok(1)] wait that by blast
    ultimately show "n \<le> (\<Sum>t\<leftarrow>tasks. 2 * unat (t_Retries t) + 2) \<and>
      (waiting s > 0 \<longrightarrow> (\<exists>ev. enabled ev s) \<and> (\<forall>ev. enabled ev s \<longrightarrow> (\<exists>s'. sched_event tasks ev s = Some s'))) \<and>
      (waiting s = 0 \<longrightarrow> ?finished s)" by blast
  qed
qed

section \<open>Where it goes wrong\<close>

lemma started:
  assumes "reconstructResults tasks runs \<lparr>dependencies = (\<lambda>i. if i < length tasks then of_nat (length (t_inputs (tasks ! i))) else 0), waiting = 0,
      results = Map.empty, s_vars = vars, pending = False, exiting = False, inFlight = [], retrying = []\<rparr> = Some s" and "start_inv tasks s"
  shows "newScheduler tasks runs vars = Some (s\<lparr>inFlight := map (\<lambda>i. newMemoryTaskRun tasks (results s) (tasks ! i) (Vars_Copy (s_vars s)))
        (filter (\<lambda>i. dependencies s i = 0 \<and> results s i = None) [0..<length tasks]),
      waiting := of_nat (length (filter (\<lambda>i. dependencies s i = 0 \<and> results s i = None) [0..<length tasks]))\<rparr>)"
  using assms by (simp add: newScheduler_def Let_def fold_startTask start_inv_def)

text \<open>C34: A task whose name contains a dot crashes the process: reading the pipeline accepts the name (a quoted one, or a
  numeral like \<^verbatim>\<open>1.5\<close>), but \<^verbatim>\<open>Vars.Set\<close> refuses it, and the scheduler panics, on a goroutine that does not recover, as soon as the task
  reports, whatever it reports.\<close>
theorem dotted_task_name_panics:
  assumes "wf_pipeline tasks" and "i < length tasks" and "t_inputs (tasks ! i) = []" and "CHR ''.'' \<in> set (TrimSpace (t_dotID (tasks ! i)))"
  shows "\<exists>s k. newScheduler tasks [] vars = Some s \<and> k < length (inFlight s) \<and> mr_task (inFlight s ! k) = i \<and>
    (\<forall>r. sched_event tasks (Reported k r False) s = None)"
proof -
  let ?s0 = "\<lparr>dependencies = (\<lambda>i. if i < length tasks then of_nat (length (t_inputs (tasks ! i))) else 0), waiting = 0,
    results = Map.empty, s_vars = vars, pending = False, exiting = False, inFlight = [], retrying = []\<rparr> :: 'a scheduler"
  obtain s where s: "newScheduler tasks [] vars = Some s"
    "inFlight s = map (\<lambda>i. newMemoryTaskRun tasks Map.empty (tasks ! i) (Vars_Copy vars)) (filter (\<lambda>i. dependencies ?s0 i = 0) [0..<length tasks])"
    by (simp add: newScheduler_def Let_def fold_startTask)
  have "i \<in> set (filter (\<lambda>i. dependencies ?s0 i = 0) [0..<length tasks])" using assms(2,3) by simp
  then obtain k where k: "k < length (inFlight s)" "mr_task (inFlight s ! k) = t_id (tasks ! i)"
    unfolding s(2) by (metis (no_types, lifting) in_set_conv_nth length_map newMemoryTaskRun_fields(1) nth_map)
  have "sched_event tasks (Reported k r False) s = None" for r
    using k(2) assms(4) by (auto simp: sched_event_def handleResult_def reportOf_def Let_def setVar_def Vars_Set_def wf_pipelineD(1) [OF assms(1,2)])
  then show ?thesis using s(1) k wf_pipelineD(1) [OF assms(1,2)] by auto
qed

text \<open>A finished task can be executed again when an execution is resumed: if the node stopped after a task's result was stored but before that of
  its input was (an \<^verbatim>\<open>ethtx\<close> task that is confirmed while the rest of the run is going on), then the input is executed first, and its
  success sends the finished task to be executed a second time although its result is in the table: a task is
  scheduled when its counter reaches zero, without looking at the results.\<close>
theorem unsaved_input_reruns_task:
  assumes "wf_pipeline tasks" and "length tasks < 2 ^ 64" and "names_ok tasks" and "distinct (map t_dotID tasks)"
    and "k < length tasks" and "input_ids (tasks ! k) = [i]" and "input_ids (tasks ! i) = []"
    and "tr_DotID r = t_dotID (tasks ! k)" and "\<not> tr_IsPending r"
  shows "\<exists>s0 p. newScheduler tasks [r] vars = Some s0 \<and> p < length (inFlight s0) \<and> mr_task (inFlight s0 ! p) = i \<and>
    results s0 k \<noteq> None \<and> k \<notin> mr_task ` set (inFlight s0) \<and>
    (\<forall>res. Error res = None \<longrightarrow> (\<exists>s1. sched_event tasks (Reported p res False) s0 = Some s1 \<and>
      results s1 k = results s0 k \<and> k \<in> mr_task ` set (inFlight s1)))"
proof -
  note wf = assms(1) and k = assms(5)
  let ?s0 = "\<lparr>dependencies = (\<lambda>i. if i < length tasks then of_nat (length (t_inputs (tasks ! i))) else 0), waiting = 0,
    results = Map.empty, s_vars = vars, pending = False, exiting = False, inFlight = [], retrying = []\<rparr> :: 'a scheduler"
  have ik: "i < k" using wf_pipelineD(5) [OF wf k, of i] assms(6) by simp
  then have i: "i < length tasks" using k by simp
  have "length (t_inputs (tasks ! j)) = card (set (input_ids (tasks ! j)))" if "j < length tasks" for j
    using distinct_card [OF wf_pipelineD(4) [OF wf that]] by (simp add: input_ids_def)
  then have start: "start_inv tasks ?s0" by (simp add: start_inv_def)
  have name: "finished_run [r] (t_dotID (tasks ! j)) \<longleftrightarrow> j = k" if "j < length tasks" for j
    using nth_eq_iff_index_eq [OF assms(4), of k j] k that assms(8,9) by (auto simp: finished_run_def)
  obtain s where s: "reconstructResults tasks [r] ?s0 = Some s" "start_inv tasks s"
    and all: "\<forall>j < length tasks. results s j = None \<longleftrightarrow> \<not> finished_run [r] (t_dotID (tasks ! j))"
    using reconstructResults_ok [OF wf assms(3,4) start, of "[r]"] k assms(8) by auto
  have res: "results s j = None \<longleftrightarrow> j \<noteq> k" if "j < length tasks" for j using all name that by blast
  have one: "{j \<in> set [i]. results s j = None} = {i}" using res [OF i] ik by auto
  have dep: "dependencies s k = 1" "dependencies s i = 0"
    using s(2) k i unfolding start_inv_def by (simp_all only: assms(6,7) one) simp_all
  define ready where "ready = filter (\<lambda>j. dependencies s j = 0 \<and> results s j = None) [0..<length tasks]"
  define s1 where "s1 = s\<lparr>inFlight := map (\<lambda>j. newMemoryTaskRun tasks (results s) (tasks ! j) (Vars_Copy (s_vars s))) ready, waiting := of_nat (length ready)\<rparr>"
  have new: "newScheduler tasks [r] vars = Some s1" unfolding s1_def ready_def by (rule started [OF s])
  have ids: "mr_task (inFlight s1 ! p) = ready ! p" if "p < length ready" for p
  proof -
    have "ready ! p \<in> set ready" using that by simp
    then show ?thesis using that wf_pipelineD(1) [OF wf] by (simp add: s1_def ready_def)
  qed
  have len: "length (inFlight s1) = length ready" by (simp add: s1_def)
  have "i \<in> set ready" using i dep res [OF i] ik by (simp add: ready_def)
  then obtain p where p: "p < length ready" "ready ! p = i" by (auto simp: in_set_conv_nth)
  have k_not: "k \<notin> mr_task ` set (inFlight s1)"
  proof
    assume "k \<in> mr_task ` set (inFlight s1)"
    then obtain q where q: "q < length ready" "mr_task (inFlight s1 ! q) = k" using len by (auto simp: in_set_conv_nth)
    then have "k \<in> set ready" using ids [OF q(1)] nth_mem [OF q(1)] by simp
    then show False using dep by (simp add: ready_def)
  qed
  have rerun: "\<exists>s2. sched_event tasks (Reported p v False) s1 = Some s2 \<and> results s2 k = results s1 k \<and> k \<in> mr_task ` set (inFlight s2)"
    if ok: "Error v = None" for v
  proof -
    define rr where "rr = (reportOf (t_uuid (tasks ! i)) i v False)\<lparr>rr_Attempts := attempts s1 i + 1\<rparr>"
    define s2 where "s2 = s1\<lparr>inFlight := removeAt p (inFlight s1), waiting := waiting s1 - 1, results := (results s1)(i \<mapsto> rr)\<rparr>"
    obtain vs where vs: "setVar (tasks ! i) v s2 = Some (s2\<lparr>s_vars := vs\<rparr>)"
      using setVar_ok [of "tasks ! i"] nth_mem [OF i] assms(3) unfolding names_ok_def by blast
    let ?s3 = "fold (scheduleOutput tasks) (t_outputs (tasks ! i)) (s2\<lparr>s_vars := vs\<rparr>)"
    note f = fold_scheduleOutput [OF wf_pipelineD(2) [OF wf i], of tasks "s2\<lparr>s_vars := vs\<rparr>"]
    have flags: "exiting s1 = False" "results s1 i = None" using s(2) res [OF i] ik by (simp_all add: s1_def start_inv_def)
    have "sched_event tasks (Reported p v False) s1 = Some ?s3"
      using vs ok ids [OF p(1)] p(2) flags
      by (simp add: sched_event_def handleResult_def reportOf_def Let_def s2_def rr_def attempts_def)
    moreover have "results ?s3 k = results s1 k" unfolding f(2) using ik by (simp add: s2_def)
    moreover have "k \<in> mr_task ` set (inFlight ?s3)"
    proof -
      have "k \<in> set (filter (\<lambda>j. dependencies (s2\<lparr>s_vars := vs\<rparr>) j = 1) (t_outputs (tasks ! i)))"
        using dep k assms(6) wf_pipelineD(3) [OF wf i, of k] by (simp add: s2_def s1_def)
      then have "newRun tasks (s2\<lparr>s_vars := vs\<rparr>) k \<in> set (inFlight ?s3)" unfolding f by simp
      then show ?thesis using wf_pipelineD(1) [OF wf k] by (force simp: newRun_def)
    qed
    ultimately show ?thesis by blast
  qed
  have "results s1 k \<noteq> None" using res [OF k] by (simp add: s1_def)
  then show ?thesis using new p len ids [OF p(1)] k_not rerun by (intro exI [of _ s1] exI [of _ p]) simp
qed

section \<open>A pipeline of two tasks\<close>

text \<open>A task \<open>fetch\<close> with three attempts, and a task \<open>tx\<close> that takes its result and ends the run if it fails.\<close>

definition demo_tasks :: "task list" where
  "demo_tasks =
    [\<lparr>t_id = 0, t_dotID = ''fetch'', t_type = ''http'', t_inputs = [], t_outputs = [1], t_Index = 0, t_Timeout = None, t_FailEarly = False,
      t_Retries = 3, t_MinBackoff = 0, t_MaxBackoff = 0, t_uuid = 11, t_Async = []\<rparr>,
     \<lparr>t_id = 1, t_dotID = ''tx'', t_type = ''ethtx'', t_inputs = [(True, 0)], t_outputs = [], t_Index = 0, t_Timeout = None, t_FailEarly = True,
      t_Retries = 0, t_MinBackoff = 0, t_MaxBackoff = 0, t_uuid = 12, t_Async = []\<rparr>]"

definition demo_run :: "string \<Rightarrow> nat task_run" where
  "demo_run name = \<lparr>tr_ID = 13, tr_RunID = 1, tr_Index = 0, tr_DotID = name, tr_Output = Some (VAtom (AVal 7)), tr_Error = None, tr_FinishedAt = True\<rparr>"

lemma demo_ok: "wf_pipeline demo_tasks" "length demo_tasks < 2 ^ 64" "names_ok demo_tasks" "distinct (map t_dotID demo_tasks)"
  by (auto simp: wf_pipeline_def demo_tasks_def names_ok_def input_ids_def All_less_Suc TrimSpace_def is_space_def nth_Cons' less_Suc_eq split: if_splits)

lemma demo_resumable: "resumable demo_tasks [demo_run ''fetch'']" "resumable demo_tasks ([] :: nat task_run list)"
  by (auto simp: resumable_def demo_tasks_def demo_run_def finished_run_def input_ids_def tr_IsPending_def)

definition demo_start :: "nat scheduler" where
  "demo_start = \<lparr>dependencies = (\<lambda>i. if i < 2 then of_nat (length (t_inputs (demo_tasks ! i))) else 0), waiting = 1, results = Map.empty, s_vars = [],
    pending = False, exiting = False, inFlight = [newMemoryTaskRun demo_tasks Map.empty (demo_tasks ! 0) []], retrying = []\<rparr>"

lemma demo_newScheduler: "newScheduler demo_tasks [] [] = Some demo_start"
proof -
  have "filter (\<lambda>i. (if i < length demo_tasks then of_nat (length (t_inputs (demo_tasks ! i))) else 0 :: u64) = 0) [0..<length demo_tasks] = [0]"
    by (simp add: demo_tasks_def)
  then show ?thesis
    by (simp add: newScheduler_def Let_def fold_startTask demo_start_def Vars_Copy_def NewVarsFrom_def) (simp add: demo_tasks_def numeral_2_eq_2)
qed

text \<open>The first attempt to fetch fails, so a retry is waiting.\<close>

lemma demo_step:
  "\<exists>s. (sched_step demo_tasks ^^ 1) demo_start s \<and> inFlight s = [] \<and> map fst (retrying s) = [0]"
proof -
  let ?r = "\<lparr>Value = VAtom ANil, Error = Some (TaskFailed ''no route'')\<rparr>"
  obtain s where s: "sched_event demo_tasks (Reported 0 ?r False) demo_start = Some s" "inFlight s = []" "map fst (retrying s) = [0]"
    by (simp add: sched_event_def demo_start_def demo_tasks_def handleResult_def reportOf_def removeAt_def Let_def setVar_def Vars_Set_def TrimSpace_def is_space_def)
  have "enabled (Reported 0 ?r False) demo_start" "waiting demo_start > 0" by (simp_all add: enabled_def demo_start_def)
  then have "sched_step demo_tasks demo_start s" using s(1) by (rule sched_step.event)
  then show ?thesis using s(2,3) by auto
qed

theorem scheduler_runs_ready_witness:
  "\<exists>s. (sched_step demo_tasks ^^ 1) demo_start s \<and> map fst (retrying s) = [0] \<and>
     distinct (map mr_task (inFlight s) @ map fst (retrying s)) \<and> waiting s = of_nat (length (inFlight s) + length (retrying s))"
proof -
  obtain s where s: "(sched_step demo_tasks ^^ 1) demo_start s" "inFlight s = []" "map fst (retrying s) = [0]"
    using demo_step by (elim exE conjE) (rule that)
  note ready = scheduler_runs_ready [OF demo_ok demo_resumable(2) demo_newScheduler s(1)]
  show ?thesis by (intro exI [of _ s] conjI s ready [THEN conjunct1] ready [THEN conjunct2, THEN conjunct2, THEN conjunct1])
qed

theorem scheduler_completes_witness:
  "\<exists>s0. newScheduler demo_tasks [demo_run ''fetch''] [] = Some s0 \<and> (\<forall>n s. (sched_step demo_tasks ^^ n) s0 s \<longrightarrow> n \<le> 10)"
proof -
  have sum: "(\<Sum>t\<leftarrow>demo_tasks. 2 * unat (t_Retries t) + 2) = 10" by (simp add: demo_tasks_def)
  from scheduler_completes [OF demo_ok demo_resumable(1), of "[]", unfolded sum] show ?thesis
    by - (elim exE conjE, rule exI, rule conjI, assumption, intro allI impI, drule spec, drule spec, drule mp, assumption, erule conjunct1)
qed

theorem dotted_task_name_panics_witness:
  "\<exists>s k. newScheduler [(demo_tasks ! 0)\<lparr>t_dotID := ''1.5'', t_outputs := []\<rparr>] [] [] = Some s \<and> k < length (inFlight s) \<and>
    (\<forall>r :: nat result. sched_event [(demo_tasks ! 0)\<lparr>t_dotID := ''1.5'', t_outputs := []\<rparr>] (Reported k r False) s = None)"
proof -
  let ?tasks = "[(demo_tasks ! 0)\<lparr>t_dotID := ''1.5'', t_outputs := []\<rparr>]"
  have "wf_pipeline ?tasks" unfolding wf_pipeline_def by (simp add: demo_tasks_def input_ids_def cong: conj_cong)
  moreover have "0 < length ?tasks" "t_inputs (?tasks ! 0) = []" "CHR ''.'' \<in> set (TrimSpace (t_dotID (?tasks ! 0)))"
    by (simp_all add: demo_tasks_def TrimSpace_def is_space_def)
  ultimately show ?thesis by (blast dest: dotted_task_name_panics [of ?tasks 0 "[]"])
qed

theorem unsaved_input_reruns_task_witness:
  "\<exists>s0 p. newScheduler demo_tasks [demo_run ''tx''] [] = Some s0 \<and> results s0 1 \<noteq> None \<and> 1 \<notin> mr_task ` set (inFlight s0) \<and>
    (\<forall>res. Error res = None \<longrightarrow> (\<exists>s1. sched_event demo_tasks (Reported p res False) s0 = Some s1 \<and>
      results s1 1 = results s0 1 \<and> 1 \<in> mr_task ` set (inFlight s1)))"
proof -
  have "1 < length demo_tasks" "input_ids (demo_tasks ! 1) = [0]" "input_ids (demo_tasks ! 0) = []"
    "tr_DotID (demo_run ''tx'') = t_dotID (demo_tasks ! 1)" "\<not> tr_IsPending (demo_run ''tx'')"
    by (simp_all add: demo_tasks_def input_ids_def demo_run_def tr_IsPending_def)
  from unsaved_input_reruns_task [OF demo_ok this, of "[]"] show ?thesis by blast
qed

end
