(* ===== verification/Pipeline_Runner.thy ===== *)
theory Pipeline_Runner
  imports Pipeline_Scheduler
begin

text \<open>
  Runs of a pipeline (\<^verbatim>\<open>core/services/pipeline/runner.go\<close>, and the operations of \<^verbatim>\<open>orm.go\<close> and \<^verbatim>\<open>models.go\<close> they use): a run
  executes the tasks, is summarised, and is stored, either finished or suspended until the result of a pending task
  arrives. The tables are part of the state; a query is read as its documented effect.
\<close>

section \<open>Runs\<close>

datatype run_status = RunStatusUnknown | RunStatusRunning | RunStatusSuspended | RunStatusErrored | RunStatusCompleted

record 'a run =
  r_ID :: int                 \<comment> \<open>0 is not stored yet\<close>
  r_State :: run_status
  r_Inputs :: "'a atom vars"
  r_Outputs :: "'a pvalue list option"
  r_AllErrors :: "task_error option list"
  r_FatalErrors :: "task_error option list"
  r_FinishedAt :: bool
  r_TaskRuns :: "'a task_run list"
  r_Pending :: bool
  r_FailSilently :: bool

definition NewRun :: "'a atom vars \<Rightarrow> 'a run" where
  "NewRun vars = \<lparr>r_ID = 0, r_State = RunStatusRunning, r_Inputs = vars, r_Outputs = None, r_AllErrors = [], r_FatalErrors = [],
     r_FinishedAt = False, r_TaskRuns = [], r_Pending = False, r_FailSilently = False\<rparr>"

definition run_HasFatalErrors :: "'a run \<Rightarrow> bool" where
  "run_HasFatalErrors r \<longleftrightarrow> (\<exists>e \<in> set (r_FatalErrors r). e \<noteq> None)"

definition run_HasErrors :: "'a run \<Rightarrow> bool" where
  "run_HasErrors r \<longleftrightarrow> (\<exists>e \<in> set (r_AllErrors r). e \<noteq> None)"

definition run_Status :: "'a run \<Rightarrow> run_status" where
  "run_Status r = (if run_HasFatalErrors r then RunStatusErrored else if r_FinishedAt r then RunStatusCompleted else RunStatusRunning)"

definition run_ByDotID :: "'a task_run list \<Rightarrow> string \<Rightarrow> 'a task_run option" where
  "run_ByDotID rs name = find (\<lambda>r. tr_DotID r = name) rs"

definition run_Finished :: "run_status \<Rightarrow> bool" where
  "run_Finished s \<longleftrightarrow> s = RunStatusCompleted \<or> s = RunStatusErrored"

section \<open>Summing up a run\<close>

record 'a final_result =
  Values :: "'a pvalue list"
  AllErrors :: "task_error option list"
  FatalErrors :: "task_error option list"

definition fr_HasFatalErrors :: "'a final_result \<Rightarrow> bool" where
  "fr_HasFatalErrors r \<longleftrightarrow> (\<exists>e \<in> set (FatalErrors r). e \<noteq> None)"

definition fr_HasErrors :: "'a final_result \<Rightarrow> bool" where
  "fr_HasErrors r \<longleftrightarrow> (\<exists>e \<in> set (AllErrors r). e \<noteq> None)"

definition SingularResult :: "'a final_result \<Rightarrow> 'a result option" where
  "SingularResult r =
    (if length (FatalErrors r) \<noteq> 1 \<or> length (Values r) \<noteq> 1 then None
     else Some \<lparr>Value = Values r ! 0, Error = FatalErrors r ! 0\<rparr>)"

definition IsTerminal :: "task list \<Rightarrow> nat \<Rightarrow> bool" where
  "IsTerminal tasks i \<longleftrightarrow> t_outputs (tasks ! i) = []"

text \<open>\<open>None\<close> is a panic. Results with the same index are kept in their order, which \<^verbatim>\<open>sort.Slice\<close> leaves open.\<close>

definition FinalResult :: "task list \<Rightarrow> 'a task_run_result list \<Rightarrow> 'a final_result option" where
  "FinalResult tasks trrs0 =
    (let trrs = sort_key (\<lambda>rr. t_Index (tasks ! rr_Task rr)) trrs0;
         final = filter (\<lambda>rr. IsTerminal tasks (rr_Task rr)) trrs
     in if final = [] then None
        else Some \<lparr>Values = map (Value \<circ> rr_Result) final, AllErrors = map (Error \<circ> rr_Result) trrs,
          FatalErrors = map (Error \<circ> rr_Result) final\<rparr>)"

definition OutputDB :: "'a result \<Rightarrow> 'a pvalue option" where
  "OutputDB r = (if Value r = VAtom ANil then None else Some (Value r))"

definition taskRunOf :: "task list \<Rightarrow> int \<Rightarrow> 'a task_run_result \<Rightarrow> 'a task_run" where
  "taskRunOf tasks runID rr =
    \<lparr>tr_ID = rr_ID rr, tr_RunID = runID, tr_Index = t_Index (tasks ! rr_Task rr), tr_DotID = t_dotID (tasks ! rr_Task rr),
     tr_Output = OutputDB (rr_Result rr), tr_Error = Error (rr_Result rr), tr_FinishedAt = rr_FinishedAt rr\<rparr>"

text \<open>The task runs with the task of each, in the order of the indices.\<close>

definition addTaskRun :: "task list \<Rightarrow> int \<Rightarrow> 'a task_run_result \<Rightarrow> (nat \<times> 'a task_run) list \<Rightarrow> (nat \<times> 'a task_run) list" where
  "addTaskRun tasks runID rr trs = sort_key (\<lambda>(i, _). t_Index (tasks ! i)) (trs @ [(rr_Task rr, taskRunOf tasks runID rr)])"

definition outputVal :: "'a task_run \<Rightarrow> 'a pvalue" where
  "outputVal tr = (case tr_Output tr of None \<Rightarrow> VAtom ANil | Some v \<Rightarrow> v)"

text \<open>What \<^verbatim>\<open>run\<close> does after the last task, and the results it returns. \<open>order\<close> and \<open>order'\<close> list the tasks in the two orders in which the map of
  results is iterated; tasks without a result are not in the map.\<close>

definition finishRun :: "task list \<Rightarrow> nat list \<Rightarrow> 'a scheduler \<Rightarrow> 'a run \<Rightarrow> 'a run" where
  "finishRun tasks order s run =
    (let run1 = run\<lparr>r_Pending := pending s, r_FailSilently := exiting s, r_State := RunStatusSuspended,
           r_FinishedAt := r_FinishedAt run \<or> \<not> pending s\<rparr>;
         trs = fold (addTaskRun tasks (r_ID run)) (List.map_filter (results s) order) [];
         run2 = run1\<lparr>r_TaskRuns := map snd trs\<rparr>
     in if r_FinishedAt run2 then
          let final = filter (\<lambda>(i, _). IsTerminal tasks i) trs;
              run3 = run2\<lparr>r_AllErrors := filter (\<lambda>e. e \<noteq> None) (map (tr_Error \<circ> snd) trs),
                r_FatalErrors := map (tr_Error \<circ> snd) final, r_Outputs := Some (map (outputVal \<circ> snd) final)\<rparr>
          in run3\<lparr>r_State := (if run_HasFatalErrors run3 then RunStatusErrored else RunStatusCompleted)\<rparr>
        else run2)"

definition taskRunResults :: "nat list \<Rightarrow> 'a scheduler \<Rightarrow> 'a task_run_result list" where
  "taskRunResults order' s = List.map_filter (results s) order'"

section \<open>Executing\<close>

text \<open>The events of one execution; \<open>None\<close> if they are not a whole execution or panic.\<close>

fun execEvents :: "task list \<Rightarrow> 'a sched_event list \<Rightarrow> 'a scheduler \<Rightarrow> 'a scheduler option" where
  "execEvents tasks [] s = (if waiting s = 0 then Some s else None)"
| "execEvents tasks (ev # evs) s =
    (if waiting s > 0 \<and> enabled ev s
     then case sched_event tasks ev s of None \<Rightarrow> None | Some s' \<Rightarrow> execEvents tasks evs s'
     else None)"

record 'a execution =
  events :: "'a sched_event list"
  callbacks :: "(nat \<times> 'a result) list"   \<comment> \<open>results that arrive for pending tasks meanwhile\<close>
  order1 :: "nat list"
  order2 :: "nat list"

definition runner_run :: "task list \<Rightarrow> 'a execution \<Rightarrow> 'a run \<Rightarrow> 'a atom vars \<Rightarrow> ('a run \<times> 'a task_run_result list) option" where
  "runner_run tasks x run vars =
    (case newScheduler tasks (r_TaskRuns run) vars of None \<Rightarrow> None
     | Some s0 \<Rightarrow> case execEvents tasks (events x) s0 of None \<Rightarrow> None
       | Some s \<Rightarrow> Some (finishRun tasks (order1 x) s run, taskRunResults (order2 x) s))"

text \<open>The pipeline of a run: new UUIDs, and then those of the task runs it already has. The services that
  tasks are given are left out.\<close>

datatype run_error = ParseFailed pipeline_error | NoTaskForDotID string | UniqueViolation | FinishedAtMissing
  | NoOutputsOrErrors | NoTaskRuns | NoSuchTaskRun

fun retainUUIDs :: "'a task_run list \<Rightarrow> task list \<Rightarrow> run_error + task list" where
  "retainUUIDs [] tasks = Inr tasks"
| "retainUUIDs (r # rs) tasks =
    (if tr_DotID r \<in> t_dotID ` set tasks
     then retainUUIDs rs (let k = length (takeWhile (\<lambda>t. t_dotID t \<noteq> tr_DotID r) tasks) in tasks[k := (tasks ! k)\<lparr>t_uuid := tr_ID r\<rparr>])
     else Inl (NoTaskForDotID (tr_DotID r)))"

definition initializePipeline :: "pipeline_error + task list \<Rightarrow> (nat \<Rightarrow> nat) \<Rightarrow> 'a run \<Rightarrow> run_error + task list" where
  "initializePipeline parsed newUUID run =
    (case parsed of Inl e \<Rightarrow> Inl (ParseFailed e)
     | Inr tasks \<Rightarrow> retainUUIDs (r_TaskRuns run) (map (\<lambda>t. t\<lparr>t_uuid := newUUID (t_id t)\<rparr>) tasks))"

section \<open>Tables\<close>

text \<open>\<open>db_taskRuns\<close> has a primary key, the UUID, and the pairs of run and name are unique. A query that fails otherwise is left out.\<close>

record 'a db =
  db_runs :: "int \<Rightarrow> 'a run option"
  db_nextRun :: int
  db_taskRuns :: "'a task_run list"

definition runRow :: "'a run \<Rightarrow> 'a run" where
  "runRow run = run\<lparr>r_TaskRuns := [], r_Pending := False, r_FailSilently := False\<rparr>"

definition sameKey :: "'a task_run \<Rightarrow> 'a task_run \<Rightarrow> bool" where
  "sameKey r x \<longleftrightarrow> tr_RunID x = tr_RunID r \<and> tr_DotID x = tr_DotID r"

definition insertTaskRun :: "'a task_run \<Rightarrow> 'a task_run list \<Rightarrow> 'a task_run list option" where
  "insertTaskRun r rows = (if tr_ID r \<in> tr_ID ` set rows \<or> (\<exists>x \<in> set rows. sameKey r x) then None else Some (rows @ [r]))"

definition upsertTaskRun :: "'a task_run \<Rightarrow> 'a task_run list \<Rightarrow> 'a task_run list option" where
  "upsertTaskRun r rows =
    (if \<exists>x \<in> set rows. sameKey r x
     then Some (map (\<lambda>x. if sameKey r x then x\<lparr>tr_Output := tr_Output r, tr_Error := tr_Error r, tr_FinishedAt := tr_FinishedAt r\<rparr> else x) rows)
     else if tr_ID r \<in> tr_ID ` set rows then None
     else Some (rows @ [r]))"

fun tryAll :: "('r \<Rightarrow> 's \<Rightarrow> 's option) \<Rightarrow> 'r list \<Rightarrow> 's \<Rightarrow> 's option" where
  "tryAll f [] s = Some s"
| "tryAll f (r # rs) s = (case f r s of None \<Rightarrow> None | Some s' \<Rightarrow> tryAll f rs s')"

definition withRunID :: "int \<Rightarrow> 'a run \<Rightarrow> 'a run" where
  "withRunID rid run = run\<lparr>r_ID := rid, r_TaskRuns := map (\<lambda>tr. tr\<lparr>tr_RunID := rid\<rparr>) (r_TaskRuns run)\<rparr>"

definition insertRun :: "'a db \<Rightarrow> 'a run \<Rightarrow> 'a db \<times> 'a run" where
  "insertRun db run =
    (let run' = withRunID (db_nextRun db) run
     in (db\<lparr>db_runs := (db_runs db)(db_nextRun db \<mapsto> runRow run'), db_nextRun := db_nextRun db + 1\<rparr>, run'))"

definition CreateRun :: "'a db \<Rightarrow> 'a run \<Rightarrow> run_error + 'a db \<times> 'a run" where
  "CreateRun db run =
    (case insertRun db run of (db1, run1) \<Rightarrow>
       case tryAll insertTaskRun (r_TaskRuns run1) (db_taskRuns db1) of None \<Rightarrow> Inl UniqueViolation
       | Some rows \<Rightarrow> Inr (db1\<lparr>db_taskRuns := rows\<rparr>, run1))"

definition checkFinishedRun :: "bool \<Rightarrow> 'a run \<Rightarrow> run_error option" where
  "checkFinishedRun saveSuccessfulTaskRuns run =
    (if \<not> r_FinishedAt run then Some FinishedAtMissing
     else if r_Outputs run = None \<or> length (r_FatalErrors run) + length (r_AllErrors run) = 0 then Some NoOutputsOrErrors
     else if length (r_TaskRuns run) = 0 \<and> (saveSuccessfulTaskRuns \<or> run_HasErrors run) then Some NoTaskRuns
     else None)"

definition InsertFinishedRun :: "bool \<Rightarrow> 'a db \<Rightarrow> 'a run \<Rightarrow> run_error + 'a db \<times> 'a run" where
  "InsertFinishedRun saveSuccessfulTaskRuns db run =
    (case checkFinishedRun saveSuccessfulTaskRuns run of Some e \<Rightarrow> Inl e
     | None \<Rightarrow> case insertRun db run of (db1, run1) \<Rightarrow>
         if \<not> saveSuccessfulTaskRuns \<and> \<not> run_HasErrors run1 then Inr (db1, run1)
         else case tryAll insertTaskRun (r_TaskRuns run1) (db_taskRuns db1) of None \<Rightarrow> Inl UniqueViolation
              | Some rows \<Rightarrow> Inr (db1\<lparr>db_taskRuns := rows\<rparr>, run1))"

text \<open>A task run that is pending is replaced by its row if that has a result.\<close>

definition newData :: "'a task_run list \<Rightarrow> 'a task_run \<Rightarrow> 'a task_run option" where
  "newData rows tr =
    (if \<not> tr_IsPending tr then None
     else case run_ByDotID rows (tr_DotID tr) of None \<Rightarrow> None | Some x \<Rightarrow> if tr_IsPending x then None else Some x)"

definition StoreRun :: "'a db \<Rightarrow> 'a run \<Rightarrow> run_error + 'a db \<times> 'a run \<times> bool" where
  "StoreRun db run =
    (let finished = r_FinishedAt run; rows = filter (\<lambda>x. tr_RunID x = r_ID run) (db_taskRuns db);
         run1 = run\<lparr>r_TaskRuns := map (\<lambda>tr. case newData rows tr of None \<Rightarrow> tr | Some x \<Rightarrow> x) (r_TaskRuns run)\<rparr>
     in if \<not> finished \<and> (\<exists>tr \<in> set (r_TaskRuns run). newData rows tr \<noteq> None) then Inr (db, run1, True)
        else if finished \<and> (r_Outputs run = None \<or> length (r_FatalErrors run) + length (r_AllErrors run) = 0) then Inl NoOutputsOrErrors
        else let run2 = (if finished then run else run\<lparr>r_State := RunStatusSuspended\<rparr>);
                 row = (case db_runs db (r_ID run) of None \<Rightarrow> None
                        | Some x \<Rightarrow> Some (if finished
                            then x\<lparr>r_State := r_State run, r_FinishedAt := r_FinishedAt run, r_AllErrors := r_AllErrors run,
                              r_FatalErrors := r_FatalErrors run, r_Outputs := r_Outputs run\<rparr>
                            else x\<lparr>r_State := RunStatusSuspended\<rparr>))
             in case tryAll upsertTaskRun (r_TaskRuns run2) (db_taskRuns db) of None \<Rightarrow> Inl UniqueViolation
                | Some rows' \<Rightarrow>
                    Inr (db\<lparr>db_runs := (db_runs db)(r_ID run := row), db_taskRuns := rows'\<rparr>,
                         run2\<lparr>r_TaskRuns := List.map_filter (\<lambda>tr. find (sameKey tr) rows') (r_TaskRuns run2)\<rparr>, False))"

definition DeleteRun :: "int \<Rightarrow> 'a db \<Rightarrow> 'a db" where
  "DeleteRun rid db = db\<lparr>db_runs := (db_runs db)(rid := None), db_taskRuns := filter (\<lambda>x. tr_RunID x \<noteq> rid) (db_taskRuns db)\<rparr>"

text \<open>\<open>None\<close> is the panic on a result with both an output and an error.\<close>

definition UpdateTaskRunResult :: "nat \<Rightarrow> 'a result \<Rightarrow> 'a db \<Rightarrow> (run_error + 'a db \<times> 'a run \<times> bool) option" where
  "UpdateTaskRunResult taskID result db =
    (if OutputDB result \<noteq> None \<and> Error result \<noteq> None then None
     else Some (case find (\<lambda>x. tr_ID x = taskID) (db_taskRuns db) of None \<Rightarrow> Inl NoSuchTaskRun
       | Some tr \<Rightarrow> case db_runs db (tr_RunID tr) of None \<Rightarrow> Inl NoSuchTaskRun
         | Some run \<Rightarrow>
             if r_State run \<notin> {RunStatusRunning, RunStatusSuspended} then Inl NoSuchTaskRun
             else let rows = map (\<lambda>x. if tr_ID x = taskID then x\<lparr>tr_Output := OutputDB result, tr_Error := Error result, tr_FinishedAt := True\<rparr> else x) (db_taskRuns db);
                      start = (r_State run = RunStatusSuspended);
                      run1 = (if start then run\<lparr>r_State := RunStatusRunning\<rparr> else run)
                  in Inr (db\<lparr>db_runs := (db_runs db)(tr_RunID tr \<mapsto> run1), db_taskRuns := rows\<rparr>,
                          run1\<lparr>r_TaskRuns := filter (\<lambda>x. tr_RunID x = tr_RunID tr) rows\<rparr>, start)))"

section \<open>Running\<close>

text \<open>\<open>wrapf\<close> is \<^verbatim>\<open>errors.Wrapf\<close>. \<open>None\<close> is a panic.\<close>

definition ExecuteRun :: "(run_error option \<Rightarrow> run_error option) \<Rightarrow> pipeline_error + task list \<Rightarrow> (nat \<Rightarrow> nat) \<Rightarrow> 'a atom vars \<Rightarrow> 'a execution \<Rightarrow>
    ('a run \<times> 'a task_run_result list \<times> run_error option) option" where
  "ExecuteRun wrapf parsed newUUID vars x =
    (case initializePipeline parsed newUUID (NewRun vars) of Inl e \<Rightarrow> Some (NewRun vars, [], Some e)
     | Inr tasks \<Rightarrow> case runner_run tasks x (NewRun vars) vars of None \<Rightarrow> None
       | Some (run, trrs) \<Rightarrow> if r_Pending run then Some (run, [], wrapf None) else Some (run, trrs, None))"

definition ExecuteAndInsertFinishedRun :: "(run_error option \<Rightarrow> run_error option) \<Rightarrow> pipeline_error + task list \<Rightarrow> (nat \<Rightarrow> nat) \<Rightarrow> 'a atom vars \<Rightarrow> bool \<Rightarrow>
    'a execution \<Rightarrow> 'a db \<Rightarrow> ('a db \<times> int \<times> 'a final_result option \<times> run_error option) option" where
  "ExecuteAndInsertFinishedRun wrapf parsed newUUID vars saveSuccessfulTaskRuns x db =
    (case ExecuteRun wrapf parsed newUUID vars x of None \<Rightarrow> None
     | Some (run, trrs, Some e) \<Rightarrow> Some (db, 0, None, wrapf (Some e))
     | Some (run, trrs, None) \<Rightarrow>
         case FinalResult (case parsed of Inl _ \<Rightarrow> [] | Inr tasks \<Rightarrow> tasks) trrs of None \<Rightarrow> None
         | Some finalResult \<Rightarrow>
             if r_FailSilently run then Some (db, 0, Some finalResult, None)
             else case InsertFinishedRun saveSuccessfulTaskRuns db run of Inl e \<Rightarrow> Some (db, 0, Some finalResult, wrapf (Some e))
                  | Inr (db', run') \<Rightarrow> Some (db', r_ID run', Some finalResult, None))"

definition preinsertRuns :: "task list \<Rightarrow> 'a run \<Rightarrow> 'a run" where
  "preinsertRuns tasks run =
    run\<lparr>r_TaskRuns := r_TaskRuns run @ map (\<lambda>t. \<lparr>tr_ID = t_uuid t, tr_RunID = r_ID run, tr_Index = t_Index t, tr_DotID = t_dotID t,
       tr_Output = None, tr_Error = None, tr_FinishedAt = False\<rparr>) (filter (\<lambda>t. t_type t = ''ethtx'') tasks)\<rparr>"

definition applyCallbacks :: "(nat \<times> 'a result) list \<Rightarrow> 'a db \<Rightarrow> 'a db" where
  "applyCallbacks cbs db = fold (\<lambda>(taskID, result) db. case UpdateTaskRunResult taskID result db of Some (Inr (db', _)) \<Rightarrow> db' | _ \<Rightarrow> db) cbs db"

text \<open>One turn of the loop of \<^verbatim>\<open>Run\<close>: go on with new results, or return whether the run is incomplete and an error.\<close>

datatype 'a turn = Again "'a db" "'a run" | Finish "'a db" "'a run" bool "run_error option"

definition runTurn :: "(run_error option \<Rightarrow> run_error option) \<Rightarrow> bool \<Rightarrow> task list \<Rightarrow> 'a execution \<Rightarrow> 'a db \<Rightarrow> 'a run \<Rightarrow> 'a turn option" where
  "runTurn wrapf saveSuccessfulTaskRuns tasks x db0 run =
    (case runner_run tasks x run (r_Inputs run) of None \<Rightarrow> None
     | Some (run1, _) \<Rightarrow>
         let db = applyCallbacks (callbacks x) db0
         in Some (if RequiresPreInsert tasks then
                    if r_FailSilently run1 then Finish (DeleteRun (r_ID run1) db) run1 False None
                    else case StoreRun db run1 of Inl e \<Rightarrow> Finish db run1 False (wrapf (Some e))
                         | Inr (db', run2, restart) \<Rightarrow> if restart then Again db' run2 else Finish db' run2 (r_Pending run2) None
                  else if r_Pending run1 then Finish db run1 False (wrapf None)
                  else if r_FailSilently run1 then Finish db run1 False None
                  else case InsertFinishedRun saveSuccessfulTaskRuns db run1 of Inl e \<Rightarrow> Finish db run1 False (wrapf (Some e))
                       | Inr (db', run2) \<Rightarrow> Finish db' run2 (r_Pending run2) None))"

fun runLoop :: "(run_error option \<Rightarrow> run_error option) \<Rightarrow> bool \<Rightarrow> task list \<Rightarrow> 'a execution list \<Rightarrow> 'a db \<Rightarrow> 'a run \<Rightarrow>
    ('a db \<times> 'a run \<times> bool \<times> run_error option) option" where
  "runLoop wrapf saving tasks [] db run = None"
| "runLoop wrapf saving tasks (x # xs) db run =
    (case runTurn wrapf saving tasks x db run of None \<Rightarrow> None
     | Some (Again db' run') \<Rightarrow> runLoop wrapf saving tasks xs db' run'
     | Some (Finish db' run' incomplete e) \<Rightarrow> Some (db', run', incomplete, e))"

definition runner_Run :: "(run_error option \<Rightarrow> run_error option) \<Rightarrow> pipeline_error + task list \<Rightarrow> (nat \<Rightarrow> nat) \<Rightarrow> bool \<Rightarrow> 'a execution list \<Rightarrow> 'a db \<Rightarrow> 'a run \<Rightarrow>
    ('a db \<times> 'a run \<times> bool \<times> run_error option) option" where
  "runner_Run wrapf parsed newUUID saveSuccessfulTaskRuns xs db run =
    (case initializePipeline parsed newUUID run of Inl e \<Rightarrow> Some (db, run, False, Some e)
     | Inr tasks \<Rightarrow>
         if RequiresPreInsert tasks \<and> r_ID run = 0
         then case CreateRun db (preinsertRuns tasks run) of Inl e \<Rightarrow> Some (db, preinsertRuns tasks run, False, Some e)
              | Inr (db', run') \<Rightarrow> runLoop wrapf saveSuccessfulTaskRuns tasks xs db' run'
         else runLoop wrapf saveSuccessfulTaskRuns tasks xs db run)"

text \<open>A result from outside: store it, and start the run again if it is suspended.\<close>

definition ResumeRun :: "(run_error option \<Rightarrow> run_error option) \<Rightarrow> (int \<Rightarrow> pipeline_error + task list) \<Rightarrow> (nat \<Rightarrow> nat) \<Rightarrow> nat \<Rightarrow> 'a result \<Rightarrow> 'a execution list \<Rightarrow>
    'a db \<Rightarrow> ('a db \<times> run_error option) option" where
  "ResumeRun wrapf parsed newUUID taskID result xs db =
    (case UpdateTaskRunResult taskID result db of None \<Rightarrow> None
     | Some (Inl e) \<Rightarrow> Some (db, Some e)
     | Some (Inr (db1, run, start)) \<Rightarrow>
         if start then case runner_Run wrapf (parsed (r_ID run)) newUUID False xs db1 run of None \<Rightarrow> None | Some (db2, _) \<Rightarrow> Some (db2, None)
         else Some (db1, None))"

section \<open>Results during an execution\<close>

definition cancelled :: "nat \<Rightarrow> 'a task_run_result" where
  "cancelled i = \<lparr>rr_ID = 0, rr_Task = i, rr_Result = \<lparr>Value = VAtom ANil, Error = Some ErrCancelled\<rparr>, rr_Attempts = 0,
     rr_FinishedAt = True, rr_IsPending = False\<rparr>"

lemma results_scheduleOutputs [simp]: "results (fold (scheduleOutput tasks) is s) = results s"
  by (induction "is" arbitrary: s) (simp_all add: scheduleOutput_fields)

lemma handleResult_results:
  assumes "handleResult tasks r0 s = Some s'"
  shows "\<exists>a. results s' (rr_Task r0) = Some (r0\<lparr>rr_Attempts := a\<rparr>)"
    and "j \<noteq> rr_Task r0 \<Longrightarrow> results s' j = results s j \<or> results s j = None \<and> results s' j = Some (cancelled j)"
proof -
  have "(\<exists>a. results s' (rr_Task r0) = Some (r0\<lparr>rr_Attempts := a\<rparr>)) \<and>
      (j \<noteq> rr_Task r0 \<longrightarrow> results s' j = results s j \<or> results s j = None \<and> results s' j = Some (cancelled j))"
    using assms unfolding handleResult_def Let_def
    by (auto simp: markRemaining_results cancelled_def split: if_splits option.splits dest!: setVar_Some)
  then show "\<exists>a. results s' (rr_Task r0) = Some (r0\<lparr>rr_Attempts := a\<rparr>)"
    and "j \<noteq> rr_Task r0 \<Longrightarrow> results s' j = results s j \<or> results s j = None \<and> results s' j = Some (cancelled j)" by blast+
qed

text \<open>Tasks report that they are pending without a value or an error (\<^verbatim>\<open>task.bridge.go\<close>, \<^verbatim>\<open>task.eth_tx.go\<close>).\<close>

definition well_reported :: "'a sched_event \<Rightarrow> bool" where
  "well_reported ev \<longleftrightarrow> (case ev of Reported _ r isPending \<Rightarrow> isPending \<longrightarrow> r = noResult | _ \<Rightarrow> True)"

definition result_ok :: "nat \<Rightarrow> 'a task_run_result \<Rightarrow> bool" where
  "result_ok i r \<longleftrightarrow> rr_Task r = i \<and> rr_FinishedAt r = (\<not> rr_IsPending r) \<and> (rr_IsPending r \<longrightarrow> rr_Result r = noResult)"

definition results_ok :: "'a scheduler \<Rightarrow> bool" where
  "results_ok s \<longleftrightarrow> (\<forall>i r. results s i = Some r \<longrightarrow> result_ok i r)"

lemma cancelled_ok: "result_ok i (cancelled i)"
  by (simp add: result_ok_def cancelled_def)

lemma handleResult_keeps_ok:
  assumes "handleResult tasks r0 s = Some s'" and "results_ok s" and "result_ok (rr_Task r0) r0"
  shows "results_ok s'"
  unfolding results_ok_def
proof (intro allI impI)
  fix j r assume r: "results s' j = Some r"
  obtain a where a: "results s' (rr_Task r0) = Some (r0\<lparr>rr_Attempts := a\<rparr>)" using handleResult_results(1) [OF assms(1)] by blast
  show "result_ok j r"
  proof (cases "j = rr_Task r0")
    case True
    then show ?thesis using r a assms(3) by (auto simp: result_ok_def)
  next
    case False
    then show ?thesis using handleResult_results(2) [OF assms(1) False] r assms(2) by (auto simp: results_ok_def cancelled_ok)
  qed
qed

text \<open>An event handles the report of a task in flight, or starts a task again.\<close>

lemma sched_event_report:
  assumes wf: "wf_pipeline tasks" and inv: "sched_inv tasks [] s" and ev: "enabled ev s" "sched_event tasks ev s = Some s'"
  obtains "results s' = results s" "set (flight [] s') = set (flight [] s)"
  | r0 t where "handleResult tasks r0 t = Some s'" "results t = results s" "sched_inv tasks [rr_Task r0] t"
      "set (flight [rr_Task r0] t) = set (flight [] s)" "well_reported ev \<Longrightarrow> result_ok (rr_Task r0) r0"
proof -
  have sets: "set xs = insert (xs ! k) (set (removeAt k xs))" if "k < length xs" for k and xs :: "'b list"
    using arg_cong [OF mset_removeAt [OF that], of set_mset] by simp
  note report = that(2)
  have flying: thesis if k: "k < length (inFlight s)" and r0: "rr_Task r0 = mr_task (inFlight s ! k)" "well_reported ev \<Longrightarrow> result_ok (rr_Task r0) r0"
    and h: "handleResult tasks r0 (s\<lparr>inFlight := removeAt k (inFlight s)\<rparr>) = Some s'" for k r0
  proof (rule report [OF h _ _ _ r0(2)])
    show "sched_inv tasks [rr_Task r0] (s\<lparr>inFlight := removeAt k (inFlight s)\<rparr>)" unfolding r0(1) by (rule reported_ok(1) [OF inv k])
    show "set (flight [rr_Task r0] (s\<lparr>inFlight := removeAt k (inFlight s)\<rparr>)) = set (flight [] s)"
      using sets [of k "map mr_task (inFlight s)"] k by (auto simp: flight_def r0(1) removeAt_def take_map drop_map)
  qed simp_all
  show thesis
  proof (cases ev)
    case (Reported k r p)
    with ev show thesis
      by (intro flying [of k "reportOf (t_uuid (tasks ! mr_task (inFlight s ! k))) (mr_task (inFlight s ! k)) r p"])
        (auto simp: sched_event_def Let_def reportOf_def enabled_def well_reported_def result_ok_def)
  next
    case (Panicked k uuid)
    with ev show thesis
      by (intro flying [of k "reportOf uuid (mr_task (inFlight s ! k)) \<lparr>Value = VAtom ANil, Error = Some ErrRunPanicked\<rparr> False"])
        (auto simp: sched_event_def reportOf_def enabled_def result_ok_def)
  next
    case (RetryDue k)
    then have k: "k < length (retrying s)" using ev by (simp add: enabled_def)
    obtain i att vs where rt: "retrying s ! k = (i, att, vs)" by (cases "retrying s ! k")
    have i: "fst ` set (retrying s) = insert i (fst ` set (removeAt k (retrying s)))" using sets [OF k] by (simp add: rt)
    then have "t_id (tasks ! i) = i" by (intro flight_newMemoryTaskRun [OF wf inv]) (simp add: flight_def)
    then have s': "results s' = results s" "map mr_task (inFlight s') = map mr_task (inFlight s) @ [i]" "retrying s' = removeAt k (retrying s)"
      using ev(2) by (auto simp: RetryDue sched_event_def rt)
    have "set (flight [] s') = set (flight [] s)"
      unfolding flight_def s' set_append set_map i by simp
    then show thesis by (rule that(1) [OF s'(1)])
  next
    case (RetryCancelled k)
    then have k: "k < length (retrying s)" using ev by (simp add: enabled_def)
    let ?r0 = "reportOf 0 (fst (retrying s ! k)) \<lparr>Value = VAtom ANil, Error = Some ErrCancelled\<rparr> False"
    show thesis
    proof (rule that(2) [of ?r0 "s\<lparr>retrying := removeAt k (retrying s)\<rparr>"])
      show "sched_inv tasks [rr_Task ?r0] (s\<lparr>retrying := removeAt k (retrying s)\<rparr>)" using retry_over_ok(1) [OF inv k] by (simp add: reportOf_def)
      show "set (flight [rr_Task ?r0] (s\<lparr>retrying := removeAt k (retrying s)\<rparr>)) = set (flight [] s)"
        using sets [of k "map fst (retrying s)"] k by (auto simp: flight_def reportOf_def removeAt_def take_map drop_map)
    qed (use RetryCancelled ev in \<open>simp_all add: sched_event_def reportOf_def result_ok_def\<close>)
  qed
qed

lemma sched_event_keeps_ok:
  assumes wf: "wf_pipeline tasks" and inv: "sched_inv tasks [] s" and ev: "enabled ev s" "sched_event tasks ev s = Some s'"
    and good: "well_reported ev" and ok: "results_ok s"
  shows "results_ok s'"
  using wf inv ev
proof (cases rule: sched_event_report)
  case 1
  then show ?thesis using ok by (simp add: results_ok_def)
next
  case (2 r0 t)
  then show ?thesis using ok good by (intro handleResult_keeps_ok [OF 2(1)]) (simp_all add: results_ok_def)
qed

lemma handleResult_flight:
  assumes wf: "wf_pipeline tasks" and len: "length tasks < 2 ^ 64" and inv: "sched_inv tasks [rr_Task r0] s"
    and step: "handleResult tasks r0 s = Some s'" and k: "k \<in> set (flight [] s')"
  shows "k \<in> set (flight [rr_Task r0] s) \<or> results s k = None"
proof -
  let ?i = "rr_Task r0"
  have i: "?i < length tasks" using flight_invD(3) [OF inv, of ?i] by (simp add: flight_def)
  have "set (flight [] s') \<subseteq> set (flight [?i] s) \<or> \<not> exiting s \<and>
      (\<exists>res vs. s' = fold (scheduleOutput tasks) (t_outputs (tasks ! ?i)) (s\<lparr>waiting := waiting s - 1, results := res, s_vars := vs\<rparr>))"
    using step unfolding handleResult_eq [of tasks r0 s]
    by (auto split: if_splits option.splits dest!: setVar_Some simp: flight_def)
  then consider "set (flight [] s') \<subseteq> set (flight [?i] s)"
    | res vs where "\<not> exiting s" "s' = fold (scheduleOutput tasks) (t_outputs (tasks ! ?i)) (s\<lparr>waiting := waiting s - 1, results := res, s_vars := vs\<rparr>)"
    by blast
  then show ?thesis
  proof cases
    case 1
    then show ?thesis using k by blast
  next
    case (2 res vs)
    note f = fold_scheduleOutput [OF wf_pipelineD(2) [OF wf i], of tasks "s\<lparr>waiting := waiting s - 1, results := res, s_vars := vs\<rparr>"]
    have "k \<in> set (flight [?i] s) \<or> k \<in> set (t_outputs (tasks ! ?i))"
      using k wf_pipelineD(1) [OF wf] wf_pipelineD(3) [OF wf i] unfolding 2(2) flight_def f by (auto simp: newRun_def)
    moreover have "results s k = None" if "k \<in> set (t_outputs (tasks ! ?i))" by (rule outputs_wait(3) [OF wf len inv 2(1) that])
    ultimately show ?thesis by (elim disjE) simp_all
  qed
qed

text \<open>What is done stays done, with the same result.\<close>

lemma sched_event_keeps_done:
  assumes wf: "wf_pipeline tasks" and len: "length tasks < 2 ^ 64" and inv: "sched_inv tasks [] s"
    and ev: "enabled ev s" "sched_event tasks ev s = Some s'" and dn: "done_in [] s j"
  shows "results s' j = results s j \<and> done_in [] s' j"
  using wf inv ev
proof (cases rule: sched_event_report)
  case 1
  then show ?thesis using dn by (simp add: done_in_def)
next
  case (2 r0 t)
  have j: "results s j \<noteq> None" "j \<notin> set (flight [rr_Task r0] t)" using dn 2(4) by (auto simp: done_in_def)
  then have "j \<noteq> rr_Task r0" by (auto simp: flight_def)
  then have res: "results s' j = results s j" using handleResult_results(2) [OF 2(1), of j] 2(2) j(1) by auto
  have "j \<notin> set (flight [] s')" using handleResult_flight [OF wf len 2(3,1), of j] j 2(2) by auto
  then show ?thesis using res dn by (simp add: done_in_def)
qed

lemma execEvents_ok:
  assumes wf: "wf_pipeline tasks" and len: "length tasks < 2 ^ 64" and names: "names_ok tasks"
  shows "execEvents tasks evs s0 = Some s \<Longrightarrow> sched_inv tasks [] s0 \<Longrightarrow> results_ok s0 \<Longrightarrow> \<forall>ev \<in> set evs. well_reported ev \<Longrightarrow>
    sched_inv tasks [] s \<and> results_ok s \<and> flight [] s = [] \<and> (\<forall>j. done_in [] s0 j \<longrightarrow> results s j = results s0 j)"
proof (induction evs arbitrary: s0)
  case Nil
  then have "s = s0" "waiting s0 = 0" by (simp_all split: if_splits)
  then show ?case using Nil.prems(2,3) waiting_iff [OF Nil.prems(2) len] by simp
next
  case (Cons ev evs)
  then obtain s1 where ev: "enabled ev s0" "sched_event tasks ev s0 = Some s1" and rest: "execEvents tasks evs s1 = Some s"
    by (auto split: if_splits option.splits)
  have inv: "sched_inv tasks [] s1" using sched_event_ok [OF wf len names Cons.prems(2) ev(1)] ev(2) by auto
  have "results_ok s1" using sched_event_keeps_ok [OF wf Cons.prems(2) ev] Cons.prems(3,4) by simp
  then have "sched_inv tasks [] s \<and> results_ok s \<and> flight [] s = [] \<and> (\<forall>j. done_in [] s1 j \<longrightarrow> results s j = results s1 j)"
    using Cons.IH [OF rest inv] Cons.prems(4) by simp
  then show ?case using sched_event_keeps_done [OF wf len Cons.prems(2) ev] by simp
qed

text \<open>A task run that is not pending is finished. Results taken over from task runs are finished and have no UUID.\<close>

definition runs_ok :: "'a task_run list \<Rightarrow> bool" where
  "runs_ok runs \<longleftrightarrow> (\<forall>r \<in> set runs. tr_FinishedAt r \<or> tr_IsPending r)"

definition old_results :: "'a scheduler \<Rightarrow> bool" where
  "old_results s \<longleftrightarrow> (\<forall>i r. results s i = Some r \<longrightarrow> rr_ID r = 0 \<and> result_ok i r \<and> \<not> rr_IsPending r)"

lemma reconstructResults_old:
  "reconstructResults tasks runs s = Some s' \<Longrightarrow> runs_ok runs \<Longrightarrow> old_results s \<Longrightarrow> old_results s'"
proof (induction runs arbitrary: s)
  case (Cons r rs)
  have outs: "results (fold completeOutput is t) = results t" for "is" and t :: "'a scheduler"
    by (induction "is" arbitrary: t) (simp_all add: completeOutput_def)
  obtain task where task: "ByDotID tasks (tr_DotID r) = Some task" using Cons.prems(1) by (auto split: option.splits)
  have ok: "runs_ok rs" using Cons.prems(2) by (simp add: runs_ok_def)
  show ?case
  proof (cases "tr_IsPending r")
    case True
    then show ?thesis using Cons.IH [OF _ ok Cons.prems(3)] Cons.prems(1) task by simp
  next
    case False
    define rr where "rr = \<lparr>rr_ID = 0, rr_Task = t_id task, rr_Result = \<lparr>Value = (case tr_Output r of None \<Rightarrow> VAtom ANil | Some v \<Rightarrow> v), Error = tr_Error r\<rparr>,
      rr_Attempts = 0, rr_FinishedAt = tr_FinishedAt r, rr_IsPending = False\<rparr>"
    obtain s2 where s2: "setVar task (rr_Result rr) (s\<lparr>results := (results s)(t_id task \<mapsto> rr)\<rparr>) = Some s2"
      "reconstructResults tasks rs (fold completeOutput (t_outputs task) s2) = Some s'"
      using Cons.prems(1) task False by (auto simp: Let_def rr_def split: option.splits)
    have "result_ok (t_id task) rr" using Cons.prems(2) False by (simp add: result_ok_def rr_def runs_ok_def)
    moreover have "results s2 = (results s)(t_id task \<mapsto> rr)" using setVar_Some [OF s2(1)] by auto
    ultimately have "old_results (fold completeOutput (t_outputs task) s2)" using Cons.prems(3) by (simp add: old_results_def outs rr_def)
    then show ?thesis using Cons.IH [OF s2(2) ok] by simp
  qed
qed simp

lemma newScheduler_results:
  assumes wf: "wf_pipeline tasks" and names: "names_ok tasks" "distinct (map t_dotID tasks)" and runs: "resumable tasks runs" "runs_ok runs"
    and new: "newScheduler tasks runs vars = Some s0"
  shows "old_results s0" "i < length tasks \<Longrightarrow> results s0 i = None \<longleftrightarrow> \<not> finished_run runs (t_dotID (tasks ! i))"
    "results s0 i \<noteq> None \<Longrightarrow> done_in [] s0 i"
proof -
  let ?s = "\<lparr>dependencies = (\<lambda>i. if i < length tasks then of_nat (length (t_inputs (tasks ! i))) else 0), waiting = 0,
    results = Map.empty, s_vars = vars, pending = False, exiting = False, inFlight = [], retrying = []\<rparr> :: 'a scheduler"
  have "length (t_inputs (tasks ! k)) = card (set (input_ids (tasks ! k)))" if "k < length tasks" for k
    using distinct_card [OF wf_pipelineD(4) [OF wf that]] by (simp add: input_ids_def)
  then have "start_inv tasks ?s" by (simp add: start_inv_def)
  then obtain s where s: "reconstructResults tasks runs ?s = Some s" "start_inv tasks s"
    and all: "\<forall>k < length tasks. results s k = None \<longleftrightarrow> \<not> finished_run runs (t_dotID (tasks ! k))"
    using reconstructResults_ok [OF wf names, of ?s runs] runs(1) by (auto simp: resumable_def)
  let ?ready = "filter (\<lambda>i. dependencies s i = 0 \<and> results s i = None) [0..<length tasks]"
  have s0: "results s0 = results s" "retrying s0 = []"
    "inFlight s0 = map (\<lambda>i. newMemoryTaskRun tasks (results s) (tasks ! i) (Vars_Copy (s_vars s))) ?ready"
    using started [OF s] new s(2) by (auto simp: start_inv_def)
  have old: "old_results s" by (rule reconstructResults_old [OF s(1) runs(2)]) (simp add: old_results_def)
  then show "old_results s0" by (simp add: old_results_def s0)
  show "results s0 i = None \<longleftrightarrow> \<not> finished_run runs (t_dotID (tasks ! i))" if "i < length tasks" using all that by (simp add: s0)
  have "map mr_task (inFlight s0) = ?ready" unfolding s0(3) map_map by (intro map_idI) (use wf_pipelineD(1) [OF wf] in simp)
  then have "flight [] s0 = ?ready" by (simp add: flight_def s0(2))
  then show "done_in [] s0 i" if "results s0 i \<noteq> None" using that old by (auto simp: done_in_def s0(1) old_results_def)
qed

section \<open>The summary of a run\<close>

definition is_order :: "task list \<Rightarrow> nat list \<Rightarrow> bool" where
  "is_order tasks ord \<longleftrightarrow> distinct ord \<and> set ord = {..< length tasks}"

lemma map_filter_tasks:
  "results_ok s \<Longrightarrow> map rr_Task (List.map_filter (results s) ord) = filter (\<lambda>i. results s i \<noteq> None) ord"
  by (induction ord) (auto simp: List.map_filter_def results_ok_def result_ok_def)

lemma set_map_filter: "set (List.map_filter f xs) = {y. \<exists>x \<in> set xs. f x = Some y}"
  by (force simp: List.map_filter_def)

lemma fold_addTaskRun:
  "mset (fold (addTaskRun tasks rid) rrs acc) = mset (map (\<lambda>rr. (rr_Task rr, taskRunOf tasks rid rr)) rrs) + mset acc"
  by (induction rrs arbitrary: acc) (simp_all add: addTaskRun_def)

lemma fold_addTaskRun_sorted:
  "sorted (map (\<lambda>(i, _). t_Index (tasks ! i)) acc) \<Longrightarrow> sorted (map (\<lambda>(i, _). t_Index (tasks ! i)) (fold (addTaskRun tasks rid) rrs acc))"
  by (induction rrs arbitrary: acc) (simp_all add: addTaskRun_def)

lemma summed_runs:
  fixes rid :: int
  assumes inv: "sched_inv tasks [] s" and ok: "results_ok s" and ord: "is_order tasks ord"
  defines "trs \<equiv> fold (addTaskRun tasks rid) (List.map_filter (results s) ord) []"
  shows "set trs = {(i, taskRunOf tasks rid r) | i r. results s i = Some r}" "distinct (map fst trs)"
proof -
  note ms = fold_addTaskRun [of tasks rid "List.map_filter (results s) ord" "[]", folded trs_def]
  have "set trs = (\<lambda>rr. (rr_Task rr, taskRunOf tasks rid rr)) ` set (List.map_filter (results s) ord)"
    using arg_cong [OF ms, of set_mset] by simp
  also have "set (List.map_filter (results s) ord) = {r. \<exists>i. results s i = Some r}"
    unfolding set_map_filter using ord flight_invD(7) [OF inv] by (auto simp: is_order_def)
  also have "(\<lambda>rr. (rr_Task rr, taskRunOf tasks rid rr)) ` {r. \<exists>i. results s i = Some r} = {(i, taskRunOf tasks rid r) | i r. results s i = Some r}"
    using ok by (force simp: results_ok_def result_ok_def)
  finally show "set trs = {(i, taskRunOf tasks rid r) | i r. results s i = Some r}" .
  have "mset (map fst trs) = mset (map rr_Task (List.map_filter (results s) ord))"
    using arg_cong [OF ms, of "image_mset fst"] by (simp add: image_mset.compositionality o_def)
  then have "mset (map fst trs) = mset (filter (\<lambda>i. results s i \<noteq> None) ord)" unfolding map_filter_tasks [OF ok] .
  then show "distinct (map fst trs)" using ord by (metis distinct_filter is_order_def mset_eq_imp_distinct_iff)
qed

lemma finishRun_fields:
  "r_TaskRuns (finishRun tasks ord s run) = map snd (fold (addTaskRun tasks (r_ID run)) (List.map_filter (results s) ord) [])"
  "r_ID (finishRun tasks ord s run) = r_ID run" "r_Pending (finishRun tasks ord s run) = pending s"
  "r_FailSilently (finishRun tasks ord s run) = exiting s" "r_FinishedAt (finishRun tasks ord s run) = (r_FinishedAt run \<or> \<not> pending s)"
  by (simp_all add: finishRun_def Let_def)

text \<open>A whole execution, from a well-formed pipeline and consistent task runs.\<close>

definition executed :: "task list \<Rightarrow> 'a run \<Rightarrow> 'a execution \<Rightarrow> bool" where
  "executed tasks run x \<longleftrightarrow> wf_pipeline tasks \<and> length tasks < 2 ^ 64 \<and> names_ok tasks \<and> distinct (map t_dotID tasks) \<and>
    resumable tasks (r_TaskRuns run) \<and> runs_ok (r_TaskRuns run) \<and> (\<forall>ev \<in> set (events x). well_reported ev) \<and>
    is_order tasks (order1 x) \<and> is_order tasks (order2 x)"

lemma runner_run_state:
  assumes "executed tasks run x" and "runner_run tasks x run vars = Some (run', trrs)"
  obtains s0 s where "newScheduler tasks (r_TaskRuns run) vars = Some s0" "run' = finishRun tasks (order1 x) s run" "trrs = List.map_filter (results s) (order2 x)"
    "sched_inv tasks [] s" "results_ok s" "flight [] s = []" "\<forall>j. results s0 j \<noteq> None \<longrightarrow> results s j = results s0 j"
proof -
  note x = assms(1) [unfolded executed_def]
  obtain s0 s where s: "newScheduler tasks (r_TaskRuns run) vars = Some s0" "execEvents tasks (events x) s0 = Some s"
    "run' = finishRun tasks (order1 x) s run" "trrs = List.map_filter (results s) (order2 x)"
    using assms(2) by (auto simp: runner_run_def taskRunResults_def split: option.splits)
  have inv: "sched_inv tasks [] s0" using newScheduler_ok [of tasks "r_TaskRuns run" vars] x s(1) by auto
  note old = newScheduler_results [of tasks "r_TaskRuns run" vars s0]
  have "old_results s0" using old(1) x s(1) by blast
  then have "results_ok s0" by (simp add: old_results_def results_ok_def)
  then have e: "sched_inv tasks [] s \<and> results_ok s \<and> flight [] s = [] \<and> (\<forall>j. done_in [] s0 j \<longrightarrow> results s j = results s0 j)"
    using x by (intro execEvents_ok [OF _ _ _ s(2) inv]) blast+
  have "\<forall>j. results s0 j \<noteq> None \<longrightarrow> results s j = results s0 j" using e old(3) x s(1) by blast
  then show thesis using e s by (intro that [of s0 s]) blast+
qed

lemma taskRunOf_pending: "result_ok i r \<Longrightarrow> tr_IsPending (taskRunOf tasks rid r) = rr_IsPending r"
  by (auto simp: result_ok_def tr_IsPending_def taskRunOf_def OutputDB_def noResult_def)

lemma summed_names:
  assumes "executed tasks run x" and "sched_inv tasks [] s" and "results_ok s"
  defines "trs \<equiv> fold (addTaskRun tasks (r_ID run)) (List.map_filter (results s) (order1 x)) []"
  shows "distinct (map tr_DotID (map snd trs))"
    "i < length tasks \<Longrightarrow> r \<in> set (map snd trs) \<and> tr_DotID r = t_dotID (tasks ! i) \<longleftrightarrow> (\<exists>rr. results s i = Some rr \<and> r = taskRunOf tasks (r_ID run) rr)"
proof -
  note x = assms(1) [unfolded executed_def]
  note sum = summed_runs [OF assms(2,3), of "order1 x" "r_ID run", folded trs_def]
  have ord: "is_order tasks (order1 x)" using x by blast
  have bound: "fst p < length tasks \<and> tr_DotID (snd p) = t_dotID (tasks ! fst p)" if "p \<in> set trs" for p
    using that sum(1) [OF ord] flight_invD(7) [OF assms(2)] assms(3) by (auto simp: taskRunOf_def results_ok_def result_ok_def)
  have same: "j = i" if "j < length tasks" "i < length tasks" "t_dotID (tasks ! j) = t_dotID (tasks ! i)" for i j
    using x nth_eq_iff_index_eq [of "map t_dotID tasks" j i] that by simp
  have "map tr_DotID (map snd trs) = map (\<lambda>i. t_dotID (tasks ! i)) (map fst trs)" using bound by simp
  moreover have "inj_on (\<lambda>i. t_dotID (tasks ! i)) (set (map fst trs))"
    using same bound by (auto simp: inj_on_def)
  ultimately show "distinct (map tr_DotID (map snd trs))" using sum(2) [OF ord] by (simp only: distinct_map)
  fix i assume i: "i < length tasks"
  show "r \<in> set (map snd trs) \<and> tr_DotID r = t_dotID (tasks ! i) \<longleftrightarrow> (\<exists>rr. results s i = Some rr \<and> r = taskRunOf tasks (r_ID run) rr)"
  proof
    assume "r \<in> set (map snd trs) \<and> tr_DotID r = t_dotID (tasks ! i)"
    then obtain p where p: "p \<in> set trs" "snd p = r" "t_dotID (tasks ! fst p) = t_dotID (tasks ! i)" using bound by auto
    then have "fst p = i" using bound same i by blast
    then show "\<exists>rr. results s i = Some rr \<and> r = taskRunOf tasks (r_ID run) rr" using p sum(1) [OF ord] by auto
  next
    assume "\<exists>rr. results s i = Some rr \<and> r = taskRunOf tasks (r_ID run) rr"
    then obtain rr where rr: "results s i = Some rr" "r = taskRunOf tasks (r_ID run) rr" by blast
    then have "(i, r) \<in> set trs" using sum(1) [OF ord] by auto
    then show "r \<in> set (map snd trs) \<and> tr_DotID r = t_dotID (tasks ! i)" using bound by force
  qed
qed

section \<open>Suspending and resuming\<close>

lemma suspended_closed:
  assumes x: "executed tasks run x" and run: "runner_run tasks x run vars = Some (run', trrs)" and late: "\<not> r_FailSilently run'"
    and new: "list_all2 (\<lambda>r r'. tr_DotID r' = tr_DotID r \<and> (r' = r \<or> tr_IsPending r)) (r_TaskRuns run') runs'"
  shows "resumable tasks runs'"
proof -
  obtain s where run': "run' = finishRun tasks (order1 x) s run" and inv: "sched_inv tasks [] s" and ok: "results_ok s" and idle: "flight [] s = []"
    by (rule runner_run_state [OF x run])
  let ?runs = "r_TaskRuns run'"
  have runs: "?runs = map snd (fold (addTaskRun tasks (r_ID run)) (List.map_filter (results s) (order1 x)) [])" by (simp add: run' finishRun_fields)
  note names = summed_names [OF x inv ok, folded runs]
  have wf: "wf_pipeline tasks" using x by (simp add: executed_def)
  have same: "map tr_DotID runs' = map tr_DotID ?runs"
    using list_all2_lengthD [OF new] list_all2_nthD2 [OF new] by (intro nth_equalityI) auto
  have all: "set (map tr_DotID ?runs) \<subseteq> set (map t_dotID tasks)"
  proof -
    have "tr_DotID (taskRunOf tasks (r_ID run) r) \<in> set (map t_dotID tasks)" if "results s i = Some r" for i r
      using flight_invD(7) [OF inv that] that ok by (auto simp: taskRunOf_def results_ok_def result_ok_def)
    moreover have "is_order tasks (order1 x)" using x by (simp add: executed_def)
    ultimately show ?thesis unfolding runs using summed_runs(1) [OF inv ok, of "order1 x" "r_ID run"] by (auto simp: image_iff)
  qed
  have closed: "finished_run runs' (t_dotID (tasks ! j))"
    if t: "i < length tasks" "finished_run runs' (t_dotID (tasks ! i))" "j \<in> set (input_ids (tasks ! i))" for i j
  proof -
    have "t_dotID (tasks ! i) \<in> set (map tr_DotID ?runs)" using t(2) unfolding same [symmetric] by (force simp: finished_run_def)
    then obtain r0 where "r0 \<in> set ?runs" "tr_DotID r0 = t_dotID (tasks ! i)" by auto
    then have "results s i \<noteq> None" using names(2) [OF t(1), of r0] by auto
    then obtain rr where rr: "results s j = Some rr" "\<not> rr_IsPending rr"
      using idle_results [OF wf inv idle t(1)] t(3) late by (auto simp: run' finishRun_fields)
    have j: "j < length tasks" by (rule flight_invD(7) [OF inv rr(1)])
    let ?r = "taskRunOf tasks (r_ID run) rr"
    have r: "?r \<in> set ?runs" "tr_DotID ?r = t_dotID (tasks ! j)" using names(2) [OF j, of ?r] rr(1) by auto
    have fin: "\<not> tr_IsPending ?r" using rr ok taskRunOf_pending [of j rr] by (simp add: results_ok_def)
    obtain k where k: "k < length ?runs" "?runs ! k = ?r" using r(1) by (auto simp: in_set_conv_nth)
    then have "runs' ! k = ?r" "k < length runs'" using list_all2_nthD [OF new k(1)] list_all2_lengthD [OF new] fin by auto
    then have "?r \<in> set runs'" by (metis nth_mem)
    then show ?thesis using r(2) fin unfolding finished_run_def by blast
  qed
  show ?thesis
    unfolding resumable_def same
  proof (intro conjI all ballI impI)
    show "distinct (map tr_DotID ?runs)" by (rule names(1))
    show "finished_run runs' (t_dotID (tasks ! j))" if "t \<in> set tasks" "finished_run runs' (t_dotID t)" "j \<in> set (input_ids t)" for t j
      using that closed by (auto simp: in_set_conv_nth)
  qed
qed

text \<open>A suspended run can be resumed. Whatever its tasks answered, the task runs it leaves are such that the scheduler can start from them:
  one for a task, in which every finished task, and also every pending one, has finished inputs. This stays so when results arrive for
  any of the pending ones, so that the guarantees of a run also hold for the resumed run; and a task run is
  finished or pending.\<close>
theorem suspended_run_resumable:
  assumes "executed tasks run x" and "runner_run tasks x run vars = Some (run', trrs)" and "\<not> r_FailSilently run'"
  shows "resumable tasks (r_TaskRuns run') \<and> runs_ok (r_TaskRuns run') \<and>
    (\<forall>runs'. list_all2 (\<lambda>r r'. tr_DotID r' = tr_DotID r \<and> (r' = r \<or> tr_IsPending r)) (r_TaskRuns run') runs' \<longrightarrow> resumable tasks runs')"
proof (intro conjI allI impI)
  show "resumable tasks runs'" if "list_all2 (\<lambda>r r'. tr_DotID r' = tr_DotID r \<and> (r' = r \<or> tr_IsPending r)) (r_TaskRuns run') runs'" for runs'
    by (rule suspended_closed [OF assms that])
  show "resumable tasks (r_TaskRuns run')" by (rule suspended_closed [OF assms]) (simp add: list.rel_refl)
  obtain s where run': "run' = finishRun tasks (order1 x) s run" and inv: "sched_inv tasks [] s" and ok: "results_ok s"
    by (rule runner_run_state [OF assms(1,2)])
  have "is_order tasks (order1 x)" using assms(1) by (simp add: executed_def)
  note trs = summed_runs(1) [OF inv ok this, of "r_ID run"]
  have "tr_FinishedAt (taskRunOf tasks (r_ID run) rr) \<or> tr_IsPending (taskRunOf tasks (r_ID run) rr)" if "results s i = Some rr" for i rr
    using that ok taskRunOf_pending [of i rr tasks "r_ID run"] by (auto simp: results_ok_def result_ok_def taskRunOf_def)
  then show "runs_ok (r_TaskRuns run')" unfolding runs_ok_def run' finishRun_fields set_map trs by force
qed

section \<open>The result of a finished run\<close>

lemma sorted_key_unique:
  assumes "mset xs = mset ys" and "inj_on f (set xs)" and "sorted (map f xs)" and "sorted (map f ys)"
  shows "xs = ys"
  using sort_key_inj_key_eq [OF assms(1,2,4)] sort_key_inj_key_eq [OF refl assms(2,3)] by simp

lemma mset_map_filter_order:
  assumes "is_order tasks ord" and "is_order tasks ord'"
  shows "mset (List.map_filter f ord) = mset (List.map_filter f ord')"
proof -
  have "mset ord = mset ord'" using assms by (intro set_eq_iff_mset_eq_distinct [THEN iffD1]) (simp_all add: is_order_def)
  then show ?thesis by (simp add: List.map_filter_def)
qed

lemma last_terminal: "wf_pipeline tasks \<Longrightarrow> tasks \<noteq> [] \<Longrightarrow> IsTerminal tasks (length tasks - 1)"
proof -
  assume wf: "wf_pipeline tasks" and ne: "tasks \<noteq> []"
  have "k \<notin> set (t_outputs (tasks ! (length tasks - 1)))" for k
    using wf_pipelineD(3) [OF wf, of "length tasks - 1" k] wf_pipelineD(5) [OF wf, of k "length tasks - 1"] ne by auto
  then show ?thesis unfolding IsTerminal_def by (metis list.set_intros(1) neq_Nil_conv)
qed

lemma terminal_results:
  assumes inv: "sched_inv tasks [] s" and ok: "results_ok s" and ord: "is_order tasks ord" "is_order tasks ord'"
    and inj: "inj_on (\<lambda>i. t_Index (tasks ! i)) {i. i < length tasks \<and> IsTerminal tasks i}"
  shows "filter (\<lambda>(i, _). IsTerminal tasks i) (fold (addTaskRun tasks rid) (List.map_filter (results s) ord) []) =
    map (\<lambda>rr. (rr_Task rr, taskRunOf tasks rid rr))
      (filter (\<lambda>rr. IsTerminal tasks (rr_Task rr)) (sort_key (\<lambda>rr. t_Index (tasks ! rr_Task rr)) (List.map_filter (results s) ord')))"
    (is "?xs = map ?f ?ys")
proof (rule sorted_key_unique [where f = "\<lambda>(i, _). t_Index (tasks ! i)"])
  show "mset ?xs = mset (map ?f ?ys)"
    using mset_map_filter_order [OF ord, of "results s"]
    by (simp add: fold_addTaskRun filter_mset_image_mset case_prod_beta)
  have "set ?xs \<subseteq> {(i, taskRunOf tasks rid r) | i r. results s i = Some r \<and> i < length tasks \<and> IsTerminal tasks i}"
    using summed_runs(1) [OF inv ok ord(1), of rid] flight_invD(7) [OF inv] by auto
  moreover have "inj_on (\<lambda>(i, _). t_Index (tasks ! i)) {(i, taskRunOf tasks rid r) | i r. results s i = Some r \<and> i < length tasks \<and> IsTerminal tasks i}"
  proof (rule inj_onI, elim CollectE exE conjE)
    fix p q i r j r'
    assume pq: "p = (i, taskRunOf tasks rid r)" "results s i = Some r" "i < length tasks" "IsTerminal tasks i"
      "q = (j, taskRunOf tasks rid r')" "results s j = Some r'" "j < length tasks" "IsTerminal tasks j"
      and "(case p of (i, _) \<Rightarrow> t_Index (tasks ! i)) = (case q of (i, _) \<Rightarrow> t_Index (tasks ! i))"
    then have "i = j" using inj_onD [OF inj, of i j] by simp
    then show "p = q" using pq by simp
  qed
  ultimately show "inj_on (\<lambda>(i, _). t_Index (tasks ! i)) (set ?xs)" by (rule inj_on_subset [rotated])
  show "sorted (map (\<lambda>(i, _). t_Index (tasks ! i)) ?xs)"
    by (rule sorted_filter) (rule fold_addTaskRun_sorted, simp)
  show "sorted (map (\<lambda>(i, _). t_Index (tasks ! i)) (map ?f ?ys))"
    using sorted_filter [of "\<lambda>rr. t_Index (tasks ! rr_Task rr)" "sort_key (\<lambda>rr. t_Index (tasks ! rr_Task rr)) (List.map_filter (results s) ord')"]
    by (simp add: o_def)
qed

text \<open>C35: What a finished run stores and what it returns to its caller agree. If the tasks without outputs have different indices, then for every order
  in which the map of results is iterated, once for the task runs and once for the results, the outputs and fatal errors of the run are the
  values and fatal errors of the final result, one for each such task; the run is errored just when the final
  result has a fatal error, and both report the same about errors at all. The final result does not panic.\<close>
theorem finished_run_consistent:
  assumes "executed tasks run x" and "runner_run tasks x run vars = Some (run', trrs)" and "\<not> r_Pending run'" and "tasks \<noteq> []"
    and "inj_on (\<lambda>i. t_Index (tasks ! i)) {i. i < length tasks \<and> IsTerminal tasks i}"
  shows "\<exists>fr. FinalResult tasks trrs = Some fr \<and> r_Outputs run' = Some (Values fr) \<and> r_FatalErrors run' = FatalErrors fr \<and>
    length (Values fr) = card {i. i < length tasks \<and> IsTerminal tasks i} \<and>
    r_State run' = (if fr_HasFatalErrors fr then RunStatusErrored else RunStatusCompleted) \<and> (run_HasErrors run' \<longleftrightarrow> fr_HasErrors fr)"
proof -
  obtain s where run': "run' = finishRun tasks (order1 x) s run" "trrs = List.map_filter (results s) (order2 x)"
    and inv: "sched_inv tasks [] s" and ok: "results_ok s" and idle: "flight [] s = []"
    by (rule runner_run_state [OF assms(1,2)])
  have wf: "wf_pipeline tasks" and ord: "is_order tasks (order1 x)" "is_order tasks (order2 x)" using assms(1) by (simp_all add: executed_def)
  have np: "\<not> pending s" using assms(3) by (simp add: run' finishRun_fields)
  have all: "\<exists>r. results s i = Some r" if "i < length tasks" for i using idle_complete [OF wf inv idle np that] by blast
  let ?key = "\<lambda>rr. t_Index (tasks ! rr_Task rr)"
  let ?final = "filter (\<lambda>rr. IsTerminal tasks (rr_Task rr)) (sort_key ?key trrs)"
  let ?trs = "fold (addTaskRun tasks (r_ID run)) (List.map_filter (results s) (order1 x)) []"
  let ?fr = "\<lparr>Values = map (Value \<circ> rr_Result) ?final, AllErrors = map (Error \<circ> rr_Result) (sort_key ?key trrs), FatalErrors = map (Error \<circ> rr_Result) ?final\<rparr>"
  have terminal: "filter (\<lambda>(i, _). IsTerminal tasks i) ?trs = map (\<lambda>rr. (rr_Task rr, taskRunOf tasks (r_ID run) rr)) ?final"
    using terminal_results [OF inv ok ord assms(5)] by (simp add: run'(2))
  have ids: "mset (map rr_Task trrs) = mset (order2 x)"
  proof -
    have "filter (\<lambda>i. results s i \<noteq> None) (order2 x) = order2 x"
      using all ord(2) unfolding is_order_def by (intro filter_True) auto
    then show ?thesis using map_filter_tasks [OF ok, of "order2 x"] by (simp add: run'(2))
  qed
  have "length ?final = length (filter (IsTerminal tasks) (map rr_Task trrs))"
    by (simp add: filter_map o_def) (metis mset_filter mset_sort size_mset)
  also have "\<dots> = length (filter (IsTerminal tasks) (order2 x))" using arg_cong [OF ids, of "\<lambda>m. size (filter_mset (IsTerminal tasks) m)"] by (metis mset_filter size_mset)
  also have "\<dots> = card (set (filter (IsTerminal tasks) (order2 x)))" using ord(2) by (intro distinct_card [symmetric]) (simp add: is_order_def)
  finally have count: "length ?final = card {i. i < length tasks \<and> IsTerminal tasks i}" using ord(2) by (simp add: is_order_def lessThan_def conj_commute)
  have "length tasks - 1 \<in> {i. i < length tasks \<and> IsTerminal tasks i}" using last_terminal [OF wf assms(4)] assms(4) by simp
  then have pos: "0 < card {i. i < length tasks \<and> IsTerminal tasks i}" by (subst card_gt_0_iff) auto
  have "?final \<noteq> []" unfolding length_greater_0_conv [symmetric] count by (rule pos)
  then have fr: "FinalResult tasks trrs = Some ?fr" by (simp add: FinalResult_def Let_def)
  have val: "outputVal (taskRunOf tasks rid rr) = Value (rr_Result rr)" "tr_Error (taskRunOf tasks rid rr) = Error (rr_Result rr)" for rid rr
    by (simp_all add: outputVal_def taskRunOf_def OutputDB_def)
  have outs: "r_Outputs run' = Some (Values ?fr)" "r_FatalErrors run' = FatalErrors ?fr"
    unfolding run'(1) finishRun_def Let_def terminal using np by (simp_all add: o_def val)
  have state: "r_State run' = (if fr_HasFatalErrors ?fr then RunStatusErrored else RunStatusCompleted)"
    unfolding run'(1) finishRun_def Let_def terminal using np by (simp add: o_def val run_HasFatalErrors_def fr_HasFatalErrors_def)
  have errs: "r_AllErrors run' = filter (\<lambda>e. e \<noteq> None) (map (tr_Error \<circ> snd) ?trs)"
    unfolding run'(1) finishRun_def Let_def using np by simp
  have "set (map (tr_Error \<circ> snd) ?trs) = set (map (Error \<circ> rr_Result) trrs)"
  proof -
    have "mset ?trs = mset (map (\<lambda>rr. (rr_Task rr, taskRunOf tasks (r_ID run) rr)) trrs)"
      using mset_map_filter_order [OF ord, of "results s"] by (simp add: fold_addTaskRun run'(2))
    then have "set ?trs = set (map (\<lambda>rr. (rr_Task rr, taskRunOf tasks (r_ID run) rr)) trrs)" by (rule mset_eq_setD)
    then show ?thesis by (simp only: set_map) (simp add: image_image val)
  qed
  then have set_eq: "set (map (Error \<circ> rr_Result) (sort_key ?key trrs)) = set (map (tr_Error \<circ> snd) ?trs)" by simp
  have "run_HasErrors run' \<longleftrightarrow> (\<exists>e \<in> set (map (tr_Error \<circ> snd) ?trs). e \<noteq> None)" unfolding run_HasErrors_def errs set_filter by blast
  then have "run_HasErrors run' \<longleftrightarrow> fr_HasErrors ?fr" unfolding fr_HasErrors_def final_result.simps set_eq .
  then show ?thesis using fr outs count state by (intro exI [of _ ?fr]) simp
qed

section \<open>Runs that are not stored or reported\<close>

text \<open>C36: A run that is pending although nobody can resume it is reported as a success: \<^verbatim>\<open>ExecuteRun\<close> wraps the error variable, which is nil at this point,
  and wrapping nil gives nil (\<open>wrapf\<close> is \<^verbatim>\<open>errors.Wrapf\<close>), so that it returns no error and no results; its caller
  \<^verbatim>\<open>ExecuteAndInsertFinishedRun\<close> then panics for want of a final task.\<close>
theorem pending_run_reported_as_success:
  assumes "wrapf None = None" and "initializePipeline parsed newUUID (NewRun vars) = Inr tasks"
    and "runner_run tasks x (NewRun vars) vars = Some (run, trrs)" and "r_Pending run"
  shows "ExecuteRun wrapf parsed newUUID vars x = Some (run, [], None) \<and>
    ExecuteAndInsertFinishedRun wrapf parsed newUUID vars saveSuccessfulTaskRuns x db = None"
  using assms by (simp add: ExecuteRun_def ExecuteAndInsertFinishedRun_def FinalResult_def)

definition rowKey :: "'a task_run \<Rightarrow> int \<times> string" where
  "rowKey r = (tr_RunID r, tr_DotID r)"

lemma sameKey_rowKey: "sameKey r x \<longleftrightarrow> rowKey x = rowKey r"
  by (auto simp: sameKey_def rowKey_def)

lemma has_key: "(\<exists>x \<in> set rows. sameKey r x) \<longleftrightarrow> rowKey r \<in> rowKey ` set rows"
  unfolding sameKey_rowKey image_iff eq_commute [of "rowKey r"] ..

lemma distinct_key_neq: "distinct (map f (t # ts)) \<Longrightarrow> r \<in> set ts \<Longrightarrow> f r \<noteq> f t"
proof
  assume "distinct (map f (t # ts))" and "r \<in> set ts" and "f r = f t"
  then have "f t \<in> f ` set ts" using imageI [of r "set ts" f] by simp
  then show False using \<open>distinct (map f (t # ts))\<close> by simp
qed

lemma upsert_Some:
  assumes "upsertTaskRun r rows = Some rows'"
  shows "tr_ID ` set rows \<subseteq> tr_ID ` set rows'" "rowKey ` set rows' = insert (rowKey r) (rowKey ` set rows)"
    "rowKey r \<notin> rowKey ` set rows \<Longrightarrow> tr_ID r \<in> tr_ID ` set rows'"
proof -
  let ?upd = "\<lambda>x. if sameKey r x then x\<lparr>tr_Output := tr_Output r, tr_Error := tr_Error r, tr_FinishedAt := tr_FinishedAt r\<rparr> else x"
  have id: "tr_ID (?upd x) = tr_ID x" "rowKey (?upd x) = rowKey x" for x by (simp_all add: rowKey_def)
  consider "rowKey r \<in> rowKey ` set rows" "rows' = map ?upd rows" | "rowKey r \<notin> rowKey ` set rows" "rows' = rows @ [r]"
    using assms unfolding upsertTaskRun_def has_key by (cases "rowKey r \<in> rowKey ` set rows"; cases "tr_ID r \<in> tr_ID ` set rows") simp_all
  then have "tr_ID ` set rows \<subseteq> tr_ID ` set rows' \<and> rowKey ` set rows' = insert (rowKey r) (rowKey ` set rows) \<and>
    (rowKey r \<notin> rowKey ` set rows \<longrightarrow> tr_ID r \<in> tr_ID ` set rows')"
  proof cases
    case 1
    then show ?thesis by (simp only: set_map image_image id) (simp add: insert_absorb)
  next
    case 2
    then show ?thesis by auto
  qed
  then show "tr_ID ` set rows \<subseteq> tr_ID ` set rows'" "rowKey ` set rows' = insert (rowKey r) (rowKey ` set rows)"
    "rowKey r \<notin> rowKey ` set rows \<Longrightarrow> tr_ID r \<in> tr_ID ` set rows'" by simp_all
qed

lemma upsert_blocked:
  "distinct (map rowKey trs) \<Longrightarrow> r \<in> set trs \<Longrightarrow> rowKey r \<notin> rowKey ` set rows \<Longrightarrow> tr_ID r \<in> tr_ID ` set rows \<Longrightarrow> tryAll upsertTaskRun trs rows = None"
proof (induction trs arbitrary: rows)
  case (Cons t ts)
  show ?case
  proof (cases "t = r")
    case True
    then show ?thesis using Cons.prems(3,4) by (simp add: upsertTaskRun_def has_key)
  next
    case False
    then have r: "r \<in> set ts" using Cons.prems(2) by simp
    note ne = distinct_key_neq [OF Cons.prems(1) r]
    show ?thesis
    proof (cases "upsertTaskRun t rows")
      case (Some rows')
      note up = upsert_Some [OF Some]
      have "tryAll upsertTaskRun ts rows' = None"
        using Cons.prems up(1) r ne by (intro Cons.IH) (auto simp: up(2))
      then show ?thesis by (simp add: Some)
    qed simp
  qed
qed simp

lemma upsert_twice:
  "distinct (map rowKey trs) \<Longrightarrow> r1 \<in> set trs \<Longrightarrow> r2 \<in> set trs \<Longrightarrow> rowKey r1 \<noteq> rowKey r2 \<Longrightarrow> tr_ID r1 = tr_ID r2 \<Longrightarrow>
   rowKey r1 \<notin> rowKey ` set rows \<Longrightarrow> rowKey r2 \<notin> rowKey ` set rows \<Longrightarrow> tryAll upsertTaskRun trs rows = None"
proof (induction trs arbitrary: rows)
  case (Cons t ts)
  show ?case
  proof (cases "upsertTaskRun t rows")
    case (Some rows')
    note up = upsert_Some [OF Some]
    have rest: "distinct (map rowKey ts)" using Cons.prems(1) by simp
    consider "t = r1" "r2 \<in> set ts" | "t = r2" "r1 \<in> set ts" | "r1 \<in> set ts" "r2 \<in> set ts" using Cons.prems(2-4) by auto
    then have "tryAll upsertTaskRun ts rows' = None"
    proof cases
      case 1
      then show ?thesis using Cons.prems(4-7) up(2,3) by (intro upsert_blocked [OF rest 1(2)]) auto
    next
      case 2
      then show ?thesis using Cons.prems(4-7) up(2,3) by (intro upsert_blocked [OF rest 2(2)]) auto
    next
      case 3
      note ne = distinct_key_neq [OF Cons.prems(1) 3(1)] distinct_key_neq [OF Cons.prems(1) 3(2)]
      show ?thesis using Cons.prems(4-7) up(2) ne by (intro Cons.IH [OF rest 3]) auto
    qed
    then show ?thesis by (simp add: Some)
  qed simp
qed simp

text \<open>A run that was restarted cannot be stored. When results arrive during a run, \<^verbatim>\<open>StoreRun\<close> returns without storing anything and the run is executed again from
  its task runs; the results taken over from them have no UUID. If there are two whose rows are not in the table yet, then
  storing the finished run inserts two rows with the nil UUID as their primary key, which is refused, whatever else happened.\<close>
theorem restarted_run_not_stored:
  assumes "executed tasks run x" and "runner_run tasks x run vars = Some (run', trrs)" and "\<not> r_Pending run'"
    and "r1 \<in> set (r_TaskRuns run)" and "r2 \<in> set (r_TaskRuns run)" and "tr_DotID r1 \<noteq> tr_DotID r2" and "\<not> tr_IsPending r1" and "\<not> tr_IsPending r2"
    and "\<forall>row \<in> set (db_taskRuns db). tr_RunID row = r_ID run \<longrightarrow> tr_DotID row \<noteq> tr_DotID r1 \<and> tr_DotID row \<noteq> tr_DotID r2"
  shows "StoreRun db run' = Inl UniqueViolation"
proof -
  obtain s0 s where new: "newScheduler tasks (r_TaskRuns run) vars = Some s0" and run': "run' = finishRun tasks (order1 x) s run"
    and inv: "sched_inv tasks [] s" and ok: "results_ok s" and idle: "flight [] s = []" and kept: "\<forall>j. results s0 j \<noteq> None \<longrightarrow> results s j = results s0 j"
    by (rule runner_run_state [OF assms(1,2)])
  have wf: "wf_pipeline tasks" and ord: "is_order tasks (order1 x)" and runs: "resumable tasks (r_TaskRuns run)" using assms(1) by (simp_all add: executed_def)
  have np: "\<not> pending s" using assms(3) by (simp add: run' finishRun_fields)
  let ?trs = "fold (addTaskRun tasks (r_ID run)) (List.map_filter (results s) (order1 x)) []"
  note names = summed_names [OF assms(1) inv ok] and sum = summed_runs(1) [OF inv ok ord, of "r_ID run"]
  note old = newScheduler_results [of tasks "r_TaskRuns run" vars s0, OF wf _ _ runs _ new]
  have nil: "\<exists>r'. r' \<in> set (r_TaskRuns run') \<and> tr_ID r' = 0 \<and> rowKey r' = (r_ID run, tr_DotID r)"
    if r: "r \<in> set (r_TaskRuns run)" "\<not> tr_IsPending r" for r
  proof -
    have "tr_DotID r \<in> set (map t_dotID tasks)" using runs r(1) unfolding resumable_def by auto
    then obtain i where i: "i < length tasks" "t_dotID (tasks ! i) = tr_DotID r" by (auto simp: in_set_conv_nth)
    have "finished_run (r_TaskRuns run) (t_dotID (tasks ! i))" using r i(2) by (auto simp: finished_run_def)
    moreover have names_x: "names_ok tasks" "distinct (map t_dotID tasks)" "runs_ok (r_TaskRuns run)" using assms(1) by (simp_all add: executed_def)
    ultimately obtain rr where rr: "results s0 i = Some rr" using old(2) [OF names_x i(1)] by blast
    then have rr_ID: "rr_ID rr = 0" using old(1) [OF names_x] by (simp add: old_results_def)
    have "results s i = Some rr" using kept rr by auto
    then have "taskRunOf tasks (r_ID run) rr \<in> set (r_TaskRuns run')" "tr_DotID (taskRunOf tasks (r_ID run) rr) = tr_DotID r"
      using names(2) [OF i(1), of "taskRunOf tasks (r_ID run) rr"] i(2) by (auto simp: run' finishRun_fields)
    then show ?thesis using rr_ID by (intro exI [of _ "taskRunOf tasks (r_ID run) rr"]) (simp add: rowKey_def taskRunOf_def)
  qed
  obtain r1' r2' where r': "r1' \<in> set (r_TaskRuns run')" "tr_ID r1' = 0" "rowKey r1' = (r_ID run, tr_DotID r1)"
    "r2' \<in> set (r_TaskRuns run')" "tr_ID r2' = 0" "rowKey r2' = (r_ID run, tr_DotID r2)"
    using nil [OF assms(4,7)] nil [OF assms(5,8)] by blast
  have "map rowKey (r_TaskRuns run') = map (Pair (r_ID run)) (map tr_DotID (map snd ?trs))"
    using sum by (auto simp: run' finishRun_fields rowKey_def taskRunOf_def)
  then have "distinct (map rowKey (r_TaskRuns run'))" using names(1) by (simp only: distinct_map) (simp add: inj_on_def)
  then have refused: "tryAll upsertTaskRun (r_TaskRuns run') (db_taskRuns db) = None"
    using r' assms(6,9) by (intro upsert_twice [of _ r1' r2']) (auto simp: rowKey_def)
  have ne: "tasks \<noteq> []" using runs assms(4) by (auto simp: resumable_def)
  then obtain rr where "results s (length tasks - 1) = Some rr" using idle_complete [OF wf inv idle np, of "length tasks - 1"] by auto
  then have "(length tasks - 1, taskRunOf tasks (r_ID run) rr) \<in> set (filter (\<lambda>(i, _). IsTerminal tasks i) ?trs)"
    using last_terminal [OF wf ne] sum by auto
  then have some: "filter (\<lambda>(i, _). IsTerminal tasks i) ?trs \<noteq> []" by (metis empty_iff list.set(1))
  have "r_FinishedAt run'" "r_Outputs run' \<noteq> None" "r_FatalErrors run' \<noteq> []"
    using np some unfolding run' finishRun_def Let_def by simp_all
  then show ?thesis using refused by (simp add: StoreRun_def Let_def)
qed

section \<open>A stored run is resumed\<close>

definition sameContent :: "'a task_run \<Rightarrow> 'a task_run \<Rightarrow> bool" where
  "sameContent r x \<longleftrightarrow> rowKey x = rowKey r \<and> tr_Output x = tr_Output r \<and> tr_Error x = tr_Error r \<and> tr_FinishedAt x = tr_FinishedAt r"

lemma upsert_rows:
  assumes "upsertTaskRun r rows = Some rows'" and "distinct (map rowKey rows)"
  shows "distinct (map rowKey rows')" "row \<in> set rows' \<Longrightarrow> sameContent r row \<or> rowKey row \<noteq> rowKey r \<and> row \<in> set rows"
proof -
  let ?upd = "\<lambda>x. if sameKey r x then x\<lparr>tr_Output := tr_Output r, tr_Error := tr_Error r, tr_FinishedAt := tr_FinishedAt r\<rparr> else x"
  consider "rows' = map ?upd rows" | "rowKey r \<notin> rowKey ` set rows" "rows' = rows @ [r]"
    using assms(1) unfolding upsertTaskRun_def has_key by (cases "rowKey r \<in> rowKey ` set rows"; cases "tr_ID r \<in> tr_ID ` set rows") simp_all
  then have "distinct (map rowKey rows') \<and> (row \<in> set rows' \<longrightarrow> sameContent r row \<or> rowKey row \<noteq> rowKey r \<and> row \<in> set rows)"
  proof cases
    case 1
    have "map rowKey rows' = map rowKey rows" unfolding 1 by (simp add: rowKey_def)
    then have "distinct (map rowKey rows')" using assms(2) by simp
    moreover have "sameContent r row \<or> rowKey row \<noteq> rowKey r \<and> row \<in> set rows" if "row \<in> set rows'"
      using that by (auto simp: 1 sameContent_def sameKey_rowKey rowKey_def)
    ultimately show ?thesis by blast
  next
    case 2
    have "rowKey x \<noteq> rowKey r" if "x \<in> set rows" for x using 2(1) imageI [OF that, of rowKey] by metis
    then show ?thesis using 2 assms(2) by (auto simp: sameContent_def)
  qed
  then show "distinct (map rowKey rows')" "row \<in> set rows' \<Longrightarrow> sameContent r row \<or> rowKey row \<noteq> rowKey r \<and> row \<in> set rows" by simp_all
qed

lemma upserts_ok:
  "tryAll upsertTaskRun trs rows = Some rows' \<Longrightarrow> distinct (map rowKey trs) \<Longrightarrow> distinct (map rowKey rows) \<Longrightarrow>
    distinct (map rowKey rows') \<and> rowKey ` set rows' = rowKey ` set trs \<union> rowKey ` set rows \<and>
    (\<forall>row \<in> set rows'. (\<exists>t \<in> set trs. sameContent t row) \<or> rowKey row \<notin> rowKey ` set trs \<and> row \<in> set rows)"
proof (induction trs arbitrary: rows)
  case (Cons t ts)
  then obtain rows1 where rows1: "upsertTaskRun t rows = Some rows1" "tryAll upsertTaskRun ts rows1 = Some rows'" by (auto split: option.splits)
  note one = upsert_rows [OF rows1(1) Cons.prems(3)] and keys = upsert_Some(2) [OF rows1(1)]
  note IH = Cons.IH [OF rows1(2) _ one(1)]
  have "(\<exists>t' \<in> set (t # ts). sameContent t' row) \<or> rowKey row \<notin> rowKey ` set (t # ts) \<and> row \<in> set rows" if "row \<in> set rows'" for row
    using IH that one(2) [of row] Cons.prems(2) by auto
  then show ?case using IH Cons.prems(2) keys by auto
qed simp

lemma finished_run_map: "finished_run (map f rs) name \<longleftrightarrow> (\<exists>r \<in> set rs. tr_DotID (f r) = name \<and> \<not> tr_IsPending (f r))"
  by (auto simp: finished_run_def)

text \<open>C9: Suspending a run, storing it and resuming it when a result arrives fit together. If a run is suspended with a pending task and its task runs are
  stored, and a result then arrives under the UUID of such a task's row, the run is started again, from task runs
  that the scheduler can resume from, in which the task is finished. The table may already hold rows of the run, as it does for tasks
  that send transactions; those of tasks the run has not reached are pending.\<close>
theorem stored_run_resumes:
  assumes "executed tasks run x" and "runner_run tasks x run vars = Some (run', trrs)" and "r_Pending run'" and "\<not> r_FailSilently run'" and "\<not> r_FinishedAt run"
    and "StoreRun db run' = Inr (db', run2, False)" and "db_runs db (r_ID run) \<noteq> None"
    and "distinct (map rowKey (db_taskRuns db))" and "distinct (map tr_ID (db_taskRuns db'))"
    and "\<forall>row \<in> set (db_taskRuns db). tr_RunID row = r_ID run \<longrightarrow> tr_DotID row \<in> set (map t_dotID tasks) \<and>
      (tr_DotID row \<notin> set (map tr_DotID (r_TaskRuns run')) \<longrightarrow> tr_IsPending row)"
    and "row0 \<in> set (db_taskRuns db')" and "tr_RunID row0 = r_ID run" and "ptask \<in> set (r_TaskRuns run')" and "tr_DotID ptask = tr_DotID row0" and "tr_IsPending ptask"
    and "OutputDB result = None \<or> Error result = None"
  shows "\<exists>db'' run''. UpdateTaskRunResult (tr_ID row0) result db' = Some (Inr (db'', run'', True)) \<and> r_State run'' = RunStatusRunning \<and>
    resumable tasks (r_TaskRuns run'') \<and> finished_run (r_TaskRuns run'') (tr_DotID row0)"
proof -
  obtain s where run': "run' = finishRun tasks (order1 x) s run" and inv: "sched_inv tasks [] s" and ok: "results_ok s"
    by (rule runner_run_state [OF assms(1,2)])
  have ord: "is_order tasks (order1 x)" using assms(1) by (simp add: executed_def)
  let ?rid = "r_ID run" and ?rows = "db_taskRuns db'" and ?trs = "r_TaskRuns run'"
  let ?upd = "\<lambda>x. if tr_ID x = tr_ID row0 then x\<lparr>tr_Output := OutputDB result, tr_Error := Error result, tr_FinishedAt := True\<rparr> else x"
  let ?runs = "filter (\<lambda>x. tr_RunID x = ?rid) (map ?upd ?rows)"
  have fields: "r_ID run' = ?rid" "\<not> r_FinishedAt run'" using assms(3,5) by (simp_all add: run' finishRun_fields)
  have stored: "tryAll upsertTaskRun ?trs (db_taskRuns db) = Some ?rows" "\<exists>row. db_runs db' ?rid = Some row \<and> r_State row = RunStatusSuspended"
    using assms(6,7) fields by (auto simp: StoreRun_def Let_def split: if_splits option.splits)
  have trs_key: "rowKey r = (?rid, tr_DotID r)" if "r \<in> set ?trs" for r
    using that summed_runs(1) [OF inv ok ord, of ?rid] by (auto simp: run' finishRun_fields rowKey_def taskRunOf_def)
  have trs_names: "distinct (map tr_DotID ?trs)" unfolding run' finishRun_fields by (rule summed_names(1) [OF assms(1) inv ok])
  have unique: "r = r'" if "r \<in> set ?trs" "r' \<in> set ?trs" "tr_DotID r = tr_DotID r'" for r r'
    using trs_names that by (simp add: distinct_map inj_on_def)
  have "distinct (map rowKey ?trs)"
  proof -
    have "map rowKey ?trs = map (Pair ?rid) (map tr_DotID ?trs)" using trs_key by simp
    then show ?thesis using trs_names by (simp only: distinct_map) (simp add: inj_on_def)
  qed
  note rows = upserts_ok [OF stored(1) this assms(8)]
  have id_eq: "x = row0" if "x \<in> set ?rows" "tr_ID x = tr_ID row0" for x
    using assms(9) that assms(11) by (simp add: distinct_map inj_on_def)
  have upd_key: "rowKey (?upd y) = rowKey y" "tr_RunID (?upd y) = tr_RunID y" "tr_DotID (?upd y) = tr_DotID y" for y by (simp_all add: rowKey_def)
  have find: "find (\<lambda>x. tr_ID x = tr_ID row0) ?rows = Some row0"
  proof (cases "find (\<lambda>x. tr_ID x = tr_ID row0) ?rows")
    case None
    then show ?thesis using assms(11) by (auto simp: find_None_iff)
  next
    case (Some y)
    then have "y \<in> set ?rows" "tr_ID y = tr_ID row0" by (auto simp: find_Some_iff)
    then show ?thesis using id_eq Some by simp
  qed
  let ?old = "map (\<lambda>r. if tr_DotID r = tr_DotID row0 then r\<lparr>tr_FinishedAt := True\<rparr> else r) ?trs"
  have r0_only: "r = ptask" if "r \<in> set ?trs" "tr_DotID r = tr_DotID row0" for r
    using unique [OF that(1) assms(13)] that(2) assms(14) by simp
  have resumable_old: "resumable tasks ?old"
  proof (rule suspended_closed [OF assms(1,2,4)], unfold list.rel_map, rule list.rel_refl_strong)
    fix r assume r: "r \<in> set ?trs"
    then have "r = ptask" if "tr_DotID r = tr_DotID row0" by (rule r0_only [OF _ that])
    then show "tr_DotID (if tr_DotID r = tr_DotID row0 then r\<lparr>tr_FinishedAt := True\<rparr> else r) = tr_DotID r \<and>
      ((if tr_DotID r = tr_DotID row0 then r\<lparr>tr_FinishedAt := True\<rparr> else r) = r \<or> tr_IsPending r)"
      using assms(15) by (cases "tr_DotID r = tr_DotID row0") simp_all
  qed
  have content: "tr_IsPending row \<longleftrightarrow> tr_IsPending r" "tr_DotID row = tr_DotID r" if "sameContent r row" for r row
    using that by (simp_all add: sameContent_def tr_IsPending_def rowKey_def)
  have row_of: "\<exists>row \<in> set ?rows. sameContent r row" if r: "r \<in> set ?trs" for r
  proof -
    have "rowKey r \<in> rowKey ` set ?rows" using rows imageI [OF r, of rowKey] by blast
    then obtain row where row: "row \<in> set ?rows" "rowKey row = rowKey r" by (metis imageE)
    moreover have "rowKey row \<in> rowKey ` set ?trs" unfolding row(2) by (rule imageI [OF r])
    ultimately obtain r' where r': "r' \<in> set ?trs" "sameContent r' row" using rows by blast
    then have "tr_DotID r' = tr_DotID r" using row(2) by (simp add: sameContent_def rowKey_def)
    then have "r' = r" by (rule unique [OF r'(1) r])
    then show ?thesis using row(1) r'(2) by blast
  qed
  have old_iff: "finished_run ?old name \<longleftrightarrow> (\<exists>t \<in> set ?trs. tr_DotID t = name \<and> (\<not> tr_IsPending t \<or> name = tr_DotID row0))" for name
    unfolding finished_run_map by (intro bex_cong refl) (auto simp: tr_IsPending_def)
  have runs_iff: "finished_run ?runs name \<longleftrightarrow> (\<exists>y \<in> set ?rows. tr_RunID y = ?rid \<and> tr_DotID y = name \<and> \<not> tr_IsPending (?upd y))" for name
    unfolding filter_map finished_run_map o_def upd_key set_filter by blast
  have same: "finished_run ?runs name \<longleftrightarrow> finished_run ?old name" for name
  proof
    assume "finished_run ?runs name"
    then obtain y where y: "y \<in> set ?rows" "tr_RunID y = ?rid" "tr_DotID y = name" "\<not> tr_IsPending (?upd y)"
      unfolding runs_iff by blast
    show "finished_run ?old name"
    proof (cases "y = row0")
      case True
      then show ?thesis unfolding old_iff using assms(13,14) y(3) by blast
    next
      case False
      then have "\<not> tr_IsPending y" using y(1,4) id_eq by (auto split: if_splits)
      moreover consider t where "t \<in> set ?trs" "sameContent t y" | "rowKey y \<notin> rowKey ` set ?trs" "y \<in> set (db_taskRuns db)" using rows y(1) by blast
      then obtain t where t: "t \<in> set ?trs" "sameContent t y"
      proof cases
        case 2
        have "tr_DotID y \<notin> set (map tr_DotID ?trs)" using 2(1) trs_key y(2) by (force simp: rowKey_def)
        then have "tr_IsPending y" using assms(10) 2(2) y(2) by blast
        then show ?thesis using \<open>\<not> tr_IsPending y\<close> by blast
      qed (rule that)
      ultimately show ?thesis unfolding old_iff using content [OF t(2)] t(1) y(3) by metis
    qed
  next
    assume "finished_run ?old name"
    then obtain t where t: "t \<in> set ?trs" "tr_DotID t = name" "\<not> tr_IsPending t \<or> name = tr_DotID row0"
      unfolding old_iff by blast
    obtain row where row: "row \<in> set ?rows" "sameContent t row" using row_of [OF t(1)] by blast
    have key: "tr_RunID row = ?rid" "tr_DotID row = name" using row(2) trs_key [OF t(1)] t(2) by (simp_all add: sameContent_def rowKey_def)
    have "\<not> tr_IsPending (?upd row)"
    proof (cases "name = tr_DotID row0")
      case True
      then have "rowKey row = rowKey row0" using key assms(12) by (simp add: rowKey_def)
      then have "row = row0" using rows row(1) assms(11) by (simp add: distinct_map inj_on_def)
      then show ?thesis by (simp add: tr_IsPending_def)
    next
      case False
      then have "\<not> tr_IsPending row" using content(1) [OF row(2)] t(3) by blast
      then show ?thesis by (auto simp: tr_IsPending_def)
    qed
    then show "finished_run ?runs name" unfolding runs_iff using row(1) key by blast
  qed
  have names: "map rowKey (map ?upd ?rows) = map rowKey ?rows" by (simp add: upd_key)
  have run_keys: "rowKey z = (?rid, tr_DotID z)" if "z \<in> set ?runs" for z using that by (auto simp: rowKey_def)
  have distinct_runs: "distinct (map tr_DotID ?runs)"
  proof -
    have "distinct (map rowKey (map ?upd ?rows))" using rows by (simp only: names)
    then have "distinct (map rowKey ?runs)" by (rule distinct_map_filter)
    moreover have "map rowKey ?runs = map (Pair ?rid) (map tr_DotID ?runs)" unfolding map_map o_def by (rule map_cong [OF refl run_keys])
    ultimately have "distinct (map (Pair ?rid) (map tr_DotID ?runs))" by (rule back_subst)
    then show ?thesis by (rule distinct_map [THEN iffD1, THEN conjunct1])
  qed
  have names_runs: "set (map tr_DotID ?runs) \<subseteq> set (map t_dotID tasks)"
  proof
    fix name assume "name \<in> set (map tr_DotID ?runs)"
    then obtain y where y: "y \<in> set ?rows" "tr_RunID y = ?rid" "tr_DotID y = name" by (auto simp: upd_key split del: if_split)
    then consider t where "t \<in> set ?trs" "sameContent t y" | "y \<in> set (db_taskRuns db)" using rows by blast
    then show "name \<in> set (map t_dotID tasks)"
    proof cases
      case 1
      then have "name \<in> set (map tr_DotID ?old)" using y(3) by (force simp: sameContent_def rowKey_def)
      then show ?thesis using resumable_old unfolding resumable_def by blast
    next
      case 2
      then show ?thesis using assms(10) y(2,3) by blast
    qed
  qed
  have "resumable tasks ?runs"
    using resumable_old distinct_runs names_runs unfolding resumable_def same by blast
  moreover have "finished_run ?runs (tr_DotID row0)"
    unfolding same old_iff using assms(13,14) by blast
  moreover have "\<exists>db'' run''. UpdateTaskRunResult (tr_ID row0) result db' = Some (Inr (db'', run'', True)) \<and> r_State run'' = RunStatusRunning \<and> r_TaskRuns run'' = ?runs"
    using stored(2) find assms(12,16) by (auto simp: UpdateTaskRunResult_def Let_def)
  ultimately show ?thesis by metis
qed

section \<open>Runs of two tasks\<close>

definition demo_execution :: "nat sched_event list \<Rightarrow> nat execution" where
  "demo_execution evs = \<lparr>events = evs, callbacks = [], order1 = [0, 1], order2 = [1, 0]\<rparr>"

definition demo_reports :: "nat result \<Rightarrow> bool \<Rightarrow> nat sched_event list" where
  "demo_reports r p = [Reported 0 \<lparr>Value = VAtom (AVal 7), Error = None\<rparr> False, Reported 0 r p]"

lemma demo_executed:
  assumes "resumable demo_tasks (r_TaskRuns run)" and "runs_ok (r_TaskRuns run)" and "\<forall>ev \<in> set evs. well_reported ev"
  shows "executed demo_tasks run (demo_execution evs)"
proof -
  have "is_order demo_tasks [0, 1]" "is_order demo_tasks [1, 0]" by (auto simp: is_order_def demo_tasks_def)
  then show ?thesis using assms demo_ok by (simp add: executed_def demo_execution_def)
qed

lemma demo_run_reports:
  "\<exists>s. execEvents demo_tasks (demo_reports r p) demo_start = Some s \<and> (p \<longrightarrow> pending s \<and> \<not> exiting s) \<and> (\<not> p \<longrightarrow> \<not> pending s)"
  by (cases "Error r"; cases p)
    (simp_all add: demo_reports_def demo_start_def demo_tasks_def sched_event_def enabled_def handleResult_def reportOf_def removeAt_def Let_def setVar_def
      Vars_Set_def TrimSpace_def is_space_def newMemoryTaskRun_def scheduleOutput_def completeOutput_def sendTask_def markRemaining_def)

lemma demo_runner_run:
  fixes run :: "nat run"
  assumes "r_TaskRuns run = []"
  obtains run' trrs where "runner_run demo_tasks (demo_execution (demo_reports r p)) run [] = Some (run', trrs)" "r_Pending run' = p" "p \<Longrightarrow> \<not> r_FailSilently run'"
proof -
  obtain s where s: "execEvents demo_tasks (demo_reports r p) demo_start = Some s" "p \<longrightarrow> pending s \<and> \<not> exiting s" "\<not> p \<longrightarrow> \<not> pending s"
    using demo_run_reports [of r p] by (elim exE conjE) (rule that)
  show thesis
    by (rule that [of "finishRun demo_tasks [0, 1] s run" "taskRunResults [1, 0] s"])
      (use s assms in \<open>auto simp: runner_run_def demo_execution_def demo_newScheduler finishRun_fields\<close>)
qed

lemma demo_reported: "(p \<longrightarrow> r = noResult) \<Longrightarrow> \<forall>ev \<in> set (demo_reports r p). well_reported ev"
  by (simp add: demo_reports_def well_reported_def)

lemma demo_new_executed:
  "(p \<longrightarrow> r = noResult) \<Longrightarrow> executed demo_tasks (NewRun []) (demo_execution (demo_reports r p))"
  using demo_executed [of "NewRun []" "demo_reports r p"] demo_resumable(2) demo_reported [of p r] by (simp add: NewRun_def runs_ok_def)

theorem suspended_run_resumable_witness:
  "\<exists>run' trrs. runner_run demo_tasks (demo_execution (demo_reports noResult True)) (NewRun []) [] = Some (run', trrs) \<and> r_Pending run' \<and>
     resumable demo_tasks (r_TaskRuns run')"
proof -
  obtain run' trrs where run: "runner_run demo_tasks (demo_execution (demo_reports noResult True)) (NewRun []) [] = Some (run', trrs)"
    "r_Pending run' = True" "\<not> r_FailSilently run'"
    using demo_runner_run [of "NewRun []" noResult True thesis] by (simp add: NewRun_def)
  have "executed demo_tasks (NewRun []) (demo_execution (demo_reports noResult True))" by (rule demo_new_executed) simp
  from suspended_run_resumable [OF this run(1,3)] show ?thesis using run by blast
qed

theorem finished_run_consistent_witness:
  "\<exists>run' trrs fr. runner_run demo_tasks (demo_execution (demo_reports \<lparr>Value = VAtom (AVal 8), Error = None\<rparr> False)) (NewRun []) [] = Some (run', trrs) \<and>
     FinalResult demo_tasks trrs = Some fr \<and> r_Outputs run' = Some (Values fr) \<and> length (Values fr) = 1"
proof -
  let ?r = "\<lparr>Value = VAtom (AVal 8), Error = None\<rparr> :: nat result"
  obtain run' trrs where run: "runner_run demo_tasks (demo_execution (demo_reports ?r False)) (NewRun []) [] = Some (run', trrs)" "\<not> r_Pending run'"
    using demo_runner_run [of "NewRun []" ?r False thesis] by (simp add: NewRun_def)
  have ex: "executed demo_tasks (NewRun []) (demo_execution (demo_reports ?r False))" by (rule demo_new_executed) simp
  have one: "{i. i < length demo_tasks \<and> IsTerminal demo_tasks i} = {1}"
    by (auto simp: demo_tasks_def IsTerminal_def less_Suc_eq)
  have "demo_tasks \<noteq> []" "inj_on (\<lambda>i. t_Index (demo_tasks ! i)) {i. i < length demo_tasks \<and> IsTerminal demo_tasks i}"
    unfolding one by (simp_all add: demo_tasks_def)
  from finished_run_consistent [OF ex run this, unfolded one] show ?thesis using run(1) by auto
qed

theorem pending_run_reported_as_success_witness:
  "\<exists>run. r_Pending run \<and> ExecuteRun (\<lambda>e. e) (Inr demo_tasks) (\<lambda>i. 11 + i) [] (demo_execution (demo_reports noResult True)) = Some (run, [], None) \<and>
     (\<forall>db. ExecuteAndInsertFinishedRun (\<lambda>e. e) (Inr demo_tasks) (\<lambda>i. 11 + i) [] True (demo_execution (demo_reports noResult True)) db = None)"
proof -
  obtain run trrs where run: "runner_run demo_tasks (demo_execution (demo_reports noResult True)) (NewRun []) [] = Some (run, trrs)" "r_Pending run = True"
    using demo_runner_run [of "NewRun []" noResult True thesis] by (simp add: NewRun_def)
  have "initializePipeline (Inr demo_tasks) (\<lambda>i. 11 + i) (NewRun []) = Inr demo_tasks"
    by (simp add: initializePipeline_def NewRun_def demo_tasks_def)
  from pending_run_reported_as_success [where wrapf = "\<lambda>e. e", OF refl this run(1)] run(2) show ?thesis by blast
qed

definition demo_restarted :: "nat run" where
  "demo_restarted = (NewRun [])\<lparr>r_ID := 1, r_TaskRuns := [demo_run ''fetch'', demo_run ''tx'']\<rparr>"

theorem restarted_run_not_stored_witness:
  "\<exists>run' trrs. runner_run demo_tasks (demo_execution []) demo_restarted [] = Some (run', trrs) \<and>
     StoreRun \<lparr>db_runs = Map.empty, db_nextRun = 2, db_taskRuns = []\<rparr> run' = Inl UniqueViolation"
proof -
  have runs: "resumable demo_tasks (r_TaskRuns demo_restarted)" "runs_ok (r_TaskRuns demo_restarted)"
    by (auto simp: demo_restarted_def resumable_def demo_tasks_def demo_run_def finished_run_def input_ids_def tr_IsPending_def runs_ok_def)
  then have ex: "executed demo_tasks demo_restarted (demo_execution [])" by (intro demo_executed) simp_all
  obtain s0 where s0: "newScheduler demo_tasks (r_TaskRuns demo_restarted) [] = Some s0" "sched_inv demo_tasks [] s0" "\<not> pending s0"
    using newScheduler_ok [OF demo_ok runs(1)] by blast
  note old = newScheduler_results [OF demo_ok(1,3,4) runs s0(1)]
  have "finished_run (r_TaskRuns demo_restarted) (t_dotID (demo_tasks ! i))" if "i < length demo_tasks" for i
    using that by (auto simp: demo_tasks_def finished_run_def demo_restarted_def demo_run_def tr_IsPending_def less_Suc_eq)
  then have "done_in [] s0 i" if "i < length demo_tasks" for i using old(2,3) that by blast
  then have "flight [] s0 = []" using flight_invD(3) [OF s0(2)] by (metis done_in_def last_in_set)
  then have "waiting s0 = 0" using waiting_iff [OF s0(2) demo_ok(2)] by simp
  then have run: "runner_run demo_tasks (demo_execution []) demo_restarted [] = Some (finishRun demo_tasks [0, 1] s0 demo_restarted, taskRunResults [1, 0] s0)"
    using s0(1) by (simp add: runner_run_def demo_execution_def)
  have "demo_run ''fetch'' \<in> set (r_TaskRuns demo_restarted)" "demo_run ''tx'' \<in> set (r_TaskRuns demo_restarted)"
    "tr_DotID (demo_run ''fetch'') \<noteq> tr_DotID (demo_run ''tx'')" "\<not> tr_IsPending (demo_run ''fetch'')" "\<not> tr_IsPending (demo_run ''tx'')"
    by (simp_all add: demo_restarted_def demo_run_def tr_IsPending_def)
  from restarted_run_not_stored [OF ex run _ this, of "\<lparr>db_runs = Map.empty, db_nextRun = 2, db_taskRuns = []\<rparr>"] show ?thesis
    using run s0(3) by (simp add: finishRun_fields)
qed

definition demo_row :: "nat \<Rightarrow> bool \<Rightarrow> nat task_run" where
  "demo_row i isDone = taskRunOf demo_tasks 1 \<lparr>rr_ID = 11 + i, rr_Task = i, rr_Result = (if isDone then \<lparr>Value = VAtom (AVal 7), Error = None\<rparr> else noResult),
     rr_Attempts = 1, rr_FinishedAt = isDone, rr_IsPending = (\<not> isDone)\<rparr>"

definition demo_db :: "nat task_run list \<Rightarrow> nat db" where
  "demo_db rows = \<lparr>db_runs = [1 \<mapsto> (NewRun [])\<lparr>r_ID := 1\<rparr>], db_nextRun = 2, db_taskRuns = rows\<rparr>"

lemma StoreRun_first:
  assumes "\<not> r_FinishedAt run" and "db_taskRuns db = []" and "tryAll upsertTaskRun (r_TaskRuns run) [] = Some rows"
  shows "\<exists>db' run2. StoreRun db run = Inr (db', run2, False) \<and> db_taskRuns db' = rows"
  using assms by (simp add: StoreRun_def Let_def newData_def run_ByDotID_def)

lemma demo_suspended:
  "\<exists>run' trrs db' run2. runner_run demo_tasks (demo_execution (demo_reports noResult True)) ((NewRun [])\<lparr>r_ID := 1\<rparr>) [] = Some (run', trrs) \<and>
     r_Pending run' \<and> \<not> r_FailSilently run' \<and> r_TaskRuns run' = [demo_row 0 True, demo_row 1 False] \<and>
     StoreRun (demo_db []) run' = Inr (db', run2, False) \<and> db_taskRuns db' = [demo_row 0 True, demo_row 1 False]"
proof -
  obtain s where s: "execEvents demo_tasks (demo_reports noResult True) demo_start = Some s" "pending s" "\<not> exiting s"
    "results s 0 = Some \<lparr>rr_ID = 11, rr_Task = 0, rr_Result = \<lparr>Value = VAtom (AVal 7), Error = None\<rparr>, rr_Attempts = 1, rr_FinishedAt = True, rr_IsPending = False\<rparr>"
    "results s 1 = Some \<lparr>rr_ID = 12, rr_Task = 1, rr_Result = noResult, rr_Attempts = 1, rr_FinishedAt = False, rr_IsPending = True\<rparr>"
    by (simp add: demo_reports_def demo_start_def demo_tasks_def sched_event_def enabled_def handleResult_def reportOf_def removeAt_def Let_def setVar_def
      Vars_Set_def TrimSpace_def is_space_def newMemoryTaskRun_def scheduleOutput_def completeOutput_def sendTask_def)
  let ?run = "(NewRun [])\<lparr>r_ID := 1\<rparr> :: nat run"
  let ?run' = "finishRun demo_tasks [0, 1] s ?run"
  have run: "runner_run demo_tasks (demo_execution (demo_reports noResult True)) ?run [] = Some (?run', taskRunResults [1, 0] s)"
    using s(1) demo_newScheduler by (simp add: runner_run_def demo_execution_def NewRun_def)
  have rows: "r_TaskRuns ?run' = [demo_row 0 True, demo_row 1 False]"
    using s(4,5) by (simp add: finishRun_fields List.map_filter_def addTaskRun_def demo_row_def demo_tasks_def)
  have "rowKey (demo_row 0 True) \<noteq> rowKey (demo_row 1 False)" "tr_ID (demo_row 0 True) \<noteq> tr_ID (demo_row 1 False)"
    by (simp_all add: rowKey_def demo_row_def taskRunOf_def demo_tasks_def)
  then have "tryAll upsertTaskRun [demo_row 0 True, demo_row 1 False] [] = Some [demo_row 0 True, demo_row 1 False]"
    by (simp add: upsertTaskRun_def sameKey_rowKey)
  then have "tryAll upsertTaskRun (r_TaskRuns ?run') [] = Some [demo_row 0 True, demo_row 1 False]" unfolding rows .
  moreover have "\<not> r_FinishedAt ?run'" "db_taskRuns (demo_db []) = []" using s(2) by (simp_all add: finishRun_fields NewRun_def demo_db_def)
  ultimately obtain db' run2 where "StoreRun (demo_db []) ?run' = Inr (db', run2, False)" "db_taskRuns db' = [demo_row 0 True, demo_row 1 False]"
    using StoreRun_first by blast
  moreover have "r_Pending ?run'" "\<not> r_FailSilently ?run'" using s(2,3) by (simp_all add: finishRun_fields)
  ultimately show ?thesis using run rows by blast
qed

theorem stored_run_resumes_witness:
  "\<exists>db' db'' run''. db_taskRuns db' = [demo_row 0 True, demo_row 1 False] \<and>
     UpdateTaskRunResult 12 \<lparr>Value = VAtom (AVal 9), Error = None\<rparr> db' = Some (Inr (db'', run'', True)) \<and>
     resumable demo_tasks (r_TaskRuns run'') \<and> finished_run (r_TaskRuns run'') ''tx''"
proof -
  let ?run = "(NewRun [])\<lparr>r_ID := 1\<rparr> :: nat run" and ?r = "\<lparr>Value = VAtom (AVal 9), Error = None\<rparr> :: nat result"
  obtain run' trrs db' run2 where run: "runner_run demo_tasks (demo_execution (demo_reports noResult True)) ?run [] = Some (run', trrs)"
    "r_Pending run'" "\<not> r_FailSilently run'" and rows: "r_TaskRuns run' = [demo_row 0 True, demo_row 1 False]"
    and stored: "StoreRun (demo_db []) run' = Inr (db', run2, False)" and rows': "db_taskRuns db' = [demo_row 0 True, demo_row 1 False]"
    using demo_suspended by (elim exE conjE) (rule that)
  have ex: "executed demo_tasks ?run (demo_execution (demo_reports noResult True))"
    using demo_executed [of ?run "demo_reports noResult True"] demo_resumable(2) demo_reported [of True noResult] by (simp add: NewRun_def runs_ok_def)
  have row: "tr_ID (demo_row 1 False) = 12" "tr_DotID (demo_row 1 False) = ''tx''" "tr_RunID (demo_row 1 False) = r_ID ?run" "tr_IsPending (demo_row 1 False)"
    "tr_ID (demo_row 0 True) = 11"
    by (simp_all add: demo_row_def taskRunOf_def demo_tasks_def tr_IsPending_def noResult_def OutputDB_def)
  have db: "db_taskRuns (demo_db []) = []" "db_runs (demo_db []) (r_ID ?run) \<noteq> None" "\<not> r_FinishedAt ?run" by (simp_all add: demo_db_def NewRun_def)
  have "\<exists>db'' run''. UpdateTaskRunResult (tr_ID (demo_row 1 False)) ?r db' = Some (Inr (db'', run'', True)) \<and> r_State run'' = RunStatusRunning \<and>
    resumable demo_tasks (r_TaskRuns run'') \<and> finished_run (r_TaskRuns run'') (tr_DotID (demo_row 1 False))"
    by (rule stored_run_resumes [OF ex run db(3) stored db(2), where ptask = "demo_row 1 False" and result = ?r])
      (simp_all add: db(1) rows rows' row del: One_nat_def)
  then show ?thesis unfolding row(1,2) using rows' by blast
qed

end
