(* ===== verification/Tx_Store.thy ===== *)
theory Tx_Store
  imports Gas_Bump "HOL-Library.Product_Lexorder"
begin

text \<open>
  The data of the transaction manager (\<^verbatim>\<open>core/chains/evm/txmgr\<close>): transactions and their attempts (\<^verbatim>\<open>models.go\<close>), the tables they
  are stored in with the constraints of the migrations (not those on single values that hold by type, or that only bound them), the errors of RPC nodes (\<^verbatim>\<open>chains/evm/client/errors.go\<close>), the checks
  before transmission (\<^verbatim>\<open>transmitchecker.go\<close>), the building of attempts (\<^verbatim>\<open>attempts.go\<close>), the nonces of the keys
  (\<^verbatim>\<open>services/keystore\<close>). The invariant of a key, and what the users of the tables must not do to each other.

  Other processes share the tables. The state counts the queries and requests; \<open>w_others w t\<close> is what the others do to the tables at
  the \<open>t\<close>th of them. A database transaction runs as a whole or not at all.
\<close>

section \<open>Transactions and attempts\<close>

type_synonym bytes = "8 word list"
type_synonym uuid = nat
type_synonym time = int

text \<open>A nullable JSON column; reading a malformed one is an error.\<close>

datatype 'a json = Null | Malformed | Json 'a

datatype tx_state = TxUnstarted | TxInProgress | TxFatalError | TxUnconfirmed | TxConfirmed | TxConfirmedMissingReceipt

datatype attempt_state = AttInProgress | AttInsufficientEth | AttBroadcast

datatype checker_type = CheckerNone | CheckerSimulate | CheckerVRFV1 | CheckerVRFV2 | CheckerOther string

record checker_spec =
  CheckerType :: checker_type
  VRFCoordinatorAddress :: "address option"
  VRFRequestBlockNumber :: "int option"

text \<open>The fields of the metadata that are only logged are left out. An access list is in its stored form.\<close>

record tx_meta =
  FailOnRevert :: "bool option"
  RequestID :: "hash option"
  FwdrDestAddress :: "address option"

record eth_tx =
  etx_ID :: int
  etx_Nonce :: "int option"
  etx_FromAddress :: address
  etx_ToAddress :: address
  etx_EncodedPayload :: bytes
  etx_Value :: wei
  etx_GasLimit :: u32
  etx_Error :: "string option"
  etx_BroadcastAt :: "time option"
  etx_InitialBroadcastAt :: "time option"
  etx_CreatedAt :: time
  etx_State :: tx_state
  etx_Meta :: "tx_meta json"
  etx_Subject :: "uuid option"
  etx_EVMChainID :: int
  etx_PipelineTaskRunID :: "uuid option"
  etx_MinConfirmations :: "u32 option"
  etx_AccessList :: "bytes option"
  etx_TransmitChecker :: "checker_spec json"

text \<open>\<open>eta_ID = 0\<close>: not stored yet.\<close>

record eth_tx_attempt =
  eta_ID :: int
  eta_EthTxID :: int
  eta_GasPrice :: "wei option"
  eta_GasTipCap :: "wei option"
  eta_GasFeeCap :: "wei option"
  eta_ChainSpecificGasLimit :: u32
  eta_SignedRawTx :: bytes
  eta_Hash :: hash
  eta_BroadcastBeforeBlockNum :: "int option"
  eta_State :: attempt_state
  eta_TxType :: int

record eth_receipt =
  rcp_TxHash :: hash
  rcp_BlockHash :: hash
  rcp_BlockNumber :: int
  rcp_TransactionIndex :: nat
  rcp_Status :: nat

definition eta_DynamicFee :: "eth_tx_attempt \<Rightarrow> dynamic_fee" where
  "eta_DynamicFee a = \<lparr>FeeCap = eta_GasFeeCap a, TipCap = eta_GasTipCap a\<rparr>"

definition GetMeta :: "eth_tx \<Rightarrow> (tx_meta option) option" where
  "GetMeta e = (case etx_Meta e of Null \<Rightarrow> Some None | Malformed \<Rightarrow> None | Json m \<Rightarrow> Some (Some m))"

definition GetChecker :: "eth_tx \<Rightarrow> checker_spec option" where
  "GetChecker e = (case etx_TransmitChecker e of
     Null \<Rightarrow> Some \<lparr>CheckerType = CheckerNone, VRFCoordinatorAddress = None, VRFRequestBlockNumber = None\<rparr>
   | Malformed \<Rightarrow> None | Json spec \<Rightarrow> Some spec)"

section \<open>Errors of RPC nodes\<close>

datatype error_type = NonceTooLow | ReplacementTransactionUnderpriced | LimitReached | TransactionAlreadyInMempool
  | TerminallyUnderpriced | InsufficientEth | TxFeeExceedsCap | L2FeeTooLow | L2FeeTooHigh | L2Full | TransactionAlreadyMined | Fatal

text \<open>The messages of one kind of client; the regular expressions are predicates.\<close>

type_synonym client_errors = "error_type \<rightharpoonup> (string \<Rightarrow> bool)"

record rpc_error =
  err_text :: string
  err_cause :: string    \<comment> \<open>the text of the innermost error\<close>
  err_deadline :: bool   \<comment> \<open>\<^verbatim>\<open>errors.Is(err, context.DeadlineExceeded)\<close>\<close>

record tx_send_error =
  se_fatal :: bool
  se_err :: rpc_error

definition matchesAny :: "client_errors list \<Rightarrow> error_type \<Rightarrow> string \<Rightarrow> bool" where
  "matchesAny clients k str \<longleftrightarrow> (\<exists>c \<in> set clients. case c k of None \<Rightarrow> False | Some re \<Rightarrow> re str)"

definition se_is :: "client_errors list \<Rightarrow> error_type \<Rightarrow> tx_send_error option \<Rightarrow> bool" where
  "se_is clients k s \<longleftrightarrow> (case s of None \<Rightarrow> False | Some e \<Rightarrow> matchesAny clients k (err_cause (se_err e)))"

definition se_Fatal :: "tx_send_error option \<Rightarrow> bool" where
  "se_Fatal s \<longleftrightarrow> (case s of None \<Rightarrow> False | Some e \<Rightarrow> se_fatal e)"

definition se_IsTimeout :: "tx_send_error option \<Rightarrow> bool" where
  "se_IsTimeout s \<longleftrightarrow> (case s of None \<Rightarrow> False | Some e \<Rightarrow> err_deadline (se_err e))"

definition isFatalSendError :: "client_errors list \<Rightarrow> rpc_error \<Rightarrow> bool" where
  "isFatalSendError clients e = matchesAny clients Fatal (err_cause e)"

definition NewSendError :: "client_errors list \<Rightarrow> rpc_error option \<Rightarrow> tx_send_error option" where
  "NewSendError clients e = map_option (\<lambda>e. \<lparr>se_fatal = isFatalSendError clients e, se_err = e\<rparr>) e"

definition NewFatalSendError :: "rpc_error option \<Rightarrow> tx_send_error option" where
  "NewFatalSendError e = map_option (\<lambda>e. \<lparr>se_fatal = True, se_err = e\<rparr>) e"

section \<open>Tables\<close>

record key_state =
  ks_NextNonce :: int
  ks_Disabled :: bool

record tx_db =
  t_txes :: "eth_tx list"
  t_attempts :: "eth_tx_attempt list"
  t_receipts :: "eth_receipt list"
  t_keys :: "int \<times> address \<rightharpoonup> key_state"
  t_nextTx :: int
  t_nextAttempt :: int

definition tx_fsm_ok :: "eth_tx \<Rightarrow> bool" where
  "tx_fsm_ok t = (case etx_State t of
     TxUnstarted \<Rightarrow> etx_Nonce t = None \<and> etx_Error t = None \<and> etx_BroadcastAt t = None \<and> etx_InitialBroadcastAt t = None
   | TxInProgress \<Rightarrow> etx_Nonce t \<noteq> None \<and> etx_Error t = None \<and> etx_BroadcastAt t = None \<and> etx_InitialBroadcastAt t = None
   | TxFatalError \<Rightarrow> etx_Nonce t = None \<and> etx_Error t \<noteq> None
   | _ \<Rightarrow> etx_Nonce t \<noteq> None \<and> etx_Error t = None \<and> etx_BroadcastAt t \<noteq> None \<and> etx_InitialBroadcastAt t \<noteq> None)"

definition fee_ok :: "eth_tx_attempt \<Rightarrow> bool" where
  "fee_ok a \<longleftrightarrow> eta_TxType a = 0 \<and> eta_GasPrice a \<noteq> None \<and> eta_GasTipCap a = None \<and> eta_GasFeeCap a = None \<or>
     eta_TxType a = 2 \<and> eta_GasPrice a = None \<and>
     (case (eta_GasTipCap a, eta_GasFeeCap a) of (Some tip, Some fee) \<Rightarrow> tip \<le> fee | _ \<Rightarrow> False)"

definition attempt_ok :: "eth_tx_attempt \<Rightarrow> bool" where
  "attempt_ok a \<longleftrightarrow> (eta_State a = AttBroadcast \<or> eta_BroadcastBeforeBlockNum a = None) \<and> fee_ok a \<and> 0 < eta_ChainSpecificGasLimit a"

text \<open>A unique index: rows with the same key that is not NULL have the same \<open>ID\<close>.\<close>

definition uniq :: "('r \<Rightarrow> int) \<Rightarrow> ('r \<Rightarrow> 'k option) \<Rightarrow> 'r list \<Rightarrow> bool" where
  "uniq rid key rows \<longleftrightarrow> (\<forall>x \<in> set rows. \<forall>y \<in> set rows. key x = None \<or> key x \<noteq> key y \<or> rid x = rid y)"

definition etx_key :: "eth_tx \<Rightarrow> int \<times> address" where
  "etx_key t = (etx_EVMChainID t, etx_FromAddress t)"

definition nonceKey :: "eth_tx \<Rightarrow> ((int \<times> address) \<times> int) option" where
  "nonceKey t = map_option (\<lambda>n. (etx_key t, n)) (etx_Nonce t)"

definition inProgressKey :: "eth_tx \<Rightarrow> (int \<times> address) option" where
  "inProgressKey t = (if etx_State t = TxInProgress then Some (etx_key t) else None)"

definition unbroadcastKey :: "eth_tx_attempt \<Rightarrow> int option" where
  "unbroadcastKey a = (if eta_State a \<noteq> AttBroadcast then Some (eta_EthTxID a) else None)"

definition gasPriceKey :: "eth_tx_attempt \<Rightarrow> (int \<times> wei) option" where
  "gasPriceKey a = map_option (\<lambda>p. (eta_EthTxID a, p)) (eta_GasPrice a)"

definition constraints :: "tx_db \<Rightarrow> bool" where
  "constraints db \<longleftrightarrow>
     distinct (map etx_ID (t_txes db)) \<and> (\<forall>t \<in> set (t_txes db). tx_fsm_ok t) \<and> uniq etx_ID nonceKey (t_txes db) \<and>
     uniq etx_ID inProgressKey (t_txes db) \<and> uniq etx_ID etx_PipelineTaskRunID (t_txes db) \<and>
     (\<forall>t \<in> set (t_txes db). t_keys db (etx_key t) \<noteq> None) \<and>
     distinct (map eta_ID (t_attempts db)) \<and> distinct (map eta_Hash (t_attempts db)) \<and>
     (\<forall>a \<in> set (t_attempts db). attempt_ok a) \<and> uniq eta_ID unbroadcastKey (t_attempts db) \<and>
     uniq eta_ID gasPriceKey (t_attempts db) \<and> (\<forall>a \<in> set (t_attempts db). eta_EthTxID a \<in> etx_ID ` set (t_txes db)) \<and>
     (\<forall>r \<in> set (t_receipts db). rcp_TxHash r \<in> eta_Hash ` set (t_attempts db))"

text \<open>Updates of the rows with an \<open>ID\<close>, and deletions, which go on to the rows that refer to the deleted ones.\<close>

definition update_tx :: "int \<Rightarrow> (eth_tx \<Rightarrow> eth_tx) \<Rightarrow> tx_db \<Rightarrow> tx_db" where
  "update_tx i f db = db\<lparr>t_txes := map (\<lambda>t. if etx_ID t = i then f t else t) (t_txes db)\<rparr>"

definition update_attempt :: "int \<Rightarrow> (eth_tx_attempt \<Rightarrow> eth_tx_attempt) \<Rightarrow> tx_db \<Rightarrow> tx_db" where
  "update_attempt i f db = db\<lparr>t_attempts := map (\<lambda>a. if eta_ID a = i then f a else a) (t_attempts db)\<rparr>"

definition delete_attempts :: "(eth_tx_attempt \<Rightarrow> bool) \<Rightarrow> tx_db \<Rightarrow> tx_db" where
  "delete_attempts P db =
    (let gone = eta_Hash ` set (filter P (t_attempts db))
     in db\<lparr>t_attempts := filter (\<lambda>a. \<not> P a) (t_attempts db), t_receipts := filter (\<lambda>r. rcp_TxHash r \<notin> gone) (t_receipts db)\<rparr>)"

definition delete_txes :: "(eth_tx \<Rightarrow> bool) \<Rightarrow> tx_db \<Rightarrow> tx_db" where
  "delete_txes P db =
    (let gone = etx_ID ` set (filter P (t_txes db))
     in delete_attempts (\<lambda>a. eta_EthTxID a \<in> gone) (db\<lparr>t_txes := filter (\<lambda>t. \<not> P t) (t_txes db)\<rparr>))"

definition insert_tx :: "eth_tx \<Rightarrow> tx_db \<Rightarrow> tx_db \<times> eth_tx" where
  "insert_tx t db =
    (let t' = t\<lparr>etx_ID := t_nextTx db\<rparr> in (db\<lparr>t_txes := t_txes db @ [t'], t_nextTx := t_nextTx db + 1\<rparr>, t'))"

definition insert_attempt :: "eth_tx_attempt \<Rightarrow> tx_db \<Rightarrow> tx_db \<times> eth_tx_attempt" where
  "insert_attempt a db =
    (let a' = a\<lparr>eta_ID := t_nextAttempt db\<rparr>
     in (db\<lparr>t_attempts := t_attempts db @ [a'], t_nextAttempt := t_nextAttempt db + 1\<rparr>, a'))"

definition find_tx :: "int \<Rightarrow> tx_db \<Rightarrow> eth_tx option" where
  "find_tx i db = find (\<lambda>t. etx_ID t = i) (t_txes db)"

text \<open>\<^verbatim>\<open>ORDER BY gas_price DESC, gas_tip_cap DESC\<close>, where NULL comes first.\<close>

definition desc_key :: "wei option \<Rightarrow> int \<times> int" where
  "desc_key p = (case p of None \<Rightarrow> (0, 0) | Some x \<Rightarrow> (1, - x))"

definition attempt_order :: "eth_tx_attempt \<Rightarrow> (int \<times> int) \<times> (int \<times> int)" where
  "attempt_order a = (desc_key (eta_GasPrice a), desc_key (eta_GasTipCap a))"

definition loadEthTxAttempts :: "int \<Rightarrow> tx_db \<Rightarrow> eth_tx_attempt list" where
  "loadEthTxAttempts i db = sort_key attempt_order (filter (\<lambda>a. eta_EthTxID a = i) (t_attempts db))"

section \<open>Configuration, surroundings and state\<close>

record txm_config =
  c_chainID :: int
  c_gas :: gas_config
  KeySpecificMaxGasPriceWei :: "address \<Rightarrow> wei"
  EvmMaxInFlightTransactions :: u32
  EvmMaxQueuedTransactions :: u64
  EvmUseForwarders :: bool
  ChainIsL2 :: bool
  EvmGasBumpTxDepth :: "16 word"
  c_FinalityDepth :: u32
  EvmRPCDefaultBatchSize :: u32
  EthTxReaperThreshold :: int

datatype resume_result = Resumed | ResumeNoRows | ResumeFailed

datatype call_result = CallOK | CallRPCError string | CallFailed

record unsigned_tx =
  u_Nonce :: u64
  u_To :: address
  u_Value :: wei
  u_Gas :: u64
  u_GasPrice :: "wei option"
  u_GasTipCap :: "wei option"
  u_GasFeeCap :: "wei option"
  u_Data :: bytes
  u_AccessList :: "bytes option"

text \<open>
  What the code relies on but does not define: the RPC node, the contracts it reads, the key store's signatures, the gas
  estimator, the clock, the database (\<open>w_ok w t\<close>: the query succeeds) and the other users of its tables, the pipeline's callback. Answers
  may depend on the time, the number of queries and requests so far.
\<close>

record world =
  w_clients :: "client_errors list"
  w_SendRaw :: "nat \<Rightarrow> bytes \<Rightarrow> rpc_error option"
  w_PendingNonceAt :: "nat \<Rightarrow> address \<Rightarrow> u64 option"
  w_EthCall :: "nat \<Rightarrow> eth_tx \<Rightarrow> u32 \<Rightarrow> call_result"
  w_VRFContract :: "address \<Rightarrow> bool"
  w_VRFV1Callback :: "nat \<Rightarrow> address \<Rightarrow> hash \<Rightarrow> bool option"     \<comment> \<open>is the callback empty?\<close>
  w_LatestHeader :: "nat \<Rightarrow> int option"
  w_VRFV2Commitment :: "nat \<Rightarrow> address \<Rightarrow> int \<Rightarrow> hash \<Rightarrow> bool option"
  w_SignTx :: "address \<Rightarrow> int \<Rightarrow> unsigned_tx \<Rightarrow> (hash \<times> bytes) option"
  w_Decodes :: "bytes \<Rightarrow> rpc_error option"                          \<comment> \<open>the error of decoding a signed transaction\<close>
  w_KeyRing :: "address \<Rightarrow> bool"
  w_ForwardedPayload :: "address \<Rightarrow> bytes \<Rightarrow> bytes option"
  w_GetLegacyGas :: "nat \<Rightarrow> bytes \<Rightarrow> u32 \<Rightarrow> wei \<Rightarrow> bool \<Rightarrow> gas_error + wei \<times> u32"
  w_BumpLegacyGas :: "nat \<Rightarrow> wei \<Rightarrow> u32 \<Rightarrow> wei \<Rightarrow> eth_tx_attempt list \<Rightarrow> gas_error + wei \<times> u32"
  w_GetDynamicFee :: "nat \<Rightarrow> u32 \<Rightarrow> wei \<Rightarrow> gas_error + dynamic_fee \<times> u32"
  w_BumpDynamicFee :: "nat \<Rightarrow> dynamic_fee \<Rightarrow> u32 \<Rightarrow> wei \<Rightarrow> eth_tx_attempt list \<Rightarrow> gas_error + dynamic_fee \<times> u32"
  w_now :: "nat \<Rightarrow> time"
  w_ok :: "nat \<Rightarrow> bool"
  w_others :: "nat \<Rightarrow> tx_db \<Rightarrow> tx_db"
  w_Resume :: "(nat \<Rightarrow> uuid \<Rightarrow> string \<Rightarrow> resume_result) option"

text \<open>The tables, the key states in memory, the time, and what went out: transactions to the node and errors to the pipeline.\<close>

record txm =
  s_db :: tx_db
  s_mem :: "int \<times> address \<rightharpoonup> key_state"
  s_clock :: nat
  s_sent :: "bytes list"
  s_resumed :: "(uuid \<times> string) list"

datatype tx_error =
    QueryFailed
  | ConstraintViolation
  | NoRows
  | EthTxRemoved
  | WrongState
  | AttemptHasNoID
  | ErrorNotSet
  | NotOneUnsentAttempt
  | KeyNotFound
  | KeyStateNotFound
  | KeyDisabled
  | QueueFull
  | ZeroAddress
  | BadCheckerSpec
  | BadCheckerJSON
  | ImpossiblyLargeFee
  | FeeCapBelowTip
  | GasAboveMax
  | GasBelowMin
  | SigningFailed
  | EstimatorFailed gas_error
  | BumpCeiling
  | UnknownTxType
  | NoReestimation
  | L2ErrorOnL1
  | SendFailed rpc_error
  | PendingNonceFailed
  | NonceOverflow
  | ResumePipelineFailed
  | NoAttempts
  | NotHighestAttempt
  | OptimisticLock
  | Panicked

definition tick :: "world \<Rightarrow> txm \<Rightarrow> txm" where
  "tick w s = s\<lparr>s_clock := s_clock s + 1, s_db := w_others w (s_clock s) (s_db s)\<rparr>"

definition query :: "world \<Rightarrow> (tx_db \<Rightarrow> 'a) \<Rightarrow> txm \<Rightarrow> (tx_error + 'a) \<times> txm" where
  "query w q s = (if w_ok w (s_clock s) then (Inr (q (s_db s)), tick w s) else (Inl QueryFailed, tick w s))"

definition db_transaction :: "world \<Rightarrow> (tx_db \<Rightarrow> tx_error + tx_db \<times> 'a) \<Rightarrow> txm \<Rightarrow> (tx_error + 'a) \<times> txm" where
  "db_transaction w f s =
    (if \<not> w_ok w (s_clock s) then (Inl QueryFailed, tick w s)
     else case f (s_db s) of Inl e \<Rightarrow> (Inl e, tick w s)
          | Inr (db, x) \<Rightarrow> if constraints db then (Inr x, tick w (s\<lparr>s_db := db\<rparr>)) else (Inl ConstraintViolation, tick w s))"

text \<open>An update that is not part of a larger transaction and cannot fail otherwise.\<close>

definition exec :: "world \<Rightarrow> (tx_db \<Rightarrow> tx_db) \<Rightarrow> txm \<Rightarrow> (tx_error + unit) \<times> txm" where
  "exec w f s = db_transaction w (\<lambda>db. Inr (f db, ())) s"

section \<open>Nonces of keys\<close>

definition keyEnabled :: "int \<times> address \<Rightarrow> tx_db \<Rightarrow> key_state option" where
  "keyEnabled k db = (case t_keys db k of None \<Rightarrow> None | Some x \<Rightarrow> if ks_Disabled x then None else Some x)"

definition getNextNonce :: "int \<times> address \<Rightarrow> tx_db \<Rightarrow> int option" where
  "getNextNonce k db = map_option ks_NextNonce (keyEnabled k db)"

definition incrementNextNonce :: "int \<times> address \<Rightarrow> int \<Rightarrow> tx_db \<Rightarrow> (tx_db \<times> int) option" where
  "incrementNextNonce k currentNonce db = (case keyEnabled k db of None \<Rightarrow> None
     | Some x \<Rightarrow> if ks_NextNonce x = currentNonce
         then Some (db\<lparr>t_keys := (t_keys db)(k \<mapsto> x\<lparr>ks_NextNonce := currentNonce + 1\<rparr>)\<rparr>, currentNonce + 1) else None)"

text \<open>The state in memory, which must be there and enabled, is set to the nonce of the table.\<close>

definition setMemNonce :: "int \<times> address \<Rightarrow> int \<Rightarrow> (int \<times> address \<rightharpoonup> key_state) \<Rightarrow> tx_error + (int \<times> address \<rightharpoonup> key_state)" where
  "setMemNonce k nonce mem = (case mem k of None \<Rightarrow> Inl KeyStateNotFound
     | Some x \<Rightarrow> if ks_Disabled x then Inl KeyDisabled else Inr (mem(k \<mapsto> x\<lparr>ks_NextNonce := nonce\<rparr>)))"

definition keystore_GetNextNonce :: "world \<Rightarrow> int \<times> address \<Rightarrow> txm \<Rightarrow> (tx_error + int) \<times> txm" where
  "keystore_GetNextNonce w k s =
    (if \<not> w_KeyRing w (snd k) then (Inl KeyNotFound, s)
     else case query w (getNextNonce k) s of
       (Inl e, s1) \<Rightarrow> (Inl e, s1)
     | (Inr None, s1) \<Rightarrow> (Inl NoRows, s1)
     | (Inr (Some nonce), s1) \<Rightarrow> (case setMemNonce k nonce (s_mem s1) of
         Inl e \<Rightarrow> (Inl e, s1) | Inr mem \<Rightarrow> (Inr nonce, s1\<lparr>s_mem := mem\<rparr>)))"

text \<open>Part of a transaction, so the tables and the memory are separate. The next nonce is an unbounded number here; the column is a
  \<^verbatim>\<open>bigint\<close>, and the update of a nonce of \<open>2 ^ 63 - 1\<close> would fail. The properties that tell the nonces that are used bound them
  below that.\<close>

definition keystore_IncrementNextNonce :: "world \<Rightarrow> int \<times> address \<Rightarrow> int \<Rightarrow> tx_db \<Rightarrow> (int \<times> address \<rightharpoonup> key_state) \<Rightarrow>
    tx_error + tx_db \<times> (int \<times> address \<rightharpoonup> key_state)" where
  "keystore_IncrementNextNonce w k currentNonce db mem =
    (if \<not> w_KeyRing w (snd k) then Inl KeyNotFound
     else case incrementNextNonce k currentNonce db of None \<Rightarrow> Inl NoRows
       | Some (db1, nonce) \<Rightarrow> (case setMemNonce k nonce mem of Inl e \<Rightarrow> Inl e | Inr mem1 \<Rightarrow> Inr (db1, mem1)))"

definition keystore_Enable :: "world \<Rightarrow> int \<times> address \<Rightarrow> txm \<Rightarrow> (tx_error + unit) \<times> txm" where
  "keystore_Enable w k s =
    (if \<not> w_KeyRing w (snd k) then (Inl KeyNotFound, s)
     else case db_transaction w (\<lambda>db. let x = (case t_keys db k of None \<Rightarrow> \<lparr>ks_NextNonce = 0, ks_Disabled = False\<rparr> | Some x \<Rightarrow> x\<lparr>ks_Disabled := False\<rparr>)
              in Inr (db\<lparr>t_keys := (t_keys db)(k \<mapsto> x)\<rparr>, x)) s of
       (Inl e, s1) \<Rightarrow> (Inl e, s1)
     | (Inr x, s1) \<Rightarrow> (Inr (), s1\<lparr>s_mem := (s_mem s1)(k \<mapsto> x)\<rparr>))"

text \<open>Disabling a key without a state in memory dereferences nil.\<close>

definition keystore_Disable :: "world \<Rightarrow> int \<times> address \<Rightarrow> txm \<Rightarrow> (tx_error + unit) \<times> txm" where
  "keystore_Disable w k s =
    (if \<not> w_KeyRing w (snd k) then (Inl KeyNotFound, s)
     else case exec w (\<lambda>db. db\<lparr>t_keys := (t_keys db)(k := map_option (\<lambda>x. x\<lparr>ks_Disabled := True\<rparr>) (t_keys db k))\<rparr>) s of
       (Inl e, s1) \<Rightarrow> (Inl e, s1)
     | (Inr _, s1) \<Rightarrow> (case s_mem s1 k of None \<Rightarrow> (Inl Panicked, s1)
         | Some x \<Rightarrow> (Inr (), s1\<lparr>s_mem := (s_mem s1)(k \<mapsto> x\<lparr>ks_Disabled := True\<rparr>)\<rparr>)))"

definition keystore_Reset :: "world \<Rightarrow> int \<times> address \<Rightarrow> int \<Rightarrow> txm \<Rightarrow> (tx_error + unit) \<times> txm" where
  "keystore_Reset w k nonce s =
    (case db_transaction w (\<lambda>db. case t_keys db k of None \<Rightarrow> Inr (db, False)
           | Some x \<Rightarrow> Inr (db\<lparr>t_keys := (t_keys db)(k \<mapsto> x\<lparr>ks_NextNonce := nonce\<rparr>)\<rparr>, True)) s of
       (Inl e, s1) \<Rightarrow> (Inl e, s1)
     | (Inr False, s1) \<Rightarrow> (Inl KeyStateNotFound, s1)
     | (Inr True, s1) \<Rightarrow> (case s_mem s1 k of None \<Rightarrow> (Inl KeyStateNotFound, s1)
         | Some x \<Rightarrow> (Inr (), s1\<lparr>s_mem := (s_mem s1)(k \<mapsto> x\<lparr>ks_NextNonce := nonce\<rparr>)\<rparr>)))"

definition keystore_CheckEnabled :: "world \<Rightarrow> int \<times> address \<Rightarrow> txm \<Rightarrow> tx_error option" where
  "keystore_CheckEnabled w k s =
    (if \<not> w_KeyRing w (snd k) then Some KeyNotFound
     else case s_mem s k of None \<Rightarrow> Some KeyStateNotFound | Some x \<Rightarrow> if ks_Disabled x then Some KeyDisabled else None)"

section \<open>Checks before transmission\<close>

datatype checker = NoChecker | SimulateChecker | VRFV1Checker address | VRFV2Checker address int

datatype check_result = CheckPassed | CheckCanceled | CheckFailed string | CheckPanicked

definition BuildChecker :: "world \<Rightarrow> checker_spec \<Rightarrow> checker option" where
  "BuildChecker w spec =
    (case CheckerType spec of
       CheckerSimulate \<Rightarrow> Some SimulateChecker
     | CheckerVRFV1 \<Rightarrow> (case VRFCoordinatorAddress spec of None \<Rightarrow> None
         | Some a \<Rightarrow> if w_VRFContract w a then Some (VRFV1Checker a) else None)
     | CheckerVRFV2 \<Rightarrow> (case VRFCoordinatorAddress spec of None \<Rightarrow> None
         | Some a \<Rightarrow> if \<not> w_VRFContract w a then None
             else (case VRFRequestBlockNumber spec of None \<Rightarrow> None | Some n \<Rightarrow> Some (VRFV2Checker a n)))
     | CheckerNone \<Rightarrow> Some NoChecker
     | CheckerOther _ \<Rightarrow> None)"

text \<open>A check that cannot decide lets the transaction pass. The metadata of a VRF transaction without a request ID is a nil dereference.\<close>

definition Check :: "world \<Rightarrow> checker \<Rightarrow> nat \<Rightarrow> eth_tx \<Rightarrow> eth_tx_attempt \<Rightarrow> check_result" where
  "Check w c n tx a =
    (case c of
       NoChecker \<Rightarrow> CheckPassed
     | SimulateChecker \<Rightarrow> (case w_EthCall w n tx (eta_ChainSpecificGasLimit a) of CallRPCError e \<Rightarrow> CheckFailed e | _ \<Rightarrow> CheckPassed)
     | VRFV1Checker addr \<Rightarrow>
         (case GetMeta tx of Some (Some m) \<Rightarrow>
            (case RequestID m of None \<Rightarrow> CheckPanicked
             | Some reqID \<Rightarrow> if w_VRFV1Callback w n addr reqID = Some True then CheckFailed ''request already fulfilled'' else CheckPassed)
          | _ \<Rightarrow> CheckPassed)
     | VRFV2Checker addr reqBlock \<Rightarrow>
         (case GetMeta tx of Some (Some m) \<Rightarrow>
            (case w_LatestHeader w n of None \<Rightarrow> CheckPassed
             | Some h \<Rightarrow> (case RequestID m of None \<Rightarrow> CheckPanicked
                | Some reqID \<Rightarrow> if w_VRFV2Commitment w n addr (bigmath_Max (h - 5) reqBlock) reqID = Some True
                    then CheckFailed ''request already fulfilled'' else CheckPassed))
          | _ \<Rightarrow> CheckPassed))"

section \<open>Attempts\<close>

definition Max256BitUInt :: int where "Max256BitUInt = 2 ^ 256"

definition validateLegacyGas :: "txm_config \<Rightarrow> wei \<Rightarrow> eth_tx \<Rightarrow> tx_error option" where
  "validateLegacyGas cfg gasPrice etx =
    (if gasPrice > KeySpecificMaxGasPriceWei cfg (etx_FromAddress etx) then Some GasAboveMax
     else if gasPrice < EvmMinGasPriceWei (c_gas cfg) then Some GasBelowMin else None)"

definition validateDynamicFeeGas :: "txm_config \<Rightarrow> dynamic_fee \<Rightarrow> eth_tx \<Rightarrow> tx_error + wei \<times> wei" where
  "validateDynamicFeeGas cfg fee etx =
    (case (TipCap fee, FeeCap fee) of
       (Some tip, Some feeCap) \<Rightarrow>
         (if feeCap > Max256BitUInt \<or> tip > Max256BitUInt then Inl ImpossiblyLargeFee
          else if feeCap < tip then Inl FeeCapBelowTip
          else if feeCap > KeySpecificMaxGasPriceWei cfg (etx_FromAddress etx) then Inl GasAboveMax
          else if tip < EvmGasTipCapMinimum (c_gas cfg) then Inl GasBelowMin
          else Inr (tip, feeCap))
     | _ \<Rightarrow> Inl Panicked)"

definition newLegacyTransaction :: "u64 \<Rightarrow> address \<Rightarrow> wei \<Rightarrow> u32 \<Rightarrow> wei \<Rightarrow> bytes \<Rightarrow> unsigned_tx" where
  "newLegacyTransaction nonce to val gasLimit gasPrice data =
    \<lparr>u_Nonce = nonce, u_To = to, u_Value = val, u_Gas = ucast gasLimit, u_GasPrice = Some gasPrice, u_GasTipCap = None,
     u_GasFeeCap = None, u_Data = data, u_AccessList = None\<rparr>"

definition newDynamicFeeTransaction :: "u64 \<Rightarrow> address \<Rightarrow> wei \<Rightarrow> u32 \<Rightarrow> wei \<Rightarrow> wei \<Rightarrow> bytes \<Rightarrow> bytes option \<Rightarrow> unsigned_tx" where
  "newDynamicFeeTransaction nonce to val gasLimit gasTipCap gasFeeCap data accessList =
    \<lparr>u_Nonce = nonce, u_To = to, u_Value = val, u_Gas = ucast gasLimit, u_GasPrice = None, u_GasTipCap = Some gasTipCap,
     u_GasFeeCap = Some gasFeeCap, u_Data = data, u_AccessList = accessList\<rparr>"

definition newSignedAttempt :: "world \<Rightarrow> txm_config \<Rightarrow> eth_tx \<Rightarrow> unsigned_tx \<Rightarrow> tx_error + eth_tx_attempt" where
  "newSignedAttempt w cfg etx tx =
    (case w_SignTx w (etx_FromAddress etx) (c_chainID cfg) tx of None \<Rightarrow> Inl SigningFailed
     | Some (h, raw) \<Rightarrow> Inr \<lparr>eta_ID = 0, eta_EthTxID = etx_ID etx, eta_GasPrice = None, eta_GasTipCap = None, eta_GasFeeCap = None,
         eta_ChainSpecificGasLimit = 0, eta_SignedRawTx = raw, eta_Hash = h, eta_BroadcastBeforeBlockNum = None,
         eta_State = AttInProgress, eta_TxType = 0\<rparr>)"

definition NewLegacyAttempt :: "world \<Rightarrow> txm_config \<Rightarrow> eth_tx \<Rightarrow> wei \<Rightarrow> u32 \<Rightarrow> tx_error + eth_tx_attempt" where
  "NewLegacyAttempt w cfg etx gasPrice gasLimit =
    (case validateLegacyGas cfg gasPrice etx of Some e \<Rightarrow> Inl e
     | None \<Rightarrow> case etx_Nonce etx of None \<Rightarrow> Inl Panicked
       | Some nonce \<Rightarrow>
         (case newSignedAttempt w cfg etx (newLegacyTransaction (to_u64 nonce) (etx_ToAddress etx) (etx_Value etx) gasLimit gasPrice
               (etx_EncodedPayload etx)) of
            Inl e \<Rightarrow> Inl e
          | Inr a \<Rightarrow> Inr (a\<lparr>eta_GasPrice := Some gasPrice, eta_TxType := 0, eta_ChainSpecificGasLimit := gasLimit\<rparr>)))"

definition NewDynamicFeeAttempt :: "world \<Rightarrow> txm_config \<Rightarrow> eth_tx \<Rightarrow> dynamic_fee \<Rightarrow> u32 \<Rightarrow> tx_error + eth_tx_attempt" where
  "NewDynamicFeeAttempt w cfg etx fee gasLimit =
    (case validateDynamicFeeGas cfg fee etx of Inl e \<Rightarrow> Inl e
     | Inr (tip, feeCap) \<Rightarrow> case etx_Nonce etx of None \<Rightarrow> Inl Panicked
       | Some nonce \<Rightarrow>
         (case newSignedAttempt w cfg etx (newDynamicFeeTransaction (to_u64 nonce) (etx_ToAddress etx) (etx_Value etx) gasLimit tip feeCap
               (etx_EncodedPayload etx) (etx_AccessList etx)) of
            Inl e \<Rightarrow> Inl e
          | Inr a \<Rightarrow> Inr (a\<lparr>eta_GasTipCap := Some tip, eta_GasFeeCap := Some feeCap, eta_ChainSpecificGasLimit := gasLimit, eta_TxType := 2\<rparr>)))"

text \<open>A transaction the node already has in its mempool counts as sent.\<close>

definition sendTransaction :: "world \<Rightarrow> eth_tx_attempt \<Rightarrow> txm \<Rightarrow> tx_send_error option \<times> txm" where
  "sendTransaction w a s =
    (case w_Decodes w (eta_SignedRawTx a) of
       Some e \<Rightarrow> (NewFatalSendError (Some e), s)
     | None \<Rightarrow>
         (let sendErr = NewSendError (w_clients w) (w_SendRaw w (s_clock s) (eta_SignedRawTx a));
              s1 = tick w (s\<lparr>s_sent := s_sent s @ [eta_SignedRawTx a]\<rparr>)
          in if se_is (w_clients w) TransactionAlreadyInMempool sendErr then (None, s1) else (sendErr, s1)))"

definition saveReplacementInProgressAttempt :: "world \<Rightarrow> eth_tx_attempt \<Rightarrow> eth_tx_attempt \<Rightarrow> txm \<Rightarrow> (tx_error + eth_tx_attempt) \<times> txm" where
  "saveReplacementInProgressAttempt w oldAttempt replacement s =
    (if eta_State oldAttempt \<noteq> AttInProgress \<or> eta_State replacement \<noteq> AttInProgress then (Inl WrongState, s)
     else if eta_ID oldAttempt = 0 then (Inl AttemptHasNoID, s)
     else db_transaction w (\<lambda>db. Inr (insert_attempt replacement (delete_attempts (\<lambda>a. eta_ID a = eta_ID oldAttempt) db))) s)"

section \<open>What the updates leave alone\<close>

definition attempts_of :: "int \<Rightarrow> tx_db \<Rightarrow> eth_tx_attempt list" where
  "attempts_of i db = filter (\<lambda>a. eta_EthTxID a = i) (t_attempts db)"

definition nextNonce :: "int \<times> address \<Rightarrow> tx_db \<Rightarrow> int option" where
  "nextNonce k db = map_option ks_NextNonce (t_keys db k)"

lemma update_tx_simps [simp]:
  "t_attempts (update_tx i f db) = t_attempts db" "t_receipts (update_tx i f db) = t_receipts db" "t_keys (update_tx i f db) = t_keys db"
  "t_nextTx (update_tx i f db) = t_nextTx db" "t_nextAttempt (update_tx i f db) = t_nextAttempt db"
  "attempts_of j (update_tx i f db) = attempts_of j db" "nextNonce k (update_tx i f db) = nextNonce k db"
  by (simp_all add: update_tx_def attempts_of_def nextNonce_def)

lemma update_attempt_simps [simp]:
  "t_txes (update_attempt i g db) = t_txes db" "t_receipts (update_attempt i g db) = t_receipts db" "t_keys (update_attempt i g db) = t_keys db"
  "t_nextTx (update_attempt i g db) = t_nextTx db" "t_nextAttempt (update_attempt i g db) = t_nextAttempt db"
  "nextNonce k (update_attempt i g db) = nextNonce k db"
  by (simp_all add: update_attempt_def nextNonce_def)

lemma delete_attempts_simps [simp]:
  "t_txes (delete_attempts P db) = t_txes db" "t_keys (delete_attempts P db) = t_keys db"
  "t_nextTx (delete_attempts P db) = t_nextTx db" "t_nextAttempt (delete_attempts P db) = t_nextAttempt db"
  "t_attempts (delete_attempts P db) = filter (\<lambda>a. \<not> P a) (t_attempts db)"
  "nextNonce k (delete_attempts P db) = nextNonce k db"
  by (simp_all add: delete_attempts_def nextNonce_def Let_def)

lemma delete_txes_simps [simp]:
  "t_txes (delete_txes P db) = filter (\<lambda>t. \<not> P t) (t_txes db)" "t_keys (delete_txes P db) = t_keys db"
  "t_nextTx (delete_txes P db) = t_nextTx db" "t_nextAttempt (delete_txes P db) = t_nextAttempt db"
  "nextNonce k (delete_txes P db) = nextNonce k db"
  "t_attempts (delete_txes P db) = filter (\<lambda>a. eta_EthTxID a \<notin> etx_ID ` set (filter P (t_txes db))) (t_attempts db)"
  by (simp_all add: delete_txes_def nextNonce_def Let_def)

lemma insert_attempt_simps [simp]:
  "t_txes (fst (insert_attempt a db)) = t_txes db" "t_keys (fst (insert_attempt a db)) = t_keys db"
  "t_nextTx (fst (insert_attempt a db)) = t_nextTx db" "t_nextAttempt (fst (insert_attempt a db)) = t_nextAttempt db + 1"
  "t_attempts (fst (insert_attempt a db)) = t_attempts db @ [a\<lparr>eta_ID := t_nextAttempt db\<rparr>]"
  "snd (insert_attempt a db) = a\<lparr>eta_ID := t_nextAttempt db\<rparr>" "nextNonce k (fst (insert_attempt a db)) = nextNonce k db"
  by (simp_all add: insert_attempt_def nextNonce_def Let_def)

lemma insert_tx_simps [simp]:
  "t_attempts (fst (insert_tx t db)) = t_attempts db" "t_keys (fst (insert_tx t db)) = t_keys db"
  "t_nextTx (fst (insert_tx t db)) = t_nextTx db + 1" "t_nextAttempt (fst (insert_tx t db)) = t_nextAttempt db"
  "t_txes (fst (insert_tx t db)) = t_txes db @ [t\<lparr>etx_ID := t_nextTx db\<rparr>]" "snd (insert_tx t db) = t\<lparr>etx_ID := t_nextTx db\<rparr>"
  "nextNonce k (fst (insert_tx t db)) = nextNonce k db" "attempts_of i (fst (insert_tx t db)) = attempts_of i db"
  by (simp_all add: insert_tx_def nextNonce_def attempts_of_def Let_def)

lemma attempts_of_insert [simp]:
  "attempts_of i (fst (insert_attempt a db)) = attempts_of i db @ (if eta_EthTxID a = i then [a\<lparr>eta_ID := t_nextAttempt db\<rparr>] else [])"
  by (simp add: attempts_of_def)

lemma attempts_of_delete [simp]: "attempts_of i (delete_attempts P db) = filter (\<lambda>a. \<not> P a) (attempts_of i db)"
  by (simp add: attempts_of_def conj_commute)

lemma attempts_of_delete_txes:
  "(\<And>t. t \<in> set (t_txes db) \<Longrightarrow> etx_ID t = i \<Longrightarrow> \<not> P t) \<Longrightarrow> attempts_of i (delete_txes P db) = attempts_of i db"
  unfolding attempts_of_def delete_txes_simps filter_filter by (rule filter_cong) auto

lemma attempts_of_update:
  assumes "\<And>a. eta_EthTxID (g a) = eta_EthTxID a"
  shows "attempts_of i (update_attempt j g db) = map (\<lambda>a. if eta_ID a = j then g a else a) (attempts_of i db)"
proof -
  have "filter (\<lambda>a. eta_EthTxID a = i) (map (\<lambda>a. if eta_ID a = j then g a else a) xs) =
      map (\<lambda>a. if eta_ID a = j then g a else a) (filter (\<lambda>a. eta_EthTxID a = i) xs)" for xs
    by (induction xs) (simp_all add: assms)
  then show ?thesis by (simp add: attempts_of_def update_attempt_def)
qed

lemma in_update_tx: "x \<in> set (t_txes (update_tx i f db)) \<longleftrightarrow> (\<exists>t \<in> set (t_txes db). x = (if etx_ID t = i then f t else t))"
proof -
  have "t_txes (update_tx i f db) = map (\<lambda>t. if etx_ID t = i then f t else t) (t_txes db)" by (simp add: update_tx_def)
  then show ?thesis by (simp only: set_map image_iff)
qed

lemma find_tx_Some: "find_tx i db = Some t \<Longrightarrow> t \<in> set (t_txes db) \<and> etx_ID t = i"
  unfolding find_tx_def by (drule find_SomeD)

lemma find_tx_iff:
  "distinct (map etx_ID (t_txes db)) \<Longrightarrow> find_tx i db = Some t \<longleftrightarrow> t \<in> set (t_txes db) \<and> etx_ID t = i"
proof
  assume "distinct (map etx_ID (t_txes db))" and t: "t \<in> set (t_txes db) \<and> etx_ID t = i"
  moreover obtain t' where "find_tx i db = Some t'" unfolding find_tx_def using find_ex [of t _ "\<lambda>t. etx_ID t = i"] t by blast
  ultimately show "find_tx i db = Some t" using find_tx_Some [of i db t'] by (metis inj_on_eq_iff distinct_map)
qed (rule find_tx_Some)

lemma constraints_distinct: "constraints db \<Longrightarrow> distinct (map etx_ID (t_txes db))"
  "constraints db \<Longrightarrow> distinct (map eta_ID (t_attempts db))"
  unfolding constraints_def by blast+

lemma constraints_fsm: "constraints db \<Longrightarrow> t \<in> set (t_txes db) \<Longrightarrow> tx_fsm_ok t"
  unfolding constraints_def by blast

lemma same_tx_row: "constraints db \<Longrightarrow> t \<in> set (t_txes db) \<Longrightarrow> u \<in> set (t_txes db) \<Longrightarrow> etx_ID t = etx_ID u \<Longrightarrow> t = u"
  by (metis constraints_distinct(1) distinct_map inj_on_eq_iff)

text \<open>The rows after an update of the row \<open>r\<close>.\<close>

lemma updated_rows:
  assumes "constraints db" "r \<in> set (t_txes db)" "etx_ID r = i"
  shows "t \<in> set (t_txes (update_tx i f db)) \<longleftrightarrow> t = f r \<or> t \<in> set (t_txes db) \<and> etx_ID t \<noteq> i"
proof
  assume "t \<in> set (t_txes (update_tx i f db))"
  then obtain u where u: "u \<in> set (t_txes db)" "t = (if etx_ID u = i then f u else u)" unfolding in_update_tx by (elim bexE)
  show "t = f r \<or> t \<in> set (t_txes db) \<and> etx_ID t \<noteq> i"
  proof (cases "etx_ID u = i")
    case True
    then have "u = r" using same_tx_row [OF assms(1) u(1) assms(2)] assms(3) by simp
    then show ?thesis using u(2) True by simp
  next
    case False
    then show ?thesis using u by simp
  qed
next
  assume "t = f r \<or> t \<in> set (t_txes db) \<and> etx_ID t \<noteq> i"
  then show "t \<in> set (t_txes (update_tx i f db))"
  proof
    assume "t = f r"
    then show ?thesis using assms(2,3) unfolding in_update_tx by (intro bexI [of _ r]) simp_all
  next
    assume "t \<in> set (t_txes db) \<and> etx_ID t \<noteq> i"
    then show ?thesis unfolding in_update_tx by (intro bexI [of _ t]) simp_all
  qed
qed

lemma same_attempt_row:
  "constraints db \<Longrightarrow> a \<in> set (t_attempts db) \<Longrightarrow> b \<in> set (t_attempts db) \<Longrightarrow> eta_ID a = eta_ID b \<Longrightarrow> a = b"
  by (metis constraints_distinct(2) distinct_map inj_on_eq_iff)

lemma one_in_progress:
  assumes "constraints db" "t \<in> set (t_txes db)" "u \<in> set (t_txes db)" "etx_State t = TxInProgress" "etx_State u = TxInProgress"
    "etx_key t = etx_key u"
  shows "t = u"
proof -
  have "uniq etx_ID inProgressKey (t_txes db)" using assms(1) unfolding constraints_def by blast
  moreover have "inProgressKey t = Some (etx_key t)" "inProgressKey u = Some (etx_key t)" using assms by (simp_all add: inProgressKey_def)
  ultimately have "etx_ID t = etx_ID u" using assms(2,3) unfolding uniq_def by (metis option.distinct(1))
  then show ?thesis using assms same_tx_row by blast
qed

section \<open>The invariant of a key\<close>

text \<open>
  Transactions in the queue have no attempt. One in progress has the next nonce of the key and exactly one attempt, which is in progress.
  The nonces of the others are below. The address is in use on one chain only.
\<close>

definition tx_inv :: "int \<times> address \<Rightarrow> tx_db \<Rightarrow> eth_tx \<Rightarrow> bool" where
  "tx_inv k db t \<longleftrightarrow> (case etx_State t of
     TxUnstarted \<Rightarrow> attempts_of (etx_ID t) db = []
   | TxInProgress \<Rightarrow> etx_Nonce t = nextNonce k db \<and> (\<exists>a. attempts_of (etx_ID t) db = [a] \<and> eta_State a = AttInProgress)
   | TxFatalError \<Rightarrow> True
   | _ \<Rightarrow> (\<exists>n m. etx_Nonce t = Some n \<and> nextNonce k db = Some m \<and> n < m))"

lemma tx_inv_same:
  assumes "tx_inv k db t" "nextNonce k db' = nextNonce k db" "attempts_of (etx_ID t) db' = attempts_of (etx_ID t) db"
  shows "tx_inv k db' t"
  using assms(1) unfolding tx_inv_def assms(2,3) .

definition ids_fresh :: "tx_db \<Rightarrow> bool" where
  "ids_fresh db \<longleftrightarrow> 0 < t_nextTx db \<and> 0 < t_nextAttempt db \<and> (\<forall>t \<in> set (t_txes db). 0 < etx_ID t \<and> etx_ID t < t_nextTx db) \<and>
     (\<forall>a \<in> set (t_attempts db). 0 < eta_ID a \<and> eta_ID a < t_nextAttempt db)"

definition key_inv :: "int \<times> address \<Rightarrow> tx_db \<Rightarrow> bool" where
  "key_inv k db \<longleftrightarrow> constraints db \<and> ids_fresh db \<and> (\<forall>t \<in> set (t_txes db). etx_key t = k \<longrightarrow> tx_inv k db t) \<and>
     (\<forall>t \<in> set (t_txes db). etx_FromAddress t = snd k \<and> etx_State t = TxInProgress \<longrightarrow> etx_key t = k)"

text \<open>What other users of the tables must not do: give nonces to transactions of the key, or touch one that is in progress.\<close>

definition undisturbed :: "int \<times> address \<Rightarrow> tx_db \<Rightarrow> tx_db \<Rightarrow> bool" where
  "undisturbed k db db' \<longleftrightarrow> nextNonce k db' = nextNonce k db \<and> t_nextTx db \<le> t_nextTx db' \<and> t_nextAttempt db \<le> t_nextAttempt db' \<and>
     (\<forall>t' \<in> set (t_txes db'). etx_ID t' < t_nextTx db \<longrightarrow> (\<exists>t \<in> set (t_txes db). etx_ID t = etx_ID t' \<and> etx_key t = etx_key t' \<and>
        (etx_key t' = k \<longrightarrow> etx_Nonce t' = None \<or> etx_Nonce t' = etx_Nonce t))) \<and>
     (\<forall>t. etx_key t = k \<and> etx_State t = TxInProgress \<longrightarrow> (t \<in> set (t_txes db') \<longleftrightarrow> t \<in> set (t_txes db))) \<and>
     (\<forall>t \<in> set (t_txes db). etx_key t = k \<and> etx_State t = TxInProgress \<longrightarrow> attempts_of (etx_ID t) db' = attempts_of (etx_ID t) db)"

definition rely :: "int \<times> address \<Rightarrow> world \<Rightarrow> bool" where
  "rely k w \<longleftrightarrow> (\<forall>n db. key_inv k db \<longrightarrow> key_inv k (w_others w n db) \<and> undisturbed k db (w_others w n db))"

lemma undisturbed_refl: "undisturbed k db db"
  unfolding undisturbed_def by auto

lemma rely_alone: "w_others w = (\<lambda>_ db. db) \<Longrightarrow> rely k w"
  by (simp add: rely_def undisturbed_refl)

text \<open>Assertions that stay true: the next nonce, a transaction in the queue that may be gone by now, and the one in progress.\<close>

definition queued :: "int \<times> address \<Rightarrow> int \<Rightarrow> tx_db \<Rightarrow> bool" where
  "queued k i db \<longleftrightarrow> i < t_nextTx db \<and> (\<forall>t \<in> set (t_txes db). etx_ID t = i \<longrightarrow> etx_key t = k \<and> etx_Nonce t = None)"

definition working :: "int \<times> address \<Rightarrow> eth_tx \<Rightarrow> eth_tx_attempt \<Rightarrow> tx_db \<Rightarrow> bool" where
  "working k t a db \<longleftrightarrow> t \<in> set (t_txes db) \<and> etx_key t = k \<and> etx_State t = TxInProgress \<and> attempts_of (etx_ID t) db = [a]"

definition idle :: "int \<times> address \<Rightarrow> tx_db \<Rightarrow> bool" where
  "idle k db \<longleftrightarrow> (\<forall>t \<in> set (t_txes db). etx_key t = k \<longrightarrow> etx_State t \<noteq> TxInProgress)"

definition stays :: "int \<times> address \<Rightarrow> (tx_db \<Rightarrow> bool) \<Rightarrow> bool" where
  "stays k P \<longleftrightarrow> (\<forall>db db'. P db \<longrightarrow> undisturbed k db db' \<longrightarrow> P db')"

lemma stays_nonce: "stays k (\<lambda>db. nextNonce k db = n)"
  by (simp add: stays_def undisturbed_def)

lemma stays_queued: "stays k (queued k i)"
  unfolding stays_def queued_def undisturbed_def by (metis order_less_le_trans)

lemma stays_working: "stays k (working k t a)"
  unfolding stays_def working_def undisturbed_def by simp

lemma stays_idle: "stays k (idle k)"
  unfolding stays_def idle_def undisturbed_def by blast

lemma stays_True: "stays k (\<lambda>_. True)"
  by (simp add: stays_def)

lemma stays_conj: "stays k P \<Longrightarrow> stays k Q \<Longrightarrow> stays k (\<lambda>db. P db \<and> Q db)"
  by (auto simp: stays_def)

lemmas stays_intros = stays_nonce stays_queued stays_working stays_idle stays_True stays_conj

lemma tick_inv: "rely k w \<Longrightarrow> key_inv k (s_db s) \<Longrightarrow> key_inv k (s_db (tick w s))"
  by (simp add: rely_def tick_def)

lemma tick_stays: "rely k w \<Longrightarrow> key_inv k (s_db s) \<Longrightarrow> stays k P \<Longrightarrow> P (s_db s) \<Longrightarrow> P (s_db (tick w s))"
  unfolding rely_def stays_def tick_def by simp

lemma query_keeps:
  assumes "query w q s = (r, s')" "rely k w" "key_inv k (s_db s)"
  shows "key_inv k (s_db s')" "stays k P \<Longrightarrow> P (s_db s) \<Longrightarrow> P (s_db s')" "s_mem s' = s_mem s"
proof -
  have s': "s' = tick w s" using assms(1) by (auto simp: query_def split: if_splits)
  show "key_inv k (s_db s')" unfolding s' by (rule tick_inv [OF assms(2,3)])
  show "stays k P \<Longrightarrow> P (s_db s) \<Longrightarrow> P (s_db s')" unfolding s' by (rule tick_stays [OF assms(2,3)])
  show "s_mem s' = s_mem s" unfolding s' by (simp add: tick_def)
qed

lemma query_result: "query w q s = (Inr x, s') \<Longrightarrow> x = q (s_db s)"
  by (auto simp: query_def split: if_splits)

text \<open>A transaction that keeps the invariant establishes what holds of its result, or leaves things as they were.\<close>

lemma transaction_keeps:
  assumes "db_transaction w f s = (r, s')" "rely k w" "key_inv k (s_db s)"
    and f: "\<forall>db x. f (s_db s) = Inr (db, x) \<longrightarrow> constraints db \<longrightarrow> key_inv k db \<and> Q x db"
    and "\<forall>x. stays k (Q x)"
  shows "key_inv k (s_db s')" "r = Inr x \<Longrightarrow> Q x (s_db s')" "r = Inl e \<Longrightarrow> stays k P \<Longrightarrow> P (s_db s) \<Longrightarrow> P (s_db s')"
proof -
  have db: "s_db (tick w (s\<lparr>s_db := db\<rparr>)) = w_others w (s_clock s) db" for db by (simp add: tick_def)
  have ok: "key_inv k (w_others w (s_clock s) db) \<and> Q x (w_others w (s_clock s) db)" if "f (s_db s) = Inr (db, x)" "constraints db" for db x
    using f that assms(2) assms(5) unfolding rely_def stays_def by blast
  show "key_inv k (s_db s')" using assms(1) ok tick_inv [OF assms(2,3)]
    by (auto simp: db_transaction_def db split: if_splits sum.splits)
  show "r = Inr x \<Longrightarrow> Q x (s_db s')" using assms(1) ok
    by (auto simp: db_transaction_def db split: if_splits sum.splits)
  show "r = Inl e \<Longrightarrow> stays k P \<Longrightarrow> P (s_db s) \<Longrightarrow> P (s_db s')" using assms(1) tick_stays [OF assms(2,3), of P]
    by (auto simp: db_transaction_def split: if_splits sum.splits)
qed

section \<open>Updates that meet the constraints\<close>

lemma uniq_map:
  assumes "uniq rid key xs" "\<And>x. x \<in> set xs \<Longrightarrow> rid (g x) = rid x \<and> (key (g x) = key x \<or> key (g x) = None)"
  shows "uniq rid key (map g xs)"
  unfolding uniq_def
proof (intro ballI)
  fix x y assume "x \<in> set (map g xs)" "y \<in> set (map g xs)"
  then obtain u v where u: "u \<in> set xs" "x = g u" and v: "v \<in> set xs" "y = g v" by auto
  have "key u = None \<or> key u \<noteq> key v \<or> rid u = rid v" using assms(1) u(1) v(1) unfolding uniq_def by blast
  then show "key x = None \<or> key x \<noteq> key y \<or> rid x = rid y" using assms(2) [OF u(1)] assms(2) [OF v(1)] u v by metis
qed

lemma uniq_insert:
  assumes "uniq rid key xs" "\<And>x. x \<in> set ys \<Longrightarrow> x = y \<or> x \<in> set xs \<and> (key x = None \<or> key x \<noteq> key y)"
  shows "uniq rid key ys"
  unfolding uniq_def
proof (intro ballI)
  fix u v assume "u \<in> set ys" "v \<in> set ys"
  then show "key u = None \<or> key u \<noteq> key v \<or> rid u = rid v"
    using assms(2) [of u] assms(2) [of v] assms(1) unfolding uniq_def by metis
qed

lemma constraintsD:
  assumes "constraints db"
  shows "distinct (map etx_ID (t_txes db))" "uniq etx_ID nonceKey (t_txes db)" "uniq etx_ID inProgressKey (t_txes db)"
    "uniq etx_ID etx_PipelineTaskRunID (t_txes db)" "distinct (map eta_ID (t_attempts db))" "distinct (map eta_Hash (t_attempts db))"
    "uniq eta_ID unbroadcastKey (t_attempts db)" "uniq eta_ID gasPriceKey (t_attempts db)"
    "t \<in> set (t_txes db) \<Longrightarrow> tx_fsm_ok t" "t \<in> set (t_txes db) \<Longrightarrow> t_keys db (etx_key t) \<noteq> None"
    "a \<in> set (t_attempts db) \<Longrightarrow> attempt_ok a" "a \<in> set (t_attempts db) \<Longrightarrow> eta_EthTxID a \<in> etx_ID ` set (t_txes db)"
    "r \<in> set (t_receipts db) \<Longrightarrow> rcp_TxHash r \<in> eta_Hash ` set (t_attempts db)"
  using assms unfolding constraints_def by blast+

lemma constraintsI:
  assumes "distinct (map etx_ID (t_txes db))" "uniq etx_ID nonceKey (t_txes db)" "uniq etx_ID inProgressKey (t_txes db)"
    "uniq etx_ID etx_PipelineTaskRunID (t_txes db)" "distinct (map eta_ID (t_attempts db))" "distinct (map eta_Hash (t_attempts db))"
    "uniq eta_ID unbroadcastKey (t_attempts db)" "uniq eta_ID gasPriceKey (t_attempts db)"
    "\<And>t. t \<in> set (t_txes db) \<Longrightarrow> tx_fsm_ok t" "\<And>t. t \<in> set (t_txes db) \<Longrightarrow> t_keys db (etx_key t) \<noteq> None"
    "\<And>a. a \<in> set (t_attempts db) \<Longrightarrow> attempt_ok a" "\<And>a. a \<in> set (t_attempts db) \<Longrightarrow> eta_EthTxID a \<in> etx_ID ` set (t_txes db)"
    "\<And>r. r \<in> set (t_receipts db) \<Longrightarrow> rcp_TxHash r \<in> eta_Hash ` set (t_attempts db)"
  shows "constraints db"
  using assms unfolding constraints_def by blast

lemma constraints_mapped:
  assumes c: "constraints db" and db': "t_txes db' = map g (t_txes db)" "t_attempts db' = map h (t_attempts db)" "t_receipts db' = t_receipts db"
    and keys: "\<And>k. t_keys db k \<noteq> None \<Longrightarrow> t_keys db' k \<noteq> None"
    and g: "\<And>t. t \<in> set (t_txes db) \<Longrightarrow> etx_ID (g t) = etx_ID t \<and> etx_key (g t) = etx_key t \<and> etx_PipelineTaskRunID (g t) = etx_PipelineTaskRunID t \<and>
       tx_fsm_ok (g t) \<and> (etx_Nonce (g t) = etx_Nonce t \<or> etx_Nonce (g t) = None) \<and> (inProgressKey (g t) = inProgressKey t \<or> inProgressKey (g t) = None)"
    and h: "\<And>a. a \<in> set (t_attempts db) \<Longrightarrow> eta_ID (h a) = eta_ID a \<and> eta_Hash (h a) = eta_Hash a \<and> eta_EthTxID (h a) = eta_EthTxID a \<and>
       eta_GasPrice (h a) = eta_GasPrice a \<and> attempt_ok (h a) \<and> (unbroadcastKey (h a) = unbroadcastKey a \<or> unbroadcastKey (h a) = None)"
  shows "constraints db'"
proof (rule constraintsI)
  note C = constraintsD [OF c]
  have ids: "map etx_ID (t_txes db') = map etx_ID (t_txes db)" unfolding db' using g by simp
  have hashes: "map eta_Hash (t_attempts db') = map eta_Hash (t_attempts db)" unfolding db' using h by simp
  have nk: "nonceKey (g t) = nonceKey t \<or> nonceKey (g t) = None" if "t \<in> set (t_txes db)" for t
  proof (cases "etx_Nonce (g t) = None")
    case False
    from g [OF that] have "etx_key (g t) = etx_key t" "etx_Nonce (g t) = etx_Nonce t" using False by blast+
    then show ?thesis unfolding nonceKey_def by simp
  qed (simp add: nonceKey_def)
  show "distinct (map etx_ID (t_txes db'))" unfolding ids by (rule C(1))
  show "distinct (map eta_ID (t_attempts db'))" unfolding db' using C(5) h by (simp cong: map_cong)
  show "distinct (map eta_Hash (t_attempts db'))" unfolding hashes by (rule C(6))
  show "uniq etx_ID nonceKey (t_txes db')" unfolding db'
  proof (rule uniq_map [OF C(2)])
    fix t assume t: "t \<in> set (t_txes db)"
    show "etx_ID (g t) = etx_ID t \<and> (nonceKey (g t) = nonceKey t \<or> nonceKey (g t) = None)" using g [OF t] nk [OF t] by (elim conjE) (intro conjI)
  qed
  show "uniq etx_ID inProgressKey (t_txes db')" unfolding db'
  proof (rule uniq_map [OF C(3)])
    fix t assume t: "t \<in> set (t_txes db)"
    show "etx_ID (g t) = etx_ID t \<and> (inProgressKey (g t) = inProgressKey t \<or> inProgressKey (g t) = None)" using g [OF t] by (elim conjE) (intro conjI)
  qed
  show "uniq etx_ID etx_PipelineTaskRunID (t_txes db')" unfolding db'
  proof (rule uniq_map [OF C(4)])
    fix t assume t: "t \<in> set (t_txes db)"
    show "etx_ID (g t) = etx_ID t \<and> (etx_PipelineTaskRunID (g t) = etx_PipelineTaskRunID t \<or> etx_PipelineTaskRunID (g t) = None)"
      using g [OF t] by (elim conjE) (intro conjI disjI1)
  qed
  show "uniq eta_ID unbroadcastKey (t_attempts db')" unfolding db'
  proof (rule uniq_map [OF C(7)])
    fix a assume a: "a \<in> set (t_attempts db)"
    show "eta_ID (h a) = eta_ID a \<and> (unbroadcastKey (h a) = unbroadcastKey a \<or> unbroadcastKey (h a) = None)" using h [OF a] by (elim conjE) (intro conjI)
  qed
  show "uniq eta_ID gasPriceKey (t_attempts db')" unfolding db'
  proof (rule uniq_map [OF C(8)])
    fix a assume a: "a \<in> set (t_attempts db)"
    then show "eta_ID (h a) = eta_ID a \<and> (gasPriceKey (h a) = gasPriceKey a \<or> gasPriceKey (h a) = None)"
      using h [OF a] unfolding gasPriceKey_def by (elim conjE) simp
  qed
  show "tx_fsm_ok t" if t: "t \<in> set (t_txes db')" for t
  proof -
    obtain u where u: "u \<in> set (t_txes db)" "t = g u" using t unfolding db' by auto
    show ?thesis unfolding u(2) using g [OF u(1)] by (elim conjE)
  qed
  show "t_keys db' (etx_key t) \<noteq> None" if t: "t \<in> set (t_txes db')" for t
  proof -
    obtain u where "u \<in> set (t_txes db)" "t = g u" using t unfolding db' by auto
    from g [OF this(1)] have "etx_key (g u) = etx_key u" by (elim conjE)
    then show ?thesis using keys [OF C(10) [OF \<open>u \<in> set (t_txes db)\<close>]] \<open>t = g u\<close> by simp
  qed
  show "attempt_ok a" if a: "a \<in> set (t_attempts db')" for a
  proof -
    obtain b where b: "b \<in> set (t_attempts db)" "a = h b" using a unfolding db' by auto
    show ?thesis unfolding b(2) using h [OF b(1)] by (elim conjE)
  qed
  show "eta_EthTxID a \<in> etx_ID ` set (t_txes db')" if h2: "a \<in> set (t_attempts db')" for a
  proof -
    obtain b where b: "b \<in> set (t_attempts db)" "a = h b" using h2 unfolding db' by auto
    from h [OF b(1)] have "eta_EthTxID (h b) = eta_EthTxID b" by (elim conjE)
    then have "eta_EthTxID a \<in> set (map etx_ID (t_txes db))" using C(12) [OF b(1)] b(2) by simp
    then show ?thesis unfolding ids [symmetric] by simp
  qed
  show "rcp_TxHash r \<in> eta_Hash ` set (t_attempts db')" if "r \<in> set (t_receipts db')" for r
  proof -
    have "rcp_TxHash r \<in> set (map eta_Hash (t_attempts db))" using C(13) that unfolding db' by simp
    then show ?thesis unfolding hashes [symmetric] by simp
  qed
qed

text \<open>A new attempt for a row that changes to be in progress, or is already.\<close>

lemma constraints_new_attempt:
  assumes c: "constraints db" and fresh: "ids_fresh db" and r: "r \<in> set (t_txes db)" "etx_ID r = i"
    and r': "etx_ID r' = i" "etx_key r' = etx_key r" "etx_PipelineTaskRunID r' = etx_PipelineTaskRunID r" "tx_fsm_ok r'"
    and nonce: "\<And>t. t \<in> set (t_txes db) \<Longrightarrow> etx_ID t \<noteq> i \<Longrightarrow> nonceKey t = None \<or> nonceKey t \<noteq> nonceKey r'"
    and prog: "\<And>t. t \<in> set (t_txes db) \<Longrightarrow> etx_ID t \<noteq> i \<Longrightarrow> inProgressKey t = None \<or> inProgressKey t \<noteq> inProgressKey r'"
    and a: "eta_EthTxID a = i" "attempt_ok a" "attempts_of i db = []" "eta_Hash a \<notin> eta_Hash ` set (t_attempts db)"
    and f: "f r = r'"
  shows "constraints (update_tx i f (fst (insert_attempt a db)))"
proof (rule constraintsI)
  let ?db = "update_tx i f (fst (insert_attempt a db))"
  note C = constraintsD [OF c]
  define a' where "a' = a\<lparr>eta_ID := t_nextAttempt db\<rparr>"
  have "t_txes ?db = t_txes (update_tx i f db)" unfolding update_tx_def by simp
  then have rows: "t \<in> set (t_txes ?db) \<longleftrightarrow> t = r' \<or> t \<in> set (t_txes db) \<and> etx_ID t \<noteq> i" for t
    using updated_rows [OF c r, of t f] f by simp
  have same: "etx_ID (if etx_ID t = i then f t else t) = etx_ID t" if "t \<in> set (t_txes db)" for t
  proof (cases "etx_ID t = i")
    case True
    then have "t = r" using same_tx_row [OF c that r(1)] r(2) by simp
    then show ?thesis using f r'(1) r(2) by simp
  qed simp
  have "t_txes ?db = map (\<lambda>t. if etx_ID t = i then f t else t) (t_txes db)" by (simp add: update_tx_def insert_attempt_def Let_def)
  then have ids: "map etx_ID (t_txes ?db) = map etx_ID (t_txes db)" using same by simp
  have none: "eta_EthTxID b \<noteq> i" if "b \<in> set (t_attempts db)" for b
    using a(3) that unfolding attempts_of_def by (simp add: filter_empty_conv)
  have atts: "t_attempts ?db = t_attempts db @ [a']" unfolding a'_def by simp
  have a': "eta_EthTxID a' = i" "attempt_ok a'" "eta_Hash a' = eta_Hash a" "eta_ID a' = t_nextAttempt db"
    using a unfolding a'_def attempt_ok_def fee_ok_def by simp_all
  show "distinct (map etx_ID (t_txes ?db))" unfolding ids by (rule C(1))
  show "uniq etx_ID nonceKey (t_txes ?db)"
    by (rule uniq_insert [OF C(2), where y = r']) (use nonce rows in blast)
  show "uniq etx_ID inProgressKey (t_txes ?db)"
    by (rule uniq_insert [OF C(3), where y = r']) (use prog rows in blast)
  show "uniq etx_ID etx_PipelineTaskRunID (t_txes ?db)" unfolding uniq_def
  proof (intro ballI)
    fix u v assume uv: "u \<in> set (t_txes ?db)" "v \<in> set (t_txes ?db)"
    have o: "\<exists>t0 \<in> set (t_txes db). etx_ID t0 = etx_ID t \<and> etx_PipelineTaskRunID t0 = etx_PipelineTaskRunID t"
      if h: "t \<in> set (t_txes ?db)" for t
    proof (cases "t = r'")
      case True
      then show ?thesis using r r' by (intro bexI [of _ r]) simp_all
    next
      case False
      then show ?thesis using h rows by (intro bexI [of _ t]) simp_all
    qed
    obtain u1 v1 where "u1 \<in> set (t_txes db)" "etx_ID u1 = etx_ID u" "etx_PipelineTaskRunID u1 = etx_PipelineTaskRunID u"
      "v1 \<in> set (t_txes db)" "etx_ID v1 = etx_ID v" "etx_PipelineTaskRunID v1 = etx_PipelineTaskRunID v" using o [OF uv(1)] o [OF uv(2)] by blast
    then show "etx_PipelineTaskRunID u = None \<or> etx_PipelineTaskRunID u \<noteq> etx_PipelineTaskRunID v \<or> etx_ID u = etx_ID v"
      using C(4) unfolding uniq_def by metis
  qed
  show "distinct (map eta_ID (t_attempts ?db))" using C(5) fresh a' unfolding atts ids_fresh_def by auto
  show "distinct (map eta_Hash (t_attempts ?db))" using C(6) a(4) a' unfolding atts by simp
  have "unbroadcastKey b = None \<or> unbroadcastKey b \<noteq> unbroadcastKey a'" if "b \<in> set (t_attempts db)" for b
    using none [OF that] a' unfolding unbroadcastKey_def by simp
  then show "uniq eta_ID unbroadcastKey (t_attempts ?db)" unfolding atts by (intro uniq_insert [OF C(7), where y = a']) (simp, blast)
  have "gasPriceKey b = None \<or> gasPriceKey b \<noteq> gasPriceKey a'" if "b \<in> set (t_attempts db)" for b
    using none [OF that] a' unfolding gasPriceKey_def by (cases "eta_GasPrice b"; cases "eta_GasPrice a'") simp_all
  then show "uniq eta_ID gasPriceKey (t_attempts ?db)" unfolding atts by (intro uniq_insert [OF C(8), where y = a']) (simp, blast)
  show "tx_fsm_ok t" if "t \<in> set (t_txes ?db)" for t using that rows C(9) r' by auto
  show "t_keys ?db (etx_key t) \<noteq> None" if "t \<in> set (t_txes ?db)" for t
  proof (cases "t = r'")
    case True
    then show ?thesis using C(10) [OF r(1)] r' by simp
  next
    case False
    then have "t \<in> set (t_txes db)" using that rows by simp
    from C(10) [OF this] show ?thesis by simp
  qed
  show "attempt_ok b" if "b \<in> set (t_attempts ?db)" for b using that C(11) a' unfolding atts by auto
  show "eta_EthTxID b \<in> etx_ID ` set (t_txes ?db)" if h: "b \<in> set (t_attempts ?db)" for b
  proof -
    have "i \<in> etx_ID ` set (t_txes db)" using imageI [OF r(1), of etx_ID] r(2) by simp
    then have "eta_EthTxID b \<in> etx_ID ` set (t_txes db)" using h C(12) [of b] a'(1) unfolding atts by auto
    then have "eta_EthTxID b \<in> set (map etx_ID (t_txes db))" by simp
    then show ?thesis unfolding ids [symmetric] by simp
  qed
  show "rcp_TxHash x \<in> eta_Hash ` set (t_attempts ?db)" if "x \<in> set (t_receipts ?db)" for x
  proof -
    have "x \<in> set (t_receipts db)" using that by (simp add: insert_attempt_def Let_def)
    then have "rcp_TxHash x \<in> eta_Hash ` set (t_attempts db)" by (rule C(13))
    then show ?thesis unfolding atts by auto
  qed
qed

lemma constraints_delete_attempts:
  assumes "constraints db"
  shows "constraints (delete_attempts P db)"
proof (rule constraintsI)
  note C = constraintsD [OF assms]
  have u: "uniq rid key (filter Q xs)" if "uniq rid key xs" for rid and key :: "eth_tx_attempt \<Rightarrow> 'b option" and Q xs
    using that unfolding uniq_def by simp
  show "uniq eta_ID unbroadcastKey (t_attempts (delete_attempts P db))" "uniq eta_ID gasPriceKey (t_attempts (delete_attempts P db))"
    unfolding delete_attempts_simps by (rule u [OF C(7)], rule u [OF C(8)])
  show "rcp_TxHash r \<in> eta_Hash ` set (t_attempts (delete_attempts P db))" if "r \<in> set (t_receipts (delete_attempts P db))" for r
  proof -
    have r: "r \<in> set (t_receipts db)" "rcp_TxHash r \<notin> eta_Hash ` set (filter P (t_attempts db))"
      using that by (simp_all add: delete_attempts_def Let_def)
    then obtain a where a: "a \<in> set (t_attempts db)" "rcp_TxHash r = eta_Hash a" using C(13) by (elim imageE [OF C(13)])
    have "\<not> P a"
    proof
      assume "P a"
      then have "eta_Hash a \<in> eta_Hash ` set (filter P (t_attempts db))" using a(1) by (intro imageI) simp
      then show False using r(2) a(2) by simp
    qed
    then have "eta_Hash a \<in> eta_Hash ` set (t_attempts (delete_attempts P db))" using a(1) by (intro imageI) simp
    then show ?thesis using a(2) by simp
  qed
qed (use constraintsD [OF assms] in \<open>simp_all add: distinct_map_filter\<close>)

section \<open>An example\<close>

text \<open>Chain 1 and the key 7, whose next nonce is 3; a node that takes everything and knows 9 nonces of every address, fixed prices, nobody else.\<close>

definition tx_cfg0 :: txm_config where
  "tx_cfg0 = \<lparr>c_chainID = 1, c_gas = cfg0\<lparr>EvmEIP1559DynamicFees := False\<rparr>, KeySpecificMaxGasPriceWei = (\<lambda>_. 800),
     EvmMaxInFlightTransactions = 0, EvmMaxQueuedTransactions = 10, EvmUseForwarders = False, ChainIsL2 = False, EvmGasBumpTxDepth = 0,
     c_FinalityDepth = 50, EvmRPCDefaultBatchSize = 5, EthTxReaperThreshold = 100\<rparr>"

definition world0 :: world where
  "world0 = \<lparr>w_clients = [], w_SendRaw = (\<lambda>_ _. None), w_PendingNonceAt = (\<lambda>_ _. Some 9), w_EthCall = (\<lambda>_ _ _. CallOK),
     w_VRFContract = (\<lambda>_. False), w_VRFV1Callback = (\<lambda>_ _ _. None), w_LatestHeader = (\<lambda>_. None), w_VRFV2Commitment = (\<lambda>_ _ _ _. None),
     w_SignTx = (\<lambda>_ _ u. Some (ucast (u_Nonce u), [ucast (u_Nonce u)])), w_Decodes = (\<lambda>_. None), w_KeyRing = (\<lambda>a. a = 7),
     w_ForwardedPayload = (\<lambda>_ _. None), w_GetLegacyGas = (\<lambda>_ _ l m _. Inr (fixed_GetLegacyGas (c_gas tx_cfg0) l m)),
     w_BumpLegacyGas = (\<lambda>_ p l m _. fixed_BumpLegacyGas (c_gas tx_cfg0) p l m), w_GetDynamicFee = (\<lambda>_ l m. fixed_GetDynamicFee (c_gas tx_cfg0) l m),
     w_BumpDynamicFee = (\<lambda>_ f l m _. fixed_BumpDynamicFee (c_gas tx_cfg0) f l m), w_now = (\<lambda>n. int n), w_ok = (\<lambda>_. True), w_others = (\<lambda>_ db. db),
     w_Resume = None\<rparr>"

definition key0 :: key_state where "key0 = \<lparr>ks_NextNonce = 3, ks_Disabled = False\<rparr>"

definition row0 :: "tx_state \<Rightarrow> int option \<Rightarrow> int \<Rightarrow> eth_tx" where
  "row0 st n chain = \<lparr>etx_ID = 1, etx_Nonce = n, etx_FromAddress = 7, etx_ToAddress = 8, etx_EncodedPayload = [], etx_Value = 0, etx_GasLimit = 21000,
     etx_Error = None, etx_BroadcastAt = None, etx_InitialBroadcastAt = None, etx_CreatedAt = 0, etx_State = st, etx_Meta = Null, etx_Subject = None,
     etx_EVMChainID = chain, etx_PipelineTaskRunID = None, etx_MinConfirmations = None, etx_AccessList = None, etx_TransmitChecker = Null\<rparr>"

definition attempt0 :: eth_tx_attempt where
  "attempt0 = \<lparr>eta_ID = 1, eta_EthTxID = 1, eta_GasPrice = Some 20, eta_GasTipCap = None, eta_GasFeeCap = None, eta_ChainSpecificGasLimit = 21000,
     eta_SignedRawTx = [3], eta_Hash = 3, eta_BroadcastBeforeBlockNum = None, eta_State = AttInProgress, eta_TxType = 0\<rparr>"

definition keys0 :: "int \<times> address \<rightharpoonup> key_state" where "keys0 = [(1, 7) \<mapsto> key0, (2, 7) \<mapsto> key0]"

definition txm0 :: "eth_tx list \<Rightarrow> eth_tx_attempt list \<Rightarrow> txm" where
  "txm0 txes atts = \<lparr>s_db = \<lparr>t_txes = txes, t_attempts = atts, t_receipts = [], t_keys = keys0, t_nextTx = 2, t_nextAttempt = 2\<rparr>,
     s_mem = keys0, s_clock = 0, s_sent = [], s_resumed = []\<rparr>"

lemmas example_simps = tx_cfg0_def world0_def key0_def row0_def attempt0_def keys0_def txm0_def cfg0_def

lemmas db_simps = constraints_def tx_fsm_ok_def fee_ok_def attempt_ok_def uniq_def nonceKey_def inProgressKey_def unbroadcastKey_def gasPriceKey_def
  etx_key_def ids_fresh_def key_inv_def tx_inv_def nextNonce_def attempts_of_def

lemma txm0_inv:
  "key_inv (1, 7) (s_db (txm0 [] []))" "key_inv (1, 7) (s_db (txm0 [row0 TxUnstarted None 1] []))"
  "key_inv (1, 7) (s_db (txm0 [row0 TxInProgress (Some 3) 1] [attempt0]))" "constraints (s_db (txm0 [row0 TxInProgress (Some 3) 2] [attempt0]))"
  by (simp_all add: db_simps example_simps)

end
