(* ===== verification/Tx_Queue.thy ===== *)
theory Tx_Queue
  imports Tx_Store
begin

text \<open>
  Putting transactions into the queue and pruning it (\<^verbatim>\<open>core/chains/evm/txmgr/txmgr.go\<close>, \<^verbatim>\<open>strategies.go\<close>), giving them up, and adopting
  the nonce that the chain knows at startup (\<^verbatim>\<open>nonce_syncer.go\<close>).
\<close>

section \<open>The queue\<close>

datatype tx_strategy = SendEveryStrategy | DropOldestStrategy uuid u32

record new_tx =
  nt_FromAddress :: address
  nt_ToAddress :: address
  nt_EncodedPayload :: bytes
  nt_GasLimit :: u32
  nt_Meta :: "tx_meta option"
  nt_ForwarderAddress :: address
  nt_MinConfirmations :: "u32 option"
  nt_PipelineTaskRunID :: "uuid option"
  nt_Strategy :: tx_strategy
  nt_Checker :: checker_spec

definition NewQueueingTxStrategy :: "uuid \<Rightarrow> u32 \<Rightarrow> tx_strategy" where
  "NewQueueingTxStrategy subject queueSize = (if queueSize > 0 then DropOldestStrategy subject queueSize else SendEveryStrategy)"

definition strategy_Subject :: "tx_strategy \<Rightarrow> uuid option" where
  "strategy_Subject st = (case st of SendEveryStrategy \<Rightarrow> None | DropOldestStrategy subject _ \<Rightarrow> Some subject)"

definition queuedFor :: "uuid \<Rightarrow> eth_tx \<Rightarrow> bool" where
  "queuedFor subject t \<longleftrightarrow> etx_State t = TxUnstarted \<and> etx_Subject t = Some subject"

text \<open>With a queue of size 0 there is no minimum, and nothing is deleted.\<close>

definition PruneQueue :: "tx_strategy \<Rightarrow> tx_db \<Rightarrow> tx_db" where
  "PruneQueue st db =
    (case st of SendEveryStrategy \<Rightarrow> db
     | DropOldestStrategy subject queueSize \<Rightarrow>
         (case take (unat queueSize) (rev (sort (map etx_ID (filter (queuedFor subject) (t_txes db))))) of
            [] \<Rightarrow> db
          | i # is \<Rightarrow> delete_txes (\<lambda>t. queuedFor subject t \<and> etx_ID t < fold min is i) db))"

definition countTransactionsWithState :: "int \<times> address \<Rightarrow> tx_state \<Rightarrow> tx_db \<Rightarrow> nat" where
  "countTransactionsWithState k st db = length (filter (\<lambda>t. etx_key t = k \<and> etx_State t = st) (t_txes db))"

definition CheckEthTxQueueCapacity :: "world \<Rightarrow> int \<times> address \<Rightarrow> u64 \<Rightarrow> txm \<Rightarrow> tx_error option \<times> txm" where
  "CheckEthTxQueueCapacity w k maxQueuedTransactions s =
    (if maxQueuedTransactions = 0 then (None, s)
     else case query w (countTransactionsWithState k TxUnstarted) s of
       (Inl e, s1) \<Rightarrow> (Some e, s1)
     | (Inr n, s1) \<Rightarrow> (if n \<ge> unat maxQueuedTransactions then Some QueueFull else None, s1))"

text \<open>
  The payload is wrapped for the forwarder, if there is one; otherwise the transaction goes out as it is. The metadata are
  to record the original destination, but what they get is the address of the field \<^verbatim>\<open>ToAddress\<close>, which is overwritten next: they name the
  forwarder.
\<close>

definition forwarded :: "world \<Rightarrow> txm_config \<Rightarrow> new_tx \<Rightarrow> new_tx" where
  "forwarded w cfg nt =
    (if EvmUseForwarders cfg \<and> nt_ForwarderAddress nt \<noteq> 0 then
       (case w_ForwardedPayload w (nt_ToAddress nt) (nt_EncodedPayload nt) of None \<Rightarrow> nt
        | Some payload \<Rightarrow>
            (let nt1 = nt\<lparr>nt_ToAddress := nt_ForwarderAddress nt, nt_EncodedPayload := payload\<rparr>;
                 meta = (case nt_Meta nt of
                   Some m \<Rightarrow> m\<lparr>FwdrDestAddress := Some (nt_ToAddress nt1)\<rparr>
                 | None \<Rightarrow> \<lparr>FailOnRevert = None, RequestID = None, FwdrDestAddress = Some (nt_ToAddress nt1)\<rparr>)
             in nt1\<lparr>nt_Meta := Some meta\<rparr>))
     else nt)"

lemma forwarded_loses_destination:
  assumes "nt_Meta (forwarded w cfg nt) \<noteq> nt_Meta nt"
  shows "map_option FwdrDestAddress (nt_Meta (forwarded w cfg nt)) = Some (Some (nt_ForwarderAddress nt))"
  using assms by (auto simp: forwarded_def Let_def split: option.splits if_splits)

definition newRow :: "txm_config \<Rightarrow> new_tx \<Rightarrow> time \<Rightarrow> eth_tx" where
  "newRow cfg nt now =
    \<lparr>etx_ID = 0, etx_Nonce = None, etx_FromAddress = nt_FromAddress nt, etx_ToAddress = nt_ToAddress nt,
     etx_EncodedPayload = nt_EncodedPayload nt, etx_Value = 0, etx_GasLimit = nt_GasLimit nt, etx_Error = None, etx_BroadcastAt = None,
     etx_InitialBroadcastAt = None, etx_CreatedAt = now, etx_State = TxUnstarted,
     etx_Meta = (case nt_Meta nt of None \<Rightarrow> Null | Some m \<Rightarrow> Json m), etx_Subject = strategy_Subject (nt_Strategy nt),
     etx_EVMChainID = c_chainID cfg, etx_PipelineTaskRunID = nt_PipelineTaskRunID nt, etx_MinConfirmations = nt_MinConfirmations nt, etx_AccessList = None,
     etx_TransmitChecker = Json (nt_Checker nt)\<rparr>"

definition existingTx :: "txm_config \<Rightarrow> new_tx \<Rightarrow> tx_db \<Rightarrow> eth_tx option" where
  "existingTx cfg nt db = (case nt_PipelineTaskRunID nt of None \<Rightarrow> None
     | Some u \<Rightarrow> find (\<lambda>t. etx_PipelineTaskRunID t = Some u \<and> etx_EVMChainID t = c_chainID cfg) (t_txes db))"

definition CreateEthTransaction :: "world \<Rightarrow> txm_config \<Rightarrow> new_tx \<Rightarrow> txm \<Rightarrow> (tx_error + eth_tx) \<times> txm" where
  "CreateEthTransaction w cfg newTx s =
    (case keystore_CheckEnabled w (c_chainID cfg, nt_FromAddress newTx) s of Some e \<Rightarrow> (Inl e, s)
     | None \<Rightarrow>
       let nt = forwarded w cfg newTx
       in case CheckEthTxQueueCapacity w (c_chainID cfg, nt_FromAddress nt) (EvmMaxQueuedTransactions cfg) s of
            (Some e, s1) \<Rightarrow> (Inl e, s1)
          | (None, s1) \<Rightarrow> db_transaction w (\<lambda>db. case existingTx cfg nt db of
                Some t \<Rightarrow> Inr (db, t)
              | None \<Rightarrow> (case insert_tx (newRow cfg nt (w_now w (s_clock s1))) db of (db1, t) \<Rightarrow>
                  if \<not> constraints db1 then Inl ConstraintViolation else Inr (PruneQueue (nt_Strategy nt) db1, t))) s1)"

definition SendEther :: "world \<Rightarrow> int \<Rightarrow> address \<Rightarrow> address \<Rightarrow> wei \<Rightarrow> u32 \<Rightarrow> txm \<Rightarrow> (tx_error + eth_tx) \<times> txm" where
  "SendEther w chainID sender to val gasLimit s =
    (if to = 0 then (Inl ZeroAddress, s)
     else db_transaction w (\<lambda>db. Inr (insert_tx
        \<lparr>etx_ID = 0, etx_Nonce = None, etx_FromAddress = sender, etx_ToAddress = to, etx_EncodedPayload = [], etx_Value = val,
         etx_GasLimit = gasLimit, etx_Error = None, etx_BroadcastAt = None, etx_InitialBroadcastAt = None,
         etx_CreatedAt = w_now w (s_clock s), etx_State = TxUnstarted, etx_Meta = Null, etx_Subject = None, etx_EVMChainID = chainID,
         etx_PipelineTaskRunID = None, etx_MinConfirmations = None, etx_AccessList = None, etx_TransmitChecker = Null\<rparr> db)) s)"

definition txm_abandon :: "world \<Rightarrow> int \<times> address \<Rightarrow> txm \<Rightarrow> (tx_error + unit) \<times> txm" where
  "txm_abandon w k s =
    exec w (\<lambda>db. db\<lparr>t_txes := map (\<lambda>t. if etx_State t \<in> {TxUnconfirmed, TxInProgress, TxUnstarted} \<and> etx_key t = k
        then t\<lparr>etx_State := TxFatalError, etx_Nonce := None, etx_Error := Some ''abandoned''\<rparr> else t) (t_txes db)\<rparr>) s"

section \<open>Adopting the nonce of the chain\<close>

definition hasInProgressTransaction :: "int \<times> address \<Rightarrow> tx_db \<Rightarrow> bool" where
  "hasInProgressTransaction k db \<longleftrightarrow> (\<exists>t \<in> set (t_txes db). etx_State t = TxInProgress \<and> etx_key t = k)"

definition setNonceIf :: "int \<times> address \<Rightarrow> int \<Rightarrow> int \<Rightarrow> tx_db \<Rightarrow> tx_error + tx_db \<times> unit" where
  "setNonceIf k new old db = (case t_keys db k of None \<Rightarrow> Inl OptimisticLock
     | Some x \<Rightarrow> if ks_NextNonce x = old then Inr (db\<lparr>t_keys := (t_keys db)(k \<mapsto> x\<lparr>ks_NextNonce := new\<rparr>)\<rparr>, ()) else Inl OptimisticLock)"

text \<open>A nonce above the range of \<^verbatim>\<open>bigint\<close> is refused by the database.\<close>

definition fastForwardNonceIfNecessary :: "world \<Rightarrow> txm_config \<Rightarrow> address \<Rightarrow> txm \<Rightarrow> tx_error option \<times> txm" where
  "fastForwardNonceIfNecessary w cfg addr s =
    (let k = (c_chainID cfg, addr); s1 = tick w s
     in case w_PendingNonceAt w (s_clock s) addr of None \<Rightarrow> (Some PendingNonceFailed, s1)
        | Some chainNonce \<Rightarrow>
            if chainNonce = 0 then (None, s1)
            else case keystore_GetNextNonce w k s1 of (Inl e, s2) \<Rightarrow> (Some e, s2)
               | (Inr keyNextNonce, s2) \<Rightarrow> (case query w (hasInProgressTransaction k) s2 of (Inl e, s3) \<Rightarrow> (Some e, s3)
                   | (Inr inProgress, s3) \<Rightarrow>
                       (let localNonce = (if inProgress then wrap64 (keyNextNonce + 1) else keyNextNonce)
                        in if chainNonce \<le> to_u64 localNonce then (None, s3)
                           else let newNextNonce = (if inProgress then chainNonce - 1 else chainNonce)
                                in case db_transaction w (\<lambda>db. if uint newNextNonce > max_i64 then Inl QueryFailed
                                      else setNonceIf k (uint newNextNonce) keyNextNonce db) s3 of
                                     (Inl e, s4) \<Rightarrow> (Some e, s4) | (Inr _, s4) \<Rightarrow> (None, s4))))"

section \<open>Insertions and deletions of queued transactions\<close>

lemma ids_fresh_insert_tx:
  assumes "ids_fresh db"
  shows "ids_fresh (fst (insert_tx t db))"
  using assms unfolding ids_fresh_def by force

lemma insert_keeps:
  assumes inv: "key_inv k db" and t: "etx_State t = TxUnstarted" and c: "constraints (fst (insert_tx t db))"
  shows "key_inv k (fst (insert_tx t db)) \<and> undisturbed k db (fst (insert_tx t db))"
proof -
  let ?db = "fst (insert_tx t db)"
  have fresh: "ids_fresh db" and con: "constraints db" using inv unfolding key_inv_def by blast+
  have none: "attempts_of (t_nextTx db) db = []"
  proof -
    have "eta_EthTxID a \<noteq> t_nextTx db" if "a \<in> set (t_attempts db)" for a
    proof -
      have "eta_EthTxID a \<in> etx_ID ` set (t_txes db)" using con that unfolding constraints_def by blast
      then show ?thesis using fresh unfolding ids_fresh_def by auto
    qed
    then show ?thesis unfolding attempts_of_def by simp
  qed
  have "key_inv k ?db" unfolding key_inv_def
  proof (intro conjI ballI impI)
    show "constraints ?db" by (rule c)
    show "ids_fresh ?db" by (rule ids_fresh_insert_tx [OF fresh])
  next
    fix u assume u: "u \<in> set (t_txes ?db)" "etx_key u = k"
    show "tx_inv k ?db u"
    proof (cases "u \<in> set (t_txes db)")
      case True
      then have "tx_inv k db u" using inv u unfolding key_inv_def by blast
      then show ?thesis by (rule tx_inv_same) simp_all
    next
      case False
      then have "u = t\<lparr>etx_ID := t_nextTx db\<rparr>" using u by simp
      then show ?thesis using none t unfolding tx_inv_def by simp
    qed
  next
    fix u assume u: "u \<in> set (t_txes ?db)" "etx_FromAddress u = snd k \<and> etx_State u = TxInProgress"
    then have "u \<in> set (t_txes db)" using t by auto
    then show "etx_key u = k" using inv u unfolding key_inv_def by blast
  qed
  moreover have "undisturbed k db ?db" unfolding undisturbed_def using t by auto
  ultimately show ?thesis ..
qed

lemma delete_keeps:
  assumes inv: "key_inv k db" and P: "\<And>t. P t \<Longrightarrow> etx_State t = TxUnstarted" and c: "constraints (delete_txes P db)"
  shows "key_inv k (delete_txes P db) \<and> undisturbed k db (delete_txes P db)"
proof -
  let ?db = "delete_txes P db"
  have con: "constraints db" using inv unfolding key_inv_def by blast
  have att: "attempts_of (etx_ID u) ?db = attempts_of (etx_ID u) db" if u: "u \<in> set (t_txes db)" "\<not> P u" for u
    using u same_tx_row [OF con _ u(1)] by (intro attempts_of_delete_txes) blast
  have "key_inv k ?db" unfolding key_inv_def
  proof (intro conjI ballI impI)
    show "constraints ?db" by (rule c)
    show "ids_fresh ?db" using inv unfolding key_inv_def ids_fresh_def by simp
  next
    fix u assume u: "u \<in> set (t_txes ?db)" "etx_key u = k"
    then have u': "u \<in> set (t_txes db)" "\<not> P u" by simp_all
    then have "tx_inv k db u" using inv u unfolding key_inv_def by blast
    then show "tx_inv k ?db u" by (rule tx_inv_same) (simp_all add: att [OF u'])
  next
    fix u assume u: "u \<in> set (t_txes ?db)" "etx_FromAddress u = snd k \<and> etx_State u = TxInProgress"
    then show "etx_key u = k" using inv unfolding key_inv_def by simp
  qed
  moreover have "undisturbed k db ?db" unfolding undisturbed_def using P att by force
  ultimately show ?thesis ..
qed

text \<open>The newest \<open>n\<close> of a queue: the minimum of their numbers separates them from the others.\<close>

lemma fold_min: "fold min is (i::int) = Min (set (i # is))"
  by (rule Min.set_eq_fold [symmetric])

lemma newest_separated:
  fixes R :: "int list"
  assumes "sorted_wrt (>) R" "take n R = i # is"
  shows "{x \<in> set R. \<not> x < fold min is i} = set (take n R)"
proof -
  have m: "fold min is i = Min (set (take n R))" using assms(2) fold_min by metis
  have ne: "set (take n R) \<noteq> {}" using assms(2) by simp
  have "x < Min (set (take n R))" if "x \<in> set (drop n R)" for x
  proof -
    have "sorted_wrt (>) (take n R @ drop n R)" using assms(1) by simp
    then have "\<forall>y \<in> set (take n R). x < y" using that unfolding sorted_wrt_append by blast
    then show ?thesis using ne by simp
  qed
  then have below: "\<forall>x \<in> set (drop n R). x < Min (set (take n R))" by blast
  have above: "\<forall>x \<in> set (take n R). \<not> x < Min (set (take n R))" by (simp add: not_less)
  have "set R = set (take n R) \<union> set (drop n R)" by (metis append_take_drop_id set_append)
  then show ?thesis unfolding m using below above by blast
qed

lemma PruneQueue_newest:
  assumes d: "distinct (map etx_ID (t_txes db))" and N: "0 < queueSize"
  shows "length (filter (queuedFor subject) (t_txes (PruneQueue (DropOldestStrategy subject queueSize) db))) =
      min (length (filter (queuedFor subject) (t_txes db))) (unat queueSize)"
    and "t \<in> set (t_txes (PruneQueue (DropOldestStrategy subject queueSize) db)) \<longleftrightarrow> t \<in> set (t_txes db) \<and>
      (queuedFor subject t \<longrightarrow> etx_ID t \<in> set (take (unat queueSize) (rev (sort (map etx_ID (filter (queuedFor subject) (t_txes db)))))))"
proof -
  define Q where "Q = filter (queuedFor subject) (t_txes db)"
  define R where "R = rev (sort (map etx_ID Q))"
  define T where "T = take (unat queueSize) R"
  let ?db = "PruneQueue (DropOldestStrategy subject queueSize) db"
  have dQ: "distinct (map etx_ID Q)" unfolding Q_def using d by (rule distinct_map_filter)
  have "sorted_wrt (<) (sort (map etx_ID Q))" by (rule strict_sorted_iff [THEN iffD2]) (simp add: dQ)
  then have R: "sorted_wrt (>) R" unfolding R_def by (simp add: sorted_wrt_rev)
  have setR: "set R = etx_ID ` set Q" unfolding R_def by simp
  have kept: "t \<in> set (t_txes ?db) \<longleftrightarrow> t \<in> set (t_txes db) \<and> (queuedFor subject t \<longrightarrow> etx_ID t \<in> set T)" for t
  proof (cases T)
    case Nil
    then have "sort (map etx_ID Q) = []" using N unfolding T_def R_def by (auto simp: unat_eq_zero)
    then have "set (map etx_ID Q) = {}" by (metis set_empty set_sort)
    then have "Q = []" by simp
    moreover have "?db = db" by (simp only: PruneQueue_def tx_strategy.case Nil [unfolded T_def R_def Q_def] list.case)
    ultimately show ?thesis unfolding Q_def filter_empty_conv by auto
  next
    case (Cons i "is")
    have "?db = delete_txes (\<lambda>t. queuedFor subject t \<and> etx_ID t < fold min is i) db"
      by (simp only: PruneQueue_def tx_strategy.case Cons [unfolded T_def R_def Q_def] list.case)
    moreover have "etx_ID t \<in> set T \<longleftrightarrow> \<not> etx_ID t < fold min is i" if "t \<in> set (t_txes db)" "queuedFor subject t"
    proof -
      have "etx_ID t \<in> set R" unfolding setR Q_def using that by simp
      then show ?thesis using newest_separated [OF R Cons [unfolded T_def]] unfolding T_def by blast
    qed
    ultimately show ?thesis by auto
  qed
  show "t \<in> set (t_txes ?db) \<longleftrightarrow> t \<in> set (t_txes db) \<and>
      (queuedFor subject t \<longrightarrow> etx_ID t \<in> set (take (unat queueSize) (rev (sort (map etx_ID (filter (queuedFor subject) (t_txes db)))))))"
    using kept [of t] unfolding T_def R_def Q_def .
  define Q' where "Q' = filter (queuedFor subject) (t_txes ?db)"
  have "distinct (map etx_ID (t_txes ?db))" unfolding PruneQueue_def by (simp add: d distinct_map_filter split: list.split)
  then have d': "distinct (map etx_ID Q')" unfolding Q'_def by (rule distinct_map_filter)
  have "set (map etx_ID Q') = set T"
  proof
    show "set (map etx_ID Q') \<subseteq> set T" unfolding Q'_def using kept by auto
    show "set T \<subseteq> set (map etx_ID Q')"
    proof
      fix x assume x: "x \<in> set T"
      then have "x \<in> set R" unfolding T_def by (rule in_set_takeD)
      then obtain t where "t \<in> set Q" "x = etx_ID t" unfolding setR by (elim imageE)
      then show "x \<in> set (map etx_ID Q')" unfolding Q'_def Q_def using kept x by auto
    qed
  qed
  moreover have "distinct T" unfolding T_def R_def using dQ by simp
  ultimately have "length (map etx_ID Q') = length T" using d' by (metis distinct_card)
  then show "length Q' = min (length Q) (unat queueSize)" unfolding T_def R_def by simp
qed

lemma newest_kept:
  fixes R :: "int list"
  assumes "sorted_wrt (>) R" "x \<in> set R" "\<forall>y \<in> set R. y \<le> x" "0 < n"
  shows "x \<in> set (take n R)"
proof (cases R)
  case (Cons y ys)
  then have "y = x" using assms(1-3) by fastforce
  then show ?thesis using Cons assms(4) by (cases n) simp_all
qed (use assms(2) in simp)

lemma PruneQueue_only_queued: "t \<in> set (t_txes db) \<Longrightarrow> (\<And>subject n. st = DropOldestStrategy subject n \<Longrightarrow> \<not> queuedFor subject t) \<Longrightarrow>
    t \<in> set (t_txes (PruneQueue st db))"
  by (auto simp: PruneQueue_def split: tx_strategy.split list.split)

lemma PruneQueue_keeps:
  assumes "key_inv k db" "constraints (PruneQueue st db)"
  shows "key_inv k (PruneQueue st db) \<and> undisturbed k db (PruneQueue st db)"
proof -
  have "PruneQueue st db = db \<or> (\<exists>subject i. PruneQueue st db = delete_txes (\<lambda>t. queuedFor subject t \<and> etx_ID t < i) db)"
    by (auto simp: PruneQueue_def split: tx_strategy.split list.split)
  then show ?thesis
  proof (elim disjE exE)
    assume "PruneQueue st db = db"
    then show ?thesis using assms(1) by (simp add: undisturbed_refl)
  next
    fix subject i assume *: "PruneQueue st db = delete_txes (\<lambda>t. queuedFor subject t \<and> etx_ID t < i) db"
    show ?thesis unfolding * by (rule delete_keeps [OF assms(1)]) (use assms(2) * in \<open>simp_all add: queuedFor_def\<close>)
  qed
qed

lemma undisturbed_trans:
  assumes "undisturbed k db db1" "undisturbed k db1 db2"
  shows "undisturbed k db db2"
  unfolding undisturbed_def
proof (intro conjI ballI allI impI)
  show "nextNonce k db2 = nextNonce k db" using assms unfolding undisturbed_def by metis
  show "t_nextTx db \<le> t_nextTx db2" "t_nextAttempt db \<le> t_nextAttempt db2" using assms unfolding undisturbed_def by linarith+
  fix t2 assume t2: "t2 \<in> set (t_txes db2)" "etx_ID t2 < t_nextTx db"
  have "etx_ID t2 < t_nextTx db1" using t2 assms(1) unfolding undisturbed_def by linarith
  then obtain t1 where t1: "t1 \<in> set (t_txes db1)" "etx_ID t1 = etx_ID t2" "etx_key t1 = etx_key t2" "etx_key t2 = k \<longrightarrow> etx_Nonce t2 = None \<or> etx_Nonce t2 = etx_Nonce t1"
    using assms(2) t2(1) unfolding undisturbed_def by blast
  then obtain t where "t \<in> set (t_txes db)" "etx_ID t = etx_ID t1" "etx_key t = etx_key t1" "etx_key t1 = k \<longrightarrow> etx_Nonce t1 = None \<or> etx_Nonce t1 = etx_Nonce t"
    using assms(1) t2(2) unfolding undisturbed_def by metis
  then show "\<exists>t\<in>set (t_txes db). etx_ID t = etx_ID t2 \<and> etx_key t = etx_key t2 \<and> (etx_key t2 = k \<longrightarrow> etx_Nonce t2 = None \<or> etx_Nonce t2 = etx_Nonce t)"
    using t1 by (intro bexI [of _ t]) auto
next
  fix t assume "etx_key t = k \<and> etx_State t = TxInProgress"
  then show "t \<in> set (t_txes db2) \<longleftrightarrow> t \<in> set (t_txes db)" using assms unfolding undisturbed_def by metis
next
  fix t assume t: "t \<in> set (t_txes db)" "etx_key t = k \<and> etx_State t = TxInProgress"
  then have "t \<in> set (t_txes db1)" using assms(1) unfolding undisturbed_def by blast
  then show "attempts_of (etx_ID t) db2 = attempts_of (etx_ID t) db" using assms t unfolding undisturbed_def by metis
qed

lemma forwarded_simps [simp]:
  "nt_FromAddress (forwarded w cfg nt) = nt_FromAddress nt" "nt_Strategy (forwarded w cfg nt) = nt_Strategy nt"
  "nt_PipelineTaskRunID (forwarded w cfg nt) = nt_PipelineTaskRunID nt"
  by (simp_all add: forwarded_def Let_def split: option.split)

lemma tick_alone: "w_others w = (\<lambda>_ db. db) \<Longrightarrow> s_db (tick w s) = s_db s"
  by (simp add: tick_def)

lemma transaction_alone:
  assumes "db_transaction w f s = (r, s')" "w_others w = (\<lambda>_ db. db)"
  shows "r = Inr x \<Longrightarrow> f (s_db s) = Inr (s_db s', x) \<and> constraints (s_db s')" "r = Inl e \<Longrightarrow> s_db s' = s_db s"
  using assms by (auto simp: db_transaction_def tick_def split: if_splits sum.splits)

lemma CreateEthTransaction_cases:
  assumes "CreateEthTransaction w cfg nt s = (Inr t, s')" "w_others w = (\<lambda>_ db. db)"
  shows "(EvmMaxQueuedTransactions cfg = 0 \<or>
       countTransactionsWithState (c_chainID cfg, nt_FromAddress nt) TxUnstarted (s_db s) < unat (EvmMaxQueuedTransactions cfg)) \<and>
     (existingTx cfg nt (s_db s) = Some t \<and> s_db s' = s_db s \<or>
      existingTx cfg nt (s_db s) = None \<and> (\<exists>now db1. db1 = fst (insert_tx (newRow cfg (forwarded w cfg nt) now) (s_db s)) \<and> t = snd (insert_tx (newRow cfg (forwarded w cfg nt) now) (s_db s)) \<and>
         constraints db1 \<and> s_db s' = PruneQueue (nt_Strategy nt) db1 \<and> constraints (s_db s')))"
proof -
  have e: "existingTx cfg (forwarded w cfg nt) db = existingTx cfg nt db" for db by (simp add: existingTx_def)
  obtain s1 where cap: "CheckEthTxQueueCapacity w (c_chainID cfg, nt_FromAddress nt) (EvmMaxQueuedTransactions cfg) s = (None, s1)"
    and tr: "db_transaction w (\<lambda>db. case existingTx cfg nt db of
                Some t \<Rightarrow> Inr (db, t)
              | None \<Rightarrow> (case insert_tx (newRow cfg (forwarded w cfg nt) (w_now w (s_clock s1))) db of (db1, t) \<Rightarrow>
                  if \<not> constraints db1 then Inl ConstraintViolation else Inr (PruneQueue (nt_Strategy nt) db1, t))) s1 = (Inr t, s')"
    using assms(1) unfolding CreateEthTransaction_def Let_def forwarded_simps e by (auto split: option.splits prod.splits)
  have s1: "s_db s1 = s_db s" and c: "EvmMaxQueuedTransactions cfg = 0 \<or>
       countTransactionsWithState (c_chainID cfg, nt_FromAddress nt) TxUnstarted (s_db s) < unat (EvmMaxQueuedTransactions cfg)"
    using cap assms(2) by (auto simp: CheckEthTxQueueCapacity_def query_def tick_def split: if_splits)
  show ?thesis using transaction_alone(1) [OF tr assms(2) refl] c
    by (auto simp: s1 simp del: insert_tx_simps simp: case_prod_beta split: option.splits if_splits)
qed

lemma PruneQueue_subset: "set (t_txes (PruneQueue st db)) \<subseteq> set (t_txes db)"
  by (auto simp: PruneQueue_def delete_txes_def delete_attempts_def Let_def split: tx_strategy.split list.split)

text \<open>A row of the table that a new transaction becomes, written out.\<close>

definition queuedRow :: "txm_config \<Rightarrow> new_tx \<Rightarrow> int \<Rightarrow> eth_tx \<Rightarrow> bool" where
  "queuedRow cfg nt i t \<longleftrightarrow> etx_ID t = i \<and> etx_State t = TxUnstarted \<and> etx_Nonce t = None \<and>
     etx_key t = (c_chainID cfg, nt_FromAddress nt) \<and> etx_ToAddress t = nt_ToAddress nt \<and> etx_EncodedPayload t = nt_EncodedPayload nt \<and>
     etx_Value t = 0 \<and> etx_GasLimit t = nt_GasLimit nt \<and> etx_PipelineTaskRunID t = nt_PipelineTaskRunID nt \<and>
     etx_Subject t = strategy_Subject (nt_Strategy nt) \<and> etx_MinConfirmations t = nt_MinConfirmations nt \<and>
     etx_TransmitChecker t = Json (nt_Checker nt) \<and> etx_Meta t = (case nt_Meta nt of None \<Rightarrow> Null | Some m \<Rightarrow> Json m) \<and>
     etx_Error t = None \<and> etx_BroadcastAt t = None \<and> etx_InitialBroadcastAt t = None"

lemma CreateEthTransaction_fails:
  assumes "CreateEthTransaction w cfg nt s = (Inl e, s')" and "w_others w = (\<lambda>_ db. db)"
  shows "s_db s' = s_db s"
  using assms by (auto simp: CreateEthTransaction_def CheckEthTxQueueCapacity_def query_def tick_def db_transaction_def Let_def
      split: option.splits prod.splits if_splits sum.splits)

lemma PruneQueue_kept:
  assumes "distinct (map etx_ID (t_txes db))" and "t \<in> set (t_txes db)" and "\<forall>u \<in> set (t_txes db). etx_ID u \<le> etx_ID t"
    and "u \<in> set (t_txes db)"
    and or: "u = t \<and> (\<forall>subject. st \<noteq> DropOldestStrategy subject 0) \<or> (\<forall>subject n. st = DropOldestStrategy subject n \<longrightarrow> \<not> queuedFor subject u)"
  shows "u \<in> set (t_txes (PruneQueue st db))"
proof (cases "\<exists>subject n. st = DropOldestStrategy subject n \<and> queuedFor subject u")
  case False
  then show ?thesis using assms(4) by (intro PruneQueue_only_queued) auto
next
  case True
  then obtain subject n where st: "st = DropOldestStrategy subject n" "queuedFor subject u" by blast
  then have u: "u = t" and n: "0 < n" using or by (auto simp: word_gt_0)
  define R where "R = rev (sort (map etx_ID (filter (queuedFor subject) (t_txes db))))"
  have "etx_ID t \<in> set (take (unat n) R)"
  proof (rule newest_kept)
    have "sorted_wrt (<) (sort (map etx_ID (filter (queuedFor subject) (t_txes db))))"
      by (rule strict_sorted_iff [THEN iffD2]) (simp add: distinct_map_filter [OF assms(1)])
    then show "sorted_wrt (>) R" unfolding R_def by (simp add: sorted_wrt_rev)
    show "etx_ID t \<in> set R" unfolding R_def using assms(2) st u by simp
    show "\<forall>y \<in> set R. y \<le> etx_ID t" unfolding R_def using assms(3) by auto
    show "0 < unat n" using n by (simp add: unat_gt_0)
  qed
  then show ?thesis using PruneQueue_newest(2) [OF assms(1) n, of t subject] assms(2) u unfolding st(1) R_def by simp
qed

lemma task_unused:
  assumes "uniq etx_ID etx_PipelineTaskRunID (t_txes db)" and "set (t_txes db) = insert t U" and "\<forall>u \<in> U. etx_ID u < etx_ID t"
    and "etx_PipelineTaskRunID t = task"
  shows "\<forall>u \<in> U. task \<noteq> None \<longrightarrow> etx_PipelineTaskRunID u \<noteq> task"
proof (intro ballI impI notI)
  fix u assume u: "u \<in> U" "task \<noteq> None" "etx_PipelineTaskRunID u = task"
  then have "etx_ID u = etx_ID t" using assms(1,2,4) unfolding uniq_def by (metis insertCI)
  then show False using assms(3) u(1) by auto
qed

lemma create_cases:
  assumes "CreateEthTransaction w cfg nt s = (Inr t, s')" and "w_others w = (\<lambda>_ db. db)" and "key_inv k (s_db s)"
  shows "(EvmMaxQueuedTransactions cfg = 0 \<or>
       countTransactionsWithState (c_chainID cfg, nt_FromAddress nt) TxUnstarted (s_db s) < unat (EvmMaxQueuedTransactions cfg)) \<and>
     key_inv k (s_db s') \<and> undisturbed k (s_db s) (s_db s') \<and>
     (t \<in> set (t_txes (s_db s)) \<and> nt_PipelineTaskRunID nt \<noteq> None \<and> etx_PipelineTaskRunID t = nt_PipelineTaskRunID nt \<and>
        etx_EVMChainID t = c_chainID cfg \<and> s_db s' = s_db s \<or>
      queuedRow cfg (forwarded w cfg nt) (t_nextTx (s_db s)) t \<and>
      (\<forall>u \<in> set (t_txes (s_db s)). nt_PipelineTaskRunID nt \<noteq> None \<longrightarrow> etx_PipelineTaskRunID u \<noteq> nt_PipelineTaskRunID nt) \<and>
      set (t_txes (s_db s')) \<subseteq> insert t (set (t_txes (s_db s))) \<and>
      (\<forall>u \<in> insert t (set (t_txes (s_db s))). u = t \<and> (\<forall>subject. nt_Strategy nt \<noteq> DropOldestStrategy subject 0) \<or>
         (\<forall>subject n. nt_Strategy nt = DropOldestStrategy subject n \<longrightarrow> \<not> queuedFor subject u) \<longrightarrow> u \<in> set (t_txes (s_db s'))) \<and>
      (\<forall>subject n. nt_Strategy nt = DropOldestStrategy subject n \<and> 0 < n \<longrightarrow>
         length (filter (queuedFor subject) (t_txes (s_db s'))) \<le> unat n))"
  (is "?cap \<and> ?inv \<and> ?und \<and> (?old \<or> ?new)")
proof -
  note C = CreateEthTransaction_cases [OF assms(1,2)]
  have cap: ?cap using C by blast
  from C [THEN conjunct2] show ?thesis
  proof (elim disjE exE conjE)
    assume *: "existingTx cfg nt (s_db s) = Some t" "s_db s' = s_db s"
    then have ?old using find_SomeD [of "\<lambda>t. etx_PipelineTaskRunID t = nt_PipelineTaskRunID nt \<and> etx_EVMChainID t = c_chainID cfg" "t_txes (s_db s)" t]
      unfolding existingTx_def by (auto split: option.splits)
    then show ?thesis using cap assms(3) * undisturbed_refl by simp
  next
    fix now db1
    define row where "row = newRow cfg (forwarded w cfg nt) now"
    assume d: "db1 = fst (insert_tx (newRow cfg (forwarded w cfg nt) now) (s_db s))" "t = snd (insert_tx (newRow cfg (forwarded w cfg nt) now) (s_db s))"
      "constraints db1" "s_db s' = PruneQueue (nt_Strategy nt) db1" "constraints (s_db s')"
    have row: "etx_State row = TxUnstarted" "etx_EVMChainID row = c_chainID cfg" "etx_FromAddress row = nt_FromAddress nt" by (simp_all add: row_def newRow_def)
    have I: "key_inv k db1 \<and> undisturbed k (s_db s) db1" unfolding d(1) by (rule insert_keeps [OF assms(3)]) (use d row in \<open>simp_all add: row_def\<close>)
    have P: "key_inv k (s_db s') \<and> undisturbed k db1 (s_db s')" unfolding d(4) by (rule PruneQueue_keeps) (use I d in simp_all)
    have t: "etx_ID t = t_nextTx (s_db s)" "etx_State t = TxUnstarted" "etx_key t = (c_chainID cfg, nt_FromAddress nt)"
      using row unfolding d(2) by (simp_all add: row_def etx_key_def)
    have rows: "set (t_txes db1) = insert t (set (t_txes (s_db s)))" unfolding d(1,2) by simp
    have dist: "distinct (map etx_ID (t_txes db1))" by (rule constraints_distinct(1) [OF d(3)])
    have ids: "\<forall>u \<in> set (t_txes (s_db s)). etx_ID u < etx_ID t"
      using assms(3) t(1) unfolding key_inv_def ids_fresh_def by simp
    have kept: "\<forall>u \<in> insert t (set (t_txes (s_db s))). u = t \<and> (\<forall>subject. nt_Strategy nt \<noteq> DropOldestStrategy subject 0) \<or>
         (\<forall>subject n. nt_Strategy nt = DropOldestStrategy subject n \<longrightarrow> \<not> queuedFor subject u) \<longrightarrow> u \<in> set (t_txes (s_db s'))"
      unfolding d(4) by (intro ballI impI PruneQueue_kept [OF dist, of t]) (use rows ids in auto)
    have bound: "length (filter (queuedFor subject) (t_txes (s_db s'))) \<le> unat n" if "nt_Strategy nt = DropOldestStrategy subject n \<and> 0 < n" for subject n
      using PruneQueue_newest(1) [OF dist, of n subject] that unfolding d(4) by simp
    have q: "queuedRow cfg (forwarded w cfg nt) (t_nextTx (s_db s)) t" unfolding queuedRow_def d(2)
      by (simp add: insert_tx_def newRow_def etx_key_def Let_def)
    have uq: "\<forall>u \<in> set (t_txes (s_db s)). nt_PipelineTaskRunID nt \<noteq> None \<longrightarrow> etx_PipelineTaskRunID u \<noteq> nt_PipelineTaskRunID nt"
      by (rule task_unused [OF _ rows ids]) (use d(3) q in \<open>simp_all add: constraints_def queuedRow_def\<close>)
    have sub: "set (t_txes (s_db s')) \<subseteq> insert t (set (t_txes (s_db s)))"
      unfolding d(4) rows [symmetric] by (rule PruneQueue_subset)
    have bound': "\<forall>subject n. nt_Strategy nt = DropOldestStrategy subject n \<and> 0 < n \<longrightarrow>
         length (filter (queuedFor subject) (t_txes (s_db s'))) \<le> unat n"
      by (intro allI impI) (rule bound)
    have new: ?new by (intro conjI q uq sub kept bound')
    have inv: ?inv using P by blast
    have und: ?und using undisturbed_trans I P by blast
    show ?thesis by (rule conjI [OF cap conjI [OF inv conjI [OF und disjI2 [OF new]]]])
  qed
qed

lemma find_uniq:
  assumes "uniq rid key rows" and "distinct (map rid rows)" and "t \<in> set rows" and "key t = Some u" and "P t"
  shows "find (\<lambda>t. key t = Some u \<and> P t) rows = Some t"
proof (cases "find (\<lambda>t. key t = Some u \<and> P t) rows")
  case None
  then show ?thesis using assms(3-5) by (simp add: find_None)
next
  case (Some t')
  then have t': "t' \<in> set rows" "key t' = Some u" using find_SomeD [OF Some] by simp_all
  then have "rid t' = rid t" using assms(1,3,4) unfolding uniq_def by fastforce
  then have "t' = t" using assms(2,3) t'(1) by (meson distinct_map inj_onD)
  then show ?thesis using Some by simp
qed

lemma existingTx_found:
  assumes "constraints db" and "t \<in> set (t_txes db)" and "nt_PipelineTaskRunID nt \<noteq> None"
    and "etx_PipelineTaskRunID t = nt_PipelineTaskRunID nt" and "etx_EVMChainID t = c_chainID cfg"
  shows "existingTx cfg nt db = Some t"
proof -
  have "uniq etx_ID etx_PipelineTaskRunID (t_txes db)" using assms(1) unfolding constraints_def by blast
  from find_uniq [OF this constraints_distinct(1) [OF assms(1)] assms(2), of _ "\<lambda>t. etx_EVMChainID t = c_chainID cfg"] assms(3-5)
  show ?thesis by (auto simp: existingTx_def)
qed

lemma CreateEthTransaction_repeated:
  assumes "keystore_CheckEnabled w (c_chainID cfg, nt_FromAddress nt) s = None" and "\<forall>m. w_ok w m" and "w_others w = (\<lambda>_ db. db)"
    and "EvmMaxQueuedTransactions cfg = 0 \<or>
       countTransactionsWithState (c_chainID cfg, nt_FromAddress nt) TxUnstarted (s_db s) < unat (EvmMaxQueuedTransactions cfg)"
    and "existingTx cfg nt (s_db s) = Some t" and "constraints (s_db s)"
  shows "fst (CreateEthTransaction w cfg nt s) = Inr t"
proof -
  have e: "existingTx cfg (forwarded w cfg nt) db = existingTx cfg nt db" for db by (simp add: existingTx_def)
  obtain s1 where "CheckEthTxQueueCapacity w (c_chainID cfg, nt_FromAddress nt) (EvmMaxQueuedTransactions cfg) s = (None, s1)"
    and "s_db s1 = s_db s"
  proof (cases "EvmMaxQueuedTransactions cfg = 0")
    case True
    then show ?thesis by (intro that [of s]) (simp_all add: CheckEthTxQueueCapacity_def)
  next
    case False
    then show ?thesis using assms(2-4) by (intro that [of "tick w s"]) (simp_all add: CheckEthTxQueueCapacity_def query_def tick_def)
  qed
  then show ?thesis using assms unfolding CreateEthTransaction_def Let_def forwarded_simps e
    by (simp add: db_transaction_def)
qed

text \<open>C10: Creating a transaction is idempotent for each task of a pipeline: if the table has a row of the chain for the task,
  that row is returned and nothing changes, and this is what happens whenever the key is enabled, the queue not full and the
  database up; otherwise a successful creation puts a new row with the fields asked for, as forwarded, into the queue, if that is not
  full, and no row of the table, of whatever chain, had the task. With the strategy that drops the oldest, at most the given number of
  transactions of its subject stays in the queue, the new one among them; no other transaction is dropped. The invariant of every
  key is kept, and what is in progress is not touched, as the broadcaster relies on. A creation that fails changes nothing.\<close>
theorem create_transaction_correct:
  assumes "CreateEthTransaction w cfg nt s = (r, s')" and "w_others w = (\<lambda>_ db. db)" and "key_inv k (s_db s)"
  shows "(\<forall>e. r = Inl e \<longrightarrow> s_db s' = s_db s) \<and>
    (\<forall>t \<in> set (t_txes (s_db s)). nt_PipelineTaskRunID nt \<noteq> None \<and> etx_PipelineTaskRunID t = nt_PipelineTaskRunID nt \<and>
        etx_EVMChainID t = c_chainID cfg \<and> keystore_CheckEnabled w (c_chainID cfg, nt_FromAddress nt) s = None \<and> (\<forall>m. w_ok w m) \<and>
        (EvmMaxQueuedTransactions cfg = 0 \<or>
          countTransactionsWithState (c_chainID cfg, nt_FromAddress nt) TxUnstarted (s_db s) < unat (EvmMaxQueuedTransactions cfg))
      \<longrightarrow> r = Inr t \<and> s_db s' = s_db s) \<and>
    (\<forall>t. r = Inr t \<longrightarrow>
      (EvmMaxQueuedTransactions cfg = 0 \<or>
       countTransactionsWithState (c_chainID cfg, nt_FromAddress nt) TxUnstarted (s_db s) < unat (EvmMaxQueuedTransactions cfg)) \<and>
     key_inv k (s_db s') \<and> undisturbed k (s_db s) (s_db s') \<and>
     (t \<in> set (t_txes (s_db s)) \<and> nt_PipelineTaskRunID nt \<noteq> None \<and> etx_PipelineTaskRunID t = nt_PipelineTaskRunID nt \<and>
        etx_EVMChainID t = c_chainID cfg \<and> s_db s' = s_db s \<or>
      queuedRow cfg (forwarded w cfg nt) (t_nextTx (s_db s)) t \<and>
      (\<forall>u \<in> set (t_txes (s_db s)). nt_PipelineTaskRunID nt \<noteq> None \<longrightarrow> etx_PipelineTaskRunID u \<noteq> nt_PipelineTaskRunID nt) \<and>
      set (t_txes (s_db s')) \<subseteq> insert t (set (t_txes (s_db s))) \<and>
      (\<forall>u \<in> insert t (set (t_txes (s_db s))). u = t \<and> (\<forall>subject. nt_Strategy nt \<noteq> DropOldestStrategy subject 0) \<or>
         (\<forall>subject n. nt_Strategy nt = DropOldestStrategy subject n \<longrightarrow> \<not> queuedFor subject u) \<longrightarrow> u \<in> set (t_txes (s_db s'))) \<and>
      (\<forall>subject n. nt_Strategy nt = DropOldestStrategy subject n \<and> 0 < n \<longrightarrow>
         length (filter (queuedFor subject) (t_txes (s_db s'))) \<le> unat n)))"
proof (intro conjI allI ballI impI)
  have con: "constraints (s_db s)" using assms(3) unfolding key_inv_def by blast
  show "s_db s' = s_db s" if "r = Inl e" for e
    using CreateEthTransaction_fails [of w cfg nt s e s'] assms(1,2) that by simp
  fix t assume t: "t \<in> set (t_txes (s_db s))" and h: "nt_PipelineTaskRunID nt \<noteq> None \<and> etx_PipelineTaskRunID t = nt_PipelineTaskRunID nt \<and>
        etx_EVMChainID t = c_chainID cfg \<and> keystore_CheckEnabled w (c_chainID cfg, nt_FromAddress nt) s = None \<and> (\<forall>m. w_ok w m) \<and>
        (EvmMaxQueuedTransactions cfg = 0 \<or>
          countTransactionsWithState (c_chainID cfg, nt_FromAddress nt) TxUnstarted (s_db s) < unat (EvmMaxQueuedTransactions cfg))"
  then have e: "existingTx cfg nt (s_db s) = Some t" using existingTx_found [OF con t] by blast
  show r: "r = Inr t" using CreateEthTransaction_repeated [of w cfg nt s, OF _ _ assms(2) _ e con] h assms(1) by simp
  show "s_db s' = s_db s" using CreateEthTransaction_cases [OF assms(1) [unfolded r] assms(2)] e by simp
next
  fix t assume "r = Inr t"
  note C = create_cases [OF assms(1) [unfolded this] assms(2,3)]
  show "EvmMaxQueuedTransactions cfg = 0 \<or>
       countTransactionsWithState (c_chainID cfg, nt_FromAddress nt) TxUnstarted (s_db s) < unat (EvmMaxQueuedTransactions cfg)"
    and "key_inv k (s_db s')" and "undisturbed k (s_db s) (s_db s')" using C by blast+
  show "t \<in> set (t_txes (s_db s)) \<and> nt_PipelineTaskRunID nt \<noteq> None \<and> etx_PipelineTaskRunID t = nt_PipelineTaskRunID nt \<and>
        etx_EVMChainID t = c_chainID cfg \<and> s_db s' = s_db s \<or>
      queuedRow cfg (forwarded w cfg nt) (t_nextTx (s_db s)) t \<and>
      (\<forall>u \<in> set (t_txes (s_db s)). nt_PipelineTaskRunID nt \<noteq> None \<longrightarrow> etx_PipelineTaskRunID u \<noteq> nt_PipelineTaskRunID nt) \<and>
      set (t_txes (s_db s')) \<subseteq> insert t (set (t_txes (s_db s))) \<and>
      (\<forall>u \<in> insert t (set (t_txes (s_db s))). u = t \<and> (\<forall>subject. nt_Strategy nt \<noteq> DropOldestStrategy subject 0) \<or>
         (\<forall>subject n. nt_Strategy nt = DropOldestStrategy subject n \<longrightarrow> \<not> queuedFor subject u) \<longrightarrow> u \<in> set (t_txes (s_db s'))) \<and>
      (\<forall>subject n. nt_Strategy nt = DropOldestStrategy subject n \<and> 0 < n \<longrightarrow>
         length (filter (queuedFor subject) (t_txes (s_db s'))) \<le> unat n)"
    using C by blast
qed

definition new_tx0 :: new_tx where
  "new_tx0 = \<lparr>nt_FromAddress = 7, nt_ToAddress = 8, nt_EncodedPayload = [1], nt_GasLimit = 21000, nt_Meta = None, nt_ForwarderAddress = 0,
     nt_MinConfirmations = None, nt_PipelineTaskRunID = None, nt_Strategy = DropOldestStrategy 5 1,
     nt_Checker = \<lparr>CheckerType = CheckerNone, VRFCoordinatorAddress = None, VRFRequestBlockNumber = None\<rparr>\<rparr>"

text \<open>The same creation twice, for a task: the second one finds the first one's transaction.\<close>

theorem create_transaction_correct_witness:
  "\<exists>t s' s''. CreateEthTransaction world0 tx_cfg0 (new_tx0\<lparr>nt_PipelineTaskRunID := Some 3\<rparr>) (txm0 [] []) = (Inr t, s') \<and>
     key_inv (1, 7) (s_db s') \<and> etx_PipelineTaskRunID t = Some 3 \<and> t \<in> set (t_txes (s_db s')) \<and>
     CreateEthTransaction world0 tx_cfg0 (new_tx0\<lparr>nt_PipelineTaskRunID := Some 3\<rparr>) s' = (Inr t, s'') \<and> s_db s'' = s_db s'"
proof -
  let ?nt = "new_tx0\<lparr>nt_PipelineTaskRunID := Some 3\<rparr>"
  have "case CreateEthTransaction world0 tx_cfg0 ?nt (txm0 [] []) of (Inr t, s') \<Rightarrow> t \<in> set (t_txes (s_db s')) \<and>
        etx_PipelineTaskRunID t = nt_PipelineTaskRunID ?nt \<and> etx_EVMChainID t = c_chainID tx_cfg0 \<and>
        keystore_CheckEnabled world0 (c_chainID tx_cfg0, nt_FromAddress ?nt) s' = None \<and> (EvmMaxQueuedTransactions tx_cfg0 = 0 \<or>
          countTransactionsWithState (c_chainID tx_cfg0, nt_FromAddress ?nt) TxUnstarted (s_db s') < unat (EvmMaxQueuedTransactions tx_cfg0))
      | _ \<Rightarrow> False"
    by code_simp
  then obtain t s' where r: "CreateEthTransaction world0 tx_cfg0 ?nt (txm0 [] []) = (Inr t, s')"
    and t: "t \<in> set (t_txes (s_db s'))" and u: "etx_PipelineTaskRunID t = nt_PipelineTaskRunID ?nt"
    and c: "nt_PipelineTaskRunID ?nt \<noteq> None \<and> etx_PipelineTaskRunID t = nt_PipelineTaskRunID ?nt \<and> etx_EVMChainID t = c_chainID tx_cfg0 \<and>
        keystore_CheckEnabled world0 (c_chainID tx_cfg0, nt_FromAddress ?nt) s' = None \<and> (\<forall>m. w_ok world0 m) \<and> (EvmMaxQueuedTransactions tx_cfg0 = 0 \<or>
          countTransactionsWithState (c_chainID tx_cfg0, nt_FromAddress ?nt) TxUnstarted (s_db s') < unat (EvmMaxQueuedTransactions tx_cfg0))"
    by (auto simp: world0_def split: prod.splits sum.splits)
  have w: "w_others world0 = (\<lambda>_ db. db)" by (simp add: world0_def)
  from create_transaction_correct [OF r w txm0_inv(1)] have k: "key_inv (1, 7) (s_db s')" by simp
  obtain r2 s'' where r2: "CreateEthTransaction world0 tx_cfg0 ?nt s' = (r2, s'')" by fastforce
  from create_transaction_correct [OF r2 w k] t c have "r2 = Inr t \<and> s_db s'' = s_db s'" by blast
  then show ?thesis using r k t u r2 by auto
qed

text \<open>Other users that do nothing but create transactions, of whatever chain, keep to what the broadcaster relies on.\<close>

lemma rely_creation:
  assumes "w_others w0 = (\<lambda>_ db. db)"
    and "\<forall>m db. w_others w m db = db \<or> (\<exists>cfg nt st. s_db st = db \<and> w_others w m db = s_db (snd (CreateEthTransaction w0 cfg nt st)))"
  shows "rely k w"
  unfolding rely_def
proof (intro allI impI)
  fix m db assume inv: "key_inv k db"
  from assms(2) consider "w_others w m db = db"
    | cfg nt st where "s_db st = db" "w_others w m db = s_db (snd (CreateEthTransaction w0 cfg nt st))" by metis
  then show "key_inv k (w_others w m db) \<and> undisturbed k db (w_others w m db)"
  proof cases
    case 1
    then show ?thesis using inv undisturbed_refl by simp
  next
    case (2 cfg nt st)
    obtain r st' where r: "CreateEthTransaction w0 cfg nt st = (r, st')" by fastforce
    show ?thesis
    proof (cases r)
      case (Inl e)
      then show ?thesis using CreateEthTransaction_fails [of w0 cfg nt st e st'] r assms(1) 2 inv undisturbed_refl by simp
    next
      case (Inr t)
      then show ?thesis using create_cases [of w0 cfg nt st t st' k] r assms(1) 2 inv by simp
    qed
  qed
qed

section \<open>The nonce of the chain\<close>

lemma query_alone:
  assumes "query w q s = (r, s')" "w_others w = (\<lambda>_ db. db)"
  shows "s_db s' = s_db s" "s_mem s' = s_mem s" "r = Inr x \<Longrightarrow> x = q (s_db s)"
  using assms by (auto simp: query_def tick_def split: if_splits)

lemma GetNextNonce_alone:
  assumes "keystore_GetNextNonce w k s = (r, s')" "w_others w = (\<lambda>_ db. db)"
  shows "s_db s' = s_db s" "r = Inr n \<Longrightarrow> nextNonce k (s_db s) = Some n"
proof -
  obtain r1 s1 where q: "query w (getNextNonce k) s = (r1, s1)" by fastforce
  note Q = query_alone [OF q assms(2)]
  show "s_db s' = s_db s" using assms(1) q Q(1) unfolding keystore_GetNextNonce_def by (auto split: if_splits sum.splits option.splits)
  assume "r = Inr n"
  then have "r1 = Inr (Some n)" using assms(1) q unfolding keystore_GetNextNonce_def by (auto split: if_splits sum.splits option.splits)
  then show "nextNonce k (s_db s) = Some n" using Q(3)
    unfolding getNextNonce_def keyEnabled_def nextNonce_def by (fastforce split: option.splits if_splits)
qed

lemma setNonceIf_Inr: "setNonceIf k new old db = Inr (db', u) \<Longrightarrow>
    \<exists>x. t_keys db k = Some x \<and> ks_NextNonce x = old \<and> db' = db\<lparr>t_keys := (t_keys db)(k \<mapsto> x\<lparr>ks_NextNonce := new\<rparr>)\<rparr>"
  by (auto simp: setNonceIf_def split: option.splits if_splits)

text \<open>With \<open>p\<close> for the transaction in progress: only the nonce of the key changes, and only upwards.\<close>

lemma fastForward_result:
  assumes r: "fastForwardNonceIfNecessary w cfg addr s = (None, s')" and alone: "w_others w = (\<lambda>_ db. db)"
    and c: "w_PendingNonceAt w (s_clock s) addr = Some c" "c \<noteq> 0"
    and k: "k = (c_chainID cfg, addr)" and m: "nextNonce k (s_db s) = Some m" "0 \<le> m" "m < max_i64"
    and p: "p = of_bool (hasInProgressTransaction k (s_db s))"
  shows "uint c \<le> m + p \<and> s_db s' = s_db s \<or>
    m + p < uint c \<and> (\<exists>x. t_keys (s_db s) k = Some x \<and> s_db s' = (s_db s)\<lparr>t_keys := (t_keys (s_db s))(k \<mapsto> x\<lparr>ks_NextNonce := uint c - p\<rparr>)\<rparr>)"
proof -
  define s1 where "s1 = tick w s"
  have s1: "s_db s1 = s_db s" unfolding s1_def by (rule tick_alone [OF alone])
  obtain r2 s2 where g: "keystore_GetNextNonce w k s1 = (r2, s2)" by fastforce
  note G = GetNextNonce_alone [OF g alone]
  obtain r3 s3 where h: "query w (hasInProgressTransaction k) s2 = (r3, s3)" by fastforce
  note H = query_alone [OF h alone]
  have db3: "s_db s3 = s_db s" using H(1) G(1) s1 by simp
  obtain n where r2: "r2 = Inr n" using r c g unfolding fastForwardNonceIfNecessary_def k s1_def by (auto simp: Let_def split: sum.splits)
  then have n: "n = m" using G(2) m(1) s1 by simp
  obtain ip where r3: "r3 = Inr ip" using r c g h r2 unfolding fastForwardNonceIfNecessary_def k s1_def by (auto simp: Let_def split: sum.splits)
  then have ip: "ip = hasInProgressTransaction k (s_db s)" using H(3) G(1) s1 by simp
  have local: "(if ip then wrap64 (n + 1) else n) = m + p" using m n unfolding p ip by (simp add: is_i64_def min_i64_def max_i64_def)
  have u: "uint (to_u64 (m + p)) = m + p"
  proof -
    have "uint (to_u64 q) = q" if "0 \<le> q" "q \<le> max_i64" for q
      using that by (simp add: to_u64_def uint_word_of_int max_i64_def)
    moreover have "0 \<le> m + p" "m + p \<le> max_i64" using m(2,3) unfolding p by (simp_all add: of_bool_def)
    ultimately show ?thesis by blast
  qed
  show ?thesis
  proof (cases "c \<le> to_u64 (m + p)")
    case True
    then have "s' = s3" using r c g h r2 r3 local unfolding fastForwardNonceIfNecessary_def k s1_def by (simp add: Let_def)
    then show ?thesis using True u db3 by (simp add: word_le_def)
  next
    case False
    define new where "new = (if ip then c - 1 else c)"
    have "uint c \<noteq> 0" using c(2) by (simp add: uint_0_iff)
    then have "1 \<le> uint c" using uint_ge_0 [of c] by linarith
    then have new: "uint new = uint c - p" unfolding new_def p ip by (simp add: uint_sub_if')
    obtain r4 s4 where tr: "db_transaction w (\<lambda>db. if uint new > max_i64 then Inl QueryFailed else setNonceIf k (uint new) m db) s3 = (r4, s4)" by fastforce
    have "r4 = Inr () \<and> s' = s4"
      using r c g h r2 r3 local False tr n unfolding fastForwardNonceIfNecessary_def k s1_def new_def by (auto simp: Let_def split: sum.splits)
    then have "(if uint new > max_i64 then Inl QueryFailed else setNonceIf k (uint new) m (s_db s3)) = Inr (s_db s', ())"
      using transaction_alone(1) [OF tr alone, of "()"] by blast
    then have "setNonceIf k (uint new) m (s_db s3) = Inr (s_db s', ())" by (cases "uint new > max_i64") simp_all
    then have "setNonceIf k (uint new) m (s_db s) = Inr (s_db s', ())" unfolding db3 .
    from setNonceIf_Inr [OF this] obtain x where "t_keys (s_db s) k = Some x" "s_db s' = (s_db s)\<lparr>t_keys := (t_keys (s_db s))(k \<mapsto> x\<lparr>ks_NextNonce := uint new\<rparr>)\<rparr>" by blast
    then show ?thesis using False u new by (auto simp: word_le_def)
  qed
qed

text \<open>C37: If the chain has seen nonces of the key that the tables do not know, the next nonce is raised, so that, counting the transaction that is
  in progress, it is the nonce the node expects; otherwise nothing changes. It never falls.\<close>
theorem fast_forward_adopts_nonce:
  assumes "fastForwardNonceIfNecessary w cfg addr s = (None, s')" and "w_others w = (\<lambda>_ db. db)"
    and "w_PendingNonceAt w (s_clock s) addr = Some c" "c \<noteq> 0"
    and "nextNonce (c_chainID cfg, addr) (s_db s) = Some m" "0 \<le> m" "m < max_i64"
    and "p = of_bool (hasInProgressTransaction (c_chainID cfg, addr) (s_db s))"
  shows "nextNonce (c_chainID cfg, addr) (s_db s') = Some (max m (uint c - p)) \<and> t_txes (s_db s') = t_txes (s_db s) \<and>
    t_attempts (s_db s') = t_attempts (s_db s)"
proof -
  let ?k = "(c_chainID cfg, addr)"
  from fastForward_result [OF assms(1-4) refl assms(5-8)] show ?thesis
  proof
    assume "uint c \<le> m + p \<and> s_db s' = s_db s"
    then show ?thesis using assms(5) by (simp add: max_def)
  next
    assume *: "m + p < uint c \<and> (\<exists>x. t_keys (s_db s) ?k = Some x \<and> s_db s' = (s_db s)\<lparr>t_keys := (t_keys (s_db s))(?k \<mapsto> x\<lparr>ks_NextNonce := uint c - p\<rparr>)\<rparr>)"
    then show ?thesis by (auto simp: nextNonce_def max_def)
  qed
qed

theorem fast_forward_adopts_nonce_witness:
  "\<exists>s'. fastForwardNonceIfNecessary world0 tx_cfg0 7 (txm0 [row0 TxUnstarted None 1] []) = (None, s') \<and> nextNonce (1, 7) (s_db s') = Some 9"
proof -
  have "fst (fastForwardNonceIfNecessary world0 tx_cfg0 7 (txm0 [row0 TxUnstarted None 1] [])) = None" by code_simp
  then obtain s' where r: "fastForwardNonceIfNecessary world0 tx_cfg0 7 (txm0 [row0 TxUnstarted None 1] []) = (None, s')" by (metis prod.collapse)
  have p: "\<not> hasInProgressTransaction (1, 7) (s_db (txm0 [row0 TxUnstarted None 1] []))"
    by (simp add: hasInProgressTransaction_def txm0_def row0_def)
  have c: "c_chainID tx_cfg0 = 1" by (simp add: tx_cfg0_def)
  from fast_forward_adopts_nonce [OF r, of 9 3 0] show ?thesis
    using r p c by (simp add: world0_def nextNonce_def txm0_def keys0_def key0_def max_i64_def)
qed

end
