(* ===== verification/Tx_Broadcaster.thy ===== *)
theory Tx_Broadcaster
  imports Tx_Queue
begin

text \<open>
  Broadcasting transactions (\<^verbatim>\<open>core/chains/evm/txmgr/eth_broadcaster.go\<close>): the queue of one key is worked off in order; each
  transaction gets the next nonce, is stored as in progress with one attempt, sent, and then stored as unconfirmed, or as fatally
  errored if the node will never take it. A transaction that was left in progress by a crash is finished first.
\<close>

section \<open>Steps\<close>

text \<open>The columns that the updates set.\<close>

definition startTx :: "int option \<Rightarrow> time option \<Rightarrow> time option \<Rightarrow> eth_tx \<Rightarrow> eth_tx" where
  "startTx n b i r = r\<lparr>etx_Nonce := n, etx_State := TxInProgress, etx_BroadcastAt := b, etx_InitialBroadcastAt := i\<rparr>"

definition broadcastTx :: "string option \<Rightarrow> time option \<Rightarrow> time option \<Rightarrow> eth_tx \<Rightarrow> eth_tx" where
  "broadcastTx e b i r = r\<lparr>etx_State := TxUnconfirmed, etx_Error := e, etx_BroadcastAt := b, etx_InitialBroadcastAt := i\<rparr>"

definition fatalTx :: "string option \<Rightarrow> eth_tx \<Rightarrow> eth_tx" where
  "fatalTx e r = r\<lparr>etx_State := TxFatalError, etx_Error := e, etx_BroadcastAt := None, etx_InitialBroadcastAt := None, etx_Nonce := None\<rparr>"

text \<open>Rows of the same rank come in the order of the table.\<close>

definition findNextUnstarted :: "int \<times> address \<Rightarrow> tx_db \<Rightarrow> eth_tx option" where
  "findNextUnstarted k db =
    (case sort_key (\<lambda>t. (etx_Value t, etx_CreatedAt t, etx_ID t)) (filter (\<lambda>t. etx_key t = k \<and> etx_State t = TxUnstarted) (t_txes db)) of
       [] \<Rightarrow> None | t # _ \<Rightarrow> Some t)"

definition nextUnstartedTransactionWithNonce :: "world \<Rightarrow> txm_config \<Rightarrow> address \<Rightarrow> txm \<Rightarrow> (tx_error + eth_tx option) \<times> txm" where
  "nextUnstartedTransactionWithNonce w cfg fromAddress s =
    (case query w (findNextUnstarted (c_chainID cfg, fromAddress)) s of
       (Inl e, s1) \<Rightarrow> (Inl e, s1)
     | (Inr None, s1) \<Rightarrow> (Inr None, s1)
     | (Inr (Some etx), s1) \<Rightarrow> (case keystore_GetNextNonce w (c_chainID cfg, etx_FromAddress etx) s1 of
         (Inl e, s2) \<Rightarrow> (Inl e, s2)
       | (Inr nonce, s2) \<Rightarrow> (Inr (Some (etx\<lparr>etx_Nonce := Some nonce\<rparr>)), s2)))"

text \<open>The row that is updated is read back.\<close>

definition saveInProgressTransaction :: "world \<Rightarrow> eth_tx \<Rightarrow> eth_tx_attempt \<Rightarrow> txm \<Rightarrow> (tx_error + eth_tx \<times> eth_tx_attempt) \<times> txm" where
  "saveInProgressTransaction w etx attempt s =
    (if etx_State etx \<noteq> TxUnstarted \<or> eta_State attempt \<noteq> AttInProgress then (Inl WrongState, s)
     else db_transaction w (\<lambda>db. case find_tx (etx_ID etx) db of None \<Rightarrow> Inl EthTxRemoved
       | Some row \<Rightarrow> (case insert_attempt attempt db of (db1, attempt1) \<Rightarrow>
           let upd = startTx (etx_Nonce etx) (etx_BroadcastAt etx) (etx_InitialBroadcastAt etx)
           in Inr (update_tx (etx_ID etx) upd db1, upd row, attempt1))) s)"

text \<open>No restriction to the chain of the broadcaster.\<close>

definition findInProgress :: "address \<Rightarrow> tx_db \<Rightarrow> eth_tx option" where
  "findInProgress fromAddress db = find (\<lambda>t. etx_FromAddress t = fromAddress \<and> etx_State t = TxInProgress) (t_txes db)"

definition getInProgressEthTx :: "world \<Rightarrow> address \<Rightarrow> txm \<Rightarrow> (tx_error + (eth_tx \<times> eth_tx_attempt) option) \<times> txm" where
  "getInProgressEthTx w fromAddress s =
    (case query w (findInProgress fromAddress) s of
       (Inl e, s1) \<Rightarrow> (Inl e, s1)
     | (Inr None, s1) \<Rightarrow> (Inr None, s1)
     | (Inr (Some etx), s1) \<Rightarrow> (case query w (loadEthTxAttempts (etx_ID etx)) s1 of
         (Inl e, s2) \<Rightarrow> (Inl e, s2)
       | (Inr atts, s2) \<Rightarrow> (case atts of
           [a] \<Rightarrow> (if eta_State a = AttInProgress then Inr (Some (etx, a)) else Inl NotOneUnsentAttempt, s2)
         | _ \<Rightarrow> (Inl NotOneUnsentAttempt, s2))))"

text \<open>The nonce in memory stays incremented if the transaction is rolled back after that.\<close>

definition saveAttempt :: "world \<Rightarrow> txm_config \<Rightarrow> eth_tx \<Rightarrow> eth_tx_attempt \<Rightarrow> txm \<Rightarrow> tx_error option \<times> txm" where
  "saveAttempt w cfg etx attempt s =
    (if etx_State etx \<noteq> TxInProgress \<or> eta_State attempt \<noteq> AttInProgress then (Some WrongState, s)
     else case etx_Nonce etx of None \<Rightarrow> (Some Panicked, s)
     | Some nonce \<Rightarrow>
         (let inc = (\<lambda>db. keystore_IncrementNextNonce w (c_chainID cfg, etx_FromAddress etx) nonce db (s_mem s));
              upd = broadcastTx (etx_Error etx) (etx_BroadcastAt etx) (etx_InitialBroadcastAt etx);
              f = (\<lambda>db. case inc db of Inl e \<Rightarrow> Inl e
                 | Inr (db1, _) \<Rightarrow>
                     if find_tx (etx_ID etx) db1 = None \<or> eta_ID attempt \<notin> eta_ID ` set (t_attempts db1) then Inl NoRows
                     else Inr (update_attempt (eta_ID attempt) (\<lambda>a. a\<lparr>eta_State := AttBroadcast\<rparr>) (update_tx (etx_ID etx) upd db1), ()));
              mem = (case inc (s_db s) of Inr (_, m) \<Rightarrow> if w_ok w (s_clock s) then m else s_mem s | Inl _ \<Rightarrow> s_mem s)
          in case db_transaction w f s of
               (Inl e, s1) \<Rightarrow> (Some e, s1\<lparr>s_mem := mem\<rparr>)
             | (Inr _, s1) \<Rightarrow> (None, s1\<lparr>s_mem := mem\<rparr>)))"

definition resumeWithError :: "world \<Rightarrow> eth_tx \<Rightarrow> string \<Rightarrow> txm \<Rightarrow> bool \<times> txm" where
  "resumeWithError w etx err s =
    (case (etx_PipelineTaskRunID etx, w_Resume w) of
       (Some u, Some resume) \<Rightarrow> (resume (s_clock s) u err \<noteq> ResumeFailed, tick w (s\<lparr>s_resumed := s_resumed s @ [(u, err)]\<rparr>))
     | _ \<Rightarrow> (True, s))"

definition saveFatallyErroredTransaction :: "world \<Rightarrow> eth_tx \<Rightarrow> txm \<Rightarrow> tx_error option \<times> txm" where
  "saveFatallyErroredTransaction w etx s =
    (if etx_State etx \<noteq> TxInProgress then (Some WrongState, s)
     else case etx_Error etx of None \<Rightarrow> (Some ErrorNotSet, s)
     | Some err \<Rightarrow>
         (case resumeWithError w etx err s of
            (False, s1) \<Rightarrow> (Some ResumePipelineFailed, s1)
          | (True, s1) \<Rightarrow>
            (case db_transaction w (\<lambda>db. let db1 = delete_attempts (\<lambda>a. eta_EthTxID a = etx_ID etx) db
                    in if find_tx (etx_ID etx) db1 = None then Inl NoRows
                       else Inr (update_tx (etx_ID etx) (fatalTx (Some err)) db1, ())) s1 of
                  (Inl e, s2) \<Rightarrow> (Some e, s2)
                | (Inr _, s2) \<Rightarrow> (None, s2))))"

section \<open>Sending a transaction in progress\<close>

text \<open>One attempt either ends the work on the transaction, with an error and whether to retry, or replaces the attempt by another one.
  A panic (a nil dereference) while a new attempt is built is the error \<open>Panicked\<close>, which is not retried.\<close>

datatype handled = Handled "tx_error option" bool | TryAgain eth_tx eth_tx_attempt

definition tryAgainWithAttempt :: "world \<Rightarrow> eth_tx \<Rightarrow> eth_tx_attempt \<Rightarrow> tx_error + eth_tx_attempt \<Rightarrow> txm \<Rightarrow> handled \<times> txm" where
  "tryAgainWithAttempt w etx attempt new s =
    (case new of Inl e \<Rightarrow> (Handled (Some e) (e \<noteq> Panicked), s)
     | Inr replacement \<Rightarrow> (case saveReplacementInProgressAttempt w attempt replacement s of
         (Inl e, s1) \<Rightarrow> (Handled (Some e) True, s1)
       | (Inr replacement1, s1) \<Rightarrow> (TryAgain etx replacement1, s1)))"

definition tryAgainWithNewLegacyGas :: "world \<Rightarrow> txm_config \<Rightarrow> eth_tx \<Rightarrow> eth_tx_attempt \<Rightarrow> wei \<Rightarrow> u32 \<Rightarrow> txm \<Rightarrow> handled \<times> txm" where
  "tryAgainWithNewLegacyGas w cfg etx attempt newGasPrice newGasLimit s =
    tryAgainWithAttempt w etx attempt (NewLegacyAttempt w cfg etx newGasPrice newGasLimit) s"

definition tryAgainWithNewDynamicFeeGas :: "world \<Rightarrow> txm_config \<Rightarrow> eth_tx \<Rightarrow> eth_tx_attempt \<Rightarrow> dynamic_fee \<Rightarrow> u32 \<Rightarrow> txm \<Rightarrow> handled \<times> txm" where
  "tryAgainWithNewDynamicFeeGas w cfg etx attempt newDynamicFee newGasLimit s =
    tryAgainWithAttempt w etx attempt (NewDynamicFeeAttempt w cfg etx newDynamicFee newGasLimit) s"

definition tryAgainBumpingLegacyGas :: "world \<Rightarrow> txm_config \<Rightarrow> eth_tx \<Rightarrow> eth_tx_attempt \<Rightarrow> txm \<Rightarrow> handled \<times> txm" where
  "tryAgainBumpingLegacyGas w cfg etx attempt s =
    (case eta_GasPrice attempt of None \<Rightarrow> (Handled (Some Panicked) False, s)
     | Some price \<Rightarrow>
         (let s1 = tick w s in
          case w_BumpLegacyGas w (s_clock s) price (etx_GasLimit etx) (KeySpecificMaxGasPriceWei cfg (etx_FromAddress etx)) [] of
            Inl e \<Rightarrow> (Handled (Some (EstimatorFailed e)) True, s1)
          | Inr (bumped, limit) \<Rightarrow>
              if bumped = price \<or> bumped \<ge> EvmMaxGasPriceWei (c_gas cfg) then (Handled (Some BumpCeiling) True, s1)
              else tryAgainWithNewLegacyGas w cfg etx attempt bumped limit s1))"

text \<open>The comparison with the maximum is made twice for the tip cap, and not for the fee cap.\<close>

definition tryAgainBumpingDynamicFeeGas :: "world \<Rightarrow> txm_config \<Rightarrow> eth_tx \<Rightarrow> eth_tx_attempt \<Rightarrow> txm \<Rightarrow> handled \<times> txm" where
  "tryAgainBumpingDynamicFeeGas w cfg etx attempt s =
    (let s1 = tick w s in
     case w_BumpDynamicFee w (s_clock s) (eta_DynamicFee attempt) (etx_GasLimit etx) (KeySpecificMaxGasPriceWei cfg (etx_FromAddress etx)) [] of
       Inl e \<Rightarrow> (Handled (Some (EstimatorFailed e)) True, s1)
     | Inr (bumped, limit) \<Rightarrow>
         (case (TipCap bumped, FeeCap bumped, eta_GasTipCap attempt, eta_GasFeeCap attempt) of
            (Some tip, Some fee, Some oldTip, Some oldFee) \<Rightarrow>
              if tip = oldTip \<or> fee = oldFee \<or> tip \<ge> EvmMaxGasPriceWei (c_gas cfg) \<or> tip \<ge> EvmMaxGasPriceWei (c_gas cfg)
              then (Handled (Some BumpCeiling) True, s1)
              else tryAgainWithNewDynamicFeeGas w cfg etx attempt bumped limit s1
          | _ \<Rightarrow> (Handled (Some Panicked) False, s1)))"

definition tryAgainBumpingGas :: "world \<Rightarrow> txm_config \<Rightarrow> eth_tx \<Rightarrow> eth_tx_attempt \<Rightarrow> txm \<Rightarrow> handled \<times> txm" where
  "tryAgainBumpingGas w cfg etx attempt s =
    (if eta_TxType attempt = 0 then tryAgainBumpingLegacyGas w cfg etx attempt s
     else if eta_TxType attempt = 2 then tryAgainBumpingDynamicFeeGas w cfg etx attempt s
     else (Handled (Some UnknownTxType) False, s))"

definition tryAgainWithNewEstimation :: "world \<Rightarrow> txm_config \<Rightarrow> eth_tx \<Rightarrow> eth_tx_attempt \<Rightarrow> txm \<Rightarrow> handled \<times> txm" where
  "tryAgainWithNewEstimation w cfg etx attempt s =
    (if eta_TxType attempt = 2 then (Handled (Some NoReestimation) False, s)
     else let s1 = tick w s in
       case w_GetLegacyGas w (s_clock s) (etx_EncodedPayload etx) (etx_GasLimit etx) (KeySpecificMaxGasPriceWei cfg (etx_FromAddress etx)) True of
         Inl e \<Rightarrow> (Handled (Some (EstimatorFailed e)) True, s1)
       | Inr (price, limit) \<Rightarrow> tryAgainWithNewLegacyGas w cfg etx attempt price limit s1)"

text \<open>An error that is none of the known ones: the nonce the node expects next tells whether it took the transaction.\<close>

definition handleUnknownError :: "world \<Rightarrow> txm_config \<Rightarrow> eth_tx \<Rightarrow> eth_tx_attempt \<Rightarrow> rpc_error \<Rightarrow> txm \<Rightarrow> handled \<times> txm" where
  "handleUnknownError w cfg etx attempt err s =
    (let s1 = tick w s in
     case w_PendingNonceAt w (s_clock s) (etx_FromAddress etx) of None \<Rightarrow> (Handled (Some PendingNonceFailed) True, s1)
     | Some pending \<Rightarrow>
         if uint pending > max_i64 then (Handled (Some NonceOverflow) True, s1)
         else case etx_Nonce etx of None \<Rightarrow> (Handled (Some Panicked) False, s1)
         | Some nonce \<Rightarrow>
             if to_i64 pending > nonce
             then (case saveAttempt w cfg etx attempt s1 of (e, s2) \<Rightarrow> (Handled e True, s2))
             else (Handled (Some (SendFailed err)) True, s1))"

definition handleSendError :: "world \<Rightarrow> txm_config \<Rightarrow> eth_tx \<Rightarrow> eth_tx_attempt \<Rightarrow> tx_send_error option \<Rightarrow> txm \<Rightarrow> handled \<times> txm" where
  "handleSendError w cfg etx attempt sendError0 s =
    (let isk = se_is (w_clients w);
         sendError = (if isk NonceTooLow sendError0 \<or> isk TransactionAlreadyMined sendError0 \<or> isk ReplacementTransactionUnderpriced sendError0
                      then None else sendError0)
     in case sendError of None \<Rightarrow> (case saveAttempt w cfg etx attempt s of (e, s1) \<Rightarrow> (Handled e True, s1))
        | Some se \<Rightarrow>
            if isk TerminallyUnderpriced sendError then tryAgainBumpingGas w cfg etx attempt s
            else if isk L2FeeTooLow sendError \<or> isk L2FeeTooHigh sendError \<or> isk L2Full sendError
            then (if ChainIsL2 cfg then tryAgainWithNewEstimation w cfg etx attempt s else (Handled (Some L2ErrorOnL1) False, s))
            else if isk LimitReached sendError then (case saveAttempt w cfg etx attempt s of (e, s1) \<Rightarrow> (Handled e True, s1))
            else if isk InsufficientEth sendError then (Handled (Some (SendFailed (se_err se))) True, s)
            else if se_IsTimeout sendError then (Handled (Some (SendFailed (se_err se))) True, s)
            else handleUnknownError w cfg etx attempt (se_err se) s)"

definition handleOnce :: "world \<Rightarrow> txm_config \<Rightarrow> eth_tx \<Rightarrow> eth_tx_attempt \<Rightarrow> time \<Rightarrow> txm \<Rightarrow> handled \<times> txm" where
  "handleOnce w cfg etx attempt initialBroadcastAt s =
    (if etx_State etx \<noteq> TxInProgress then (Handled (Some WrongState) False, s)
     else case GetChecker etx of None \<Rightarrow> (Handled (Some BadCheckerJSON) False, s)
     | Some spec \<Rightarrow> (case BuildChecker w spec of None \<Rightarrow> (Handled (Some BadCheckerSpec) False, s)
       | Some checker \<Rightarrow>
           (let s1 = tick w s;
                sending = (\<lambda>s1. case sendTransaction w attempt s1 of (sendError, s2) \<Rightarrow>
                  (case sendError of
                     Some se \<Rightarrow> if se_fatal se
                       then (case saveFatallyErroredTransaction w (etx\<lparr>etx_Error := Some (err_text (se_err se))\<rparr>) s2 of (e, s3) \<Rightarrow> (Handled e True, s3))
                       else handleSendError w cfg (etx\<lparr>etx_InitialBroadcastAt := Some initialBroadcastAt, etx_BroadcastAt := Some initialBroadcastAt\<rparr>)
                              attempt sendError s2
                   | None \<Rightarrow> handleSendError w cfg (etx\<lparr>etx_InitialBroadcastAt := Some initialBroadcastAt, etx_BroadcastAt := Some initialBroadcastAt\<rparr>)
                              attempt sendError s2))
            in case Check w checker (s_clock s) etx attempt of
                 CheckPanicked \<Rightarrow> (Handled (Some Panicked) False, s1)
               | CheckFailed err \<Rightarrow> (case saveFatallyErroredTransaction w (etx\<lparr>etx_Error := Some err\<rparr>) s1 of (e, s2) \<Rightarrow> (Handled e True, s2))
               | CheckCanceled \<Rightarrow> sending s1
               | CheckPassed \<Rightarrow> sending s1)))"

text \<open>\<open>None\<close>: not finished after so many attempts.\<close>

fun handleInProgressEthTx :: "world \<Rightarrow> txm_config \<Rightarrow> nat \<Rightarrow> eth_tx \<Rightarrow> eth_tx_attempt \<Rightarrow> time \<Rightarrow> txm \<Rightarrow> ((tx_error option \<times> bool) \<times> txm) option" where
  "handleInProgressEthTx w cfg 0 etx attempt initialBroadcastAt s = None"
| "handleInProgressEthTx w cfg (Suc n) etx attempt initialBroadcastAt s =
    (case handleOnce w cfg etx attempt initialBroadcastAt s of
       (Handled e retryable, s1) \<Rightarrow> Some ((e, retryable), s1)
     | (TryAgain etx1 attempt1, s1) \<Rightarrow> handleInProgressEthTx w cfg n etx1 attempt1 initialBroadcastAt s1)"

definition handleAnyInProgressEthTx :: "world \<Rightarrow> txm_config \<Rightarrow> nat \<Rightarrow> address \<Rightarrow> txm \<Rightarrow> ((tx_error option \<times> bool) \<times> txm) option" where
  "handleAnyInProgressEthTx w cfg fuel fromAddress s =
    (case getInProgressEthTx w fromAddress s of
       (Inl e, s1) \<Rightarrow> Some ((Some e, True), s1)
     | (Inr None, s1) \<Rightarrow> Some ((None, False), s1)
     | (Inr (Some (etx, a)), s1) \<Rightarrow> (case handleInProgressEthTx w cfg fuel etx a (etx_CreatedAt etx) s1 of
         None \<Rightarrow> None
       | Some ((Some e, retryable), s2) \<Rightarrow> Some ((Some e, retryable), s2)
       | Some ((None, _), s2) \<Rightarrow> Some ((None, False), s2)))"

section \<open>Working off the queue\<close>

definition newAttempt :: "world \<Rightarrow> txm_config \<Rightarrow> eth_tx \<Rightarrow> txm \<Rightarrow> (tx_error + eth_tx_attempt) \<times> txm" where
  "newAttempt w cfg etx s =
    (let s1 = tick w s; userMax = KeySpecificMaxGasPriceWei cfg (etx_FromAddress etx) in
     if EvmEIP1559DynamicFees (c_gas cfg)
     then (case w_GetDynamicFee w (s_clock s) (etx_GasLimit etx) userMax of
             Inl e \<Rightarrow> (Inl (EstimatorFailed e), s1)
           | Inr (fee, limit) \<Rightarrow> (NewDynamicFeeAttempt w cfg etx fee limit, s1))
     else (case w_GetLegacyGas w (s_clock s) (etx_EncodedPayload etx) (etx_GasLimit etx) userMax False of
             Inl e \<Rightarrow> (Inl (EstimatorFailed e), s1)
           | Inr (price, limit) \<Rightarrow> (NewLegacyAttempt w cfg etx price limit, s1)))"

datatype 'a loop = Return 'a | Continue

text \<open>With too many transactions in flight it waits for others to finish some.\<close>

definition throttle :: "world \<Rightarrow> txm_config \<Rightarrow> address \<Rightarrow> txm \<Rightarrow> (tx_error + bool) \<times> txm" where
  "throttle w cfg fromAddress s =
    (if EvmMaxInFlightTransactions cfg = 0 then (Inr False, s)
     else case query w (countTransactionsWithState (c_chainID cfg, fromAddress) TxUnconfirmed) s of
       (Inl e, s1) \<Rightarrow> (Inl e, s1)
     | (Inr n, s1) \<Rightarrow>
         if n < unat (EvmMaxInFlightTransactions cfg) then (Inr False, s1)
         else (case query w (countTransactionsWithState (c_chainID cfg, fromAddress) TxUnstarted) s1 of
             (Inl e, s2) \<Rightarrow> (Inl e, s2)
           | (Inr _, s2) \<Rightarrow> (Inr True, tick w s2)))"

definition processNext :: "world \<Rightarrow> txm_config \<Rightarrow> nat \<Rightarrow> address \<Rightarrow> txm \<Rightarrow> ((tx_error option \<times> bool) loop \<times> txm) option" where
  "processNext w cfg fuel fromAddress s =
    (case throttle w cfg fromAddress s of
       (Inl e, s1) \<Rightarrow> Some (Return (Some e, True), s1)
     | (Inr True, s1) \<Rightarrow> Some (Continue, s1)
     | (Inr False, s1) \<Rightarrow> (case nextUnstartedTransactionWithNonce w cfg fromAddress s1 of
         (Inl e, s2) \<Rightarrow> Some (Return (Some e, True), s2)
       | (Inr None, s2) \<Rightarrow> Some (Return (None, False), s2)
       | (Inr (Some etx), s2) \<Rightarrow> (case newAttempt w cfg etx s2 of
           (Inl e, s3) \<Rightarrow> Some (Return (Some e, e \<noteq> Panicked), s3)
         | (Inr a, s3) \<Rightarrow> (case saveInProgressTransaction w etx a s3 of
             (Inl e, s4) \<Rightarrow> Some (if e = EthTxRemoved then Continue else Return (Some e, True), s4)
           | (Inr (etx1, a1), s4) \<Rightarrow> (case handleInProgressEthTx w cfg fuel etx1 a1 (w_now w (s_clock s4)) s4 of
               None \<Rightarrow> None
             | Some ((Some e, retryable), s5) \<Rightarrow> Some (Return (Some e, retryable), s5)
             | Some ((None, _), s5) \<Rightarrow> Some (Continue, s5))))))"

text \<open>\<open>None\<close>: not finished after \<open>n\<close> rounds, or one of them not after \<open>fuel\<close> attempts.\<close>

fun processLoop :: "world \<Rightarrow> txm_config \<Rightarrow> nat \<Rightarrow> nat \<Rightarrow> address \<Rightarrow> txm \<Rightarrow> ((tx_error option \<times> bool) \<times> txm) option" where
  "processLoop w cfg fuel 0 fromAddress s = None"
| "processLoop w cfg fuel (Suc n) fromAddress s =
    (case processNext w cfg fuel fromAddress s of None \<Rightarrow> None
     | Some (Return r, s1) \<Rightarrow> Some (r, s1)
     | Some (Continue, s1) \<Rightarrow> processLoop w cfg fuel n fromAddress s1)"

definition processUnstartedEthTxs :: "world \<Rightarrow> txm_config \<Rightarrow> nat \<Rightarrow> nat \<Rightarrow> address \<Rightarrow> txm \<Rightarrow> ((tx_error option \<times> bool) \<times> txm) option" where
  "processUnstartedEthTxs w cfg fuel n fromAddress s =
    (case handleAnyInProgressEthTx w cfg fuel fromAddress s of
       None \<Rightarrow> None
     | Some ((Some e, retryable), s1) \<Rightarrow> Some ((Some e, retryable), s1)
     | Some ((None, _), s1) \<Rightarrow> processLoop w cfg fuel n fromAddress s1)"

section \<open>Transactions of the database keep the invariant\<close>

lemma working_inv:
  assumes "key_inv k db" "working k t a db"
  shows "etx_Nonce t = nextNonce k db" "eta_State a = AttInProgress" "0 < eta_ID a" "a \<in> set (t_attempts db)" "eta_EthTxID a = etx_ID t"
    "tx_fsm_ok t" "etx_Nonce t \<noteq> None" "etx_ID t < t_nextTx db" "eta_ID a < t_nextAttempt db"
proof -
  have "tx_inv k db t" using assms unfolding key_inv_def working_def by blast
  then show n: "etx_Nonce t = nextNonce k db" and "eta_State a = AttInProgress" using assms(2) unfolding tx_inv_def working_def by auto
  have "a \<in> set (attempts_of (etx_ID t) db)" using assms(2) unfolding working_def by simp
  then show "a \<in> set (t_attempts db)" "eta_EthTxID a = etx_ID t" unfolding attempts_of_def by auto
  then show "0 < eta_ID a" "eta_ID a < t_nextAttempt db" using assms(1) unfolding key_inv_def ids_fresh_def by blast+
  show "tx_fsm_ok t" using assms constraints_fsm unfolding key_inv_def working_def by blast
  then show "etx_Nonce t \<noteq> None" using assms(2) unfolding tx_fsm_ok_def working_def by auto
  show "etx_ID t < t_nextTx db" using assms unfolding key_inv_def ids_fresh_def working_def by blast
qed

text \<open>What has to be shown of a new state that meets the constraints.\<close>

lemma key_invI:
  assumes "constraints db'" "ids_fresh db'"
    and "\<And>t. t \<in> set (t_txes db') \<Longrightarrow> etx_key t = k \<Longrightarrow> tx_inv k db' t"
    and "\<And>t. t \<in> set (t_txes db') \<Longrightarrow> etx_FromAddress t = snd k \<Longrightarrow> etx_State t = TxInProgress \<Longrightarrow> etx_key t = k"
  shows "key_inv k db'"
  using assms unfolding key_inv_def by blast

lemma columns [simp]:
  "etx_ID (startTx n b i r) = etx_ID r" "etx_State (startTx n b i r) = TxInProgress" "etx_key (startTx n b i r) = etx_key r"
  "etx_Nonce (startTx n b i r) = n" "etx_FromAddress (startTx n b i r) = etx_FromAddress r" "etx_Error (startTx n b i r) = etx_Error r"
  "etx_ID (broadcastTx e b i r) = etx_ID r" "etx_State (broadcastTx e b i r) = TxUnconfirmed" "etx_key (broadcastTx e b i r) = etx_key r"
  "etx_Nonce (broadcastTx e b i r) = etx_Nonce r"
  "etx_ID (fatalTx e r) = etx_ID r" "etx_State (fatalTx e r) = TxFatalError" "etx_key (fatalTx e r) = etx_key r" "etx_Nonce (fatalTx e r) = None"
  by (simp_all add: startTx_def broadcastTx_def fatalTx_def etx_key_def)

lemma ids_fresh_update:
  assumes "ids_fresh db" "\<And>r. etx_ID (f r) = etx_ID r"
  shows "ids_fresh (update_tx i f db)"
proof -
  have "0 < etx_ID t \<and> etx_ID t < t_nextTx db" if h: "t \<in> set (t_txes (update_tx i f db))" for t
  proof -
    obtain u where "u \<in> set (t_txes db)" "t = (if etx_ID u = i then f u else u)" using h unfolding in_update_tx by (elim bexE)
    then have "u \<in> set (t_txes db)" "etx_ID t = etx_ID u" using assms(2) by simp_all
    then show ?thesis using assms(1) unfolding ids_fresh_def by simp
  qed
  then show ?thesis using assms(1) unfolding ids_fresh_def by simp
qed

lemma ids_fresh_insert_attempt: "ids_fresh db \<Longrightarrow> ids_fresh (fst (insert_attempt a db))"
  unfolding ids_fresh_def by force

lemma ids_fresh_delete_attempts: "ids_fresh db \<Longrightarrow> ids_fresh (delete_attempts P db)"
  unfolding ids_fresh_def by simp

lemma ids_fresh_update_attempt:
  assumes "ids_fresh db" "\<And>a. eta_ID (g a) = eta_ID a"
  shows "ids_fresh (update_attempt i g db)"
proof -
  have "0 < eta_ID a \<and> eta_ID a < t_nextAttempt db" if h: "a \<in> set (t_attempts (update_attempt i g db))" for a
  proof -
    have "a \<in> (\<lambda>a. if eta_ID a = i then g a else a) ` set (t_attempts db)" using h by (simp add: update_attempt_def)
    then obtain b where "b \<in> set (t_attempts db)" "a = (if eta_ID b = i then g b else b)" by (elim imageE)
    then have "b \<in> set (t_attempts db)" "eta_ID a = eta_ID b" using assms(2) by simp_all
    then show ?thesis using assms(1) unfolding ids_fresh_def by simp
  qed
  then show ?thesis using assms(1) unfolding ids_fresh_def by simp
qed

text \<open>One row changes: the rest keeps the invariant if the nonce does not fall and its attempts are the same.\<close>

lemma row_changed:
  assumes inv: "key_inv k db" and r: "r \<in> set (t_txes db)" "etx_ID r = i" "etx_key r = k"
    and rows: "\<And>t. t \<in> set (t_txes db') \<longleftrightarrow> t = r' \<or> t \<in> set (t_txes db) \<and> etx_ID t \<noteq> i"
    and r': "etx_key r' = k" "tx_inv k db' r'"
    and att: "\<And>j. j \<noteq> i \<Longrightarrow> attempts_of j db' = attempts_of j db"
    and "constraints db'" "ids_fresh db'"
    and n: "nextNonce k db' = nextNonce k db \<or> etx_State r = TxInProgress \<and> (\<exists>n. nextNonce k db = Some n \<and> nextNonce k db' = Some (n + 1))"
  shows "key_inv k db'"
proof (rule key_invI [OF assms(9,10)])
  fix t assume t: "t \<in> set (t_txes db')" "etx_key t = k"
  show "tx_inv k db' t"
  proof (cases "t = r'")
    case False
    then have t': "t \<in> set (t_txes db)" "etx_ID t \<noteq> i" using rows t by auto
    then have tx: "tx_inv k db t" using inv t unfolding key_inv_def by blast
    show ?thesis using n
    proof
      assume "nextNonce k db' = nextNonce k db"
      then show ?thesis by (rule tx_inv_same [OF tx]) (rule att [OF t'(2)])
    next
      assume *: "etx_State r = TxInProgress \<and> (\<exists>n. nextNonce k db = Some n \<and> nextNonce k db' = Some (n + 1))"
      have "etx_State t \<noteq> TxInProgress"
      proof
        assume "etx_State t = TxInProgress"
        then have "t = r" using one_in_progress [of db t r] inv t t' r * unfolding key_inv_def by simp
        then show False using t' r by simp
      qed
      then show ?thesis using tx * att [OF t'(2)] unfolding tx_inv_def by (cases "etx_State t") auto
    qed
  qed (simp add: r'(2))
next
  fix t assume t: "t \<in> set (t_txes db')" "etx_FromAddress t = snd k" "etx_State t = TxInProgress"
  show "etx_key t = k"
  proof (cases "t = r'")
    case False
    then have "t \<in> set (t_txes db)" using rows t by auto
    then show ?thesis using inv t unfolding key_inv_def by blast
  qed (simp add: r'(1))
qed

lemma saveInProgress_keeps:
  assumes inv: "key_inv k db" and q: "queued k i db" and row: "find_tx i db = Some row" and a: "eta_EthTxID a = i" "eta_State a = AttInProgress"
    and n: "nextNonce k db = n"
    and db': "db' = update_tx i (startTx n b ini) (fst (insert_attempt a db))" and c: "constraints db'"
  shows "key_inv k db' \<and> working k (startTx n b ini row) (snd (insert_attempt a db)) db'"
proof -
  have con: "constraints db" using inv unfolding key_inv_def by blast
  have row': "row \<in> set (t_txes db)" "etx_ID row = i" using find_tx_Some [OF row] by auto
  then have key: "etx_key row = k" "etx_Nonce row = None" using q unfolding queued_def by auto
  have "t_txes db' = t_txes (update_tx i (startTx n b ini) db)" unfolding db' update_tx_def by simp
  then have rows: "t \<in> set (t_txes db') \<longleftrightarrow> t = startTx n b ini row \<or> t \<in> set (t_txes db) \<and> etx_ID t \<noteq> i" for t
    using updated_rows [OF con row'] by simp
  have "tx_fsm_ok (startTx n b ini row)" using constraints_fsm [OF c] rows by blast
  then have "etx_Error row = None" by (simp add: tx_fsm_ok_def)
  then have "etx_State row = TxUnstarted" using constraints_fsm [OF con row'(1)] key(2) unfolding tx_fsm_ok_def by (cases "etx_State row") simp_all
  moreover have "tx_inv k db row" using inv row' key unfolding key_inv_def by blast
  ultimately have "attempts_of i db = []" using row' unfolding tx_inv_def by simp
  then have att: "attempts_of i db' = [snd (insert_attempt a db)]" unfolding db' using a by simp
  have nn: "nextNonce k db' = n" unfolding db' using n by simp
  have "key_inv k db'"
  proof (rule row_changed [OF inv row' key(1) rows])
    show "tx_inv k db' (startTx n b ini row)" using att a row'(2) nn by (simp add: tx_inv_def)
    show "ids_fresh db'" unfolding db' by (intro ids_fresh_update ids_fresh_insert_attempt) (use inv in \<open>simp_all add: key_inv_def\<close>)
  qed (use key a c nn n in \<open>simp_all add: db'\<close>)
  moreover have "working k (startTx n b ini row) (snd (insert_attempt a db)) db'"
    unfolding working_def using rows key att row'(2) by simp
  ultimately show ?thesis ..
qed

lemma attempts_elsewhere:
  assumes "key_inv k db" "working k t a db" "b \<in> set (attempts_of j db)" "j \<noteq> etx_ID t"
  shows "eta_ID b \<noteq> eta_ID a"
proof
  assume same: "eta_ID b = eta_ID a"
  have b: "b \<in> set (t_attempts db)" "eta_EthTxID b = j" using assms(3) unfolding attempts_of_def by auto
  have "constraints db" using assms(1) unfolding key_inv_def by blast
  then have "b = a" using same_attempt_row b(1) working_inv(4) [OF assms(1,2)] same by blast
  then show False using b(2) assms(4) working_inv(5) [OF assms(1,2)] by simp
qed

lemma others_idle:
  assumes inv: "key_inv k db" and w: "working k t a db"
    and rows: "\<And>u. u \<in> set (t_txes db') \<longleftrightarrow> u = r' \<or> u \<in> set (t_txes db) \<and> etx_ID u \<noteq> etx_ID t"
    and "etx_State r' \<noteq> TxInProgress"
  shows "idle k db'"
  unfolding idle_def
proof (intro ballI impI notI)
  fix u assume u: "u \<in> set (t_txes db')" "etx_key u = k" "etx_State u = TxInProgress"
  then have "u \<in> set (t_txes db)" "etx_ID u \<noteq> etx_ID t" using rows assms(4) by auto
  moreover have "u = t" using one_in_progress [of db u t] inv w u calculation unfolding key_inv_def working_def by simp
  ultimately show False by simp
qed

lemma fatal_keeps:
  assumes inv: "key_inv k db" and w: "working k t a db"
    and db': "db' = update_tx (etx_ID t) (fatalTx (Some e)) (delete_attempts (\<lambda>a. eta_EthTxID a = etx_ID t) db)" and c: "constraints db'"
  shows "key_inv k db' \<and> idle k db' \<and> nextNonce k db' = nextNonce k db"
proof -
  have con: "constraints db" using inv unfolding key_inv_def by blast
  have t: "t \<in> set (t_txes db)" "etx_key t = k" using w unfolding working_def by blast+
  have "t_txes db' = t_txes (update_tx (etx_ID t) (fatalTx (Some e)) db)" unfolding db' update_tx_def by simp
  then have rows: "u \<in> set (t_txes db') \<longleftrightarrow> u = fatalTx (Some e) t \<or> u \<in> set (t_txes db) \<and> etx_ID u \<noteq> etx_ID t" for u
    using updated_rows [OF con t(1) refl] by simp
  have "key_inv k db'"
  proof (rule row_changed [OF inv t(1) refl t(2) rows])
    show "tx_inv k db' (fatalTx (Some e) t)" by (simp add: tx_inv_def)
    show "ids_fresh db'" unfolding db' by (intro ids_fresh_update ids_fresh_delete_attempts) (use inv in \<open>simp_all add: key_inv_def\<close>)
    fix j assume "j \<noteq> etx_ID t"
    then show "attempts_of j db' = attempts_of j db" unfolding db' by (simp add: attempts_of_def) (metis (mono_tags, lifting))
  qed (use t c in \<open>simp_all add: db'\<close>)
  moreover have "idle k db'" by (rule others_idle [OF inv w rows]) simp
  ultimately show ?thesis by (simp add: db')
qed

lemma broadcast_keeps:
  assumes inv: "key_inv k db" and w: "working k t a db" and x: "t_keys db k = Some x" "etx_Nonce t = Some (ks_NextNonce x)"
    and db': "db' = update_attempt (eta_ID a) (\<lambda>a. a\<lparr>eta_State := AttBroadcast\<rparr>) (update_tx (etx_ID t) (broadcastTx e b i)
        (db\<lparr>t_keys := (t_keys db)(k \<mapsto> x\<lparr>ks_NextNonce := ks_NextNonce x + 1\<rparr>)\<rparr>))" and c: "constraints db'"
  shows "key_inv k db' \<and> idle k db' \<and> nextNonce k db' = Some (ks_NextNonce x + 1)"
proof -
  have con: "constraints db" using inv unfolding key_inv_def by blast
  have t: "t \<in> set (t_txes db)" "etx_key t = k" "etx_State t = TxInProgress" using w unfolding working_def by blast+
  have "t_txes db' = t_txes (update_tx (etx_ID t) (broadcastTx e b i) db)" unfolding db' update_tx_def by simp
  then have rows: "u \<in> set (t_txes db') \<longleftrightarrow> u = broadcastTx e b i t \<or> u \<in> set (t_txes db) \<and> etx_ID u \<noteq> etx_ID t" for u
    using updated_rows [OF con t(1) refl] by simp
  have n: "nextNonce k db' = Some (ks_NextNonce x + 1)" "nextNonce k db = Some (ks_NextNonce x)" unfolding db' by (simp_all add: nextNonce_def x)
  have "key_inv k db'"
  proof (rule row_changed [OF inv t(1) refl t(2) rows])
    show "tx_inv k db' (broadcastTx e b i t)" using n x by (simp add: tx_inv_def)
    have "ids_fresh (db\<lparr>t_keys := (t_keys db)(k \<mapsto> x\<lparr>ks_NextNonce := ks_NextNonce x + 1\<rparr>)\<rparr>)" using inv unfolding key_inv_def ids_fresh_def by simp
    then show "ids_fresh db'" unfolding db' by (intro ids_fresh_update_attempt ids_fresh_update) simp_all
    fix j assume j: "j \<noteq> etx_ID t"
    have "attempts_of j db' = map (\<lambda>b. if eta_ID b = eta_ID a then b\<lparr>eta_State := AttBroadcast\<rparr> else b) (attempts_of j db)"
      unfolding db' by (subst attempts_of_update) (simp_all add: attempts_of_def)
    then show "attempts_of j db' = attempts_of j db" using attempts_elsewhere [OF inv w _ j] by (simp add: map_idI)
  qed (use t c n in simp_all)
  moreover have "idle k db'" by (rule others_idle [OF inv w rows]) simp
  ultimately show ?thesis using n by blast
qed

lemma replacement_keeps:
  assumes inv: "key_inv k db" and w: "working k t a db" and a': "eta_EthTxID a' = etx_ID t" "eta_State a' = AttInProgress"
    and db': "db' = fst (insert_attempt a' (delete_attempts (\<lambda>b. eta_ID b = eta_ID a) db))" and c: "constraints db'"
  shows "key_inv k db' \<and> working k t (a'\<lparr>eta_ID := t_nextAttempt db\<rparr>) db' \<and> nextNonce k db' = nextNonce k db"
proof -
  have t: "t \<in> set (t_txes db)" "etx_key t = k" "etx_State t = TxInProgress" "attempts_of (etx_ID t) db = [a]" using w unfolding working_def by blast+
  have con: "constraints db" using inv unfolding key_inv_def by blast
  have rows: "u \<in> set (t_txes db') \<longleftrightarrow> u = t \<or> u \<in> set (t_txes db) \<and> etx_ID u \<noteq> etx_ID t" for u
    unfolding db' using t(1) same_tx_row [OF con _ t(1)] by auto
  have att: "attempts_of (etx_ID t) db' = [a'\<lparr>eta_ID := t_nextAttempt db\<rparr>]" unfolding db' using t(4) a' by simp
  have n: "nextNonce k db' = nextNonce k db" unfolding db' by simp
  have "key_inv k db'"
  proof (rule row_changed [OF inv t(1) refl t(2) rows])
    show "tx_inv k db' t" using att a' n t(3) working_inv(1) [OF inv w] by (simp add: tx_inv_def)
    show "ids_fresh db'" unfolding db' by (intro ids_fresh_insert_attempt ids_fresh_delete_attempts) (use inv in \<open>simp_all add: key_inv_def\<close>)
    fix j assume j: "j \<noteq> etx_ID t"
    then have "filter (\<lambda>b. eta_ID b \<noteq> eta_ID a) (attempts_of j db) = attempts_of j db" using attempts_elsewhere [OF inv w _ j] by (intro filter_True) blast
    then show "attempts_of j db' = attempts_of j db" unfolding db' using j a' by simp
  qed (use t c n in simp_all)
  then show ?thesis using att rows t n unfolding working_def by simp
qed

section \<open>A transaction in progress is settled or stays in progress\<close>

text \<open>The copy of the row in memory.\<close>

definition copy_of :: "eth_tx \<Rightarrow> eth_tx \<Rightarrow> bool" where
  "copy_of t etx \<longleftrightarrow> etx_ID etx = etx_ID t \<and> etx_Nonce etx = etx_Nonce t \<and> etx_key etx = etx_key t \<and> etx_State etx = TxInProgress"

definition settled :: "int \<times> address \<Rightarrow> eth_tx \<Rightarrow> tx_error option \<Rightarrow> tx_db \<Rightarrow> bool" where
  "settled k t e db \<longleftrightarrow> key_inv k db \<and> (case e of
     None \<Rightarrow> idle k db \<and> (nextNonce k db = etx_Nonce t \<or> nextNonce k db = map_option (\<lambda>n. n + 1) (etx_Nonce t))
   | Some _ \<Rightarrow> \<exists>a. working k t a db)"

lemma settledI: "key_inv k db \<Longrightarrow> working k t a db \<Longrightarrow> settled k t (Some e) db"
  unfolding settled_def by auto

lemma tick_working: "rely k w \<Longrightarrow> key_inv k (s_db s) \<Longrightarrow> working k t a (s_db s) \<Longrightarrow> working k t a (s_db (tick w s))"
  by (rule tick_stays [OF _ _ stays_working])

lemma incrementNextNonce_Some:
  "incrementNextNonce k n db = Some (db1, m) \<Longrightarrow> \<exists>x. t_keys db k = Some x \<and> ks_NextNonce x = n \<and> m = n + 1 \<and>
     db1 = db\<lparr>t_keys := (t_keys db)(k \<mapsto> x\<lparr>ks_NextNonce := n + 1\<rparr>)\<rparr>"
  by (auto simp: incrementNextNonce_def keyEnabled_def split: option.splits if_splits)

lemma saveAttempt_settles:
  assumes r: "saveAttempt w cfg etx a s = (e, s')" and env: "rely k w" and inv: "key_inv k (s_db s)" and wk: "working k t a (s_db s)"
    and etx: "copy_of t etx" and chain: "c_chainID cfg = fst k"
  shows "settled k t e (s_db s')"
proof -
  have k: "(c_chainID cfg, etx_FromAddress etx) = k" using etx wk chain unfolding copy_of_def working_def etx_key_def by auto
  obtain n where n: "etx_Nonce t = Some n" "etx_Nonce etx = Some n" using working_inv(7) [OF inv wk] etx unfolding copy_of_def by auto
  define f where "f = (\<lambda>db. case keystore_IncrementNextNonce w k n db (s_mem s) of Inl e \<Rightarrow> Inl e
     | Inr (db1, _) \<Rightarrow>
         if find_tx (etx_ID etx) db1 = None \<or> eta_ID a \<notin> eta_ID ` set (t_attempts db1) then Inl NoRows
         else Inr (update_attempt (eta_ID a) (\<lambda>a. a\<lparr>eta_State := AttBroadcast\<rparr>)
           (update_tx (etx_ID etx) (broadcastTx (etx_Error etx) (etx_BroadcastAt etx) (etx_InitialBroadcastAt etx)) db1), ()))"
  obtain r1 s1 where tr: "db_transaction w f s = (r1, s1)" by fastforce
  have "(case r1 of Inl e' \<Rightarrow> Some e' | Inr _ \<Rightarrow> None) = e \<and> s_db s' = s_db s1"
    using r tr etx k n working_inv(2) [OF inv wk] unfolding saveAttempt_def copy_of_def f_def
    by (auto simp: Let_def split: sum.splits if_splits)
  then have e: "e = (case r1 of Inl e' \<Rightarrow> Some e' | Inr _ \<Rightarrow> None)" and db: "s_db s' = s_db s1" by simp_all
  have keep: "\<forall>db x. f (s_db s) = Inr (db, x) \<longrightarrow> constraints db \<longrightarrow> key_inv k db \<and> (idle k db \<and> nextNonce k db = Some (n + 1))"
  proof (intro allI impI)
    fix db x assume h: "f (s_db s) = Inr (db, x)" and c: "constraints db"
    obtain db1 m where i: "incrementNextNonce k n (s_db s) = Some (db1, m)"
      and d: "db = update_attempt (eta_ID a) (\<lambda>a. a\<lparr>eta_State := AttBroadcast\<rparr>)
         (update_tx (etx_ID etx) (broadcastTx (etx_Error etx) (etx_BroadcastAt etx) (etx_InitialBroadcastAt etx)) db1)"
      using h unfolding f_def keystore_IncrementNextNonce_def by (auto split: sum.splits option.splits if_splits)
    obtain x where x: "t_keys (s_db s) k = Some x" "ks_NextNonce x = n" "db1 = (s_db s)\<lparr>t_keys := (t_keys (s_db s))(k \<mapsto> x\<lparr>ks_NextNonce := n + 1\<rparr>)\<rparr>"
      using incrementNextNonce_Some [OF i] by blast
    show "key_inv k db \<and> (idle k db \<and> nextNonce k db = Some (n + 1))" using broadcast_keeps [OF inv wk x(1) _ _ c] d x n etx unfolding copy_of_def by simp
  qed
  have st: "\<forall>x::unit. stays k (\<lambda>db. idle k db \<and> nextNonce k db = Some (n + 1))" by (intro allI stays_intros)
  note T = transaction_keeps [OF tr env inv, where Q = "\<lambda>_ db. idle k db \<and> nextNonce k db = Some (n + 1)", OF keep st]
  show ?thesis
  proof (cases r1)
    case (Inl e')
    have "working k t a (s_db s1)" using T(3) [OF Inl stays_working wk] .
    then show ?thesis using T(1) Inl unfolding e db by (simp add: settledI)
  next
    case (Inr u)
    then show ?thesis using T(1) T(2) [OF Inr] n unfolding e db settled_def by simp
  qed
qed

lemma saveFatally_settles:
  assumes r: "saveFatallyErroredTransaction w etx s = (e, s')" and env: "rely k w" and inv: "key_inv k (s_db s)" and wk: "working k t a (s_db s)"
    and etx: "copy_of t etx"
  shows "settled k t e (s_db s')"
proof (cases "etx_Error etx")
  case None
  then show ?thesis using r etx inv wk unfolding saveFatallyErroredTransaction_def copy_of_def by (auto intro: settledI)
next
  case (Some err)
  define f where "f = (\<lambda>db. let db1 = delete_attempts (\<lambda>a. eta_EthTxID a = etx_ID etx) db
                    in if find_tx (etx_ID etx) db1 = None then Inl NoRows else Inr (update_tx (etx_ID etx) (fatalTx (Some err)) db1, ()))"
  obtain resumed s1 where c: "resumeWithError w etx err s = (resumed, s1)" by fastforce
  have t: "s_db (tick w (s\<lparr>s_resumed := x\<rparr>)) = s_db (tick w s)" for x by (simp add: tick_def)
  have "key_inv k (s_db s1) \<and> working k t a (s_db s1)" using c tick_inv [OF env inv] tick_working [OF env inv wk] inv wk
    by (auto simp: t resumeWithError_def split: option.splits)
  then have inv1: "key_inv k (s_db s1)" and wk1: "working k t a (s_db s1)" by simp_all
  obtain r2 s2 where tr: "db_transaction w f s1 = (r2, s2)" by fastforce
  have res: "(e, s') = (if \<not> resumed then (Some ResumePipelineFailed, s1) else (case r2 of Inl e \<Rightarrow> Some e | Inr _ \<Rightarrow> None, s2))"
    using r etx tr unfolding saveFatallyErroredTransaction_def copy_of_def f_def by (cases resumed) (auto simp: Some c split: sum.splits)
  have keep: "\<forall>db x. f (s_db s1) = Inr (db, x) \<longrightarrow> constraints db \<longrightarrow> key_inv k db \<and> (idle k db \<and> nextNonce k db = etx_Nonce t)"
    using fatal_keeps [OF inv1 wk1] etx working_inv(1) [OF inv1 wk1] unfolding f_def copy_of_def
    by (auto simp: Let_def split: if_splits)
  have st: "\<forall>x::unit. stays k (\<lambda>db. idle k db \<and> nextNonce k db = etx_Nonce t)" by (intro allI stays_intros)
  note T = transaction_keeps [OF tr env inv1, where Q = "\<lambda>_ db. idle k db \<and> nextNonce k db = etx_Nonce t", OF keep st]
  show ?thesis
  proof (cases resumed)
    case False
    then show ?thesis using res inv1 wk1 by (simp add: settledI)
  next
    case True
    show ?thesis
    proof (cases r2)
      case (Inl e')
      have "working k t a (s_db s2)" using T(3) [OF Inl stays_working wk1] .
      then show ?thesis using T(1) Inl res True by (simp add: settledI)
    next
      case (Inr u)
      then show ?thesis using T(1) T(2) [OF Inr] res True unfolding settled_def by simp
    qed
  qed
qed

text \<open>What every step on a transaction in progress starts with, and what it ends with.\<close>

definition ready :: "world \<Rightarrow> txm_config \<Rightarrow> int \<times> address \<Rightarrow> eth_tx \<Rightarrow> eth_tx \<Rightarrow> eth_tx_attempt \<Rightarrow> txm \<Rightarrow> bool" where
  "ready w cfg k t etx a s \<longleftrightarrow> rely k w \<and> c_chainID cfg = fst k \<and> copy_of t etx \<and> key_inv k (s_db s) \<and> working k t a (s_db s)"

definition handled_ok :: "int \<times> address \<Rightarrow> eth_tx \<Rightarrow> handled \<times> txm \<Rightarrow> bool" where
  "handled_ok k t rs \<longleftrightarrow> (case fst rs of Handled e _ \<Rightarrow> settled k t e (s_db (snd rs))
     | TryAgain etx a \<Rightarrow> copy_of t etx \<and> key_inv k (s_db (snd rs)) \<and> working k t a (s_db (snd rs)))"

lemma ready_tick: "ready w cfg k t etx a s \<Longrightarrow> ready w cfg k t etx a (tick w s)"
  unfolding ready_def using tick_inv tick_working by blast

lemma ready_fail: "ready w cfg k t etx a s \<Longrightarrow> handled_ok k t (Handled (Some e) b, s)"
  unfolding ready_def handled_ok_def by (auto intro: settledI)

lemma ready_save:
  assumes "ready w cfg k t etx a s"
  shows "handled_ok k t (case saveAttempt w cfg etx a s of (e, s1) \<Rightarrow> (Handled e b, s1))"
proof -
  obtain e s1 where "saveAttempt w cfg etx a s = (e, s1)" by fastforce
  moreover have "settled k t e (s_db s1)" using saveAttempt_settles [OF calculation] assms unfolding ready_def by blast
  ultimately show ?thesis by (simp add: handled_ok_def)
qed

lemma ready_fatal:
  assumes "ready w cfg k t etx a s"
  shows "handled_ok k t (case saveFatallyErroredTransaction w etx s of (e, s1) \<Rightarrow> (Handled e b, s1))"
proof -
  obtain e s1 where "saveFatallyErroredTransaction w etx s = (e, s1)" by fastforce
  moreover have "settled k t e (s_db s1)" using saveFatally_settles [OF calculation] assms unfolding ready_def by blast
  ultimately show ?thesis by (simp add: handled_ok_def)
qed

lemma ready_upd:
  "ready w cfg k t etx a s \<Longrightarrow> ready w cfg k t (etx\<lparr>etx_Error := e\<rparr>) a s"
  "ready w cfg k t etx a s \<Longrightarrow> ready w cfg k t (etx\<lparr>etx_InitialBroadcastAt := i, etx_BroadcastAt := b\<rparr>) a s"
  unfolding ready_def copy_of_def etx_key_def by simp_all

lemma newSignedAttempt_of: "newSignedAttempt w cfg etx u = Inr a \<Longrightarrow> eta_EthTxID a = etx_ID etx \<and> eta_State a = AttInProgress"
  by (auto simp: newSignedAttempt_def split: option.splits)

lemma NewLegacyAttempt_of: "NewLegacyAttempt w cfg etx p l = Inr a \<Longrightarrow> eta_EthTxID a = etx_ID etx \<and> eta_State a = AttInProgress"
  by (auto simp: NewLegacyAttempt_def newSignedAttempt_of split: option.splits sum.splits)

lemma NewDynamicFeeAttempt_of: "NewDynamicFeeAttempt w cfg etx f l = Inr a \<Longrightarrow> eta_EthTxID a = etx_ID etx \<and> eta_State a = AttInProgress"
  by (auto simp: NewDynamicFeeAttempt_def newSignedAttempt_of split: option.splits sum.splits)

lemma tryAgain_ok:
  assumes ready: "ready w cfg k t etx a s" and new: "\<And>a'. new = Inr a' \<Longrightarrow> eta_EthTxID a' = etx_ID etx \<and> eta_State a' = AttInProgress"
  shows "handled_ok k t (tryAgainWithAttempt w etx a new s)"
proof (cases new)
  case (Inl e)
  then show ?thesis using ready_fail [OF ready] by (simp add: tryAgainWithAttempt_def)
next
  case (Inr a')
  have env: "rely k w" and inv: "key_inv k (s_db s)" and wk: "working k t a (s_db s)" and etx: "copy_of t etx"
    using ready unfolding ready_def by blast+
  have a': "eta_EthTxID a' = etx_ID t" "eta_State a' = AttInProgress" using new [OF Inr] etx unfolding copy_of_def by auto
  define f where "f = (\<lambda>db. Inr (insert_attempt a' (delete_attempts (\<lambda>b. eta_ID b = eta_ID a) db)) :: tx_error + tx_db \<times> eth_tx_attempt)"
  obtain r s1 where tr: "db_transaction w f s = (r, s1)" by fastforce
  have res: "tryAgainWithAttempt w etx a new s = (case r of Inl e \<Rightarrow> (Handled (Some e) True, s1) | Inr a1 \<Rightarrow> (TryAgain etx a1, s1))"
    using tr a' working_inv(2,3) [OF inv wk] Inr unfolding f_def tryAgainWithAttempt_def saveReplacementInProgressAttempt_def
    by (auto split: sum.splits)
  have keep: "\<forall>db x. f (s_db s) = Inr (db, x) \<longrightarrow> constraints db \<longrightarrow> key_inv k db \<and> working k t x db"
  proof (intro allI impI)
    fix db x assume h: "f (s_db s) = Inr (db, x)" and c: "constraints db"
    then have "db = fst (insert_attempt a' (delete_attempts (\<lambda>b. eta_ID b = eta_ID a) (s_db s)))" "x = a'\<lparr>eta_ID := t_nextAttempt (s_db s)\<rparr>"
      unfolding f_def by (auto simp: insert_attempt_def Let_def)
    then show "key_inv k db \<and> working k t x db" using replacement_keeps [OF inv wk a' _ c] by blast
  qed
  note T = transaction_keeps [OF tr env inv keep allI [OF stays_working]]
  show ?thesis
  proof (cases r)
    case (Inl e)
    have "working k t a (s_db s1)" using T(3) [OF Inl stays_working wk] .
    then show ?thesis using T(1) res Inl by (simp add: handled_ok_def settledI)
  next
    case (Inr a1)
    then show ?thesis using T(1) T(2) [OF Inr] res etx by (simp add: handled_ok_def)
  qed
qed

lemma tryAgainBumpingGas_ok:
  assumes ready: "ready w cfg k t etx a s"
  shows "handled_ok k t (tryAgainBumpingGas w cfg etx a s)"
proof -
  have L: "handled_ok k t (tryAgainBumpingLegacyGas w cfg etx a s)"
    using ready_fail [OF ready] ready_fail [OF ready_tick [OF ready]] tryAgain_ok [OF ready_tick [OF ready] NewLegacyAttempt_of]
    by (auto simp: tryAgainBumpingLegacyGas_def tryAgainWithNewLegacyGas_def Let_def split: option.split sum.split)
  have D: "handled_ok k t (tryAgainBumpingDynamicFeeGas w cfg etx a s)"
    using ready_fail [OF ready] ready_fail [OF ready_tick [OF ready]] tryAgain_ok [OF ready_tick [OF ready] NewDynamicFeeAttempt_of]
    by (auto simp: tryAgainBumpingDynamicFeeGas_def tryAgainWithNewDynamicFeeGas_def Let_def split: option.split sum.split)
  show ?thesis using L D ready_fail [OF ready] by (simp add: tryAgainBumpingGas_def)
qed

lemma tryAgainWithNewEstimation_ok:
  assumes ready: "ready w cfg k t etx a s"
  shows "handled_ok k t (tryAgainWithNewEstimation w cfg etx a s)"
  using ready_fail [OF ready] ready_fail [OF ready_tick [OF ready]] tryAgain_ok [OF ready_tick [OF ready] NewLegacyAttempt_of]
  by (auto simp: tryAgainWithNewEstimation_def tryAgainWithNewLegacyGas_def Let_def split: sum.split)

lemma handleUnknownError_ok:
  assumes ready: "ready w cfg k t etx a s"
  shows "handled_ok k t (handleUnknownError w cfg etx a err s)"
  using ready_fail [OF ready_tick [OF ready]] ready_save [OF ready_tick [OF ready]]
  unfolding handleUnknownError_def Let_def by (simp split: option.split)

lemma handleSendError_ok:
  assumes ready: "ready w cfg k t etx a s"
  shows "handled_ok k t (handleSendError w cfg etx a se s)"
  using ready_fail [OF ready] ready_save [OF ready] tryAgainBumpingGas_ok [OF ready] tryAgainWithNewEstimation_ok [OF ready]
    handleUnknownError_ok [OF ready]
  unfolding handleSendError_def Let_def by (simp split: option.split)

lemma sendTransaction_ready:
  assumes "ready w cfg k t etx a s" "sendTransaction w b s = (se, s')"
  shows "ready w cfg k t etx a s'"
proof -
  have "s' = s \<or> s_db s' = s_db (tick w s)" using assms(2) by (auto simp: sendTransaction_def tick_def Let_def split: option.splits if_splits)
  then show ?thesis using assms(1) ready_tick [OF assms(1)] unfolding ready_def by auto
qed

lemma handleOnce_ok:
  assumes ready: "ready w cfg k t etx a s"
  shows "handled_ok k t (handleOnce w cfg etx a ini s)"
proof -
  have ready1: "ready w cfg k t etx a (tick w s)" by (rule ready_tick [OF ready])
  obtain se s2 where send: "sendTransaction w a (tick w s) = (se, s2)" by fastforce
  have ready2: "ready w cfg k t etx a s2" by (rule sendTransaction_ready [OF ready1 send])
  show ?thesis
    using ready_fail [OF ready] ready_fail [OF ready1] ready_fatal [OF ready_upd(1) [OF ready1]] ready_fatal [OF ready_upd(1) [OF ready2]]
      handleSendError_ok [OF ready_upd(2) [OF ready2]]
    unfolding handleOnce_def Let_def by (simp add: send split: option.split check_result.split)
qed

lemma handleInProgress_settles:
  "handleInProgressEthTx w cfg n etx a ini s = Some ((e, retryable), s') \<Longrightarrow> ready w cfg k t etx a s \<Longrightarrow> settled k t e (s_db s')"
proof (induction n arbitrary: etx a s)
  case (Suc n)
  obtain r s1 where once: "handleOnce w cfg etx a ini s = (r, s1)" by fastforce
  have ok: "handled_ok k t (r, s1)" using handleOnce_ok [OF Suc.prems(2), of ini] once by simp
  show ?case
  proof (cases r)
    case (Handled e1 b)
    then show ?thesis using Suc.prems(1) once ok by (simp add: handled_ok_def)
  next
    case (TryAgain etx1 a1)
    then have "ready w cfg k t etx1 a1 s1" using ok Suc.prems(2) unfolding handled_ok_def ready_def by simp
    then show ?thesis using Suc.IH Suc.prems(1) once TryAgain by simp
  qed
qed simp

section \<open>The whole queue\<close>

lemma find_in_progress:
  assumes "key_inv k db" "findInProgress (snd k) db = Some t"
  shows "\<exists>a. working k t a db \<and> eta_State a = AttInProgress"
proof -
  have t: "t \<in> set (t_txes db)" "etx_FromAddress t = snd k" "etx_State t = TxInProgress"
    using find_SomeD [OF assms(2) [unfolded findInProgress_def]] by blast+
  then have "etx_key t = k" "tx_inv k db t" using assms(1) unfolding key_inv_def by blast+
  then show ?thesis using t unfolding tx_inv_def working_def by auto
qed

lemma find_no_progress: "findInProgress (snd k) db = None \<Longrightarrow> idle k db"
  unfolding findInProgress_def find_None idle_def etx_key_def by auto

lemma getInProgress_ready:
  assumes r: "getInProgressEthTx w (snd k) s = (r, s')" and env: "rely k w" and inv: "key_inv k (s_db s)"
  shows "key_inv k (s_db s')" "r = Inr None \<Longrightarrow> idle k (s_db s')"
    "r = Inr (Some (etx, a)) \<Longrightarrow> c_chainID cfg = fst k \<Longrightarrow> ready w cfg k etx etx a s'"
proof -
  obtain r1 s1 where q1: "query w (findInProgress (snd k)) s = (r1, s1)" by fastforce
  note K1 = query_keeps [OF q1 env inv]
  obtain r2 s2 where q2: "query w (loadEthTxAttempts (etx_ID (the (projr r1)))) s1 = (r2, s2)" by fastforce
  note K2 = query_keeps [OF q2 env K1(1)]
  show "key_inv k (s_db s')" using r q1 q2 K1(1) K2(1) unfolding getInProgressEthTx_def
    by (auto split: sum.splits option.splits list.splits if_splits)
  show "idle k (s_db s')" if "r = Inr None"
  proof -
    have "r1 = Inr None \<and> s' = s1" using r that q1 unfolding getInProgressEthTx_def
      by (auto split: sum.splits option.splits list.splits if_splits prod.splits)
    then show ?thesis using K1(2) [OF stays_idle] find_no_progress query_result [of w _ s _ s1] q1 by metis
  qed
  show "ready w cfg k etx etx a s'" if "r = Inr (Some (etx, a))" "c_chainID cfg = fst k"
  proof -
    have *: "r1 = Inr (Some etx) \<and> r2 = Inr [a] \<and> s' = s2" using r that q1 q2 unfolding getInProgressEthTx_def
      by (auto split: sum.splits option.splits list.splits if_splits prod.splits)
    then have f: "findInProgress (snd k) (s_db s) = Some etx" using query_result q1 by metis
    obtain a' where a': "working k etx a' (s_db s)" using find_in_progress [OF inv f] by blast
    then have w1: "working k etx a' (s_db s1)" by (rule K1(2) [OF stays_working])
    have "[a] = loadEthTxAttempts (etx_ID etx) (s_db s1)" using query_result q2 * by (metis option.sel sum.sel(2))
    also have "\<dots> = [a']" using w1 unfolding loadEthTxAttempts_def working_def attempts_of_def by simp
    finally have "working k etx a (s_db s2)" using K2(2) [OF stays_working w1] by simp
    then show ?thesis using * K2(1) env that(2) unfolding ready_def copy_of_def working_def by simp
  qed
qed

lemma handleAny_settles:
  assumes r: "handleAnyInProgressEthTx w cfg fuel (snd k) s = Some ((e, b), s')" and env: "rely k w" and inv: "key_inv k (s_db s)"
    and chain: "c_chainID cfg = fst k"
  shows "key_inv k (s_db s')" "e = None \<Longrightarrow> idle k (s_db s')"
proof -
  obtain r1 s1 where g: "getInProgressEthTx w (snd k) s = (r1, s1)" by fastforce
  note G = getInProgress_ready [OF g env inv]
  have "key_inv k (s_db s') \<and> (e = None \<longrightarrow> idle k (s_db s'))"
  proof (cases r1)
    case (Inl x)
    then show ?thesis using r g G(1) by (auto simp: handleAnyInProgressEthTx_def)
  next
    case (Inr o1)
    show ?thesis
    proof (cases o1)
      case None
      then show ?thesis using r g G(1,2) Inr by (simp add: handleAnyInProgressEthTx_def)
    next
      case (Some p)
      obtain etx a where p: "p = (etx, a)" by fastforce
      obtain e1 b1 where h: "handleInProgressEthTx w cfg fuel etx a (etx_CreatedAt etx) s1 = Some ((e1, b1), s')" "e = e1"
        using r g Inr Some p by (auto simp: handleAnyInProgressEthTx_def split: option.splits)
      have "settled k etx e (s_db s')" using handleInProgress_settles [OF h(1) G(3)] chain Inr Some p h(2) by simp
      then show ?thesis unfolding settled_def by (cases e) auto
    qed
  qed
  then show "key_inv k (s_db s')" "e = None \<Longrightarrow> idle k (s_db s')" by blast+
qed

lemma findNextUnstarted_Some:
  assumes "findNextUnstarted k db = Some t"
  shows "t \<in> set (t_txes db)" "etx_key t = k" "etx_State t = TxUnstarted"
proof -
  have "t \<in> set (filter (\<lambda>t. etx_key t = k \<and> etx_State t = TxUnstarted) (t_txes db))"
    using assms unfolding findNextUnstarted_def by (metis (no_types, lifting) list.case_eq_if list.set_sel(1) option.distinct(1) option.inject set_sort)
  then show "t \<in> set (t_txes db)" "etx_key t = k" "etx_State t = TxUnstarted" by auto
qed

lemma queued_unstarted:
  assumes "key_inv k db" "t \<in> set (t_txes db)" "etx_key t = k" "etx_State t = TxUnstarted"
  shows "queued k (etx_ID t) db"
proof -
  have c: "constraints db" and "etx_ID t < t_nextTx db" using assms unfolding key_inv_def ids_fresh_def by blast+
  moreover have "etx_Nonce t = None" using constraints_fsm [OF c assms(2)] assms(4) unfolding tx_fsm_ok_def by simp
  ultimately show ?thesis using same_tx_row [OF c _ assms(2)] assms(3) unfolding queued_def by blast
qed

lemma GetNextNonce_keeps:
  assumes r: "keystore_GetNextNonce w k s = (r, s')" and env: "rely k w" and inv: "key_inv k (s_db s)"
  shows "key_inv k (s_db s')" "stays k P \<Longrightarrow> P (s_db s) \<Longrightarrow> P (s_db s')" "r = Inr n \<Longrightarrow> nextNonce k (s_db s') = Some n"
proof -
  obtain r1 s1 where q: "query w (getNextNonce k) s = (r1, s1)" by fastforce
  note K = query_keeps [OF q env inv]
  have db: "s_db s' = s_db s \<or> s_db s' = s_db s1" using r q unfolding keystore_GetNextNonce_def
    by (auto split: if_splits sum.splits option.splits)
  then show "key_inv k (s_db s')" "stays k P \<Longrightarrow> P (s_db s) \<Longrightarrow> P (s_db s')" using K(1,2) inv by auto
  assume "r = Inr n"
  then have r1: "r1 = Inr (Some n)" and s': "s_db s' = s_db s1" using r q unfolding keystore_GetNextNonce_def
    by (auto split: if_splits sum.splits option.splits)
  have "getNextNonce k (s_db s) = Some n" using query_result q r1 by metis
  then have "nextNonce k (s_db s) = Some n" unfolding getNextNonce_def keyEnabled_def nextNonce_def by (auto split: option.splits if_splits)
  then show "nextNonce k (s_db s') = Some n" unfolding s' by (rule K(2) [OF stays_nonce])
qed

lemma nextUnstarted_keeps:
  assumes r: "nextUnstartedTransactionWithNonce w cfg (snd k) s = (r, s')" and env: "rely k w" and inv: "key_inv k (s_db s)"
    and chain: "c_chainID cfg = fst k"
  shows "key_inv k (s_db s')" "idle k (s_db s) \<Longrightarrow> idle k (s_db s')"
    "r = Inr (Some etx) \<Longrightarrow> queued k (etx_ID etx) (s_db s') \<and> etx_key etx = k \<and> nextNonce k (s_db s') = etx_Nonce etx \<and>
       etx_State etx = TxUnstarted \<and> etx_Nonce etx \<noteq> None"
proof -
  obtain r1 s1 where q: "query w (findNextUnstarted k) s = (r1, s1)" by fastforce
  note K1 = query_keeps [OF q env inv]
  have ck: "(c_chainID cfg, snd k) = k" using chain by simp
  obtain r2 s2 where g: "keystore_GetNextNonce w k s1 = (r2, s2)" by fastforce
  note K2 = GetNextNonce_keeps [OF g env K1(1)]
  have sender: "etx_FromAddress t = snd k" if "r1 = Inr (Some t)" for t
    using findNextUnstarted_Some(2) [of k "s_db s" t] query_result [of w _ s _ s1] q that unfolding etx_key_def by (metis snd_conv)
  have cs: "s' = s1 \<and> (\<forall>x. r \<noteq> Inr (Some x)) \<or> s' = s2 \<and> (\<forall>x. r \<noteq> Inr (Some x)) \<or>
      (\<exists>t n. r1 = Inr (Some t) \<and> r2 = Inr n \<and> s' = s2 \<and> r = Inr (Some (t\<lparr>etx_Nonce := Some n\<rparr>)))"
    using r q g sender unfolding nextUnstartedTransactionWithNonce_def ck by (auto simp: ck split: sum.splits option.splits)
  show "key_inv k (s_db s')" using cs K1(1) K2(1) by auto
  show "idle k (s_db s) \<Longrightarrow> idle k (s_db s')" using cs K1(2) K2(2) stays_idle by metis
  assume "r = Inr (Some etx)"
  then obtain t n where t: "r1 = Inr (Some t)" "r2 = Inr n" "etx = t\<lparr>etx_Nonce := Some n\<rparr>" "s' = s2" using cs by blast
  have "findNextUnstarted k (s_db s) = Some t" using query_result q t(1) by metis
  note F = findNextUnstarted_Some [OF this]
  have "queued k (etx_ID t) (s_db s2)" using K2(2) [OF stays_queued] K1(2) [OF stays_queued] queued_unstarted [OF inv F] by blast
  then show "queued k (etx_ID etx) (s_db s') \<and> etx_key etx = k \<and> nextNonce k (s_db s') = etx_Nonce etx \<and>
       etx_State etx = TxUnstarted \<and> etx_Nonce etx \<noteq> None"
    using t K2(3) [OF t(2)] F by (simp add: etx_key_def)
qed

lemma newAttempt_of:
  "newAttempt w cfg etx s = (r, s') \<Longrightarrow> s' = tick w s \<and> (\<forall>a. r = Inr a \<longrightarrow> eta_EthTxID a = etx_ID etx \<and> eta_State a = AttInProgress)"
  by (auto simp: newAttempt_def Let_def dest: NewLegacyAttempt_of NewDynamicFeeAttempt_of split: if_splits sum.splits)

lemma saveInProgress_ready:
  assumes r: "saveInProgressTransaction w etx a s = (r, s')" and env: "rely k w" and inv: "key_inv k (s_db s)" and chain: "c_chainID cfg = fst k"
    and q: "queued k (etx_ID etx) (s_db s)" and n: "nextNonce k (s_db s) = etx_Nonce etx" and a: "eta_EthTxID a = etx_ID etx" "eta_State a = AttInProgress"
    and st: "etx_State etx = TxUnstarted"
  shows "key_inv k (s_db s')" "r = Inl e \<Longrightarrow> idle k (s_db s) \<Longrightarrow> idle k (s_db s')"
    "r = Inr (etx1, a1) \<Longrightarrow> ready w cfg k etx1 etx1 a1 s'"
proof -
  define upd where "upd = startTx (etx_Nonce etx) (etx_BroadcastAt etx) (etx_InitialBroadcastAt etx)"
  define f where "f = (\<lambda>db. case find_tx (etx_ID etx) db of None \<Rightarrow> Inl EthTxRemoved
       | Some row \<Rightarrow> (case insert_attempt a db of (db1, attempt1) \<Rightarrow> Inr (update_tx (etx_ID etx) upd db1, upd row, attempt1)))"
  have tr: "db_transaction w f s = (r, s')"
    using r st a unfolding saveInProgressTransaction_def f_def upd_def Let_def by simp
  have keep: "\<forall>db x. f (s_db s) = Inr (db, x) \<longrightarrow> constraints db \<longrightarrow> key_inv k db \<and> working k (fst x) (snd x) db"
  proof (intro allI impI)
    fix db x assume h: "f (s_db s) = Inr (db, x)" and c: "constraints db"
    then obtain row where row: "find_tx (etx_ID etx) (s_db s) = Some row"
      and d: "db = update_tx (etx_ID etx) upd (fst (insert_attempt a (s_db s)))" "x = (upd row, snd (insert_attempt a (s_db s)))"
      unfolding f_def by (auto simp del: insert_attempt_simps simp: case_prod_beta split: option.splits)
    show "key_inv k db \<and> working k (fst x) (snd x) db"
      using saveInProgress_keeps [OF inv q row a n d(1) [unfolded upd_def] c] d(2) unfolding upd_def by simp
  qed
  note T = transaction_keeps [OF tr env inv keep allI [OF stays_working]]
  show "key_inv k (s_db s')" by (rule T(1))
  show "r = Inl e \<Longrightarrow> idle k (s_db s) \<Longrightarrow> idle k (s_db s')" by (rule T(3) [OF _ stays_idle])
  assume "r = Inr (etx1, a1)"
  then have "working k etx1 a1 (s_db s')" using T(2) by fastforce
  then show "ready w cfg k etx1 etx1 a1 s'" using T(1) env chain unfolding ready_def copy_of_def working_def by simp
qed

lemma throttle_keeps:
  assumes r: "throttle w cfg addr s = (r, s')" and env: "rely k w" and inv: "key_inv k (s_db s)"
  shows "key_inv k (s_db s')" "stays k P \<Longrightarrow> P (s_db s) \<Longrightarrow> P (s_db s')"
proof -
  obtain r1 s1 where q1: "query w (countTransactionsWithState (c_chainID cfg, addr) TxUnconfirmed) s = (r1, s1)" by fastforce
  note K1 = query_keeps [OF q1 env inv]
  obtain r2 s2 where q2: "query w (countTransactionsWithState (c_chainID cfg, addr) TxUnstarted) s1 = (r2, s2)" by fastforce
  note K2 = query_keeps [OF q2 env K1(1)]
  have s': "s' \<in> {s, s1, s2, tick w s2}" using r q1 q2 unfolding throttle_def by (auto split: if_splits sum.splits)
  show "key_inv k (s_db s')" using s' inv K1(1) K2(1) tick_inv [OF env K2(1)] by blast
  show "stays k P \<Longrightarrow> P (s_db s) \<Longrightarrow> P (s_db s')" using s' K1(2) K2(2) tick_stays [OF env K2(1)] by blast
qed

lemma processNext_keeps:
  assumes r: "processNext w cfg fuel (snd k) s = Some (r, s')" and env: "rely k w" and inv: "key_inv k (s_db s)" and chain: "c_chainID cfg = fst k"
    and idle: "idle k (s_db s)"
  shows "key_inv k (s_db s') \<and> ((r = Continue \<or> (\<exists>b. r = Return (None, b))) \<longrightarrow> idle k (s_db s'))"
proof -
  obtain r1 s1 where t: "throttle w cfg (snd k) s = (r1, s1)" by fastforce
  note K1 = throttle_keeps [OF t env inv] and I1 = throttle_keeps(2) [OF t env inv stays_idle idle]
  consider "s' = s1" | "r1 = Inr False" using r t unfolding processNext_def by (auto split: sum.splits bool.splits)
  then show ?thesis
  proof cases
    case 1
    then show ?thesis using K1(1) I1 by simp
  next
    case 2
    obtain r2 s2 where nx: "nextUnstartedTransactionWithNonce w cfg (snd k) s1 = (r2, s2)" by fastforce
    note K2 = nextUnstarted_keeps [OF nx env K1(1) chain]
    consider "s' = s2" | etx where "r2 = Inr (Some etx)" using r t nx 2 unfolding processNext_def by (auto split: sum.splits option.splits)
    then show ?thesis
    proof cases
      case 1
      then show ?thesis using K2(1,2) I1 by simp
    next
      case r2: 2
      note Q = K2(3) [OF r2]
      obtain r3 s3 where na: "newAttempt w cfg etx s2 = (r3, s3)" by fastforce
      note A = newAttempt_of [OF na]
      have K3: "key_inv k (s_db s3)" using A tick_inv [OF env K2(1)] by simp
      have I3: "idle k (s_db s3)" using A tick_stays [OF env K2(1) stays_idle] K2(2) [OF I1] by simp
      have Q3: "queued k (etx_ID etx) (s_db s3) \<and> nextNonce k (s_db s3) = etx_Nonce etx"
        using A tick_stays [OF env K2(1) stays_queued] tick_stays [OF env K2(1) stays_nonce] Q by blast
      show ?thesis
      proof (cases r3)
        case (Inl e)
        then have "s' = s3" using r t nx na 2 r2 unfolding processNext_def by simp
        then show ?thesis using K3 I3 by simp
      next
        case r3: (Inr a)
        obtain r4 s4 where sv: "saveInProgressTransaction w etx a s3 = (r4, s4)" by fastforce
        have a: "eta_EthTxID a = etx_ID etx" "eta_State a = AttInProgress" using A r3 by blast+
        note S = saveInProgress_ready [OF sv env K3 chain _ _ a]
        show ?thesis
        proof (cases r4)
          case (Inl e)
          then have "s' = s4" using r t nx na sv 2 r2 r3 unfolding processNext_def by simp
          then show ?thesis using S(1) S(2) [OF _ _ _ Inl I3] Q Q3 by simp
        next
          case r4: (Inr p)
          obtain etx1 a1 where p: "p = (etx1, a1)" by fastforce
          have "ready w cfg k etx1 etx1 a1 s4" using S(3) Q Q3 r4 p by blast
          note H = handleInProgress_settles [OF _ this]
          obtain e b where h: "handleInProgressEthTx w cfg fuel etx1 a1 (w_now w (s_clock s4)) s4 = Some ((e, b), s')"
            and rr: "r = (case e of None \<Rightarrow> Continue | Some _ \<Rightarrow> Return (e, b))"
            using r t nx na sv 2 r2 r3 r4 p unfolding processNext_def by (auto split: option.splits)
          show ?thesis using H [OF h] rr unfolding settled_def by (auto split: option.splits)
        qed
      qed
    qed
  qed
qed

lemma processLoop_keeps:
  "processLoop w cfg fuel n (snd k) s = Some ((e, b), s') \<Longrightarrow> rely k w \<Longrightarrow> key_inv k (s_db s) \<Longrightarrow> c_chainID cfg = fst k \<Longrightarrow> idle k (s_db s) \<Longrightarrow>
   key_inv k (s_db s') \<and> (e = None \<longrightarrow> idle k (s_db s'))"
proof (induction n arbitrary: s)
  case (Suc n)
  obtain r s1 where nx: "processNext w cfg fuel (snd k) s = Some (r, s1)" using Suc.prems(1) by (auto split: option.splits)
  note P = processNext_keeps [OF nx Suc.prems(2,3,4,5)]
  show ?case
  proof (cases r)
    case (Return x)
    then have "x = (e, b)" "s1 = s'" using Suc.prems(1) nx by simp_all
    then show ?thesis using P Return by simp
  next
    case Continue
    then show ?thesis using Suc.IH [of s1] Suc.prems nx P by simp
  qed
qed simp

section \<open>A database that fails from some moment on\<close>

text \<open>The time never goes back, and whatever makes the loops go on has made a query that succeeded.\<close>

definition queried :: "world \<Rightarrow> txm \<Rightarrow> txm \<Rightarrow> bool" where
  "queried w s s1 \<longleftrightarrow> (\<exists>m. s_clock s \<le> m \<and> m < s_clock s1 \<and> w_ok w m)"

lemma tick_clock: "s_clock (tick w s) = Suc (s_clock s)"
  by (simp add: tick_def)

lemma query_clock: "query w q s = (r, s') \<Longrightarrow> s_clock s' = Suc (s_clock s) \<and> ((\<exists>x. r = Inr x) \<longrightarrow> w_ok w (s_clock s))"
  by (auto simp: query_def tick_clock split: if_splits)

lemma transaction_clock: "db_transaction w f s = (r, s') \<Longrightarrow> s_clock s' = Suc (s_clock s) \<and> ((\<exists>x. r = Inr x) \<longrightarrow> w_ok w (s_clock s))"
  by (auto simp: db_transaction_def tick_clock split: if_splits sum.splits)

lemma queriedI: "s_clock s \<le> s_clock s0 \<Longrightarrow> w_ok w (s_clock s0) \<Longrightarrow> Suc (s_clock s0) \<le> s_clock s1 \<Longrightarrow> queried w s s1"
  unfolding queried_def by (intro exI [of _ "s_clock s0"]) simp

lemma queried_mono: "queried w s0 s1 \<Longrightarrow> s_clock s \<le> s_clock s0 \<Longrightarrow> s_clock s1 \<le> s_clock s2 \<Longrightarrow> queried w s s2"
  unfolding queried_def by (metis le_trans less_le_trans)

lemma queried_down: "queried w s s1 \<Longrightarrow> \<forall>m. N \<le> m \<longrightarrow> \<not> w_ok w m \<Longrightarrow> s_clock s < N \<and> s_clock s < s_clock s1"
  unfolding queried_def by (metis le_less_trans not_le)

definition again :: "world \<Rightarrow> txm \<Rightarrow> handled \<times> txm \<Rightarrow> bool" where
  "again w s r \<longleftrightarrow> s_clock s \<le> s_clock (snd r) \<and> (\<forall>etx a. fst r = TryAgain etx a \<longrightarrow> queried w s (snd r))"

lemma again_Handled [simp]: "again w s (Handled e b, s1) \<longleftrightarrow> s_clock s \<le> s_clock s1"
  by (simp add: again_def)

lemma again_later: "again w s0 r \<Longrightarrow> s_clock s \<le> s_clock s0 \<Longrightarrow> again w s r"
  unfolding again_def by (meson le_trans queried_mono le_refl)

lemma saveAttempt_clock: "saveAttempt w cfg etx a s = (e, s1) \<Longrightarrow> s_clock s \<le> s_clock s1"
  by (auto simp: saveAttempt_def Let_def dest!: transaction_clock split: if_splits option.splits prod.splits sum.splits)

lemma saveFatally_clock: "saveFatallyErroredTransaction w etx s = (e, s1) \<Longrightarrow> s_clock s \<le> s_clock s1"
  by (auto simp: saveFatallyErroredTransaction_def resumeWithError_def Let_def tick_clock dest!: transaction_clock
      split: if_splits option.splits prod.splits sum.splits bool.splits)

lemma sendTransaction_clock: "sendTransaction w a s = (e, s1) \<Longrightarrow> s_clock s \<le> s_clock s1"
  by (auto simp: sendTransaction_def Let_def tick_clock split: option.splits if_splits)

lemma tryAgainWithAttempt_again: "again w s (tryAgainWithAttempt w etx a new s)"
  by (auto simp: tryAgainWithAttempt_def saveReplacementInProgressAttempt_def again_def intro!: queriedI [of s s] dest!: transaction_clock
      split: sum.splits if_splits prod.splits)

lemma tryAgain_again:
  "again w s (tryAgainWithNewLegacyGas w cfg etx a p l s)" "again w s (tryAgainWithNewDynamicFeeGas w cfg etx a f l s)"
  by (simp_all add: tryAgainWithNewLegacyGas_def tryAgainWithNewDynamicFeeGas_def tryAgainWithAttempt_again)

lemma again_tick: "again w (tick w s) r \<Longrightarrow> again w s r"
  by (erule again_later) (simp add: tick_clock)

lemma tryAgainBumpingGas_again: "again w s (tryAgainBumpingGas w cfg etx a s)"
  by (auto simp: tryAgainBumpingGas_def tryAgainBumpingLegacyGas_def tryAgainBumpingDynamicFeeGas_def Let_def tick_clock
      intro: again_tick [OF tryAgain_again(1)] again_tick [OF tryAgain_again(2)] split: option.splits sum.splits)

lemma tryAgainWithNewEstimation_again: "again w s (tryAgainWithNewEstimation w cfg etx a s)"
  by (auto simp: tryAgainWithNewEstimation_def Let_def tick_clock intro: again_tick [OF tryAgain_again(1)] split: sum.splits)

lemma save_again: "s_clock s \<le> s_clock s0 \<Longrightarrow> again w s (case saveAttempt w cfg etx a s0 of (e, s1) \<Rightarrow> (Handled e b, s1))"
  using saveAttempt_clock [of w cfg etx a s0] by (auto split: prod.split)

lemma handleUnknownError_again: "again w s (handleUnknownError w cfg etx a err s)"
  by (auto simp: handleUnknownError_def Let_def tick_clock intro!: save_again split: option.split)

lemma handleSendError_again: "again w s (handleSendError w cfg etx a se s)"
  by (auto simp: handleSendError_def Let_def intro!: save_again tryAgainBumpingGas_again tryAgainWithNewEstimation_again handleUnknownError_again
      split: option.split)

lemma fatal_again: "s_clock s \<le> s_clock s0 \<Longrightarrow> again w s (case saveFatallyErroredTransaction w etx s0 of (e, s1) \<Rightarrow> (Handled e b, s1))"
  using saveFatally_clock [of w etx s0] by (auto split: prod.split)

lemma handleOnce_again: "again w s (handleOnce w cfg etx a b s)"
proof -
  have send: "again w s (case sendTransaction w a (tick w s) of (sendError, s2) \<Rightarrow> (case sendError of
       Some se \<Rightarrow> if se_fatal se then (case saveFatallyErroredTransaction w (f se) s2 of (e, s3) \<Rightarrow> (Handled e True, s3))
         else handleSendError w cfg x a sendError s2
     | None \<Rightarrow> handleSendError w cfg x a sendError s2))" for f x
  proof (cases "sendTransaction w a (tick w s)")
    case (Pair e s2)
    then have "s_clock s \<le> s_clock s2" using sendTransaction_clock [OF Pair] by (simp add: tick_clock)
    then show ?thesis using Pair by (auto intro: fatal_again again_later [OF handleSendError_again] split: option.split)
  qed
  show ?thesis unfolding handleOnce_def Let_def
    by (auto simp: tick_clock intro!: fatal_again send split: option.split check_result.split)
qed

lemma handleInProgress_clock: "handleInProgressEthTx w cfg n etx a b s = Some (r, s1) \<Longrightarrow> s_clock s \<le> s_clock s1"
proof (induction n arbitrary: etx a s)
  case (Suc n)
  obtain h s2 where h: "handleOnce w cfg etx a b s = (h, s2)" by fastforce
  then have "s_clock s \<le> s_clock s2" using handleOnce_again [of w s cfg etx a b] by (simp add: again_def)
  then show ?case using Suc h by (cases h) fastforce+
qed simp

lemma handleInProgress_down:
  assumes "\<forall>m. N \<le> m \<longrightarrow> \<not> w_ok w m"
  shows "N < s_clock s + n \<Longrightarrow> n \<noteq> 0 \<Longrightarrow> \<exists>r. handleInProgressEthTx w cfg n etx a b s = Some r"
proof (induction n arbitrary: etx a s)
  case (Suc n)
  obtain h s2 where h: "handleOnce w cfg etx a b s = (h, s2)" by fastforce
  show ?case
  proof (cases h)
    case (TryAgain etx1 a1)
    then have "queried w s s2" using handleOnce_again [of w s cfg etx a b] h by (simp add: again_def)
    from queried_down [OF this assms] have "N < s_clock s2 + n" "n \<noteq> 0" using Suc.prems by auto
    then show ?thesis using Suc.IH h TryAgain by simp
  qed (use h in simp)
qed simp

lemma throttle_clock: "throttle w cfg addr s = (r, s1) \<Longrightarrow> s_clock s \<le> s_clock s1 \<and> (r = Inr True \<longrightarrow> queried w s s1)"
  by (auto simp: throttle_def tick_clock intro!: queriedI [of s s] dest!: query_clock split: if_splits prod.splits sum.splits)

lemma next_clock: "nextUnstartedTransactionWithNonce w cfg addr s = (r, s1) \<Longrightarrow> s_clock s \<le> s_clock s1 \<and> (\<forall>x. r = Inr x \<longrightarrow> queried w s s1)"
  by (auto simp: nextUnstartedTransactionWithNonce_def keystore_GetNextNonce_def intro!: queriedI [of s s] dest!: query_clock
      split: if_splits prod.splits sum.splits option.splits)

lemma newAttempt_clock: "newAttempt w cfg etx s = (r, s1) \<Longrightarrow> s_clock s \<le> s_clock s1"
  by (auto simp: newAttempt_def Let_def tick_clock split: if_splits sum.splits prod.splits)

lemma saveInProgress_clock: "saveInProgressTransaction w etx a s = (r, s1) \<Longrightarrow> s_clock s \<le> s_clock s1"
  by (auto simp: saveInProgressTransaction_def dest!: transaction_clock split: if_splits)

lemma processNext_down:
  assumes "\<forall>m. N \<le> m \<longrightarrow> \<not> w_ok w m" and "N < s_clock s + fuel" and "fuel \<noteq> 0"
  shows "\<exists>r s1. processNext w cfg fuel addr s = Some (r, s1) \<and> s_clock s \<le> s_clock s1 \<and> (r = Continue \<longrightarrow> queried w s s1)"
proof (cases "throttle w cfg addr s")
  case th: (Pair r1 s1)
  note T = throttle_clock [OF th]
  show ?thesis
  proof (cases "r1 = Inr False")
    case False
    then show ?thesis using th T by (cases r1) (auto simp: processNext_def split: bool.splits)
  next
    case True
    obtain r2 s2 where nx: "nextUnstartedTransactionWithNonce w cfg addr s1 = (r2, s2)" by fastforce
    note X = next_clock [OF nx]
    have thx: "throttle w cfg addr s = (Inr False, s1)" using th True by simp
    show ?thesis
    proof (cases "\<exists>etx. r2 = Inr (Some etx)")
      case False
      then show ?thesis using thx nx T X unfolding processNext_def by (auto split: sum.split option.split)
    next
      case True
      then obtain etx where r2: "r2 = Inr (Some etx)" by blast
      have q: "queried w s s3" if "s_clock s2 \<le> s_clock s3" for s3 using X r2 T that by (blast intro: queried_mono)
      obtain r3 s3 where na: "newAttempt w cfg etx s2 = (r3, s3)" by fastforce
      note A = newAttempt_clock [OF na]
      show ?thesis
      proof (cases r3)
        case (Inl e)
        then show ?thesis using thx nx r2 na T X A unfolding processNext_def by simp
      next
        case (Inr a)
        obtain r4 s4 where sv: "saveInProgressTransaction w etx a s3 = (r4, s4)" by fastforce
        note S = saveInProgress_clock [OF sv]
        note eqs = thx nx r2 na Inr sv
        have up: "s_clock s \<le> s_clock s4" "s_clock s2 \<le> s_clock s4" using T X A S by simp_all
        show ?thesis
        proof (cases r4)
          case (Inl e)
          then show ?thesis using eqs up q [OF up(2)] unfolding processNext_def by simp
        next
          case (Inr p)
          obtain etx1 a1 where p: "p = (etx1, a1)" by fastforce
          have "N < s_clock s4 + fuel" using assms(2) up(1) by simp
          from handleInProgress_down [OF assms(1) this assms(3)] obtain e b s5 where
            h: "handleInProgressEthTx w cfg fuel etx1 a1 (w_now w (s_clock s4)) s4 = Some ((e, b), s5)" by (metis prod.exhaust)
          note H = handleInProgress_clock [OF h]
          have "s_clock s \<le> s_clock s5" "queried w s s5" using up H q by simp_all
          then show ?thesis using eqs Inr p h unfolding processNext_def by (cases e) simp_all
        qed
      qed
    qed
  qed
qed

lemma processLoop_down:
  assumes "\<forall>m. N \<le> m \<longrightarrow> \<not> w_ok w m"
  shows "N < s_clock s + fuel \<Longrightarrow> fuel \<noteq> 0 \<Longrightarrow> N < s_clock s + n \<Longrightarrow> n \<noteq> 0 \<Longrightarrow> \<exists>r. processLoop w cfg fuel n addr s = Some r"
proof (induction n arbitrary: s)
  case (Suc n)
  from processNext_down [OF assms Suc.prems(1,2), of cfg addr]
  obtain r s1 where nx: "processNext w cfg fuel addr s = Some (r, s1)" "s_clock s \<le> s_clock s1" "r = Continue \<longrightarrow> queried w s s1" by blast
  show ?case
  proof (cases r)
    case Continue
    with nx(3) have "queried w s s1" by simp
    from queried_down [OF this assms] have "N < s_clock s1 + n" "n \<noteq> 0" "N < s_clock s1 + fuel" using Suc.prems by auto
    then show ?thesis using Suc.IH Suc.prems(2) nx(1) Continue by simp
  qed (use nx(1) in simp)
qed simp

lemma getInProgress_clock: "getInProgressEthTx w addr s = (r, s1) \<Longrightarrow> s_clock s \<le> s_clock s1"
  by (auto simp: getInProgressEthTx_def dest!: query_clock split: prod.splits sum.splits option.splits list.splits)

lemma processUnstarted_down:
  assumes "\<forall>m. N \<le> m \<longrightarrow> \<not> w_ok w m" and "N < s_clock s + fuel" "fuel \<noteq> 0" and "N < s_clock s + n" "n \<noteq> 0"
  shows "\<exists>r. processUnstartedEthTxs w cfg fuel n addr s = Some r"
proof -
  obtain r s1 where g: "getInProgressEthTx w addr s = (r, s1)" by fastforce
  note G = getInProgress_clock [OF g]
  have "\<exists>e b s2. handleAnyInProgressEthTx w cfg fuel addr s = Some ((e, b), s2) \<and> s_clock s \<le> s_clock s2"
  proof (cases "\<exists>etx a. r = Inr (Some (etx, a))")
    case False
    then show ?thesis using g G by (auto simp: handleAnyInProgressEthTx_def split: sum.split option.split)
  next
    case True
    then obtain etx a where r: "r = Inr (Some (etx, a))" by blast
    have "N < s_clock s1 + fuel" using assms(2) G by simp
    from handleInProgress_down [OF assms(1) this assms(3)] obtain e b s2 where
      h: "handleInProgressEthTx w cfg fuel etx a (etx_CreatedAt etx) s1 = Some ((e, b), s2)" by (metis prod.exhaust)
    then show ?thesis using g r G handleInProgress_clock [OF h] by (cases e) (auto simp: handleAnyInProgressEthTx_def)
  qed
  then obtain e b s2 where h: "handleAnyInProgressEthTx w cfg fuel addr s = Some ((e, b), s2)" "s_clock s \<le> s_clock s2" by blast
  have "\<exists>r. processLoop w cfg fuel n addr s2 = Some r"
    using assms h(2) by (intro processLoop_down [OF assms(1)]) simp_all
  then show ?thesis using h(1) by (cases e) (auto simp: processUnstartedEthTxs_def)
qed

section \<open>The invariant is kept\<close>

lemma processUnstarted_keeps:
  assumes "processUnstartedEthTxs w cfg fuel n addr s = Some ((e, retryable), s')"
    and "rely (c_chainID cfg, addr) w" and "key_inv (c_chainID cfg, addr) (s_db s)"
  shows "key_inv (c_chainID cfg, addr) (s_db s') \<and> (e = None \<longrightarrow> idle (c_chainID cfg, addr) (s_db s'))"
proof -
  define k where "k = (c_chainID cfg, addr)"
  have k: "snd k = addr" "c_chainID cfg = fst k" by (simp_all add: k_def)
  obtain e1 b1 s1 where h: "handleAnyInProgressEthTx w cfg fuel (snd k) s = Some ((e1, b1), s1)"
    using assms(1) k unfolding processUnstartedEthTxs_def by (auto split: option.splits)
  note H = handleAny_settles [OF h assms(2,3) [folded k_def] k(2)]
  show ?thesis
  proof (cases e1)
    case None
    then have "processLoop w cfg fuel n (snd k) s1 = Some ((e, retryable), s')" using assms(1) h k unfolding processUnstartedEthTxs_def by simp
    from processLoop_keeps [OF this] show ?thesis using assms(2) H None k unfolding k_def by blast
  next
    case (Some x)
    then have "e = Some x" "s1 = s'" using assms(1) h k unfolding processUnstartedEthTxs_def by auto
    then show ?thesis using H unfolding k_def by simp
  qed
qed

text \<open>A crash at the moment \<open>N\<close>: nothing is written from then on.\<close>

definition cut_off :: "nat \<Rightarrow> world \<Rightarrow> world" where
  "cut_off N w = w\<lparr>w_ok := \<lambda>m. m < N \<and> w_ok w m\<rparr>"

lemma rely_cut_off [simp]: "rely k (cut_off N w) = rely k w"
  by (simp add: rely_def cut_off_def)

text \<open>C1: Let the other users of the tables keep to their part: they may put transactions into the queue, remove them or confirm old
  ones, but not touch what is in progress, give nonces or change the next nonce of the key. (Creating transactions
  keeps to that; the nonce syncer at run time and the broadcaster of another chain with the same address do not.) Then, whatever the node, the
  estimator and the callback answer and whichever queries fail, a run over the queue of a key that ends keeps the nonces of its transactions
  below the next nonce of the key, distinct, and a transaction in progress is the only one, has the next nonce, and has exactly one attempt;
  if it ends without an error, no transaction is left in progress. The same holds for a run that is cut off at any moment, which always ends:
  more attempts and rounds than the moment's number are never needed.\<close>
theorem broadcaster_keeps_nonces:
  assumes "rely (c_chainID cfg, addr) w" and "key_inv (c_chainID cfg, addr) (s_db s)"
  shows "(\<forall>e retryable s'. processUnstartedEthTxs w cfg fuel n addr s = Some ((e, retryable), s') \<longrightarrow>
       key_inv (c_chainID cfg, addr) (s_db s') \<and> (e = None \<longrightarrow> idle (c_chainID cfg, addr) (s_db s'))) \<and>
    (\<forall>N. N < fuel \<and> N < n \<longrightarrow> (\<exists>e retryable s'. processUnstartedEthTxs (cut_off N w) cfg fuel n addr s = Some ((e, retryable), s') \<and>
       key_inv (c_chainID cfg, addr) (s_db s') \<and> (e = None \<longrightarrow> idle (c_chainID cfg, addr) (s_db s'))))"
proof (intro conjI allI impI)
  fix e retryable s' assume "processUnstartedEthTxs w cfg fuel n addr s = Some ((e, retryable), s')"
  note processUnstarted_keeps [OF this assms]
  then show "key_inv (c_chainID cfg, addr) (s_db s')" "e = None \<Longrightarrow> idle (c_chainID cfg, addr) (s_db s')" by blast+
next
  fix N assume N: "N < fuel \<and> N < n"
  have "\<forall>m. N \<le> m \<longrightarrow> \<not> w_ok (cut_off N w) m" by (simp add: cut_off_def)
  from processUnstarted_down [OF this, of s fuel n cfg addr] N obtain e b s' where
    r: "processUnstartedEthTxs (cut_off N w) cfg fuel n addr s = Some ((e, b), s')" by (auto simp: trans_less_add2)
  from processUnstarted_keeps [OF r] assms show "\<exists>e retryable s'. processUnstartedEthTxs (cut_off N w) cfg fuel n addr s = Some ((e, retryable), s') \<and>
       key_inv (c_chainID cfg, addr) (s_db s') \<and> (e = None \<longrightarrow> idle (c_chainID cfg, addr) (s_db s'))" using r by auto
qed

text \<open>A world in which, while the first transaction is being sent, another goroutine creates a second one.\<close>

definition creating0 :: world where
  "creating0 = world0\<lparr>w_others := \<lambda>m db. if m = 3 then s_db (snd (CreateEthTransaction world0 tx_cfg0 new_tx0 ((txm0 [] [])\<lparr>s_db := db\<rparr>))) else db\<rparr>"

lemma creating0_relies: "rely k creating0"
proof (rule rely_creation [of world0], goal_cases)
  case 2
  have "\<exists>cfg nt st. s_db st = db \<and> w_others creating0 3 db = s_db (snd (CreateEthTransaction world0 cfg nt st))" for db
    unfolding creating0_def by (intro exI [of _ tx_cfg0] exI [of _ new_tx0] exI [of _ "(txm0 [] [])\<lparr>s_db := db\<rparr>"]) simp
  then show ?case by (simp add: creating0_def)
qed (simp add: world0_def)

text \<open>Both transactions are sent, with the nonces 3 and 4; a run that is cut off
  after the first one was sent, before that is stored, leaves it in progress.\<close>

theorem broadcaster_keeps_nonces_witness:
  "(\<exists>s'. processUnstartedEthTxs creating0 tx_cfg0 9 9 7 (txm0 [row0 TxUnstarted None 1] []) = Some ((None, False), s') \<and> s_sent s' = [[3], [4]] \<and>
     key_inv (1, 7) (s_db s') \<and> idle (1, 7) (s_db s')) \<and>
   (\<exists>e s'. processUnstartedEthTxs (cut_off 6 creating0) tx_cfg0 9 9 7 (txm0 [row0 TxUnstarted None 1] []) = Some ((Some e, True), s') \<and>
     s_sent s' = [[3]] \<and> key_inv (1, 7) (s_db s') \<and> \<not> idle (1, 7) (s_db s'))"
proof -
  let ?s = "txm0 [row0 TxUnstarted None 1] []"
  have c: "c_chainID tx_cfg0 = 1" by (simp add: tx_cfg0_def)
  note B = broadcaster_keeps_nonces [of tx_cfg0 7 creating0 ?s 9 9, unfolded c, OF creating0_relies txm0_inv(2)]
  have "case processUnstartedEthTxs creating0 tx_cfg0 9 9 7 ?s of
      Some ((e, b), s') \<Rightarrow> e = None \<and> \<not> b \<and> s_sent s' = [[3], [4]] | None \<Rightarrow> False" by code_simp
  then obtain s1 where r1: "processUnstartedEthTxs creating0 tx_cfg0 9 9 7 ?s = Some ((None, False), s1)" "s_sent s1 = [[3], [4]]"
    by (auto split: option.splits prod.splits)
  have "case processUnstartedEthTxs (cut_off 6 creating0) tx_cfg0 9 9 7 ?s of
      Some ((e, b), s') \<Rightarrow> e \<noteq> None \<and> b \<and> s_sent s' = [[3]] \<and> list_ex (\<lambda>t. etx_key t = (1, 7) \<and> etx_State t = TxInProgress) (t_txes (s_db s'))
    | None \<Rightarrow> False" by code_simp
  then obtain e s2 where r2: "processUnstartedEthTxs (cut_off 6 creating0) tx_cfg0 9 9 7 ?s = Some ((Some e, True), s2)" "s_sent s2 = [[3]]"
    and p: "list_ex (\<lambda>t. etx_key t = (1, 7) \<and> etx_State t = TxInProgress) (t_txes (s_db s2))"
    by (auto split: option.splits prod.splits)
  have "key_inv (1, 7) (s_db s2)" using B [THEN conjunct2, rule_format, of 6] r2(1) by simp
  moreover have "key_inv (1, 7) (s_db s1) \<and> idle (1, 7) (s_db s1)" using B [THEN conjunct1] r1(1) by blast
  moreover have "\<not> idle (1, 7) (s_db s2)" using p by (auto simp: idle_def list_ex_iff)
  ultimately show ?thesis using r1 r2 by blast
qed

section \<open>Adopting the nonce of the chain while a transaction is in progress\<close>

lemma saveAttempt_wrong_nonce:
  assumes "etx_Nonce etx = Some n" "nextNonce (c_chainID cfg, etx_FromAddress etx) (s_db s) \<noteq> Some n"
  shows "fst (saveAttempt w cfg etx a s) \<noteq> None"
proof -
  have "incrementNextNonce (c_chainID cfg, etx_FromAddress etx) n (s_db s) = None"
    using assms(2) by (auto simp: incrementNextNonce_def keyEnabled_def nextNonce_def split: option.splits if_splits)
  then have "\<exists>e. keystore_IncrementNextNonce w (c_chainID cfg, etx_FromAddress etx) n (s_db s) (s_mem s) = Inl e"
    by (simp add: keystore_IncrementNextNonce_def)
  then show ?thesis using assms(1) by (auto simp: saveAttempt_def db_transaction_def Let_def)
qed

text \<open>C38: If at startup the chain is ahead of the tables by more than the transaction in progress, the next nonce is raised above the nonce of
  that transaction. It stays in progress, and it can never be stored as sent any more: that needs its nonce to be the next one.\<close>
theorem fast_forward_strands_in_progress:
  assumes "fastForwardNonceIfNecessary w cfg addr s = (None, s')" and "w_others w = (\<lambda>_ db. db)"
    and "w_PendingNonceAt w (s_clock s) addr = Some c" and "nextNonce (c_chainID cfg, addr) (s_db s) = Some m" "0 \<le> m" "m < max_i64"
    and "key_inv (c_chainID cfg, addr) (s_db s)" and "working (c_chainID cfg, addr) t a (s_db s)" and "m + 1 < uint c"
  shows "working (c_chainID cfg, addr) t a (s_db s') \<and>
    (\<forall>w2 s2 etx. copy_of t etx \<and> nextNonce (c_chainID cfg, addr) (s_db s2) = nextNonce (c_chainID cfg, addr) (s_db s') \<longrightarrow>
       fst (saveAttempt w2 cfg etx a s2) \<noteq> None)"
proof -
  let ?k = "(c_chainID cfg, addr)"
  have ip: "hasInProgressTransaction ?k (s_db s)" using assms(8) unfolding hasInProgressTransaction_def working_def by blast
  have c: "c \<noteq> 0" using assms(5,9) by auto
  have "\<exists>x. t_keys (s_db s) ?k = Some x \<and> s_db s' = (s_db s)\<lparr>t_keys := (t_keys (s_db s))(?k \<mapsto> x\<lparr>ks_NextNonce := uint c - 1\<rparr>)\<rparr>"
    using fastForward_result [OF assms(1-3) c refl assms(4-6) refl] ip assms(9) by simp
  then obtain x where s': "s_db s' = (s_db s)\<lparr>t_keys := (t_keys (s_db s))(?k \<mapsto> x\<lparr>ks_NextNonce := uint c - 1\<rparr>)\<rparr>" by blast
  have w: "working ?k t a (s_db s')" using assms(8) unfolding working_def s' attempts_of_def by simp
  have n: "nextNonce ?k (s_db s') = Some (uint c - 1)" unfolding s' nextNonce_def by simp
  have tn: "etx_Nonce t = Some m" using working_inv(1) [OF assms(7,8)] assms(4) by simp
  have "fst (saveAttempt w2 cfg etx a s2) \<noteq> None" if "copy_of t etx" "nextNonce ?k (s_db s2) = nextNonce ?k (s_db s')" for w2 s2 etx
  proof (rule saveAttempt_wrong_nonce)
    show "etx_Nonce etx = Some m" using that(1) tn unfolding copy_of_def by simp
    have "(c_chainID cfg, etx_FromAddress etx) = ?k" using that(1) assms(8) unfolding copy_of_def working_def etx_key_def by simp
    then show "nextNonce (c_chainID cfg, etx_FromAddress etx) (s_db s2) \<noteq> Some m" using that(2) n assms(9) by simp
  qed
  then show ?thesis using w by blast
qed

theorem fast_forward_strands_in_progress_witness:
  "\<exists>s'. fastForwardNonceIfNecessary world0 tx_cfg0 7 (txm0 [row0 TxInProgress (Some 3) 1] [attempt0]) = (None, s') \<and>
     fst (saveAttempt world0 tx_cfg0 (row0 TxInProgress (Some 3) 1) attempt0 s') \<noteq> None"
proof -
  let ?s = "txm0 [row0 TxInProgress (Some 3) 1] [attempt0]" and ?t = "row0 TxInProgress (Some 3) 1"
  have "fst (fastForwardNonceIfNecessary world0 tx_cfg0 7 ?s) = None" by code_simp
  then obtain s' where r: "fastForwardNonceIfNecessary world0 tx_cfg0 7 ?s = (None, s')" by (metis prod.collapse)
  have c: "c_chainID tx_cfg0 = 1" by (simp add: tx_cfg0_def)
  have w: "working (1, 7) ?t attempt0 (s_db ?s)" by (simp add: working_def etx_key_def attempts_of_def example_simps)
  have t: "copy_of ?t ?t" by (simp add: copy_of_def row0_def)
  from fast_forward_strands_in_progress [OF r, of 9 3 ?t attempt0] show ?thesis
    using r c w t txm0_inv(3) by (simp add: world0_def nextNonce_def txm0_def keys0_def key0_def max_i64_def)
qed

section \<open>An address that is used on two chains\<close>

text \<open>The update that stores a transaction as sent meets the constraints, also if the nonce of another chain is counted up.\<close>

definition sentDb :: "int \<times> address \<Rightarrow> key_state \<Rightarrow> eth_tx \<Rightarrow> eth_tx_attempt \<Rightarrow> tx_db \<Rightarrow> tx_db" where
  "sentDb k x etx a db = update_attempt (eta_ID a) (\<lambda>a. a\<lparr>eta_State := AttBroadcast\<rparr>)
     (update_tx (etx_ID etx) (broadcastTx (etx_Error etx) (etx_BroadcastAt etx) (etx_InitialBroadcastAt etx))
       (db\<lparr>t_keys := (t_keys db)(k \<mapsto> x\<lparr>ks_NextNonce := ks_NextNonce x + 1\<rparr>)\<rparr>))"

lemma fee_ok_state [simp]: "fee_ok (b\<lparr>eta_State := x\<rparr>) = fee_ok b"
  unfolding fee_ok_def by (cases "eta_GasTipCap b") simp_all

lemma sentDb_constraints:
  assumes c: "constraints db" and t: "t \<in> set (t_txes db)" "etx_ID etx = etx_ID t" "etx_State t = TxInProgress"
    and etx: "etx_Error etx = None" "etx_BroadcastAt etx \<noteq> None" "etx_InitialBroadcastAt etx \<noteq> None"
  shows "constraints (sentDb k x etx a db)"
proof (rule constraints_mapped [OF c])
  let ?g = "\<lambda>u. if etx_ID u = etx_ID etx then broadcastTx (etx_Error etx) (etx_BroadcastAt etx) (etx_InitialBroadcastAt etx) u else u"
  let ?h = "\<lambda>b. if eta_ID b = eta_ID a then b\<lparr>eta_State := AttBroadcast\<rparr> else b"
  show "t_txes (sentDb k x etx a db) = map ?g (t_txes db)" "t_attempts (sentDb k x etx a db) = map ?h (t_attempts db)"
    "t_receipts (sentDb k x etx a db) = t_receipts db"
    by (simp_all add: sentDb_def update_tx_def update_attempt_def)
  show "t_keys (sentDb k x etx a db) k' \<noteq> None" if "t_keys db k' \<noteq> None" for k' using that by (simp add: sentDb_def)
  fix u assume u: "u \<in> set (t_txes db)"
  have fsm: "tx_fsm_ok u" by (rule constraints_fsm [OF c u])
  show "etx_ID (?g u) = etx_ID u \<and> etx_key (?g u) = etx_key u \<and> etx_PipelineTaskRunID (?g u) = etx_PipelineTaskRunID u \<and>
       tx_fsm_ok (?g u) \<and> (etx_Nonce (?g u) = etx_Nonce u \<or> etx_Nonce (?g u) = None) \<and> (inProgressKey (?g u) = inProgressKey u \<or> inProgressKey (?g u) = None)"
  proof (cases "etx_ID u = etx_ID etx")
    case True
    then have "etx_State u = TxInProgress" using same_tx_row [OF c u t(1)] t by simp
    then show ?thesis using True fsm etx by (simp add: broadcastTx_def etx_key_def tx_fsm_ok_def inProgressKey_def)
  qed (simp add: fsm)
next
  fix b assume b: "b \<in> set (t_attempts db)"
  have "attempt_ok b" by (rule constraintsD(11) [OF c b])
  then show "eta_ID (if eta_ID b = eta_ID a then b\<lparr>eta_State := AttBroadcast\<rparr> else b) = eta_ID b \<and>
      eta_Hash (if eta_ID b = eta_ID a then b\<lparr>eta_State := AttBroadcast\<rparr> else b) = eta_Hash b \<and>
      eta_EthTxID (if eta_ID b = eta_ID a then b\<lparr>eta_State := AttBroadcast\<rparr> else b) = eta_EthTxID b \<and>
      eta_GasPrice (if eta_ID b = eta_ID a then b\<lparr>eta_State := AttBroadcast\<rparr> else b) = eta_GasPrice b \<and>
      attempt_ok (if eta_ID b = eta_ID a then b\<lparr>eta_State := AttBroadcast\<rparr> else b) \<and>
      (unbroadcastKey (if eta_ID b = eta_ID a then b\<lparr>eta_State := AttBroadcast\<rparr> else b) = unbroadcastKey b \<or>
       unbroadcastKey (if eta_ID b = eta_ID a then b\<lparr>eta_State := AttBroadcast\<rparr> else b) = None)"
    by (simp add: attempt_ok_def unbroadcastKey_def)
qed

lemma saveAttempt_commits:
  assumes c: "constraints (s_db s)" and ok: "w_ok w (s_clock s)" and t: "t \<in> set (t_txes (s_db s))" "copy_of t etx" "etx_State t = TxInProgress" "etx_Nonce t = Some n"
    and etx: "etx_Error etx = None" "etx_BroadcastAt etx \<noteq> None" "etx_InitialBroadcastAt etx \<noteq> None"
    and a: "a \<in> set (t_attempts (s_db s))" "eta_State a = AttInProgress"
    and k: "k = (c_chainID cfg, etx_FromAddress etx)" "t_keys (s_db s) k = Some x" "ks_NextNonce x = n" "\<not> ks_Disabled x"
    and mem: "w_KeyRing w (snd k)" "s_mem s k = Some y" "\<not> ks_Disabled y"
  shows "saveAttempt w cfg etx a s = (None, (tick w (s\<lparr>s_db := sentDb k x etx a (s_db s)\<rparr>))\<lparr>s_mem := (s_mem s)(k \<mapsto> y\<lparr>ks_NextNonce := n + 1\<rparr>)\<rparr>)"
proof -
  define db1 where "db1 = (s_db s)\<lparr>t_keys := (t_keys (s_db s))(k \<mapsto> x\<lparr>ks_NextNonce := n + 1\<rparr>)\<rparr>"
  have inc: "keystore_IncrementNextNonce w k n (s_db s) (s_mem s) = Inr (db1, (s_mem s)(k \<mapsto> y\<lparr>ks_NextNonce := n + 1\<rparr>))"
    using k mem by (simp add: keystore_IncrementNextNonce_def incrementNextNonce_def keyEnabled_def setMemNonce_def db1_def)
  have ids: "etx_ID etx = etx_ID t" "etx_Nonce etx = Some n" "etx_State etx = TxInProgress" using t(2,4) unfolding copy_of_def by simp_all
  have found: "find_tx (etx_ID etx) db1 = Some t"
    using find_tx_iff [OF constraints_distinct(1) [OF c]] t(1) ids unfolding find_tx_def db1_def by simp
  have att: "eta_ID a \<in> eta_ID ` set (t_attempts db1)" using a(1) unfolding db1_def by simp
  have s: "update_attempt (eta_ID a) (\<lambda>a. a\<lparr>eta_State := AttBroadcast\<rparr>)
      (update_tx (etx_ID etx) (broadcastTx (etx_Error etx) (etx_BroadcastAt etx) (etx_InitialBroadcastAt etx)) db1) = sentDb k x etx a (s_db s)"
    unfolding sentDb_def db1_def k(3) ..
  have con: "constraints (sentDb k x etx a (s_db s))" by (rule sentDb_constraints [OF c t(1) ids(1) t(3) etx])
  show ?thesis
    unfolding saveAttempt_def Let_def using ids(3) a(2) by (simp add: ids(2) k(1) [symmetric] inc found att s db_transaction_def ok con)
qed

lemma in_sentDb:
  assumes "t \<in> set (t_txes db)" "etx_ID etx = etx_ID t"
  shows "broadcastTx (etx_Error etx) (etx_BroadcastAt etx) (etx_InitialBroadcastAt etx) t \<in> set (t_txes (sentDb k x etx a db))"
proof -
  have "t_txes (sentDb k x etx a db) = t_txes (update_tx (etx_ID etx) (broadcastTx (etx_Error etx) (etx_BroadcastAt etx) (etx_InitialBroadcastAt etx)) db)"
    unfolding sentDb_def by (simp add: update_tx_def)
  then have "broadcastTx (etx_Error etx) (etx_BroadcastAt etx) (etx_InitialBroadcastAt etx) t \<in> set (t_txes (sentDb k x etx a db)) \<longleftrightarrow>
      broadcastTx (etx_Error etx) (etx_BroadcastAt etx) (etx_InitialBroadcastAt etx) t \<in> set (t_txes
        (update_tx (etx_ID etx) (broadcastTx (etx_Error etx) (etx_BroadcastAt etx) (etx_InitialBroadcastAt etx)) db))" by simp
  also have "\<dots>" unfolding in_update_tx using assms by (intro bexI [of _ t]) simp_all
  finally show ?thesis by simp
qed

text \<open>A node that takes the transaction, and no check before.\<close>

lemma handleOnce_accepted:
  assumes "etx_State etx = TxInProgress" "etx_TransmitChecker etx = Null" "w_Decodes w (eta_SignedRawTx a) = None"
    and "w_SendRaw w (s_clock s + 1) (eta_SignedRawTx a) = None"
  shows "handleOnce w cfg etx a b s =
    (case saveAttempt w cfg (etx\<lparr>etx_InitialBroadcastAt := Some b, etx_BroadcastAt := Some b\<rparr>) a
        (tick w ((tick w s)\<lparr>s_sent := s_sent s @ [eta_SignedRawTx a]\<rparr>)) of (e, s1) \<Rightarrow> (Handled e True, s1))"
proof -
  have "s_clock (tick w s) = s_clock s + 1" "s_sent (tick w s) = s_sent s" by (simp_all add: tick_def)
  then have send: "sendTransaction w a (tick w s) = (None, tick w ((tick w s)\<lparr>s_sent := s_sent s @ [eta_SignedRawTx a]\<rparr>))"
    using assms(3,4) by (simp add: sendTransaction_def NewSendError_def se_is_def)
  show ?thesis
    unfolding handleOnce_def Let_def using assms(1,2)
    by (simp add: GetChecker_def BuildChecker_def Check_def send handleSendError_def Let_def se_is_def)
qed

text \<open>C39: A transaction in progress on another chain, from the same address, is taken for one of this chain: it is
  sent to the node of this chain, and if the nonces agree and the node takes it, it is stored as unconfirmed, and a nonce of this chain is spent on it.\<close>
theorem in_progress_of_other_chain:
  assumes "w_others w = (\<lambda>_ db. db)" "\<And>n. w_ok w n"
    and "findInProgress addr (s_db s) = Some t" and "etx_EVMChainID t \<noteq> c_chainID cfg" and "attempts_of (etx_ID t) (s_db s) = [a]" "eta_State a = AttInProgress"
    and "etx_TransmitChecker t = Null" and "w_Decodes w (eta_SignedRawTx a) = None" and "\<And>n. w_SendRaw w n (eta_SignedRawTx a) = None"
    and "constraints (s_db s)" and "etx_Nonce t = Some n" and "t_keys (s_db s) (c_chainID cfg, addr) = Some x" "ks_NextNonce x = n" "\<not> ks_Disabled x"
    and "w_KeyRing w addr" and "s_mem s (c_chainID cfg, addr) = Some y" "\<not> ks_Disabled y"
  shows "\<exists>s'. handleAnyInProgressEthTx w cfg (Suc fuel) addr s = Some ((None, False), s') \<and> s_sent s' = s_sent s @ [eta_SignedRawTx a] \<and>
    nextNonce (c_chainID cfg, addr) (s_db s') = Some (n + 1) \<and>
    (\<exists>t' \<in> set (t_txes (s_db s')). etx_ID t' = etx_ID t \<and> etx_EVMChainID t' = etx_EVMChainID t \<and> etx_State t' = TxUnconfirmed)"
proof -
  let ?k = "(c_chainID cfg, addr)"
  have t: "t \<in> set (t_txes (s_db s))" "etx_FromAddress t = addr" "etx_State t = TxInProgress"
    using find_SomeD [OF assms(3) [unfolded findInProgress_def]] by blast+
  have tick: "tick w s = s\<lparr>s_clock := s_clock s + 1\<rparr>" for s using assms(1) by (simp add: tick_def)
  have load: "loadEthTxAttempts (etx_ID t) (s_db s) = [a]" using assms(5) unfolding loadEthTxAttempts_def attempts_of_def by simp
  have "a \<in> set (attempts_of (etx_ID t) (s_db s))" using assms(5) by simp
  then have a: "a \<in> set (t_attempts (s_db s))" unfolding attempts_of_def by simp
  define s1 where "s1 = s\<lparr>s_clock := s_clock s + 1 + 1\<rparr>"
  have g: "getInProgressEthTx w addr s = (Inr (Some (t, a)), s1)"
    using assms(2,3,6) load by (simp add: getInProgressEthTx_def query_def tick s1_def)
  define s2 where "s2 = tick w ((tick w s1)\<lparr>s_sent := s_sent s1 @ [eta_SignedRawTx a]\<rparr>)"
  define etx where "etx = t\<lparr>etx_InitialBroadcastAt := Some (etx_CreatedAt t), etx_BroadcastAt := Some (etx_CreatedAt t)\<rparr>"
  have s2: "s_db s2 = s_db s" "s_mem s2 = s_mem s" "s_sent s2 = s_sent s @ [eta_SignedRawTx a]" by (simp_all add: s2_def s1_def tick)
  have "tx_fsm_ok t" by (rule constraints_fsm [OF assms(10) t(1)])
  then have etx: "etx_Error etx = None" "copy_of t etx" "etx_BroadcastAt etx \<noteq> None" "etx_InitialBroadcastAt etx \<noteq> None" "etx_FromAddress etx = addr"
    using t by (simp_all add: etx_def copy_of_def etx_key_def tx_fsm_ok_def)
  define s3 where "s3 = (tick w (s2\<lparr>s_db := sentDb ?k x etx a (s_db s2)\<rparr>))\<lparr>s_mem := (s_mem s2)(?k \<mapsto> y\<lparr>ks_NextNonce := n + 1\<rparr>)\<rparr>"
  have save: "saveAttempt w cfg etx a s2 = (None, s3)" unfolding s3_def
    by (rule saveAttempt_commits [where t = t and k = ?k and x = x and y = y])
      (use assms t a etx in \<open>simp_all add: s2\<close>)
  have "handleOnce w cfg t a (etx_CreatedAt t) s1 = (Handled None True, s3)"
    using handleOnce_accepted [of t w a s1 cfg "etx_CreatedAt t"] t(3) assms(7-9) save unfolding s2_def etx_def by simp
  then have "handleAnyInProgressEthTx w cfg (Suc fuel) addr s = Some ((None, False), s3)" by (simp add: handleAnyInProgressEthTx_def g)
  moreover have "s_sent s3 = s_sent s @ [eta_SignedRawTx a]" by (simp add: s3_def tick s2)
  moreover have db3: "s_db s3 = sentDb ?k x etx a (s_db s)" by (simp add: s3_def tick s2)
  moreover have "nextNonce ?k (s_db s3) = Some (n + 1)" using assms(13) unfolding db3 by (simp add: sentDb_def nextNonce_def)
  moreover have "\<exists>t' \<in> set (t_txes (s_db s3)). etx_ID t' = etx_ID t \<and> etx_EVMChainID t' = etx_EVMChainID t \<and> etx_State t' = TxUnconfirmed"
  proof -
    have "etx_ID etx = etx_ID t" by (simp add: etx_def)
    from in_sentDb [OF t(1) this] show ?thesis unfolding db3 by (rule bexI [rotated]) (simp add: broadcastTx_def)
  qed
  ultimately show ?thesis by blast
qed

theorem in_progress_of_other_chain_witness:
  "\<exists>s'. handleAnyInProgressEthTx world0 tx_cfg0 1 7 (txm0 [row0 TxInProgress (Some 3) 2] [attempt0]) = Some ((None, False), s') \<and>
     s_sent s' = [[3]] \<and> nextNonce (1, 7) (s_db s') = Some 4"
proof -
  let ?s = "txm0 [row0 TxInProgress (Some 3) 2] [attempt0]" and ?t = "row0 TxInProgress (Some 3) 2"
  have c: "c_chainID tx_cfg0 = 1" by (simp add: tx_cfg0_def)
  have "findInProgress 7 (s_db ?s) = Some ?t" "attempts_of (etx_ID ?t) (s_db ?s) = [attempt0]"
    by (simp_all add: findInProgress_def attempts_of_def example_simps)
  from in_progress_of_other_chain [of world0 7 ?s ?t tx_cfg0 attempt0 3 key0 key0 0, OF _ _ this(1) _ this(2)] show ?thesis
    using txm0_inv(4) c by (auto simp: world0_def row0_def attempt0_def key0_def txm0_def keys0_def)
qed

end
