(* ===== verification/Tx_Sending.thy ===== *)
theory Tx_Sending
  imports Tx_Broadcaster Block_History
begin

text \<open>
  Progress of the broadcaster (\<open>Tx_Broadcaster\<close>): sending a transaction ends, because every new attempt of it is priced higher, up to the maximum;
  on a layer 2 whose sequencer stays full it does not end; a queue is worked off, in order and with consecutive nonces, if the node takes
  the transactions.
\<close>

section \<open>Sending ends\<close>

text \<open>What an attempt offers to the miner.\<close>

definition bid :: "eth_tx_attempt \<Rightarrow> wei" where
  "bid a = (if eta_TxType a = 0 then the (eta_GasPrice a) else the (eta_GasTipCap a))"

lemma transaction_Inr: "db_transaction w f s = (Inr x, s') \<Longrightarrow> \<exists>db. f (s_db s) = Inr (db, x)"
  by (auto simp: db_transaction_def split: if_splits sum.splits)

lemma tryAgainWithAttempt_TryAgain:
  assumes "tryAgainWithAttempt w etx a new s = (TryAgain etx1 a1, s1)"
  shows "\<exists>a' i. new = Inr a' \<and> a1 = a'\<lparr>eta_ID := i\<rparr> \<and> etx1 = etx"
  using assms by (auto simp: tryAgainWithAttempt_def saveReplacementInProgressAttempt_def insert_attempt_def Let_def
    dest!: transaction_Inr split: sum.splits if_splits prod.splits)

lemma NewLegacyAttempt_Inr:
  "NewLegacyAttempt w cfg etx p l = Inr a \<Longrightarrow>
   eta_GasPrice a = Some p \<and> eta_TxType a = 0 \<and> fee_ok a \<and> p \<le> KeySpecificMaxGasPriceWei cfg (etx_FromAddress etx)"
  by (auto simp: NewLegacyAttempt_def validateLegacyGas_def newSignedAttempt_def fee_ok_def split: option.splits sum.splits if_splits)

lemma validateDynamicFeeGas_Inr:
  "validateDynamicFeeGas cfg fee etx = Inr (tip, cap) \<Longrightarrow> TipCap fee = Some tip \<and> FeeCap fee = Some cap \<and> tip \<le> cap \<and>
     cap \<le> KeySpecificMaxGasPriceWei cfg (etx_FromAddress etx)"
  by (auto simp: validateDynamicFeeGas_def split: option.splits if_splits)

lemma NewDynamicFeeAttempt_Inr:
  "NewDynamicFeeAttempt w cfg etx fee l = Inr a \<Longrightarrow>
   eta_GasTipCap a = TipCap fee \<and> TipCap fee \<noteq> None \<and> eta_TxType a = 2 \<and> fee_ok a \<and> the (TipCap fee) \<le> KeySpecificMaxGasPriceWei cfg (etx_FromAddress etx)"
  by (auto simp: NewDynamicFeeAttempt_def newSignedAttempt_def fee_ok_def dest!: validateDynamicFeeGas_Inr split: option.splits sum.splits prod.splits)

lemma fee_ok_ID [simp]: "fee_ok (a\<lparr>eta_ID := i\<rparr>) = fee_ok a" "bid (a\<lparr>eta_ID := i\<rparr>) = bid a"
  unfolding fee_ok_def bid_def by (cases "eta_GasTipCap a") simp_all

text \<open>Without re-estimation, only a bump leads to another attempt.\<close>

lemma handleOnce_TryAgain:
  assumes "handleOnce w cfg etx a b s = (TryAgain etx1 a1, s1)" "\<not> ChainIsL2 cfg"
  shows "\<exists>s2. tryAgainBumpingGas w cfg (etx\<lparr>etx_InitialBroadcastAt := Some b, etx_BroadcastAt := Some b\<rparr>) a s2 = (TryAgain etx1 a1, s1)"
  using assms by (auto simp: handleOnce_def handleSendError_def handleUnknownError_def Let_def
    split: if_splits option.splits prod.splits check_result.splits)

text \<open>The broadcaster's estimator, in the state it has at each time.\<close>

definition bumps_with :: "(gas_config \<Rightarrow> 'e \<Rightarrow> wei \<Rightarrow> u32 \<Rightarrow> wei \<Rightarrow> gas_error + wei \<times> u32) \<Rightarrow>
    (gas_config \<Rightarrow> 'e \<Rightarrow> dynamic_fee \<Rightarrow> u32 \<Rightarrow> wei \<Rightarrow> gas_error + dynamic_fee \<times> u32) \<Rightarrow> (nat \<Rightarrow> 'e) \<Rightarrow> txm_config \<Rightarrow> world \<Rightarrow> bool" where
  "bumps_with bumpLegacy bumpDynamic est cfg w \<longleftrightarrow> (\<forall>n p l m. w_BumpLegacyGas w n p l m [] = bumpLegacy (c_gas cfg) (est n) p l m) \<and>
     (\<forall>n f l m. w_BumpDynamicFee w n f l m [] = bumpDynamic (c_gas cfg) (est n) f l m)"

context fee_bumper begin

lemma bumped_bid:
  assumes "tryAgainBumpingGas w cfg etx a s = (TryAgain etx1 a1, s1)" "bumps_with bumpLegacy bumpDynamic est cfg w" "sane (c_gas cfg)" "fee_ok a" "0 \<le> bid a"
  shows "etx_FromAddress etx1 = etx_FromAddress etx \<and> fee_ok a1 \<and> bid a < bid a1 \<and> bid a1 \<le> KeySpecificMaxGasPriceWei cfg (etx_FromAddress etx)"
proof (cases "eta_TxType a = 0")
  case True
  then obtain p where p: "eta_GasPrice a = Some p" using assms(4) unfolding fee_ok_def by auto
  obtain p' l' a' i where *: "bumpLegacy (c_gas cfg) (est (s_clock s)) p (etx_GasLimit etx) (KeySpecificMaxGasPriceWei cfg (etx_FromAddress etx)) = Inr (p', l')"
    "NewLegacyAttempt w cfg etx p' l' = Inr a'" "a1 = a'\<lparr>eta_ID := i\<rparr>" "etx1 = etx"
    using assms(1,2) True p by (auto simp: tryAgainBumpingGas_def tryAgainBumpingLegacyGas_def tryAgainWithNewLegacyGas_def bumps_with_def Let_def
      dest!: tryAgainWithAttempt_TryAgain split: sum.splits if_splits)
  have "0 \<le> p" using assms(5) True p by (simp add: bid_def)
  then show ?thesis using legacy_up [OF assms(3) _ *(1)] NewLegacyAttempt_Inr [OF *(2)] *(3,4) True p by (simp add: bid_def)
next
  case False
  then have ty: "eta_TxType a = 2" and "\<exists>t f. eta_GasTipCap a = Some t \<and> eta_GasFeeCap a = Some f"
    using assms(4) unfolding fee_ok_def by (auto split: option.splits)
  then obtain t f where tf: "eta_GasTipCap a = Some t" "eta_GasFeeCap a = Some f" by blast
  obtain f' l' a' i where *: "bumpDynamic (c_gas cfg) (est (s_clock s)) (eta_DynamicFee a) (etx_GasLimit etx) (KeySpecificMaxGasPriceWei cfg (etx_FromAddress etx)) = Inr (f', l')"
    "NewDynamicFeeAttempt w cfg etx f' l' = Inr a'" "a1 = a'\<lparr>eta_ID := i\<rparr>" "etx1 = etx"
    using assms(1,2) ty tf by (auto simp: tryAgainBumpingGas_def tryAgainBumpingDynamicFeeGas_def tryAgainWithNewDynamicFeeGas_def bumps_with_def Let_def
      dest!: tryAgainWithAttempt_TryAgain split: sum.splits if_splits option.splits)
  note N = NewDynamicFeeAttempt_Inr [OF *(2)]
  obtain t' where t': "TipCap f' = Some t'" using N by blast
  have "TipCap (eta_DynamicFee a) = Some t" using tf by (simp add: eta_DynamicFee_def)
  from tip_up [OF assms(3) *(1) this t'] show ?thesis using N *(3,4) ty tf t' by (simp add: bid_def)
qed

lemma bumping_ends:
  assumes "bumps_with bumpLegacy bumpDynamic est cfg w" "sane (c_gas cfg)" "\<not> ChainIsL2 cfg"
  shows "fee_ok a \<Longrightarrow> 0 \<le> bid a \<Longrightarrow> nat (KeySpecificMaxGasPriceWei cfg (etx_FromAddress etx) + 1 - bid a) < fuel \<Longrightarrow>
    \<exists>r. handleInProgressEthTx w cfg fuel etx a b s = Some r"
proof (induction fuel arbitrary: etx a s)
  case (Suc n)
  obtain r s1 where once: "handleOnce w cfg etx a b s = (r, s1)" by fastforce
  show ?case
  proof (cases r)
    case (Handled e ok)
    then show ?thesis using once by simp
  next
    case (TryAgain etx1 a1)
    obtain s2 where "tryAgainBumpingGas w cfg (etx\<lparr>etx_InitialBroadcastAt := Some b, etx_BroadcastAt := Some b\<rparr>) a s2 = (TryAgain etx1 a1, s1)"
      using handleOnce_TryAgain [OF once [unfolded TryAgain] assms(3)] by blast
    from bumped_bid [OF this assms(1,2) Suc.prems(1,2)]
    have B: "etx_FromAddress etx1 = etx_FromAddress etx" "fee_ok a1" "bid a < bid a1" "bid a1 \<le> KeySpecificMaxGasPriceWei cfg (etx_FromAddress etx)" by simp_all
    then have "nat (KeySpecificMaxGasPriceWei cfg (etx_FromAddress etx1) + 1 - bid a1) < n" "0 \<le> bid a1" using Suc.prems(2,3) by auto
    then show ?thesis using Suc.IH [OF B(2)] once TryAgain by simp
  qed
qed simp

end

text \<open>C11: Unless the chain is a layer 2, sending a transaction ends, whatever the node answers: every new attempt is priced higher than the one
  before, with the block history estimator and with fixed prices, and none above the maximum price of the key. There are at most as many attempts as
  there are prices between the first one and the maximum.\<close>
theorem sending_ends:
  assumes "bumps_with (\<lambda>cfg b p l m. bhe_BumpLegacyGas cfg p l m [] b) (\<lambda>cfg b f l m. bhe_BumpDynamicFee cfg f l m [] b) est cfg w \<or>
      bumps_with (\<lambda>cfg (_::unit). fixed_BumpLegacyGas cfg) (\<lambda>cfg (_::unit). fixed_BumpDynamicFee cfg) (\<lambda>_. ()) cfg w"
    and "uint (EvmGasBumpPercent (c_gas cfg)) < 65436" and "\<not> ChainIsL2 cfg" and "fee_ok a" and "0 \<le> bid a"
    and "nat (KeySpecificMaxGasPriceWei cfg (etx_FromAddress etx) + 1 - bid a) < fuel"
  shows "\<exists>r. handleInProgressEthTx w cfg fuel etx a b s = Some r"
  using assms(1) history.bumping_ends [OF _ _ assms(3-6)] fixed.bumping_ends [OF _ _ assms(3-6)] assms(2) unfolding sane_bumps_def by blast

definition refusing0 :: world where
  "refusing0 = world0\<lparr>w_clients := [[TerminallyUnderpriced \<mapsto> \<lambda>_. True]], w_SendRaw := \<lambda>_ _. Some \<lparr>err_text = [], err_cause = [], err_deadline = False\<rparr>\<rparr>"

theorem sending_ends_witness:
  "\<exists>r. handleInProgressEthTx refusing0 tx_cfg0 800 (row0 TxInProgress (Some 3) 1) attempt0 0 (txm0 [row0 TxInProgress (Some 3) 1] [attempt0]) = Some r"
  by (rule sending_ends [where est = undefined])
    (simp_all add: bumps_with_def refusing0_def fee_ok_def bid_def example_simps)

section \<open>A layer 2 whose sequencer stays full\<close>

lemma update_tx_same: "update_tx i (\<lambda>u. u) db = db"
  by (cases db) (simp add: update_tx_def)

lemma replacement_commits:
  assumes inv: "key_inv k db" and w: "working k t a db" and a': "eta_EthTxID a' = etx_ID t" "attempt_ok a'"
    and fresh: "\<forall>b \<in> set (t_attempts db). eta_EthTxID b \<noteq> etx_ID t \<longrightarrow> eta_Hash b \<noteq> eta_Hash a'"
  shows "constraints (fst (insert_attempt a' (delete_attempts (\<lambda>b. eta_ID b = eta_ID a) db)))"
proof -
  let ?db = "delete_attempts (\<lambda>b. eta_ID b = eta_ID a) db"
  have c: "constraints db" and ids: "ids_fresh db" using inv unfolding key_inv_def by blast+
  have t: "t \<in> set (t_txes db)" "attempts_of (etx_ID t) db = [a]" using w unfolding working_def by blast+
  have u: "key u = None \<or> key u \<noteq> key t" if "uniq etx_ID key (t_txes db)" "u \<in> set (t_txes db)" "etx_ID u \<noteq> etx_ID t" for key :: "eth_tx \<Rightarrow> 'x option" and u
    using that t(1) unfolding uniq_def by blast
  have "constraints (update_tx (etx_ID t) (\<lambda>u. u) (fst (insert_attempt a' ?db)))"
  proof (rule constraints_new_attempt [where r = t and r' = t])
    show "constraints ?db" by (rule constraints_delete_attempts [OF c])
    show "ids_fresh ?db" by (rule ids_fresh_delete_attempts [OF ids])
    show "tx_fsm_ok t" by (rule constraints_fsm [OF c t(1)])
    show "attempts_of (etx_ID t) ?db = []" using t(2) by simp
    show "eta_Hash a' \<notin> eta_Hash ` set (t_attempts ?db)"
    proof
      assume "eta_Hash a' \<in> eta_Hash ` set (t_attempts ?db)"
      then obtain b where b: "b \<in> set (t_attempts db)" "eta_ID b \<noteq> eta_ID a" "eta_Hash b = eta_Hash a'" by auto
      then have "b \<notin> set (attempts_of (etx_ID t) db)" unfolding t(2) by auto
      then have "eta_EthTxID b \<noteq> etx_ID t" using b(1) unfolding attempts_of_def by simp
      then show False using fresh b by blast
    qed
  qed (use t a' u [OF constraintsD(2) [OF c]] u [OF constraintsD(3) [OF c]] in simp_all)
  then show ?thesis unfolding update_tx_same .
qed

lemma NewLegacyAttempt_ok:
  assumes "0 < l" "etx_Nonce etx = Some n" "EvmMinGasPriceWei (c_gas cfg) \<le> p" "p \<le> KeySpecificMaxGasPriceWei cfg (etx_FromAddress etx)"
    "w_SignTx w (etx_FromAddress etx) (c_chainID cfg) (newLegacyTransaction (to_u64 n) (etx_ToAddress etx) (etx_Value etx) l p (etx_EncodedPayload etx)) = Some (h, raw)"
  shows "\<exists>a. NewLegacyAttempt w cfg etx p l = Inr a \<and> eta_EthTxID a = etx_ID etx \<and> eta_State a = AttInProgress \<and> attempt_ok a \<and> eta_Hash a = h \<and>
    eta_SignedRawTx a = raw \<and> eta_TxType a = 0"
  using assms by (simp add: NewLegacyAttempt_def validateLegacyGas_def newSignedAttempt_def attempt_ok_def fee_ok_def)

text \<open>The node that has no room: every transaction is refused with a message that means nothing else.\<close>

definition sequencer_full :: "world \<Rightarrow> rpc_error \<Rightarrow> bool" where
  "sequencer_full w e \<longleftrightarrow> (\<forall>n raw. w_SendRaw w n raw = Some e \<and> w_Decodes w raw = None) \<and>
     (\<forall>k. matchesAny (w_clients w) k (err_cause e) \<longleftrightarrow> k = L2Full)"

lemma handleOnce_full:
  assumes full: "sequencer_full w e" and alone: "w_others w = (\<lambda>_ db. db)" "\<forall>n. w_ok w n" and l2: "ChainIsL2 cfg"
    and est: "\<forall>n d l m. w_GetLegacyGas w n d l m True = Inr (p, lim)"
    and p: "0 < lim" "EvmMinGasPriceWei (c_gas cfg) \<le> p" "p \<le> KeySpecificMaxGasPriceWei cfg (etx_FromAddress etx)"
    and sign: "\<forall>u. \<exists>h raw. w_SignTx w (etx_FromAddress etx) (c_chainID cfg) u = Some (h, raw) \<and>
       (\<forall>b \<in> set (t_attempts (s_db s)). eta_EthTxID b \<noteq> etx_ID t \<longrightarrow> eta_Hash b \<noteq> h)"
    and inv: "key_inv k (s_db s)" and w: "working k t a (s_db s)" and etx: "copy_of t etx" "etx_TransmitChecker etx = Null" and a: "eta_TxType a = 0"
  shows "\<exists>s1 a1. handleOnce w cfg etx a b s = (TryAgain (etx\<lparr>etx_InitialBroadcastAt := Some b, etx_BroadcastAt := Some b\<rparr>) a1, s1) \<and> eta_TxType a1 = 0 \<and>
     key_inv k (s_db s1) \<and> working k t a1 (s_db s1) \<and>
     (\<forall>b \<in> set (t_attempts (s_db s1)). eta_EthTxID b \<noteq> etx_ID t \<longrightarrow> b \<in> set (t_attempts (s_db s)))"
proof -
  let ?etx = "etx\<lparr>etx_InitialBroadcastAt := Some b, etx_BroadcastAt := Some b\<rparr>"
  let ?se = "\<lparr>se_fatal = False, se_err = e\<rparr>"
  define s2 where "s2 = tick w ((tick w s)\<lparr>s_sent := s_sent s @ [eta_SignedRawTx a]\<rparr>)"
  have m: "matchesAny (w_clients w) j (err_cause e) \<longleftrightarrow> j = L2Full" for j using full unfolding sequencer_full_def by blast
  have "s_sent (tick w s) = s_sent s" by (simp add: tick_def)
  then have send: "sendTransaction w a (tick w s) = (Some ?se, s2)"
    using full m unfolding sequencer_full_def s2_def by (simp add: sendTransaction_def NewSendError_def isFatalSendError_def se_is_def)
  have isk: "se_is (w_clients w) j (Some ?se) \<longleftrightarrow> j = L2Full" for j by (simp add: se_is_def m)
  have err: "handleSendError w cfg ?etx a (Some ?se) s2 = tryAgainWithNewEstimation w cfg ?etx a s2"
    unfolding handleSendError_def Let_def by (simp add: isk l2)
  obtain n where n: "etx_Nonce etx = Some n" using etx working_inv(7) [OF inv w] unfolding copy_of_def by auto
  obtain h raw where h: "w_SignTx w (etx_FromAddress etx) (c_chainID cfg) (newLegacyTransaction (to_u64 n) (etx_ToAddress etx) (etx_Value etx) lim p (etx_EncodedPayload etx)) = Some (h, raw)"
    "\<forall>b \<in> set (t_attempts (s_db s)). eta_EthTxID b \<noteq> etx_ID t \<longrightarrow> eta_Hash b \<noteq> h" using sign by blast
  obtain a' where a': "NewLegacyAttempt w cfg ?etx p lim = Inr a'" "eta_EthTxID a' = etx_ID t" "eta_State a' = AttInProgress" "attempt_ok a'" "eta_Hash a' = h" "eta_TxType a' = 0"
    using NewLegacyAttempt_ok [of lim ?etx n cfg p w h raw] n p h etx unfolding copy_of_def by auto
  define db1 where "db1 = fst (insert_attempt a' (delete_attempts (\<lambda>b. eta_ID b = eta_ID a) (s_db s)))"
  define a1 where "a1 = a'\<lparr>eta_ID := t_nextAttempt (s_db s)\<rparr>"
  have con: "constraints db1" unfolding db1_def by (rule replacement_commits [OF inv w]) (use a' h in simp_all)
  note R = replacement_keeps [OF inv w a'(2,3) db1_def con]
  have ins: "insert_attempt a' (delete_attempts (\<lambda>b. eta_ID b = eta_ID a) (s_db s)) = (db1, a1)"
    unfolding db1_def a1_def by (rule prod_eqI) simp_all
  have tickdb: "s_db (tick w s') = s_db s'" for s' using alone(1) by (simp add: tick_def)
  have db2: "s_db s2 = s_db s" by (simp add: s2_def tickdb)
  obtain s1 where tr: "db_transaction w (\<lambda>db. Inr (insert_attempt a' (delete_attempts (\<lambda>b. eta_ID b = eta_ID a) db))) (tick w s2) = (Inr a1, s1)" "s_db s1 = db1"
    using alone(2) by (simp add: db_transaction_def tickdb db2 ins con)
  have "tryAgainWithNewEstimation w cfg ?etx a s2 = (TryAgain ?etx a1, s1)"
    using a est a' working_inv(2,3) [OF inv w] tr(1)
    by (simp add: tryAgainWithNewEstimation_def tryAgainWithNewLegacyGas_def tryAgainWithAttempt_def saveReplacementInProgressAttempt_def Let_def)
  then have "handleOnce w cfg etx a b s = (TryAgain ?etx a1, s1)"
    unfolding handleOnce_def Let_def using etx by (simp add: GetChecker_def BuildChecker_def Check_def send err copy_of_def)
  moreover have "\<forall>b \<in> set (t_attempts db1). eta_EthTxID b \<noteq> etx_ID t \<longrightarrow> b \<in> set (t_attempts (s_db s))" unfolding db1_def using a'(2) by auto
  ultimately show ?thesis using R a'(6) tr(2) by (intro exI [of _ s1] exI [of _ a1]) (simp add: a1_def)
qed

lemma full_never_ends:
  assumes full: "sequencer_full w e" and alone: "w_others w = (\<lambda>_ db. db)" "\<forall>n. w_ok w n" and l2: "ChainIsL2 cfg"
    and est: "\<forall>n d l m. w_GetLegacyGas w n d l m True = Inr (p, lim)" "0 < lim" "EvmMinGasPriceWei (c_gas cfg) \<le> p" "p \<le> KeySpecificMaxGasPriceWei cfg addr"
  shows "\<forall>u. \<exists>h raw. w_SignTx w addr (c_chainID cfg) u = Some (h, raw) \<and> (\<forall>b \<in> set (t_attempts (s_db s)). eta_EthTxID b \<noteq> etx_ID t \<longrightarrow> eta_Hash b \<noteq> h) \<Longrightarrow>
    key_inv k (s_db s) \<Longrightarrow> working k t a (s_db s) \<Longrightarrow> copy_of t etx \<Longrightarrow> etx_TransmitChecker etx = Null \<Longrightarrow> etx_FromAddress etx = addr \<Longrightarrow> eta_TxType a = 0 \<Longrightarrow>
    handleInProgressEthTx w cfg fuel etx a b s = None"
proof (induction fuel arbitrary: etx a s)
  case (Suc n)
  let ?etx = "etx\<lparr>etx_InitialBroadcastAt := Some b, etx_BroadcastAt := Some b\<rparr>"
  obtain s1 a1 where H: "handleOnce w cfg etx a b s = (TryAgain ?etx a1, s1)" "eta_TxType a1 = 0" "key_inv k (s_db s1)" "working k t a1 (s_db s1)"
    "\<forall>b \<in> set (t_attempts (s_db s1)). eta_EthTxID b \<noteq> etx_ID t \<longrightarrow> b \<in> set (t_attempts (s_db s))"
    using handleOnce_full [OF full alone l2 est(1-3) _ _ Suc.prems(2-5,7), of b] est(4) Suc.prems(1,6) by blast
  have c: "copy_of t ?etx" using Suc.prems(4) unfolding copy_of_def etx_key_def by simp
  have sign: "\<forall>u. \<exists>h raw. w_SignTx w addr (c_chainID cfg) u = Some (h, raw) \<and> (\<forall>b \<in> set (t_attempts (s_db s1)). eta_EthTxID b \<noteq> etx_ID t \<longrightarrow> eta_Hash b \<noteq> h)"
  proof
    fix u
    obtain h raw where h: "w_SignTx w addr (c_chainID cfg) u = Some (h, raw)" "\<forall>b \<in> set (t_attempts (s_db s)). eta_EthTxID b \<noteq> etx_ID t \<longrightarrow> eta_Hash b \<noteq> h"
      using Suc.prems(1) by (elim allE exE conjE)
    have "\<forall>b \<in> set (t_attempts (s_db s1)). eta_EthTxID b \<noteq> etx_ID t \<longrightarrow> eta_Hash b \<noteq> h" using h(2) H(5) by blast
    with h(1) show "\<exists>h raw. w_SignTx w addr (c_chainID cfg) u = Some (h, raw) \<and> (\<forall>b \<in> set (t_attempts (s_db s1)). eta_EthTxID b \<noteq> etx_ID t \<longrightarrow> eta_Hash b \<noteq> h)" by blast
  qed
  have "etx_TransmitChecker ?etx = Null" "etx_FromAddress ?etx = addr" using Suc.prems(5,6) by simp_all
  then have "handleInProgressEthTx w cfg n ?etx a1 b s1 = None" by (rule Suc.IH [OF sign H(3,4) c _ _ H(2)])
  then show ?case using H(1) by simp
qed simp

text \<open>C40: On a layer 2, a sequencer that stays full makes sending run forever: the price is estimated again, nothing raises it and no
  attempt is the last one.\<close>
theorem full_sequencer_diverges:
  assumes "sequencer_full w e" "w_others w = (\<lambda>_ db. db)" "\<forall>n. w_ok w n" "ChainIsL2 cfg"
    and "\<forall>n d l m. w_GetLegacyGas w n d l m True = Inr (p, lim)"
    and "0 < lim" "EvmMinGasPriceWei (c_gas cfg) \<le> p" "p \<le> KeySpecificMaxGasPriceWei cfg (etx_FromAddress t)"
    and "\<forall>u. \<exists>h raw. w_SignTx w (etx_FromAddress t) (c_chainID cfg) u = Some (h, raw) \<and>
       (\<forall>b \<in> set (t_attempts (s_db s)). eta_EthTxID b \<noteq> etx_ID t \<longrightarrow> eta_Hash b \<noteq> h)"
    and "key_inv k (s_db s)" "working k t a (s_db s)" "etx_TransmitChecker t = Null" "eta_TxType a = 0"
  shows "\<forall>fuel. handleInProgressEthTx w cfg fuel t a b s = None"
proof
  fix fuel
  have "copy_of t t" using assms(11) unfolding copy_of_def working_def by simp
  then show "handleInProgressEthTx w cfg fuel t a b s = None" by (rule full_never_ends [OF assms(1-11) _ assms(12) refl assms(13)])
qed

definition full0 :: world where
  "full0 = world0\<lparr>w_clients := [[L2Full \<mapsto> \<lambda>_. True]], w_SendRaw := \<lambda>_ _. Some \<lparr>err_text = [], err_cause = [], err_deadline = False\<rparr>,
     w_GetLegacyGas := \<lambda>_ _ _ _ _. Inr (20, 21000)\<rparr>"

theorem full_sequencer_diverges_witness:
  "handleInProgressEthTx full0 (tx_cfg0\<lparr>ChainIsL2 := True\<rparr>) 1000 (row0 TxInProgress (Some 3) 1) attempt0 0
     (txm0 [row0 TxInProgress (Some 3) 1] [attempt0]) = None"
proof -
  let ?s = "txm0 [row0 TxInProgress (Some 3) 1] [attempt0]" and ?t = "row0 TxInProgress (Some 3) 1"
  have w: "working (1, 7) ?t attempt0 (s_db ?s)" by (simp add: working_def etx_key_def attempts_of_def example_simps)
  have f: "sequencer_full full0 \<lparr>err_text = [], err_cause = [], err_deadline = False\<rparr>"
    by (auto simp: sequencer_full_def full0_def world0_def matchesAny_def split: if_splits)
  from full_sequencer_diverges [OF f _ _ _ _ _ _ _ _ txm0_inv(3) w, of "tx_cfg0\<lparr>ChainIsL2 := True\<rparr>" 20 21000 0] show ?thesis
    by (simp add: full0_def example_simps)
qed

section \<open>The queue is worked off\<close>

definition txQueue :: "int \<times> address \<Rightarrow> tx_db \<Rightarrow> eth_tx list" where
  "txQueue k db = sort_key (\<lambda>t. (etx_Value t, etx_CreatedAt t, etx_ID t)) (filter (\<lambda>t. etx_key t = k \<and> etx_State t = TxUnstarted) (t_txes db))"

lemma findNextUnstarted_queue: "findNextUnstarted k db = (case txQueue k db of [] \<Rightarrow> None | t # _ \<Rightarrow> Some t)"
  unfolding findNextUnstarted_def txQueue_def ..

text \<open>A node, an estimator and keys that work: the hash and the raw transaction are functions of the unsigned one.\<close>

definition fees_valid :: "world \<Rightarrow> txm_config \<Rightarrow> address \<Rightarrow> u32 set \<Rightarrow> bool" where
  "fees_valid w cfg addr limits \<longleftrightarrow> (if EvmEIP1559DynamicFees (c_gas cfg)
     then \<forall>n. \<forall>l \<in> limits. \<exists>fee lim tip cap. w_GetDynamicFee w n l (KeySpecificMaxGasPriceWei cfg addr) = Inr (fee, lim) \<and> 0 < lim \<and>
        (\<forall>etx. etx_FromAddress etx = addr \<longrightarrow> validateDynamicFeeGas cfg fee etx = Inr (tip, cap))
     else \<forall>n d. \<forall>l \<in> limits. \<exists>p lim. w_GetLegacyGas w n d l (KeySpecificMaxGasPriceWei cfg addr) False = Inr (p, lim) \<and> 0 < lim \<and>
        (\<forall>etx. etx_FromAddress etx = addr \<longrightarrow> validateLegacyGas cfg p etx = None))"

definition accepting :: "world \<Rightarrow> txm_config \<Rightarrow> address \<Rightarrow> u32 set \<Rightarrow> (unsigned_tx \<Rightarrow> hash) \<Rightarrow> (unsigned_tx \<Rightarrow> bytes) \<Rightarrow> bool" where
  "accepting w cfg addr limits H R \<longleftrightarrow> w_others w = (\<lambda>_ db. db) \<and> (\<forall>n. w_ok w n) \<and> w_KeyRing w addr \<and> (\<forall>n raw. w_SendRaw w n raw = None) \<and>
     (\<forall>raw. w_Decodes w raw = None) \<and> (\<forall>u. w_SignTx w addr (c_chainID cfg) u = Some (H u, R u)) \<and> (\<forall>u v. u_Nonce u \<noteq> u_Nonce v \<longrightarrow> H u \<noteq> H v) \<and>
     EvmMaxInFlightTransactions cfg = 0 \<and> fees_valid w cfg addr limits"

text \<open>The transaction that the signed one is made of.\<close>

definition unsigned_of :: "eth_tx \<Rightarrow> int \<Rightarrow> unsigned_tx \<Rightarrow> bool" where
  "unsigned_of t n u \<longleftrightarrow> u_Nonce u = to_u64 n \<and> u_To u = etx_ToAddress t \<and> u_Value u = etx_Value t \<and> u_Data u = etx_EncodedPayload t"

lemma newAttempt_accepting:
  assumes "accepting w cfg addr limits H R" "etx_FromAddress etx = addr" "etx_Nonce etx = Some n" "etx_GasLimit etx \<in> limits"
  shows "\<exists>a u. newAttempt w cfg etx s = (Inr a, tick w s) \<and> eta_EthTxID a = etx_ID etx \<and> eta_State a = AttInProgress \<and> attempt_ok a \<and>
    eta_Hash a = H u \<and> eta_SignedRawTx a = R u \<and> unsigned_of etx n u"
proof (cases "EvmEIP1559DynamicFees (c_gas cfg)")
  case True
  have "fees_valid w cfg addr limits" using assms(1) unfolding accepting_def by blast
  then have "\<forall>n. \<forall>l \<in> limits. \<exists>fee lim tip cap. w_GetDynamicFee w n l (KeySpecificMaxGasPriceWei cfg addr) = Inr (fee, lim) \<and> 0 < lim \<and>
      (\<forall>etx. etx_FromAddress etx = addr \<longrightarrow> validateDynamicFeeGas cfg fee etx = Inr (tip, cap))" using True unfolding fees_valid_def by simp
  then obtain fee lim tip cap where f: "w_GetDynamicFee w (s_clock s) (etx_GasLimit etx) (KeySpecificMaxGasPriceWei cfg addr) = Inr (fee, lim)"
    "validateDynamicFeeGas cfg fee etx = Inr (tip, cap)" "0 < lim" using assms(2,4) by blast
  then show ?thesis using assms True validateDynamicFeeGas_Inr [OF f(2)] unfolding accepting_def
    by (simp add: newAttempt_def Let_def NewDynamicFeeAttempt_def newSignedAttempt_def attempt_ok_def fee_ok_def)
      (rule exI, intro conjI, rule refl, rule refl, simp add: unsigned_of_def newDynamicFeeTransaction_def)
next
  case False
  have "fees_valid w cfg addr limits" using assms(1) unfolding accepting_def by blast
  then have "\<forall>n d. \<forall>l \<in> limits. \<exists>p lim. w_GetLegacyGas w n d l (KeySpecificMaxGasPriceWei cfg addr) False = Inr (p, lim) \<and> 0 < lim \<and>
      (\<forall>etx. etx_FromAddress etx = addr \<longrightarrow> validateLegacyGas cfg p etx = None)" using False unfolding fees_valid_def by simp
  then obtain p lim where f: "w_GetLegacyGas w (s_clock s) (etx_EncodedPayload etx) (etx_GasLimit etx) (KeySpecificMaxGasPriceWei cfg addr) False = Inr (p, lim)"
    "validateLegacyGas cfg p etx = None" "0 < lim" using assms(2,4) by blast
  then show ?thesis using assms False unfolding accepting_def
    by (simp add: newAttempt_def Let_def NewLegacyAttempt_def newSignedAttempt_def attempt_ok_def fee_ok_def)
      (rule exI, intro conjI, rule refl, rule refl, simp add: unsigned_of_def newLegacyTransaction_def)
qed

lemma start_commits:
  assumes inv: "key_inv k db" and idle: "idle k db" and t: "t \<in> set (t_txes db)" "etx_key t = k" "etx_State t = TxUnstarted" and m: "nextNonce k db = Some m"
    and a: "eta_EthTxID a = etx_ID t" "attempt_ok a" "eta_Hash a \<notin> eta_Hash ` set (t_attempts db)"
  shows "constraints (update_tx (etx_ID t) (startTx (Some m) None None) (fst (insert_attempt a db)))"
proof -
  have c: "constraints db" and ids: "ids_fresh db" using inv unfolding key_inv_def by blast+
  have fsm: "tx_fsm_ok t" by (rule constraints_fsm [OF c t(1)])
  have none: "attempts_of (etx_ID t) db = []" using inv t unfolding key_inv_def tx_inv_def by force
  have nonce: "nonceKey u = None \<or> nonceKey u \<noteq> Some (k, m)" if u: "u \<in> set (t_txes db)" for u
  proof (cases "etx_key u = k")
    case True
    then have "tx_inv k db u" "etx_State u \<noteq> TxInProgress" "tx_fsm_ok u" using inv idle u constraints_fsm [OF c u] unfolding key_inv_def idle_def by blast+
    then show ?thesis using m True unfolding tx_inv_def tx_fsm_ok_def nonceKey_def by (cases "etx_State u") auto
  qed (auto simp: nonceKey_def)
  have prog: "inProgressKey u = None \<or> inProgressKey u \<noteq> Some k" if u: "u \<in> set (t_txes db)" for u
    using idle u unfolding idle_def inProgressKey_def by auto
  show ?thesis
  proof (rule constraints_new_attempt [OF c ids t(1) refl, where r' = "startTx (Some m) None None t"])
    show "tx_fsm_ok (startTx (Some m) None None t)" using fsm t(3) unfolding tx_fsm_ok_def startTx_def by simp
    have k: "nonceKey (startTx (Some m) None None t) = Some (k, m)" "inProgressKey (startTx (Some m) None None t) = Some k"
      using t(2) by (simp_all add: nonceKey_def inProgressKey_def startTx_def etx_key_def)
    show "nonceKey u = None \<or> nonceKey u \<noteq> nonceKey (startTx (Some m) None None t)" if "u \<in> set (t_txes db)" for u unfolding k using nonce [OF that] .
    show "inProgressKey u = None \<or> inProgressKey u \<noteq> inProgressKey (startTx (Some m) None None t)" if "u \<in> set (t_txes db)" for u unfolding k using prog [OF that] .
  qed (use a none in \<open>simp_all add: startTx_def etx_key_def\<close>)
qed

lemma filter_map_one:
  "(\<And>r. r \<in> set xs \<Longrightarrow> r \<noteq> t \<Longrightarrow> g r = r) \<Longrightarrow> \<not> P (g t) \<Longrightarrow> filter P (map g xs) = filter (\<lambda>r. r \<noteq> t) (filter P xs)"
proof (induction xs)
  case (Cons x xs)
  then have "filter P (map g xs) = filter (\<lambda>r. r \<noteq> t) (filter P xs)" by simp
  then show ?case using Cons.prems by (cases "x = t") simp_all
qed simp

text \<open>The queue after its first transaction was taken from it.\<close>

lemma txQueue_taken:
  assumes c: "constraints db" and q: "txQueue k db = t # ts" and rows: "t_txes db' = map (\<lambda>r. if etx_ID r = etx_ID t then g r else r) (t_txes db)"
    and "etx_State (g t) \<noteq> TxUnstarted"
  shows "txQueue k db' = ts"
proof -
  let ?P = "\<lambda>t. etx_key t = k \<and> etx_State t = TxUnstarted" and ?f = "\<lambda>t. (etx_Value t, etx_CreatedAt t, etx_ID t)"
  have d: "distinct (t # ts)" using constraints_distinct(1) [OF c] unfolding q [symmetric] txQueue_def by (simp add: distinct_map)
  have "t \<in> set (txQueue k db)" unfolding q by simp
  then have t: "t \<in> set (t_txes db)" unfolding txQueue_def by simp
  have "filter ?P (t_txes db') = filter (\<lambda>r. r \<noteq> t) (filter ?P (t_txes db))" unfolding rows
    by (rule filter_map_one) (use same_tx_row [OF c _ t] assms(4) in auto)
  then have "txQueue k db' = filter (\<lambda>r. r \<noteq> t) (txQueue k db)" unfolding txQueue_def by (simp add: filter_sort)
  also have "\<dots> = ts"
  proof -
    have "x \<noteq> t" if "x \<in> set ts" for x using d that by auto
    then have "filter (\<lambda>r. r \<noteq> t) ts = ts" by (intro filter_True) blast
    then show ?thesis unfolding q by simp
  qed
  finally show ?thesis .
qed

definition sent_as :: "eth_tx \<Rightarrow> int \<Rightarrow> tx_db \<Rightarrow> bool" where
  "sent_as t n db \<longleftrightarrow> (\<exists>t' \<in> set (t_txes db). etx_ID t' = etx_ID t \<and> etx_Nonce t' = Some n \<and> etx_State t' = TxUnconfirmed)"

text \<open>Between two transactions: the next nonce is \<open>m\<close>, and no attempt has the hash of a transaction with that nonce or a later one.\<close>

definition drain_inv :: "int \<times> address \<Rightarrow> (unsigned_tx \<Rightarrow> hash) \<Rightarrow> int \<Rightarrow> txm \<Rightarrow> bool" where
  "drain_inv k H m s \<longleftrightarrow> key_inv k (s_db s) \<and> idle k (s_db s) \<and> (\<exists>x. t_keys (s_db s) k = Some x \<and> ks_NextNonce x = m \<and> \<not> ks_Disabled x) \<and>
     (\<exists>y. s_mem s k = Some y \<and> \<not> ks_Disabled y) \<and> (\<forall>b \<in> set (t_attempts (s_db s)). \<forall>u. m \<le> uint (u_Nonce u) \<longrightarrow> H u \<noteq> eta_Hash b)"

lemma nonce_range: "0 \<le> m \<Longrightarrow> m < max_i64 \<Longrightarrow> uint (to_u64 m) = m"
  by (simp add: to_u64_def uint_word_of_int max_i64_def)

lemma next_alone:
  assumes alone: "w_others w = (\<lambda>_ db. db)" "\<forall>n. w_ok w n" and ring: "w_KeyRing w addr" and k: "k = (c_chainID cfg, addr)"
    and x: "t_keys (s_db s) k = Some x" "ks_NextNonce x = m" "\<not> ks_Disabled x" and y: "s_mem s k = Some y" "\<not> ks_Disabled y"
    and q: "txQueue k (s_db s) = t # ts"
  shows "\<exists>s2. nextUnstartedTransactionWithNonce w cfg addr s = (Inr (Some (t\<lparr>etx_Nonce := Some m\<rparr>)), s2) \<and> s_db s2 = s_db s \<and>
    s_sent s2 = s_sent s \<and> (\<exists>y2. s_mem s2 k = Some y2 \<and> \<not> ks_Disabled y2)"
proof -
  have find: "findNextUnstarted k (s_db s) = Some t" unfolding findNextUnstarted_queue q by simp
  have "etx_key t = k" by (rule findNextUnstarted_Some(2) [OF find])
  then have addr: "etx_FromAddress t = addr" using k unfolding etx_key_def by simp
  have tick: "s_db (tick w s') = s_db s'" "s_mem (tick w s') = s_mem s'" "s_sent (tick w s') = s_sent s'" for s' using alone(1) by (simp_all add: tick_def)
  show ?thesis unfolding nextUnstartedTransactionWithNonce_def k [symmetric] addr
    using alone(2) x y ring find
    by (simp add: query_def tick addr k [symmetric] keystore_GetNextNonce_def getNextNonce_def keyEnabled_def setMemNonce_def) (simp add: k)
qed

lemma save_alone:
  assumes alone: "w_others w = (\<lambda>_ db. db)" "\<forall>n. w_ok w n" and c: "constraints (s_db s)" and t: "t \<in> set (t_txes (s_db s))" "etx_State t = TxUnstarted"
    and a: "eta_State a = AttInProgress" and con: "constraints (update_tx (etx_ID t) (startTx (Some m) None None) (fst (insert_attempt a (s_db s))))"
  shows "\<exists>s2. saveInProgressTransaction w (t\<lparr>etx_Nonce := Some m\<rparr>) a s =
      (Inr (startTx (Some m) None None t, a\<lparr>eta_ID := t_nextAttempt (s_db s)\<rparr>), s2) \<and>
      s_db s2 = update_tx (etx_ID t) (startTx (Some m) None None) (fst (insert_attempt a (s_db s))) \<and> s_mem s2 = s_mem s \<and> s_sent s2 = s_sent s"
proof -
  have fsm: "tx_fsm_ok t" by (rule constraints_fsm [OF c t(1)])
  then have b: "etx_BroadcastAt t = None" "etx_InitialBroadcastAt t = None" using t(2) unfolding tx_fsm_ok_def by simp_all
  have find: "find_tx (etx_ID t) (s_db s) = Some t" using find_tx_iff [OF constraints_distinct(1) [OF c]] t(1) by blast
  obtain db1 a1 where ins: "insert_attempt a (s_db s) = (db1, a1)" by fastforce
  have a1: "a1 = a\<lparr>eta_ID := t_nextAttempt (s_db s)\<rparr>" "fst (insert_attempt a (s_db s)) = db1" using insert_attempt_simps(6) [of a "s_db s"] ins by simp_all
  show ?thesis unfolding saveInProgressTransaction_def a1(2)
    using t(2) a alone con by (simp add: b find ins db_transaction_def Let_def a1 tick_def)
qed

lemma drain_step:
  assumes acc: "accepting w cfg addr limits H R" and k: "k = (c_chainID cfg, addr)" and inv: "drain_inv k H m s" and m: "0 \<le> m" "m < max_i64"
    and q: "txQueue k (s_db s) = t # ts" and plain: "etx_TransmitChecker t = Null" "etx_GasLimit t \<in> limits"
  shows "\<exists>s1 u. processNext w cfg (Suc f) addr s = Some (Continue, s1) \<and> drain_inv k H (m + 1) s1 \<and> s_sent s1 = s_sent s @ [R u] \<and> unsigned_of t m u \<and>
    txQueue k (s_db s1) = ts \<and> sent_as t m (s_db s1) \<and> (\<forall>r \<in> set (t_txes (s_db s)). etx_ID r \<noteq> etx_ID t \<longrightarrow> r \<in> set (t_txes (s_db s1)))"
proof -
  have alone: "w_others w = (\<lambda>_ db. db)" "\<forall>n. w_ok w n" "w_KeyRing w addr" and send: "\<forall>n raw. w_SendRaw w n raw = None" "\<forall>raw. w_Decodes w raw = None"
    and inj: "\<forall>u v. u_Nonce u \<noteq> u_Nonce v \<longrightarrow> H u \<noteq> H v" and flight: "EvmMaxInFlightTransactions cfg = 0" using acc unfolding accepting_def by blast+
  have tick: "s_db (tick w s') = s_db s'" "s_mem (tick w s') = s_mem s'" "s_sent (tick w s') = s_sent s'" for s' using alone(1) by (simp_all add: tick_def)
  have ki: "key_inv k (s_db s)" and idle: "idle k (s_db s)" and fresh: "\<forall>b \<in> set (t_attempts (s_db s)). \<forall>u. m \<le> uint (u_Nonce u) \<longrightarrow> H u \<noteq> eta_Hash b"
    using inv unfolding drain_inv_def by blast+
  obtain x y where x: "t_keys (s_db s) k = Some x" "ks_NextNonce x = m" "\<not> ks_Disabled x" and y: "s_mem s k = Some y" "\<not> ks_Disabled y"
    using inv unfolding drain_inv_def by blast
  have c: "constraints (s_db s)" using ki unfolding key_inv_def by blast
  have "findNextUnstarted k (s_db s) = Some t" unfolding findNextUnstarted_queue q by simp
  note T = findNextUnstarted_Some [OF this]
  have addr: "etx_FromAddress t = addr" using T(2) k unfolding etx_key_def by simp
  obtain s2 y2 where nx: "nextUnstartedTransactionWithNonce w cfg addr s = (Inr (Some (t\<lparr>etx_Nonce := Some m\<rparr>)), s2)" "s_db s2 = s_db s" "s_sent s2 = s_sent s"
    "s_mem s2 k = Some y2" "\<not> ks_Disabled y2" using next_alone [OF alone k x y q] by blast
  obtain a u where na: "newAttempt w cfg (t\<lparr>etx_Nonce := Some m\<rparr>) s2 = (Inr a, tick w s2)" "eta_EthTxID a = etx_ID t" "eta_State a = AttInProgress" "attempt_ok a"
    "eta_Hash a = H u" "eta_SignedRawTx a = R u" "unsigned_of t m u"
    using newAttempt_accepting [OF acc, of "t\<lparr>etx_Nonce := Some m\<rparr>" m s2] addr plain(2) unfolding unsigned_of_def by auto
  have un: "uint (u_Nonce u) = m" using na(7) nonce_range [OF m] unfolding unsigned_of_def by simp
  let ?db1 = "update_tx (etx_ID t) (startTx (Some m) None None) (fst (insert_attempt a (s_db s)))"
  have con: "constraints ?db1"
    by (rule start_commits [OF ki idle T _ na(2,4)]) (use x fresh un na(5) in \<open>auto simp: nextNonce_def\<close>)
  define row where "row = startTx (Some m) None None t"
  define a1 where "a1 = a\<lparr>eta_ID := t_nextAttempt (s_db s)\<rparr>"
  have t2: "t \<in> set (t_txes (s_db (tick w s2)))" using T(1) by (simp add: tick nx)
  obtain s4 where sv: "saveInProgressTransaction w (t\<lparr>etx_Nonce := Some m\<rparr>) a (tick w s2) = (Inr (row, a1), s4)" "s_db s4 = ?db1" "s_mem s4 = s_mem s2" "s_sent s4 = s_sent s"
    using save_alone [OF alone(1,2) _ t2 T(3) na(3), of m] c con unfolding row_def a1_def by (auto simp: tick nx)
  define b where "b = w_now w (s_clock s4)"
  define s5 where "s5 = tick w ((tick w s4)\<lparr>s_sent := s_sent s4 @ [eta_SignedRawTx a1]\<rparr>)"
  have s5: "s_db s5 = ?db1" "s_mem s5 = s_mem s2" "s_sent s5 = s_sent s @ [R u]" by (simp_all add: s5_def tick sv a1_def na)
  define etx where "etx = row\<lparr>etx_InitialBroadcastAt := Some b, etx_BroadcastAt := Some b\<rparr>"
  have rowin: "row \<in> set (t_txes ?db1)"
  proof -
    have "t_txes ?db1 = t_txes (update_tx (etx_ID t) (startTx (Some m) None None) (s_db s))" unfolding update_tx_def by simp
    then show ?thesis using updated_rows [OF c T(1) refl] unfolding row_def by simp
  qed
  have fsm: "tx_fsm_ok t" by (rule constraints_fsm [OF c T(1)])
  have etx: "etx_Error etx = None" "etx_BroadcastAt etx \<noteq> None" "etx_InitialBroadcastAt etx \<noteq> None" "copy_of row etx" "etx_FromAddress etx = addr"
    using fsm T(3) addr by (simp_all add: etx_def row_def copy_of_def tx_fsm_ok_def etx_key_def)
  let ?db2 = "sentDb k x etx a1 ?db1"
  define s6 where "s6 = (tick w (s5\<lparr>s_db := ?db2\<rparr>))\<lparr>s_mem := (s_mem s5)(k \<mapsto> y2\<lparr>ks_NextNonce := m + 1\<rparr>)\<rparr>"
  have save: "saveAttempt w cfg etx a1 s5 = (None, s6)" unfolding s6_def s5(1) [symmetric]
    by (rule saveAttempt_commits [where t = row and k = k and x = x and y = y2])
      (use con alone rowin etx k x nx(4,5) na(3) in \<open>simp_all add: s5 row_def a1_def\<close>)
  have "handleOnce w cfg row a1 b s4 = (Handled None True, s6)"
    using handleOnce_accepted [of row w a1 s4 cfg b] send save plain unfolding s5_def etx_def by (simp add: row_def startTx_def)
  then have done1: "processNext w cfg (Suc f) addr s = Some (Continue, s6)"
    by (simp add: processNext_def throttle_def flight nx(1) na(1) sv(1) b_def)
  have db6: "s_db s6 = ?db2" by (simp add: s6_def tick)
  define g where "g = (\<lambda>r. broadcastTx (etx_Error etx) (etx_BroadcastAt etx) (etx_InitialBroadcastAt etx) (startTx (Some m) None None r))"
  have id: "etx_ID etx = etx_ID t" by (simp add: etx_def row_def)
  have rows: "t_txes (s_db s6) = map (\<lambda>r. if etx_ID r = etx_ID t then g r else r) (t_txes (s_db s))"
    unfolding db6 sentDb_def update_attempt_simps by (simp add: update_tx_def id g_def)
  have kept: "key_inv k (s_db s6) \<and> idle k (s_db s6)"
    using processNext_keeps [of w cfg "Suc f" k s Continue s6] done1 rely_alone [OF alone(1)] ki idle unfolding k by simp
  have keys: "t_keys (s_db s6) k = Some (x\<lparr>ks_NextNonce := m + 1\<rparr>)" unfolding db6 sentDb_def using x(2) by simp
  have hashes: "eta_Hash b = H u \<or> (\<exists>b' \<in> set (t_attempts (s_db s)). eta_Hash b = eta_Hash b')" if h: "b \<in> set (t_attempts (s_db s6))" for b
  proof -
    have "t_attempts (s_db s6) = map (\<lambda>b. if eta_ID b = eta_ID a1 then b\<lparr>eta_State := AttBroadcast\<rparr> else b) (t_attempts (s_db s) @ [a1])"
      unfolding db6 sentDb_def by (simp add: update_attempt_def a1_def)
    then obtain b0 where "b0 \<in> set (t_attempts (s_db s) @ [a1])" "b = (if eta_ID b0 = eta_ID a1 then b0\<lparr>eta_State := AttBroadcast\<rparr> else b0)"
      using h by (simp only: set_map) (elim imageE)
    then have "b0 = a1 \<or> b0 \<in> set (t_attempts (s_db s))" "eta_Hash b = eta_Hash b0" by auto
    then show ?thesis using na(5) unfolding a1_def by auto
  qed
  have fresh6: "H v \<noteq> eta_Hash b" if "b \<in> set (t_attempts (s_db s6))" "m + 1 \<le> uint (u_Nonce v)" for b v
  proof -
    have "u_Nonce v \<noteq> u_Nonce u" using that(2) un by auto
    then show ?thesis using hashes [OF that(1)] inj fresh that(2) by (metis order_trans zle_add1_eq_le less_add_one less_imp_le)
  qed
  have gt: "g t \<in> set (t_txes (s_db s6))" unfolding rows using imageI [OF T(1), of "\<lambda>r. if etx_ID r = etx_ID t then g r else r"] by simp
  have "drain_inv k H (m + 1) s6" unfolding drain_inv_def using kept keys x(3) fresh6 y by (simp add: s6_def nx)
  moreover have "s_sent s6 = s_sent s @ [R u]" by (simp add: s6_def tick s5)
  moreover have "txQueue k (s_db s6) = ts" by (rule txQueue_taken [OF c q rows]) (simp add: g_def)
  moreover have "sent_as t m (s_db s6)" unfolding sent_as_def by (rule bexI [OF _ gt]) (simp add: g_def)
  moreover have "r \<in> set (t_txes (s_db s6))" if "r \<in> set (t_txes (s_db s))" "etx_ID r \<noteq> etx_ID t" for r
    unfolding rows using imageI [OF that(1), of "\<lambda>r. if etx_ID r = etx_ID t then g r else r"] that(2) by simp
  ultimately show ?thesis using done1 na(7) by blast
qed

lemma drain_queue:
  assumes acc: "accepting w cfg addr limits H R" and k: "k = (c_chainID cfg, addr)"
  shows "txQueue k (s_db s) = q \<Longrightarrow> drain_inv k H m s \<Longrightarrow> 0 \<le> m \<Longrightarrow> m + int (length q) \<le> max_i64 \<Longrightarrow> \<forall>t \<in> set q. etx_TransmitChecker t = Null \<and> etx_GasLimit t \<in> limits \<Longrightarrow> length q < n \<Longrightarrow>
    \<exists>s1 us. processLoop w cfg (Suc f) n addr s = Some ((None, False), s1) \<and> drain_inv k H (m + int (length q)) s1 \<and> txQueue k (s_db s1) = [] \<and>
      s_sent s1 = s_sent s @ map R us \<and> length us = length q \<and>
      (\<forall>i < length q. unsigned_of (q ! i) (m + int i) (us ! i) \<and> sent_as (q ! i) (m + int i) (s_db s1)) \<and>
      (\<forall>r \<in> set (t_txes (s_db s)). etx_ID r \<notin> etx_ID ` set q \<longrightarrow> r \<in> set (t_txes (s_db s1)))"
proof (induction q arbitrary: s m n)
  case Nil
  then obtain n1 where n: "n = Suc n1" by (cases n) auto
  have alone: "w_others w = (\<lambda>_ db. db)" "\<forall>n. w_ok w n" and flight: "EvmMaxInFlightTransactions cfg = 0" using acc unfolding accepting_def by blast+
  have "findNextUnstarted k (s_db s) = None" unfolding findNextUnstarted_queue Nil by simp
  then have "processNext w cfg (Suc f) addr s = Some (Return (None, False), tick w s)"
    using alone flight by (simp add: processNext_def throttle_def nextUnstartedTransactionWithNonce_def query_def k)
  then show ?case using Nil alone(1) unfolding n by (intro exI [of _ "tick w s"] exI [of _ "[]"]) (simp add: tick_def drain_inv_def)
next
  case (Cons t ts)
  obtain n1 where n: "n = Suc n1" "length ts < n1" using Cons.prems(6) by (cases n) auto
  have m: "m < max_i64" "m + 1 + int (length ts) \<le> max_i64" "0 \<le> m + 1" using Cons.prems(3,4) by simp_all
  obtain s1 u where S: "processNext w cfg (Suc f) addr s = Some (Continue, s1)" "drain_inv k H (m + 1) s1" "s_sent s1 = s_sent s @ [R u]" "unsigned_of t m u"
    "txQueue k (s_db s1) = ts" "sent_as t m (s_db s1)" "\<forall>r \<in> set (t_txes (s_db s)). etx_ID r \<noteq> etx_ID t \<longrightarrow> r \<in> set (t_txes (s_db s1))"
    using drain_step [OF acc k Cons.prems(2,3) m(1) Cons.prems(1), of f] Cons.prems(5) by auto
  obtain s2 us where I: "processLoop w cfg (Suc f) n1 addr s1 = Some ((None, False), s2)" "drain_inv k H (m + 1 + int (length ts)) s2" "txQueue k (s_db s2) = []"
      "s_sent s2 = s_sent s1 @ map R us" "length us = length ts"
      "\<forall>i < length ts. unsigned_of (ts ! i) (m + 1 + int i) (us ! i) \<and> sent_as (ts ! i) (m + 1 + int i) (s_db s2)"
      "\<forall>r \<in> set (t_txes (s_db s1)). etx_ID r \<notin> etx_ID ` set ts \<longrightarrow> r \<in> set (t_txes (s_db s2))"
    using Cons.IH [OF S(5,2) m(3,2) _ n(2)] Cons.prems(5) by auto
  have c: "constraints (s_db s)" using Cons.prems(2) unfolding drain_inv_def key_inv_def by blast
  have "distinct (map etx_ID (txQueue k (s_db s)))"
  proof -
    have "distinct (map etx_ID (filter P (t_txes (s_db s))))" for P by (rule distinct_map_filter [OF constraints_distinct(1) [OF c]])
    then show ?thesis unfolding txQueue_def by (simp add: distinct_map)
  qed
  then have other: "etx_ID t \<notin> etx_ID ` set ts" unfolding Cons.prems(1) by simp
  have kept: "sent_as t m (s_db s2)"
  proof -
    obtain t' where "t' \<in> set (t_txes (s_db s1))" "etx_ID t' = etx_ID t \<and> etx_Nonce t' = Some m \<and> etx_State t' = TxUnconfirmed" using S(6) unfolding sent_as_def by (elim bexE)
    then show ?thesis using I(7) other unfolding sent_as_def by (intro bexI [of _ t']) simp_all
  qed
  have each: "unsigned_of ((t # ts) ! i) (m + int i) ((u # us) ! i) \<and> sent_as ((t # ts) ! i) (m + int i) (s_db s2)" if "i < length (t # ts)" for i
  proof (cases i)
    case 0
    then show ?thesis using S(4) kept by simp
  next
    case (Suc j)
    then have "j < length ts" using that by simp
    moreover have "m + 1 + int j = m + int i" using Suc by simp
    ultimately show ?thesis using I(6) Suc by (metis nth_Cons_Suc)
  qed
  have rest: "r \<in> set (t_txes (s_db s2))" if "r \<in> set (t_txes (s_db s))" "etx_ID r \<notin> etx_ID ` set (t # ts)" for r
    using S(7) I(7) that by simp
  have "processLoop w cfg (Suc f) n addr s = Some ((None, False), s2)" unfolding n(1) using S(1) I(1) by simp
  moreover have "m + int (length (t # ts)) = m + 1 + int (length ts)" by simp
  moreover have "s_sent s2 = s_sent s @ map R (u # us)" "length (u # us) = length (t # ts)" using I(4,5) S(3) by simp_all
  ultimately show ?case using I(2,3) each rest by (intro exI [of _ s2] exI [of _ "u # us"]) (simp only: simp_thms, blast)
qed

text \<open>C3: If the node takes every transaction, fees and signatures can be had and nothing is throttled, the whole queue of the key is worked off: its
  transactions are sent once each, in the order of value, creation and number, with the nonces from the next one of the key on, and stored as unconfirmed with
  these; nothing stays queued, and one attempt for each and one round more than the length of the queue are enough.\<close>
theorem queue_is_sent:
  assumes "accepting w cfg addr limits H R" and "drain_inv (c_chainID cfg, addr) H m s" and "0 \<le> m"
    and "\<forall>t. t \<in> set (t_txes (s_db s)) \<longrightarrow> etx_TransmitChecker t = Null \<and> etx_GasLimit t \<in> limits"
    and "q = txQueue (c_chainID cfg, addr) (s_db s)" and "m + int (length q) \<le> max_i64" and "length q < n"
  shows "\<exists>s1 us. processUnstartedEthTxs w cfg (Suc f) n addr s = Some ((None, False), s1) \<and> txQueue (c_chainID cfg, addr) (s_db s1) = [] \<and>
    nextNonce (c_chainID cfg, addr) (s_db s1) = Some (m + int (length q)) \<and> s_sent s1 = s_sent s @ map R us \<and> length us = length q \<and>
    (\<forall>i < length q. unsigned_of (q ! i) (m + int i) (us ! i) \<and> sent_as (q ! i) (m + int i) (s_db s1))"
proof -
  let ?k = "(c_chainID cfg, addr)"
  have alone: "w_others w = (\<lambda>_ db. db)" "\<forall>n. w_ok w n" using assms(1) unfolding accepting_def by blast+
  have inv: "key_inv ?k (s_db s)" "idle ?k (s_db s)" using assms(2) unfolding drain_inv_def by blast+
  have "findInProgress addr (s_db s) = None"
  proof (rule ccontr)
    assume "findInProgress addr (s_db s) \<noteq> None"
    then obtain t where "findInProgress (snd ?k) (s_db s) = Some t" by auto
    from find_in_progress [OF inv(1) this] show False using inv(2) unfolding working_def idle_def by blast
  qed
  then have any: "handleAnyInProgressEthTx w cfg (Suc f) addr s = Some ((None, False), tick w s)"
    using alone by (simp add: handleAnyInProgressEthTx_def getInProgressEthTx_def query_def)
  have tick: "s_db (tick w s) = s_db s" "s_sent (tick w s) = s_sent s" "drain_inv ?k H m (tick w s)" using alone(1) assms(2) by (simp_all add: tick_def drain_inv_def)
  have q: "txQueue ?k (s_db (tick w s)) = q" using assms(5) tick(1) by simp
  have plain: "\<forall>t \<in> set q. etx_TransmitChecker t = Null \<and> etx_GasLimit t \<in> limits" using assms(4) unfolding assms(5) txQueue_def by simp
  from drain_queue [OF assms(1) refl q tick(3) assms(3,6) plain assms(7), of f]
  obtain s1 us where L: "processLoop w cfg (Suc f) n addr (tick w s) = Some ((None, False), s1)" "drain_inv ?k H (m + int (length q)) s1" "txQueue ?k (s_db s1) = []"
      "s_sent s1 = s_sent s @ map R us" "length us = length q"
      "\<forall>i < length q. unsigned_of (q ! i) (m + int i) (us ! i) \<and> sent_as (q ! i) (m + int i) (s_db s1)" unfolding tick(2) by blast
  have "processUnstartedEthTxs w cfg (Suc f) n addr s = Some ((None, False), s1)" using any L(1) by (simp add: processUnstartedEthTxs_def)
  moreover have "nextNonce ?k (s_db s1) = Some (m + int (length q))" using L(2) unfolding drain_inv_def nextNonce_def by auto
  ultimately show ?thesis using L(3-6) by blast
qed

definition queue0 :: txm where
  "queue0 = (txm0 [(row0 TxUnstarted None 1)\<lparr>etx_Value := 5\<rparr>, (row0 TxUnstarted None 1)\<lparr>etx_ID := 2\<rparr>] [])\<lparr>s_db :=
     (s_db (txm0 [(row0 TxUnstarted None 1)\<lparr>etx_Value := 5\<rparr>, (row0 TxUnstarted None 1)\<lparr>etx_ID := 2\<rparr>] []))\<lparr>t_nextTx := 3\<rparr>\<rparr>"

theorem queue_is_sent_witness:
  "\<exists>s1. processUnstartedEthTxs world0 tx_cfg0 1 3 7 queue0 = Some ((None, False), s1) \<and> length (s_sent s1) = 2 \<and> nextNonce (1, 7) (s_db s1) = Some 5 \<and>
     sent_as ((row0 TxUnstarted None 1)\<lparr>etx_ID := 2\<rparr>) 3 (s_db s1)"
proof -
  have undo: "(ucast (ucast u :: 256 word) :: 64 word) = u" for u :: "64 word" by transfer simp
  have inj: "u = v" if "(ucast u :: 256 word) = ucast v" for u v :: "64 word" using arg_cong [OF that, of "ucast :: 256 word \<Rightarrow> 64 word"] unfolding undo .
  have acc: "accepting world0 tx_cfg0 7 {21000} (\<lambda>u. ucast (u_Nonce u)) (\<lambda>u. [ucast (u_Nonce u)])"
    unfolding accepting_def
  proof (intro conjI allI impI)
    show "fees_valid world0 tx_cfg0 7 {21000}"
      by (simp add: fees_valid_def fixed_GetLegacyGas_def capGasPrice_def getMaxGasPrice_def validateLegacyGas_def applyMultiplier_def trunc_div_def example_simps)
    show "(ucast (u_Nonce u) :: 256 word) \<noteq> ucast (u_Nonce v)" if "u_Nonce u \<noteq> u_Nonce v" for u v using inj that by blast
  qed (simp_all add: world0_def tx_cfg0_def)
  have inv: "drain_inv (1, 7) (\<lambda>u. ucast (u_Nonce u)) 3 queue0"
    by (simp add: drain_inv_def queue0_def idle_def db_simps example_simps)
  have q: "txQueue (1, 7) (s_db queue0) = [(row0 TxUnstarted None 1)\<lparr>etx_ID := 2\<rparr>, (row0 TxUnstarted None 1)\<lparr>etx_Value := 5\<rparr>]"
    by (simp add: txQueue_def queue0_def etx_key_def txm0_def row0_def)
  have c: "c_chainID tx_cfg0 = 1" by (simp add: tx_cfg0_def)
  have p: "\<forall>t. t \<in> set (t_txes (s_db queue0)) \<longrightarrow> etx_TransmitChecker t = Null \<and> etx_GasLimit t \<in> {21000}" by (simp add: queue0_def txm0_def row0_def)
  have e: "s_sent queue0 = []" by (simp add: queue0_def txm0_def)
  from queue_is_sent [OF acc, of 3 queue0 _ 3 0] show ?thesis using inv q c p e by (fastforce simp: max_i64_def)
qed

end
