(* ===== verification/Spec2Isabelle.thy ===== *)
theory Spec2Isabelle
  imports Block_History Head_Tracker Start_Stop Pool_Liveness Log_Broadcaster Pipeline_Runner Tx_Sending
begin

text \<open>
  The repository is a set of Solidity lending contracts; almost all of its code is the Chainlink node that the
  contracts' oracle library is vendored with, written in Go under \<^verbatim>\<open>src/lib/chainlink/core\<close>. This development models
  the parts of the node that keep it in step with an EVM chain and run its jobs. Paths below are relative to
  \<^verbatim>\<open>src/lib/chainlink/core\<close>.

  \<^bold>\<open>How the parts interact.\<close> A \<^emph>\<open>pool of RPC nodes\<close> selects the node each request goes to; every node runs a state
  machine that takes it in and out of the pool. The \<^emph>\<open>head tracker\<close> receives block heads from the pool, keeps the latest
  ones linked to chains, stores them, fetches missing ancestors, and hands every new longest chain to its subscribers. Two of
  them are modelled: the \<^emph>\<open>block history estimator\<close>, which turns the prices paid in recent blocks into the price of new
  transactions (with the \<^emph>\<open>price arithmetic\<close> of bumps and caps), and the \<^emph>\<open>log broadcaster\<close>, which keeps received logs in
  a \<^emph>\<open>log pool\<close>, knows from its \<^emph>\<open>registrations\<close> who waits for which logs and from its \<^emph>\<open>tables\<close> who has consumed them, and
  hands out logs that are deep enough. Jobs are \<^emph>\<open>pipelines\<close> of tasks, read from a graph and run by a \<^emph>\<open>scheduler\<close>.
  They create transactions, which the \<^emph>\<open>transaction manager\<close> queues, prices with an estimator, signs, numbers and broadcasts. Services
  pass items through \<^emph>\<open>mailboxes\<close> and are guarded by the \<^emph>\<open>life cycle\<close> \<^verbatim>\<open>StartStopOnce\<close>; \<^verbatim>\<open>MultiStart\<close> starts groups of them.

  \<^bold>\<open>Which theory models which code.\<close>
  \<^item> \<open>Go_Prelude\<close>: machine integers as words, \<^verbatim>\<open>int64\<close> as \<open>int\<close> with explicit wrap-around, maps, searching slices.
  \<^item> \<open>Gas_Bump\<close>: \<^verbatim>\<open>assets/wei.go\<close>, \<^verbatim>\<open>chains/evm/gas/models.go\<close>, \<^verbatim>\<open>fixed_price_estimator.go\<close>. Every operation is a function of the
    configuration; an error is \<open>Inl\<close>. Bumps are proved to raise the price and stay within the maxima.
  \<^item> \<open>Block_History\<close>: \<^verbatim>\<open>chains/evm/gas/block_history_estimator.go\<close>. State \<open>bhe\<close>; \<open>FetchBlocks\<close> and \<open>Recalculate\<close> and the price
    queries are functions on it, \<open>bhe_step\<close> their interleavings. Completeness of the history, bounds of the prices, the rank of
    the percentile, when connectivity errors are justified.
  \<^item> \<open>Head_Chain\<close>: \<^verbatim>\<open>chains/evm/types/models.go\<close> (heads) and \<^verbatim>\<open>headtracker/heads.go\<close>. Parent pointers are looked up in a store, so walking
    a chain is a partial function; chains of the collection are proved finite, and a malformed input is shown to diverge.
  \<^item> \<open>Head_Tracker\<close>: \<^verbatim>\<open>headtracker/orm.go\<close>, \<^verbatim>\<open>head_saver.go\<close>, \<^verbatim>\<open>head_tracker.go\<close>, \<^verbatim>\<open>head_broadcaster.go\<close>. State \<open>tracker\<close> and the table of
    heads.
  \<^item> \<open>Mailbox\<close>: \<^verbatim>\<open>utils/mailbox.go\<close>; the locale \<open>bounded_fifo\<close> is what its clients rely on.
  \<^item> \<open>Start_Stop\<close>: \<^verbatim>\<open>StartStopOnce\<close> of \<^verbatim>\<open>utils/utils.go\<close>, any number of goroutines as a step relation.
  \<^item> \<open>Multi_Service\<close>: \<^verbatim>\<open>services/multi.go\<close>.
  \<^item> \<open>Node_FSM\<close>: \<^verbatim>\<open>chains/evm/client/node.go\<close>, \<^verbatim>\<open>node_fsm.go\<close>, \<^verbatim>\<open>node_lifecycle.go\<close>: one loop of the life cycle per function, \<open>node_step\<close> any
    interleaving with \<^verbatim>\<open>Close\<close>.
  \<^item> \<open>Node_Pool\<close>: \<^verbatim>\<open>chains/evm/client/pool.go\<close>, \<^verbatim>\<open>node_selector_*.go\<close>, \<^verbatim>\<open>erroring_node.go\<close>; the locale \<open>node_selector\<close> is the contract of
    a selection strategy.
  \<^item> \<open>Pool_Liveness\<close>: the nodes of a pool side by side, reading \<^verbatim>\<open>nLiveNodes\<close> and acting on it as two steps: when the last live node is
    kept, and when not.
  \<^item> \<open>Log_Pool\<close>, \<open>Log_Registrations\<close>, \<open>Log_ORM\<close>, \<open>Log_Broadcaster\<close>: \<^verbatim>\<open>chains/evm/log/\<close> \<^verbatim>\<open>pool.go\<close>, \<^verbatim>\<open>registrations.go\<close>, \<^verbatim>\<open>orm.go\<close>, \<^verbatim>\<open>broadcaster.go\<close> with
    \<^verbatim>\<open>eth_subscriber.go\<close>. The locale \<open>min_heap\<close> is the contract of the priority queue, \<open>log_store\<close> that of the pool. The registrations
    are proved to implement a set of subscribers, sending to meet a declarative specification, and a new head to lose no log.
  \<^item> \<open>Pipeline_Vars\<close>, \<open>Pipeline_Graph\<close>: \<^verbatim>\<open>services/pipeline/\<close> \<^verbatim>\<open>variables.go\<close>, \<^verbatim>\<open>keypath.go\<close>, \<^verbatim>\<open>graph.go\<close>, \<^verbatim>\<open>task.base.go\<close>.
  \<^item> \<open>Pipeline_Scheduler\<close>: \<^verbatim>\<open>services/pipeline/scheduler.go\<close>. State \<open>scheduler\<close>; \<open>newScheduler\<close> and \<open>reconstructResults\<close> start a run or resume one,
    \<open>handleResult\<close> is the body of the loop of \<^verbatim>\<open>Run\<close>, \<open>sched_step\<close> any order of reports and retries. The invariant \<open>sched_inv\<close> gives that tasks are
    executed once their inputs are done, a potential that a run ends and completes every task.
  \<^item> \<open>Pipeline_Runner\<close>: \<^verbatim>\<open>services/pipeline/\<close> \<^verbatim>\<open>runner.go\<close>, \<^verbatim>\<open>orm.go\<close>, \<^verbatim>\<open>models.go\<close>. State \<open>run\<close> and the tables \<open>db\<close>; an execution is a list of events, its end is
    summed up by \<open>finishRun\<close> and stored by \<open>StoreRun\<close> or \<open>InsertFinishedRun\<close>, \<open>runner_Run\<close> is the loop with its restarts. A suspended run is
    proved to be resumable after its results were stored.
  \<^item> \<open>Tx_Store\<close>: the rows and tables of the transaction manager, \<^verbatim>\<open>chains/evm/txmgr/\<close> \<^verbatim>\<open>models.go\<close>, \<^verbatim>\<open>attempts.go\<close>, \<^verbatim>\<open>transmitchecker.go\<close>, parts of \<^verbatim>\<open>txmgr.go\<close>, with
    \<^verbatim>\<open>chains/evm/client/errors.go\<close> and the nonces of \<^verbatim>\<open>services/keystore\<close>. State \<open>txm\<close>; the surroundings are the record \<open>world\<close>; a query or a transaction
    lets the other users of the tables act. \<open>constraints\<close> are those of the SQL migrations, \<open>key_inv\<close> the invariant of a key, \<open>rely\<close> what it needs of the others.
  \<^item> \<open>Tx_Queue\<close>: \<^verbatim>\<open>txmgr.go\<close>, \<^verbatim>\<open>strategies.go\<close>, \<^verbatim>\<open>nonce_syncer.go\<close>: creating and pruning transactions, adopting the nonce of the chain.
  \<^item> \<open>Tx_Broadcaster\<close>: \<^verbatim>\<open>eth_broadcaster.go\<close>, from the queue to a transaction stored as sent or as fatally errored; the nonces stay consistent as long as
    the other users keep to \<open>rely\<close>, also when a run is cut off.
  \<^item> \<open>Tx_Sending\<close>: progress of the broadcaster. The locale \<open>fee_bumper\<close> is the contract of an estimator's bumps, met by \<open>Gas_Bump\<close> and \<open>Block_History\<close>.

  \<^bold>\<open>Conventions.\<close> A Go \<^verbatim>\<open>map\<close> is a map, or an association list where it is iterated, whose order stands for the arbitrary
  iteration order. A panic is a value: \<open>None\<close>, or \<open>Inl\<close> of a datatype that names it. What a database, an RPC node, a service or a
  third-party library answers is a parameter; laws they are relied on for are hypotheses of the theorems that
  use them. Contexts, timers and deadlines appear as the choice of what happens next. Logging and metrics are left out.

  \<^bold>\<open>Bounds and fuel.\<close> Loops that end are recursive functions with a measure, loops that may not end
  (walking parent pointers, sending and deleting logs of a pool, the batched backfill) are partial functions with \<open>None\<close> for
  divergence, and the theorems show that they return. Only the broadcaster has fuel, the number of attempts of a transaction and of
  rounds over the queue, because whether it ends is up to the node and the estimator: the theorems of \<open>Tx_Sending\<close> say how much is enough, and when none
  is, and a run that is cut off at some moment is shown to end (\<open>Tx_Broadcaster\<close>). The next nonces of keys are unbounded numbers, where the
  column would overflow at \<open>2 ^ 63\<close>. Heights are assumed below the end of the \<^verbatim>\<open>int64\<close> range where a loop counts
  past them.

  \<^bold>\<open>Findings.\<close> Several theorems show behaviour the code does not intend: a closed node that panics or is revived
  (\<open>Node_FSM\<close>), a pool whose dialling fails half-way (\<open>Node_Pool\<close>) or whose last two nodes leave at once (\<open>Pool_Liveness\<close>), a cyclic chain of heads (\<open>Head_Chain\<close>), the newest blocks being
  ignored by the connectivity check (\<open>Block_History\<close>), a failed backfill that is forgotten (\<open>Log_Broadcaster\<close>).
  Further, a task name with a dot, a restart after a crash that repeats a finished task (\<open>Pipeline_Scheduler\<close>), a pending run taken for a success and a
  restarted run that cannot be stored (\<open>Pipeline_Runner\<close>), a transaction in progress that
  is stranded or sent to another chain (\<open>Tx_Broadcaster\<close>) or sent for ever (\<open>Tx_Sending\<close>).

  \<^bold>\<open>Not modelled.\<close> The Solidity contracts and the vendored libraries; generated contract wrappers (\<^verbatim>\<open>gethwrappers\<close>); the web API, the
  command line, sessions, configuration and the database layer (I/O and glue); key stores and cryptography (third-party
  curves); the confirmer, resender and reaper of the transaction manager, the log poller, the keeper, VRF, OCR, flux monitor and
  the other job types; the other chains. The components listed in the manifest say what is left out of each modelled part.
\<close>

end
